(* ===== verification/Mvfs_Prelude.thy ===== *)
theory Mvfs_Prelude
  imports Main "HOL-Library.Word"
begin

text \<open>Shared vocabulary of the development: the widths of the C integer types
  on the 64 bit Linux targets of the module, bytes and NUL free strings, the
  Linux errno values the modelled code names, and list and word lemmas that several
  components use.\<close>

unbundle bit_operations_syntax

named_theorems errno_code
  \<open>values of the errno and status macros\<close>

type_synonym byte = "8 word"
type_synonym u16 = "16 word"
type_synonym u32 = "32 word"
type_synonym u64 = "64 word"

text \<open>A C string as the bytes in front of its terminating NUL.\<close>
type_synonym cstr = "byte list"

section \<open>Errno values of the Linux headers\<close>

abbreviation (input) "EPERM \<equiv> (1::int)"
abbreviation (input) "ENOENT \<equiv> (2::int)"
abbreviation (input) "ESRCH \<equiv> (3::int)"
abbreviation (input) "EIO \<equiv> (5::int)"
abbreviation (input) "ENXIO \<equiv> (6::int)"
abbreviation (input) "ENOMEM \<equiv> (12::int)"
abbreviation (input) "EACCES \<equiv> (13::int)"
abbreviation (input) "EFAULT \<equiv> (14::int)"
abbreviation (input) "EBUSY \<equiv> (16::int)"
abbreviation (input) "EEXIST \<equiv> (17::int)"
abbreviation (input) "EXDEV \<equiv> (18::int)"
abbreviation (input) "ENODEV \<equiv> (19::int)"
abbreviation (input) "ENOTDIR \<equiv> (20::int)"
abbreviation (input) "EISDIR \<equiv> (21::int)"
abbreviation (input) "EINVAL \<equiv> (22::int)"
abbreviation (input) "EFBIG \<equiv> (27::int)"
abbreviation (input) "ENOSPC \<equiv> (28::int)"
abbreviation (input) "EROFS \<equiv> (30::int)"
abbreviation (input) "EMLINK \<equiv> (31::int)"
abbreviation (input) "ERANGE \<equiv> (34::int)"
abbreviation (input) "ENAMETOOLONG \<equiv> (36::int)"
abbreviation (input) "ENOTEMPTY \<equiv> (39::int)"
abbreviation (input) "ELOOP \<equiv> (40::int)"
abbreviation (input) "EPFNOSUPPORT \<equiv> (96::int)"
abbreviation (input) "ESTALE \<equiv> (116::int)"
abbreviation (input) "EDQUOT \<equiv> (122::int)"
abbreviation (input) "ECANCELED \<equiv> (125::int)"

section \<open>Lists\<close>

lemma all_less_4: "(\<forall>k<4. P k) \<longleftrightarrow> P 0 \<and> P (Suc 0) \<and> P 2 \<and> P (3::nat)"
  by (simp add: eval_nat_numeral All_less_Suc conj_ac)

section \<open>Words and their big-endian bytes\<close>

definition be32 :: "u32 \<Rightarrow> byte list" where
  "be32 w = [ucast (drop_bit 24 w), ucast (drop_bit 16 w), ucast (drop_bit 8 w), ucast w]"

definition of_be32 :: "byte \<Rightarrow> byte \<Rightarrow> byte \<Rightarrow> byte \<Rightarrow> u32" where
  "of_be32 a b c d =
     push_bit 24 (ucast a) OR push_bit 16 (ucast b) OR push_bit 8 (ucast c) OR ucast d"

lemma length_be32 [simp]: "length (be32 w) = 4"
  by (simp add: be32_def)

lemma bit_byte_less: "bit (b :: byte) n \<Longrightarrow> n < 8"
  by (drule bit_imp_le_length) simp

lemma mask_byte: "(0xff :: 'a::len word) = mask 8"
  by (simp add: mask_eq_exp_minus_1)

lemma ucast_byte_mask [simp]: "(ucast (w AND mask 8 :: u32) :: byte) = ucast w"
  by (rule bit_word_eqI) (simp add: bit_simps)

lemma of_be32_be32 [simp]:
  "of_be32 (ucast (drop_bit 24 w)) (ucast (drop_bit 16 w)) (ucast (drop_bit 8 w)) (ucast w) = w"
proof (rule bit_word_eqI)
  fix n assume "n < LENGTH(32)"
  then show "bit (of_be32 (ucast (drop_bit 24 w)) (ucast (drop_bit 16 w)) (ucast (drop_bit 8 w))
      (ucast w)) n = bit w n"
    by (cases "n < 8"; cases "n < 16"; cases "n < 24") (auto simp: of_be32_def bit_simps)
qed

lemma of_be32_bytes [simp]:
  "ucast (drop_bit 24 (of_be32 a b c d)) = a" "ucast (drop_bit 16 (of_be32 a b c d)) = b"
  "ucast (drop_bit 8 (of_be32 a b c d)) = c" "ucast (of_be32 a b c d) = d"
  by (rule bit_word_eqI, auto simp: of_be32_def bit_simps dest: bit_byte_less)+

lemma be32_of_be32 [simp]: "be32 (of_be32 a b c d) = [a, b, c, d]"
  by (simp add: be32_def)

lemma be32_inj [simp]: "be32 v = be32 w \<longleftrightarrow> v = w"
  unfolding be32_def using of_be32_be32 [of v] of_be32_be32 [of w] by (simp, metis)

text \<open>The masked shift of a sign-extended byte is the byte in its place.\<close>
lemma scast_byte_mask: "(scast (b :: byte) :: u32) AND mask 8 = ucast b"
proof (rule bit_word_eqI)
  fix n
  show "bit ((scast b :: u32) AND mask 8) n = bit (ucast b :: u32) n"
    by (cases "n < 7"; cases "n = 7") (auto simp: bit_simps min_def dest: bit_byte_less)
qed

lemma byte_in_place:
  fixes b :: byte
  shows "push_bit 24 (scast b :: u32) AND 0xff000000 = push_bit 24 (ucast b)"
    and "push_bit 16 (scast b :: u32) AND 0x00ff0000 = push_bit 16 (ucast b)"
    and "push_bit 8 (scast b :: u32) AND 0x0000ff00 = push_bit 8 (ucast b)"
    and "(scast b :: u32) AND 0x000000ff = ucast b"
proof -
  have m: "(0xff000000::u32) = push_bit 24 (mask 8)" "(0x00ff0000::u32) = push_bit 16 (mask 8)"
    "(0x0000ff00::u32) = push_bit 8 (mask 8)" "(0x000000ff::u32) = mask 8"
    by (simp_all add: mask_eq_exp_minus_1 push_bit_eq_mult)
  show "push_bit 24 (scast b :: u32) AND 0xff000000 = push_bit 24 (ucast b)"
    "push_bit 16 (scast b :: u32) AND 0x00ff0000 = push_bit 16 (ucast b)"
    "push_bit 8 (scast b :: u32) AND 0x0000ff00 = push_bit 8 (ucast b)"
    "(scast b :: u32) AND 0x000000ff = ucast b"
    unfolding m push_bit_and [symmetric] scast_byte_mask by (rule refl)+
qed

end
