(* ===== verification/Credutl.thy ===== *)
theory Credutl
  imports Mvfs_Prelude
begin

text \<open>Identities: the encapsulated SIDs of credutl\_kernel.c (a Unix uid or gid in a
  canonical byte order), the wrappers of mvfs\_utils.c that know the nobody identity,
  the translation of the SIDs of a VOB object to native ids, and the credentials
  with their group list (mvfs\_mdki.h, \<open>mvfs_groupmember\<close>).\<close>

section \<open>SIDs\<close>

text \<open>\<open>char\<close> is signed on the targets; a field keeps the byte and the code's
  promotions sign-extend it.\<close>
record credutl_sid_t =
  sid_length :: byte
  sid_type :: byte
  sid_bytes :: "byte list"

definition CREDUTL_MAX_SID_LENGTH :: nat where "CREDUTL_MAX_SID_LENGTH = 32"

definition wf_sid :: "credutl_sid_t \<Rightarrow> bool" where
  "wf_sid s \<longleftrightarrow> length (sid_bytes s) = CREDUTL_MAX_SID_LENGTH"

definition CREDUTL_SID_TYPE_NOBODY :: byte where "CREDUTL_SID_TYPE_NOBODY = 0"
definition CREDUTL_SID_TYPE_DONTCARE :: byte where "CREDUTL_SID_TYPE_DONTCARE = 1"
definition CREDUTL_SID_TYPE_UNIX :: byte where "CREDUTL_SID_TYPE_UNIX = 2"

definition CREDUTL_SID_UNIX_UID :: byte where "CREDUTL_SID_UNIX_UID = 1"
definition CREDUTL_SID_UNIX_GID :: byte where "CREDUTL_SID_UNIX_GID = 2"

lemmas sid_consts = CREDUTL_MAX_SID_LENGTH_def CREDUTL_SID_TYPE_NOBODY_def
  CREDUTL_SID_TYPE_DONTCARE_def CREDUTL_SID_TYPE_UNIX_def CREDUTL_SID_UNIX_UID_def
  CREDUTL_SID_UNIX_GID_def

definition CREDUTL_SID_NOBODY :: credutl_sid_t where
  "CREDUTL_SID_NOBODY = \<lparr>sid_length = 2, sid_type = CREDUTL_SID_TYPE_NOBODY,
     sid_bytes = replicate CREDUTL_MAX_SID_LENGTH 0\<rparr>"

definition CREDUTL_SID_DONTCARE :: credutl_sid_t where
  "CREDUTL_SID_DONTCARE = \<lparr>sid_length = 2, sid_type = CREDUTL_SID_TYPE_DONTCARE,
     sid_bytes = replicate CREDUTL_MAX_SID_LENGTH 0\<rparr>"

definition KS_UID_NOBODY :: u32 where "KS_UID_NOBODY = 0xfffffffe"
definition KS_GID_NOBODY :: u32 where "KS_GID_NOBODY = 0xfffffffe"

definition CREDUTL_SID_IS_NOBODY :: "credutl_sid_t \<Rightarrow> bool" where
  "CREDUTL_SID_IS_NOBODY s \<longleftrightarrow> sid_type s = CREDUTL_SID_TYPE_NOBODY"

definition CREDUTL_SID_IS_DONTCARE :: "credutl_sid_t \<Rightarrow> bool" where
  "CREDUTL_SID_IS_DONTCARE s \<longleftrightarrow> sid_type s = CREDUTL_SID_TYPE_DONTCARE"

text \<open>\<open>sizeof(length) + sizeof(type)\<close>.\<close>
definition CREDUTL_SID_BASE_SIZE :: nat where "CREDUTL_SID_BASE_SIZE = 2"

section \<open>Unix ids in SIDs\<close>

text \<open>\<open>*s\<close> is a signed char promoted to int before it is shifted and masked.\<close>
definition get_int32 :: "byte list \<Rightarrow> u32" where
  "get_int32 s =
    (((push_bit 24 (scast (s ! 0) :: u32) AND 0xff000000)
      OR (push_bit 16 (scast (s ! 1) :: u32) AND 0x00ff0000))
      OR (push_bit 8 (scast (s ! 2) :: u32) AND 0x0000ff00))
      OR ((scast (s ! 3) :: u32) AND 0x000000ff)"

definition id_bytes :: "u32 \<Rightarrow> byte list" where
  "id_bytes i = [ucast (drop_bit 24 i AND 0xff), ucast (drop_bit 16 i AND 0xff),
     ucast (drop_bit 8 i AND 0xff), ucast (i AND 0xff)]"

text \<open>Only the first five bytes of the destination are written; the rest keeps what it held.\<close>
definition credutl_unix_id_to_sid :: "u32 \<Rightarrow> byte \<Rightarrow> credutl_sid_t \<Rightarrow> credutl_sid_t" where
  "credutl_unix_id_to_sid i unix_id_type sid =
     sid\<lparr>sid_type := CREDUTL_SID_TYPE_UNIX,
         sid_bytes := (sid_bytes sid)[0 := id_bytes i ! 0, 1 := id_bytes i ! 1,
            2 := id_bytes i ! 2, 3 := id_bytes i ! 3, 4 := unix_id_type],
         sid_length := of_nat (CREDUTL_SID_BASE_SIZE + 5)\<rparr>"

definition credutl_unix_uid_to_sid :: "u32 \<Rightarrow> credutl_sid_t \<Rightarrow> credutl_sid_t" where
  "credutl_unix_uid_to_sid uid sid = credutl_unix_id_to_sid uid CREDUTL_SID_UNIX_UID sid"

definition credutl_unix_gid_to_sid :: "u32 \<Rightarrow> credutl_sid_t \<Rightarrow> credutl_sid_t" where
  "credutl_unix_gid_to_sid gid sid = credutl_unix_id_to_sid gid CREDUTL_SID_UNIX_GID sid"

text \<open>The result type of both readers is \<open>u_long\<close>; the 32 bit id is zero-extended.\<close>
definition credutl_sid_to_unix_uid :: "credutl_sid_t \<Rightarrow> u64" where
  "credutl_sid_to_unix_uid sid =
    (let sp = sid_bytes sid; uid = get_int32 sp; unix_id_type = sp ! 4 in
     if unix_id_type \<noteq> CREDUTL_SID_UNIX_UID then ucast KS_UID_NOBODY
     else if sint (sid_length sid) \<noteq> int (5 + CREDUTL_SID_BASE_SIZE) then ucast KS_UID_NOBODY
     else ucast uid)"

definition credutl_sid_to_unix_gid :: "credutl_sid_t \<Rightarrow> u64" where
  "credutl_sid_to_unix_gid sid =
    (let sp = sid_bytes sid;
         gid = (push_bit 24 (scast (sp ! 0) :: u32) AND 0xff000000);
         gid = gid OR (push_bit 16 (scast (sp ! 1) :: u32) AND 0x00ff0000);
         gid = gid OR (push_bit 8 (scast (sp ! 2) :: u32) AND 0x0000ff00);
         gid = gid OR ((scast (sp ! 3) :: u32) AND 0x000000ff);
         unix_id_type = sp ! 4 in
     if unix_id_type \<noteq> CREDUTL_SID_UNIX_GID then ucast KS_GID_NOBODY
     else if sint (sid_length sid) \<noteq> int (5 + CREDUTL_SID_BASE_SIZE) then ucast KS_GID_NOBODY
     else ucast gid)"

text \<open>The bytes of a SID in memory; the compare of \<open>credutl_sid_eq\<close> reads the first
  \<open>length\<close> of them.  A length that is negative or larger than the structure makes the compare
  read past it, here \<open>None\<close>.  \<open>same\<close> is the pointer comparison.\<close>
definition sid_image :: "credutl_sid_t \<Rightarrow> byte list" where
  "sid_image s = sid_length s # sid_type s # sid_bytes s"

definition credutl_sid_eq :: "bool \<Rightarrow> credutl_sid_t \<Rightarrow> credutl_sid_t \<Rightarrow> bool option" where
  "credutl_sid_eq same s1 s2 =
    (if same then Some True
     else if sid_length s1 \<noteq> sid_length s2 then Some False
     else let n = sint (sid_length s1) in
       if n < 0 \<or> nat n > length (sid_image s1) then None
       else Some (take (nat n) (sid_image s1) = take (nat n) (sid_image s2)))"

section \<open>The wrappers with the nobody identity\<close>

definition mvfs_credutl_unix_uid_to_sid :: "u32 \<Rightarrow> credutl_sid_t \<Rightarrow> credutl_sid_t" where
  "mvfs_credutl_unix_uid_to_sid uid csid =
    (if uid = KS_UID_NOBODY then CREDUTL_SID_NOBODY else credutl_unix_uid_to_sid uid csid)"

definition mvfs_credutl_unix_gid_to_sid :: "u32 \<Rightarrow> credutl_sid_t \<Rightarrow> credutl_sid_t" where
  "mvfs_credutl_unix_gid_to_sid gid csid =
    (if gid = KS_GID_NOBODY then CREDUTL_SID_NOBODY else credutl_unix_gid_to_sid gid csid)"

text \<open>\<open>MVFS_CREDUTL_SIDS_TO_NATIVE_IDS\<close>: the user and group ids of an object from the
  SIDs of its attributes.  \<open>user_id\<close> and \<open>group_id\<close> are 32 bit, so the result is truncated.\<close>
definition sids_to_native_ids :: "credutl_sid_t \<Rightarrow> credutl_sid_t \<Rightarrow> u32 \<times> u32" where
  "sids_to_native_ids usid gsid =
    (if CREDUTL_SID_IS_NOBODY usid \<or> CREDUTL_SID_IS_DONTCARE usid then KS_UID_NOBODY
     else ucast (credutl_sid_to_unix_uid usid),
     if CREDUTL_SID_IS_NOBODY gsid \<or> CREDUTL_SID_IS_DONTCARE gsid then KS_GID_NOBODY
     else ucast (credutl_sid_to_unix_gid gsid))"

section \<open>Credentials\<close>

text \<open>\<open>vnode_cred_t\<close>: the trailing array holds \<open>cr_ngroups\<close> group ids.\<close>
record cred_t =
  cr_euid :: u32
  cr_egid :: u32
  cr_ruid :: u32
  cr_rgid :: u32
  cr_suid :: u32
  cr_sgid :: u32
  cr_fsuid :: u32
  cr_fsgid :: u32
  cr_ngroups :: nat
  cr_groups :: "u32 list"

definition wf_cred :: "cred_t \<Rightarrow> bool" where
  "wf_cred c \<longleftrightarrow> length (cr_groups c) = cr_ngroups c"

definition MDKI_CR_IS_ROOT :: "cred_t \<Rightarrow> bool" where
  "MDKI_CR_IS_ROOT c \<longleftrightarrow> cr_fsuid c = 0"

fun groupmember_scan :: "u64 \<Rightarrow> u32 list \<Rightarrow> bool" where
  "groupmember_scan vgid [] = False"
| "groupmember_scan vgid (g # gp) = (if vgid = ucast g then True else groupmember_scan vgid gp)"

definition mvfs_groupmember :: "u64 \<Rightarrow> cred_t \<Rightarrow> bool" where
  "mvfs_groupmember vgid cred = groupmember_scan vgid (take (cr_ngroups cred) (cr_groups cred))"

section \<open>Lemmas\<close>

lemma id_bytes_be32: "id_bytes i = be32 i"
  by (simp add: id_bytes_def be32_def mask_byte)

lemma get_int32_of_be32: "get_int32 s = of_be32 (s ! 0) (s ! 1) (s ! 2) (s ! 3)"
  by (simp add: get_int32_def of_be32_def byte_in_place or.assoc)

lemma get_int32_id_bytes:
  assumes "\<forall>k<4. s ! k = id_bytes i ! k"
  shows "get_int32 s = i"
  using assms by (simp add: all_less_4 get_int32_of_be32 id_bytes_be32 be32_def)

lemma gid_reader_get_int32:
  "credutl_sid_to_unix_gid sid =
    (if sid_bytes sid ! 4 \<noteq> CREDUTL_SID_UNIX_GID
        \<or> sint (sid_length sid) \<noteq> int (5 + CREDUTL_SID_BASE_SIZE)
     then ucast KS_GID_NOBODY else ucast (get_int32 (sid_bytes sid)))"
  by (simp add: credutl_sid_to_unix_gid_def get_int32_def Let_def)

lemma id_to_sid_fields [simp]:
  assumes "wf_sid sid"
  shows "sid_length (credutl_unix_id_to_sid i t sid) = 7"
    and "sid_type (credutl_unix_id_to_sid i t sid) = CREDUTL_SID_TYPE_UNIX"
    and "wf_sid (credutl_unix_id_to_sid i t sid)"
    and "sid_bytes (credutl_unix_id_to_sid i t sid) ! 4 = t"
    and "get_int32 (sid_bytes (credutl_unix_id_to_sid i t sid)) = i"
proof -
  show "get_int32 (sid_bytes (credutl_unix_id_to_sid i t sid)) = i"
    by (rule get_int32_id_bytes)
       (use assms in \<open>simp add: credutl_unix_id_to_sid_def wf_sid_def sid_consts all_less_4\<close>)
qed (use assms in \<open>simp_all add: credutl_unix_id_to_sid_def wf_sid_def sid_consts
       CREDUTL_SID_BASE_SIZE_def\<close>)

lemma wf_SID_NOBODY [simp]: "wf_sid CREDUTL_SID_NOBODY"
  by (simp add: wf_sid_def CREDUTL_SID_NOBODY_def)

lemma groupmember_scan_iff: "groupmember_scan vgid gs \<longleftrightarrow> vgid \<in> ucast ` set gs"
  by (induction gs) auto

lemma mvfs_groupmember_iff:
  "wf_cred c \<Longrightarrow> mvfs_groupmember vgid c \<longleftrightarrow> vgid \<in> ucast ` set (cr_groups c)"
  by (simp add: mvfs_groupmember_def wf_cred_def groupmember_scan_iff)

lemma ucast_up_down [simp]: "(ucast (ucast (a :: u32) :: u64) :: u32) = a"
  by (rule bit_word_eqI) (simp add: bit_simps)

lemma uid_reader_id_to_sid [simp]:
  assumes "wf_sid sid"
  shows "credutl_sid_to_unix_uid (credutl_unix_id_to_sid i t sid) =
      (if t = CREDUTL_SID_UNIX_UID then ucast i else ucast KS_UID_NOBODY)"
    and "credutl_sid_to_unix_gid (credutl_unix_id_to_sid i t sid) =
      (if t = CREDUTL_SID_UNIX_GID then ucast i else ucast KS_GID_NOBODY)"
  using assms by (simp_all add: credutl_sid_to_unix_uid_def gid_reader_get_int32
      CREDUTL_SID_BASE_SIZE_def)

lemma sid_image_id_to_sid:
  assumes "wf_sid sid"
  shows "take 7 (sid_image (credutl_unix_id_to_sid i t sid))
     = [7, CREDUTL_SID_TYPE_UNIX] @ be32 i @ [t]"
proof -
  have "length (sid_bytes sid) = 32" using assms by (simp add: wf_sid_def sid_consts)
  then obtain a b c d e r where "sid_bytes sid = a # b # c # d # e # r"
    by (auto simp: eval_nat_numeral length_Suc_conv)
  then show ?thesis
    by (simp add: sid_image_def credutl_unix_id_to_sid_def CREDUTL_SID_BASE_SIZE_def
        id_bytes_be32 be32_def eval_nat_numeral)
qed

lemma sid_eq_id_to_sid:
  assumes "wf_sid s" and "wf_sid s'"
  shows "credutl_sid_eq False (credutl_unix_id_to_sid i t s) (credutl_unix_id_to_sid j t' s')
    = Some (i = j \<and> t = t')"
proof -
  have "length (sid_image (credutl_unix_id_to_sid i t s)) = 34"
    using id_to_sid_fields(3) [OF assms(1), of i t]
    by (simp add: wf_sid_def sid_image_def sid_consts)
  then show ?thesis
    using assms by (simp add: credutl_sid_eq_def sid_image_id_to_sid)
qed

lemma native_ids_inverse:
  "wf_sid s \<Longrightarrow> wf_sid s' \<Longrightarrow>
    sids_to_native_ids (mvfs_credutl_unix_uid_to_sid u s) (mvfs_credutl_unix_gid_to_sid g s') = (u, g)"
  by (simp add: sids_to_native_ids_def mvfs_credutl_unix_uid_to_sid_def
      mvfs_credutl_unix_gid_to_sid_def credutl_unix_uid_to_sid_def credutl_unix_gid_to_sid_def
      CREDUTL_SID_IS_NOBODY_def CREDUTL_SID_IS_DONTCARE_def CREDUTL_SID_NOBODY_def sid_consts)

section \<open>Properties\<close>

text \<open>C31: a SID written from a uid reads back as that uid and one written from a gid as that
  gid, whatever the destination held before, and a SID of the one kind never yields an id
  to the reader of the other kind: it yields nobody.\<close>
theorem unix_sid_roundtrip:
  assumes "wf_sid sid"
  shows "credutl_sid_to_unix_uid (credutl_unix_uid_to_sid i sid) = ucast i
    \<and> credutl_sid_to_unix_gid (credutl_unix_gid_to_sid i sid) = ucast i
    \<and> credutl_sid_to_unix_gid (credutl_unix_uid_to_sid i sid) = ucast KS_GID_NOBODY
    \<and> credutl_sid_to_unix_uid (credutl_unix_gid_to_sid i sid) = ucast KS_UID_NOBODY"
  using assms
  by (simp add: credutl_unix_uid_to_sid_def credutl_unix_gid_to_sid_def sid_consts)

theorem unix_sid_roundtrip_witness:
  "credutl_sid_to_unix_uid (credutl_unix_uid_to_sid 0x8000ff01 CREDUTL_SID_NOBODY) = 0x8000ff01"
  using unix_sid_roundtrip [of CREDUTL_SID_NOBODY "0x8000ff01"] by simp

text \<open>The owner ids an object gets from the SIDs of its attributes are the ids the SIDs
  were made from, nobody included.\<close>
lemma native_ids_of_sids:
  assumes "wf_sid s" and "wf_sid s'"
  shows "sids_to_native_ids (mvfs_credutl_unix_uid_to_sid u s) (mvfs_credutl_unix_gid_to_sid g s')
    = (u, g)"
  using assms by (rule native_ids_inverse)

lemma native_ids_of_sids_witness:
  "sids_to_native_ids (mvfs_credutl_unix_uid_to_sid 0xfffffffe CREDUTL_SID_NOBODY)
     (mvfs_credutl_unix_gid_to_sid 100 CREDUTL_SID_NOBODY) = (0xfffffffe, 100)"
  using native_ids_of_sids [of CREDUTL_SID_NOBODY CREDUTL_SID_NOBODY "0xfffffffe" 100] by simp

text \<open>Two SIDs made from Unix ids compare equal exactly when they are of the same kind and
  made from the same id; the bytes behind the five the encoder writes never matter, and the
  compare stays inside the structures.\<close>
lemma unix_sid_eq_iff:
  assumes "wf_sid s" and "wf_sid s'"
  shows "credutl_sid_eq False (credutl_unix_uid_to_sid i s) (credutl_unix_uid_to_sid j s') = Some (i = j)
    \<and> credutl_sid_eq False (credutl_unix_gid_to_sid i s) (credutl_unix_gid_to_sid j s') = Some (i = j)
    \<and> credutl_sid_eq False (credutl_unix_uid_to_sid i s) (credutl_unix_gid_to_sid j s') = Some False"
  using assms
  by (simp add: credutl_unix_uid_to_sid_def credutl_unix_gid_to_sid_def sid_eq_id_to_sid sid_consts)

end
