(* ===== verification/Tbs_Errno.thy ===== *)
theory Tbs_Errno
  imports Mvfs_Prelude
begin

text \<open>The status codes of the ClearCase servers (tbs\_base.h) and their
  translation to and from Unix errno values (tbs\_errno.c).  Both C functions are
  a switch over an int; \<open>tbs_status_t\<close> is int as well.\<close>

section \<open>Status codes\<close>

type_synonym tbs_status_t = int

definition TBS_STBASE :: tbs_status_t where [errno_code]: "TBS_STBASE = 1000"
definition TBS_UNIXBASE :: tbs_status_t where [errno_code]: "TBS_UNIXBASE = TBS_STBASE + 50"
definition TBS_ST_SMBASE :: tbs_status_t where [errno_code]: "TBS_ST_SMBASE = TBS_STBASE + 100"

definition TBS_ST_OK :: tbs_status_t where [errno_code]: "TBS_ST_OK = 0"
definition TBS_ST_ERR :: tbs_status_t where [errno_code]: "TBS_ST_ERR = TBS_STBASE + 1"
definition TBS_ST_VIEW_NO_CFS_SET :: tbs_status_t
  where [errno_code]: "TBS_ST_VIEW_NO_CFS_SET = TBS_STBASE + 12"
definition TBS_ST_VIEW_STALE_DIR :: tbs_status_t
  where [errno_code]: "TBS_ST_VIEW_STALE_DIR = TBS_STBASE + 13"
definition TBS_ST_VIEW_NO_VER :: tbs_status_t
  where [errno_code]: "TBS_ST_VIEW_NO_VER = TBS_STBASE + 14"
definition TBS_ST_VIEW_UNKNOWN_VOB :: tbs_status_t
  where [errno_code]: "TBS_ST_VIEW_UNKNOWN_VOB = TBS_STBASE + 16"
definition TBS_ST_WRONG_VOB :: tbs_status_t
  where [errno_code]: "TBS_ST_WRONG_VOB = TBS_STBASE + 17"
definition TBS_ST_DB_AREA_LOCKED :: tbs_status_t
  where [errno_code]: "TBS_ST_DB_AREA_LOCKED = TBS_STBASE + 20"
definition TBS_ST_VIEW_NEEDS_RECOVERY :: tbs_status_t
  where [errno_code]: "TBS_ST_VIEW_NEEDS_RECOVERY = TBS_STBASE + 22"
definition TBS_ST_VIEW_NEEDS_REFORMAT :: tbs_status_t
  where [errno_code]: "TBS_ST_VIEW_NEEDS_REFORMAT = TBS_STBASE + 23"
definition TBS_ST_VOB_NEEDS_REFORMAT :: tbs_status_t
  where [errno_code]: "TBS_ST_VOB_NEEDS_REFORMAT = TBS_STBASE + 24"
definition TBS_ST_CONFIG_SPEC_ERR :: tbs_status_t
  where [errno_code]: "TBS_ST_CONFIG_SPEC_ERR = TBS_STBASE + 25"
definition TBS_ST_DB_TIMEOUT :: tbs_status_t
  where [errno_code]: "TBS_ST_DB_TIMEOUT = TBS_STBASE + 31"
definition TBS_ST_ABORT :: tbs_status_t where [errno_code]: "TBS_ST_ABORT = TBS_STBASE + 46"

definition TBS_ST_EPERM :: tbs_status_t where [errno_code]: "TBS_ST_EPERM = TBS_UNIXBASE + 1"
definition TBS_ST_ENOENT :: tbs_status_t where [errno_code]: "TBS_ST_ENOENT = TBS_UNIXBASE + 2"
definition TBS_ST_EIO :: tbs_status_t where [errno_code]: "TBS_ST_EIO = TBS_UNIXBASE + 5"
definition TBS_ST_ENXIO :: tbs_status_t where [errno_code]: "TBS_ST_ENXIO = TBS_UNIXBASE + 6"
definition TBS_ST_ENOMEM :: tbs_status_t where [errno_code]: "TBS_ST_ENOMEM = TBS_UNIXBASE + 12"
definition TBS_ST_EACCES :: tbs_status_t where [errno_code]: "TBS_ST_EACCES = TBS_UNIXBASE + 13"
definition TBS_ST_EEXIST :: tbs_status_t where [errno_code]: "TBS_ST_EEXIST = TBS_UNIXBASE + 17"
definition TBS_ST_EXDEV :: tbs_status_t where [errno_code]: "TBS_ST_EXDEV = TBS_UNIXBASE + 18"
definition TBS_ST_ENODEV :: tbs_status_t where [errno_code]: "TBS_ST_ENODEV = TBS_UNIXBASE + 19"
definition TBS_ST_ENOTDIR :: tbs_status_t where [errno_code]: "TBS_ST_ENOTDIR = TBS_UNIXBASE + 20"
definition TBS_ST_EISDIR :: tbs_status_t where [errno_code]: "TBS_ST_EISDIR = TBS_UNIXBASE + 21"
definition TBS_ST_EINVAL :: tbs_status_t where [errno_code]: "TBS_ST_EINVAL = TBS_UNIXBASE + 22"
definition TBS_ST_EFBIG :: tbs_status_t where [errno_code]: "TBS_ST_EFBIG = TBS_UNIXBASE + 27"
definition TBS_ST_ENOSPC :: tbs_status_t where [errno_code]: "TBS_ST_ENOSPC = TBS_UNIXBASE + 28"
definition TBS_ST_EROFS :: tbs_status_t where [errno_code]: "TBS_ST_EROFS = TBS_UNIXBASE + 30"
definition TBS_ST_EMLINK :: tbs_status_t where [errno_code]: "TBS_ST_EMLINK = TBS_UNIXBASE + 31"
definition TBS_ST_ELOOP :: tbs_status_t where [errno_code]: "TBS_ST_ELOOP = TBS_UNIXBASE + 33"
definition TBS_ST_ENAMETOOLONG :: tbs_status_t
  where [errno_code]: "TBS_ST_ENAMETOOLONG = TBS_UNIXBASE + 34"
definition TBS_ST_ENOTEMPTY :: tbs_status_t
  where [errno_code]: "TBS_ST_ENOTEMPTY = TBS_UNIXBASE + 35"
definition TBS_ST_EDQUOT :: tbs_status_t where [errno_code]: "TBS_ST_EDQUOT = TBS_UNIXBASE + 36"
definition TBS_ST_ESTALE :: tbs_status_t where [errno_code]: "TBS_ST_ESTALE = TBS_UNIXBASE + 37"
definition TBS_ST_EBUSY :: tbs_status_t where [errno_code]: "TBS_ST_EBUSY = TBS_UNIXBASE + 38"
definition TBS_ST_EPFNOSUPPORT :: tbs_status_t
  where [errno_code]: "TBS_ST_EPFNOSUPPORT = TBS_UNIXBASE + 39"

definition TBS_ST_SM_ENOMEM :: tbs_status_t
  where [errno_code]: "TBS_ST_SM_ENOMEM = TBS_ST_SMBASE + 2"
definition TBS_ST_SM_EINVAL :: tbs_status_t
  where [errno_code]: "TBS_ST_SM_EINVAL = TBS_ST_SMBASE + 4"
definition TBS_ST_SM_DB_ENOSPC :: tbs_status_t
  where [errno_code]: "TBS_ST_SM_DB_ENOSPC = TBS_ST_SMBASE + 7"

section \<open>The two translations\<close>

definition tbs_status2errno :: "tbs_status_t \<Rightarrow> int" where
  "tbs_status2errno status =
    (if status = TBS_ST_EPERM then EPERM
     else if status \<in> {TBS_ST_VIEW_NO_CFS_SET, TBS_ST_VIEW_NO_VER, TBS_ST_ENOENT} then ENOENT
     else if status \<in> {TBS_ST_VIEW_NEEDS_REFORMAT, TBS_ST_VOB_NEEDS_REFORMAT,
                      TBS_ST_CONFIG_SPEC_ERR, TBS_ST_DB_TIMEOUT, TBS_ST_EIO} then EIO
     else if status = TBS_ST_ENXIO then ENXIO
     else if status \<in> {TBS_ST_ENOMEM, TBS_ST_SM_ENOMEM} then ENOMEM
     else if status = TBS_ST_EACCES then EACCES
     else if status = TBS_ST_EEXIST then EEXIST
     else if status = TBS_ST_EXDEV then EXDEV
     else if status = TBS_ST_ENODEV then ENODEV
     else if status = TBS_ST_ENOTDIR then ENOTDIR
     else if status = TBS_ST_EISDIR then EISDIR
     else if status \<in> {TBS_ST_EINVAL, TBS_ST_SM_EINVAL} then EINVAL
     else if status = TBS_ST_EFBIG then EFBIG
     else if status \<in> {TBS_ST_ENOSPC, TBS_ST_SM_DB_ENOSPC} then ENOSPC
     else if status \<in> {TBS_ST_EROFS, TBS_ST_DB_AREA_LOCKED, TBS_ST_VIEW_NEEDS_RECOVERY} then EROFS
     else if status = TBS_ST_EMLINK then EMLINK
     else if status = TBS_ST_ELOOP then ELOOP
     else if status = TBS_ST_ENAMETOOLONG then ENAMETOOLONG
     else if status = TBS_ST_ENOTEMPTY then ENOTEMPTY
     else if status = TBS_ST_EDQUOT then EDQUOT
     else if status \<in> {TBS_ST_WRONG_VOB, TBS_ST_VIEW_STALE_DIR, TBS_ST_VIEW_UNKNOWN_VOB,
                      TBS_ST_ESTALE} then ESTALE
     else if status = TBS_ST_EBUSY then EBUSY
     else if status = TBS_ST_EPFNOSUPPORT then EPFNOSUPPORT
     else if status = TBS_ST_ABORT then ECANCELED
     else if status = -1 then EIO
     else if status = 0 then status
     else if status < TBS_STBASE then status
     else EIO)"

definition tbs_errno2status :: "int \<Rightarrow> tbs_status_t" where
  "tbs_errno2status st_errno =
    (if st_errno = EPERM then TBS_ST_EPERM
     else if st_errno = ENOENT then TBS_ST_ENOENT
     else if st_errno = EIO then TBS_ST_EIO
     else if st_errno = ENXIO then TBS_ST_ENXIO
     else if st_errno = ENOMEM then TBS_ST_ENOMEM
     else if st_errno = EACCES then TBS_ST_EACCES
     else if st_errno = EEXIST then TBS_ST_EEXIST
     else if st_errno = EXDEV then TBS_ST_EXDEV
     else if st_errno = ENODEV then TBS_ST_ENODEV
     else if st_errno = ENOTDIR then TBS_ST_ENOTDIR
     else if st_errno = EISDIR then TBS_ST_EISDIR
     else if st_errno = EINVAL then TBS_ST_EINVAL
     else if st_errno = EFBIG then TBS_ST_EFBIG
     else if st_errno = ENOSPC then TBS_ST_ENOSPC
     else if st_errno = EROFS then TBS_ST_EROFS
     else if st_errno = EMLINK then TBS_ST_EMLINK
     else if st_errno = ELOOP then TBS_ST_ELOOP
     else if st_errno = ENAMETOOLONG then TBS_ST_ENAMETOOLONG
     else if st_errno = ENOTEMPTY then TBS_ST_ENOTEMPTY
     else if st_errno = EDQUOT then TBS_ST_EDQUOT
     else if st_errno = ESTALE then TBS_ST_ESTALE
     else if st_errno = EBUSY then TBS_ST_EBUSY
     else if st_errno = EPFNOSUPPORT then TBS_ST_EPFNOSUPPORT
     else if st_errno = ECANCELED then TBS_ST_ABORT
     else TBS_ST_ERR)"

text \<open>The errno values that have a status code of their own.\<close>
definition portable_errnos :: "int set" where
  "portable_errnos = {EPERM, ENOENT, EIO, ENXIO, ENOMEM, EACCES, EEXIST, EXDEV, ENODEV, ENOTDIR,
     EISDIR, EINVAL, EFBIG, ENOSPC, EROFS, EMLINK, ELOOP, ENAMETOOLONG, ENOTEMPTY, EDQUOT,
     ESTALE, EBUSY, EPFNOSUPPORT, ECANCELED}"

section \<open>Properties\<close>

lemma tbs_errno2status_default:
  "e \<notin> portable_errnos \<Longrightarrow> tbs_errno2status e = TBS_ST_ERR"
  by (simp add: tbs_errno2status_def portable_errnos_def)

lemma tbs_status2errno_ERR [simp]: "tbs_status2errno TBS_ST_ERR = EIO"
  by (simp add: tbs_status2errno_def errno_code)

lemma tbs_status2errno_unix:
  "status < TBS_STBASE \<Longrightarrow> status \<noteq> -1 \<Longrightarrow> tbs_status2errno status = status"
  by (simp add: tbs_status2errno_def errno_code)

lemma tbs_status2errno_OK [simp]: "tbs_status2errno TBS_ST_OK = 0"
  by (simp add: tbs_status2errno_def errno_code)

text \<open>C32: an errno value survives the trip over the status codes exactly when
  it is one of the values with a code of its own, and every other value arrives as EIO.\<close>
theorem errno_status_roundtrip:
  "tbs_status2errno (tbs_errno2status e) = (if e \<in> portable_errnos then e else EIO)"
proof (cases "e \<in> portable_errnos")
  case True
  then consider "e = EPERM" | "e = ENOENT" | "e = EIO" | "e = ENXIO" | "e = ENOMEM" | "e = EACCES"
    | "e = EEXIST" | "e = EXDEV" | "e = ENODEV" | "e = ENOTDIR" | "e = EISDIR" | "e = EINVAL"
    | "e = EFBIG" | "e = ENOSPC" | "e = EROFS" | "e = EMLINK" | "e = ELOOP" | "e = ENAMETOOLONG"
    | "e = ENOTEMPTY" | "e = EDQUOT" | "e = ESTALE" | "e = EBUSY" | "e = EPFNOSUPPORT"
    | "e = ECANCELED"
    unfolding portable_errnos_def by blast
  then show ?thesis
    by cases (simp_all add: tbs_errno2status_def tbs_status2errno_def portable_errnos_def errno_code)
next
  case False
  then show ?thesis by (simp add: tbs_errno2status_default)
qed

text \<open>No failure is ever reported as success, and a status of the server ranges becomes
  one of the errno values with a code of its own.\<close>
lemma tbs_status2errno_faithful:
  "(tbs_status2errno status = 0 \<longleftrightarrow> status = TBS_ST_OK) \<and>
   (TBS_STBASE \<le> status \<longrightarrow> tbs_status2errno status \<in> portable_errnos)"
  by (auto simp: tbs_status2errno_def portable_errnos_def errno_code)

lemma tbs_status2errno_faithful_witness: "tbs_status2errno TBS_ST_ESTALE \<in> portable_errnos"
  using tbs_status2errno_faithful [of TBS_ST_ESTALE] by (simp add: errno_code)

end
