(* ===== verification/Tbs_Acl.thy ===== *)
theory Tbs_Acl
  imports Credutl Tbs_Errno
begin

text \<open>Access control lists (tbs\_acl\_kernel.h, tbs\_acl\_pvt\_kernel.h, tbs\_acl\_kernel.c): the cooked form
  the kernel keeps, its size, its release, and the permission check against
  the credentials of a process.\<close>

section \<open>Data\<close>

text \<open>The kind of an entry is an enum in C; it is read from the wire without a check, so every 32 bit
  value occurs.\<close>
type_synonym tbs_acl_id_kind_t = u32

definition TBS_ACL_ID_NONE :: tbs_acl_id_kind_t where "TBS_ACL_ID_NONE = 0"
definition TBS_ACL_ID_USER :: tbs_acl_id_kind_t where "TBS_ACL_ID_USER = 1"
definition TBS_ACL_ID_GROUP :: tbs_acl_id_kind_t where "TBS_ACL_ID_GROUP = 2"
definition TBS_ACL_ID_DOMAIN_ALL :: tbs_acl_id_kind_t where "TBS_ACL_ID_DOMAIN_ALL = 3"
definition TBS_ACL_ID_ALL :: tbs_acl_id_kind_t where "TBS_ACL_ID_ALL = 4"
definition TBS_ACL_ID_OWNER_USER :: tbs_acl_id_kind_t where "TBS_ACL_ID_OWNER_USER = 5"
definition TBS_ACL_ID_OWNER_GROUP :: tbs_acl_id_kind_t where "TBS_ACL_ID_OWNER_GROUP = 6"
definition TBS_ACL_ID_ROLE :: tbs_acl_id_kind_t where "TBS_ACL_ID_ROLE = 7"

lemmas acl_kinds = TBS_ACL_ID_NONE_def TBS_ACL_ID_USER_def TBS_ACL_ID_GROUP_def
  TBS_ACL_ID_DOMAIN_ALL_def TBS_ACL_ID_ALL_def TBS_ACL_ID_OWNER_USER_def
  TBS_ACL_ID_OWNER_GROUP_def TBS_ACL_ID_ROLE_def

type_synonym tbs_acl_permission_set_t = u64

text \<open>The principal is a union of a uid and a gid, both 32 bit.\<close>
type_synonym tbs_sid_acl_id_principal_t = u32

record tbs_sid_acl_id_t =
  si_kind :: tbs_acl_id_kind_t
  si_domain :: "cstr option"
  si_name :: "cstr option"
  si_principal_id :: tbs_sid_acl_id_principal_t

record tbs_acl_cooked_ent_t =
  ce_id :: tbs_sid_acl_id_t
  ce_perm_set :: tbs_acl_permission_set_t

text \<open>\<open>ci_ents\<close> is the array behind \<open>cooked_ents_p\<close>, as long as it was allocated.\<close>
record tbs_acl_cooked_info_t =
  ci_n_ents :: u32
  ci_limit :: u32
  ci_ents :: "tbs_acl_cooked_ent_t list"

record tbs_acl_entry_t =
  ae_kind :: tbs_acl_id_kind_t
  ae_domain :: "cstr option"
  ae_name :: "cstr option"
  ae_perm_set :: tbs_acl_permission_set_t

record tbs_acl_pvt_t =
  ap_n_ents :: nat
  ap_ents :: "tbs_acl_entry_t list"
  ap_cooked :: "tbs_acl_cooked_info_t option"

text \<open>\<open>tbs_sid_acl_h_t\<close> is a pointer to the above; \<open>None\<close> is the null handle.\<close>
type_synonym tbs_sid_acl_h_t = "tbs_acl_pvt_t option"

section \<open>Sizes\<close>

definition SAFE_STRLEN :: "cstr option \<Rightarrow> nat" where
  "SAFE_STRLEN s = (case s of None \<Rightarrow> 0 | Some cs \<Rightarrow> length cs)"

text \<open>\<open>sizeof(kind)\<close> is 4, \<open>sizeof(principal_id)\<close> 4 and \<open>sizeof(perm_set)\<close> 8.\<close>
definition tbs_sid_acl_id_size :: "tbs_sid_acl_id_t \<Rightarrow> nat" where
  "tbs_sid_acl_id_size i = 4 + SAFE_STRLEN (si_domain i) + SAFE_STRLEN (si_name i) + 4"

definition tbs_acl_id_size :: "tbs_acl_entry_t \<Rightarrow> nat" where
  "tbs_acl_id_size i = 4 + SAFE_STRLEN (ae_domain i) + SAFE_STRLEN (ae_name i)"

definition tbs_acl_cooked_ent_size :: "tbs_acl_cooked_ent_t \<Rightarrow> nat" where
  "tbs_acl_cooked_ent_size e = 8 + tbs_sid_acl_id_size (ce_id e)"

definition tbs_acl_entry_size :: "tbs_acl_entry_t \<Rightarrow> nat" where
  "tbs_acl_entry_size e = 8 + tbs_acl_id_size e"

text \<open>\<open>None\<close>: a null pointer or an index outside of an array.\<close>
definition tbs_sid_acl_size :: "tbs_acl_pvt_t \<Rightarrow> nat option" where
  "tbs_sid_acl_size aclh = (case ap_cooked aclh of
     None \<Rightarrow> None
   | Some cook \<Rightarrow>
       if unat (ci_n_ents cook) > length (ci_ents cook) \<or> ap_n_ents aclh > length (ap_ents aclh)
       then None
       else Some (sum_list (map tbs_acl_cooked_ent_size (take (unat (ci_n_ents cook)) (ci_ents cook)))
         + sum_list (map tbs_acl_entry_size (take (ap_n_ents aclh) (ap_ents aclh)))))"

section \<open>Release\<close>

text \<open>The blocks handed back to the allocator, with the size passed along where there is one.
  \<open>MVFS_FREE_ID\<close> is empty on Linux.\<close>
datatype acl_block = Str cstr | Ent_Array nat | Cooked_Info | Acl_Handle

definition SAFE_FREE_STR :: "cstr option \<Rightarrow> acl_block list" where
  "SAFE_FREE_STR s = (case s of None \<Rightarrow> [] | Some cs \<Rightarrow> [Str cs])"

definition free_ent_strings :: "tbs_acl_cooked_ent_t \<Rightarrow> acl_block list" where
  "free_ent_strings e = SAFE_FREE_STR (si_domain (ce_id e)) @ SAFE_FREE_STR (si_name (ce_id e))"

text \<open>The array is freed with the number of entries in use, not with the number it was
  allocated for.\<close>
definition tbs_acl_free_cooked_p :: "tbs_acl_cooked_info_t option \<Rightarrow> acl_block list" where
  "tbs_acl_free_cooked_p cooked = (case cooked of
     None \<Rightarrow> []
   | Some cip \<Rightarrow> concat (map free_ent_strings (take (unat (ci_n_ents cip)) (ci_ents cip)))
       @ [Ent_Array (unat (ci_n_ents cip)), Cooked_Info])"

definition tbs_sid_acl_free :: "tbs_sid_acl_h_t \<Rightarrow> tbs_sid_acl_h_t \<times> acl_block list" where
  "tbs_sid_acl_free aclh = (case aclh of
     None \<Rightarrow> (None, [])
   | Some acl \<Rightarrow> (None, tbs_acl_free_cooked_p (ap_cooked acl) @ [Acl_Handle]))"

section \<open>The permission check\<close>

definition tbs_acl_add_and_check_perms ::
  "tbs_acl_permission_set_t \<Rightarrow> tbs_acl_permission_set_t \<Rightarrow> tbs_acl_permission_set_t
    \<Rightarrow> bool \<times> tbs_acl_permission_set_t" where
  "tbs_acl_add_and_check_perms required_perms current_perms accumulated_perms =
    (let accumulated_perms = accumulated_perms OR current_perms in
     (required_perms AND accumulated_perms = required_perms, accumulated_perms))"

definition tbs_sid_acl_creds_is_user :: "cred_t \<Rightarrow> tbs_sid_acl_id_principal_t \<Rightarrow> bool" where
  "tbs_sid_acl_creds_is_user creds p \<longleftrightarrow> cr_fsuid creds = p"

definition tbs_sid_acl_creds_has_group :: "cred_t \<Rightarrow> tbs_sid_acl_id_principal_t \<Rightarrow> bool" where
  "tbs_sid_acl_creds_has_group creds p = mvfs_groupmember (ucast p) creds"

text \<open>Whether an entry applies: the switch of the loop, where \<open>continue\<close> is false.\<close>
definition ace_applies :: "cred_t \<Rightarrow> tbs_sid_acl_id_principal_t option
    \<Rightarrow> tbs_sid_acl_id_principal_t option \<Rightarrow> tbs_sid_acl_id_t \<Rightarrow> bool" where
  "ace_applies creds owner_usid owner_gsid i =
    (if si_kind i = TBS_ACL_ID_ALL then True
     else if si_kind i = TBS_ACL_ID_USER then tbs_sid_acl_creds_is_user creds (si_principal_id i)
     else if si_kind i = TBS_ACL_ID_GROUP then tbs_sid_acl_creds_has_group creds (si_principal_id i)
     else if si_kind i = TBS_ACL_ID_OWNER_USER then
       (case owner_usid of None \<Rightarrow> False | Some u \<Rightarrow> tbs_sid_acl_creds_is_user creds u)
     else if si_kind i = TBS_ACL_ID_OWNER_GROUP then
       (case owner_gsid of None \<Rightarrow> False | Some g \<Rightarrow> tbs_sid_acl_creds_has_group creds g)
     else False)"

fun acl_check_loop :: "tbs_acl_permission_set_t \<Rightarrow> cred_t \<Rightarrow> tbs_sid_acl_id_principal_t option
    \<Rightarrow> tbs_sid_acl_id_principal_t option \<Rightarrow> tbs_acl_permission_set_t
    \<Rightarrow> tbs_acl_cooked_ent_t list \<Rightarrow> bool" where
  "acl_check_loop requested creds ou og allowed [] = False"
| "acl_check_loop requested creds ou og allowed (e # es) =
    (if ace_applies creds ou og (ce_id e) then
       case tbs_acl_add_and_check_perms requested (ce_perm_set e) allowed of
         (granted, allowed) \<Rightarrow> if granted then True else acl_check_loop requested creds ou og allowed es
     else acl_check_loop requested creds ou og allowed es)"

definition tbs_sid_acl_check_permission_creds :: "tbs_acl_pvt_t \<Rightarrow> tbs_acl_permission_set_t \<Rightarrow> cred_t
    \<Rightarrow> tbs_sid_acl_id_principal_t option \<Rightarrow> tbs_sid_acl_id_principal_t option
    \<Rightarrow> (tbs_status_t \<times> bool) option" where
  "tbs_sid_acl_check_permission_creds aclh requested_perms creds owner_usid owner_gsid =
    (case ap_cooked aclh of
       None \<Rightarrow> None
     | Some cip \<Rightarrow>
         if unat (ci_n_ents cip) > length (ci_ents cip) then None
         else Some (TBS_ST_OK, acl_check_loop requested_perms creds owner_usid owner_gsid 0
                (take (unat (ci_n_ents cip)) (ci_ents cip))))"

text \<open>A handle with its array in place.\<close>
definition wf_acl :: "tbs_acl_pvt_t \<Rightarrow> bool" where
  "wf_acl acl \<longleftrightarrow> (case ap_cooked acl of None \<Rightarrow> False
     | Some cip \<Rightarrow> unat (ci_n_ents cip) \<le> length (ci_ents cip)) \<and> ap_n_ents acl \<le> length (ap_ents acl)"

definition acl_aces :: "tbs_acl_pvt_t \<Rightarrow> tbs_acl_cooked_ent_t list" where
  "acl_aces acl = (case ap_cooked acl of None \<Rightarrow> []
     | Some cip \<Rightarrow> take (unat (ci_n_ents cip)) (ci_ents cip))"

section \<open>What the check decides\<close>

text \<open>The specification: the permissions of the entries that apply, together.\<close>
definition applicable :: "cred_t \<Rightarrow> tbs_sid_acl_id_principal_t option
    \<Rightarrow> tbs_sid_acl_id_principal_t option \<Rightarrow> tbs_acl_cooked_ent_t list
    \<Rightarrow> tbs_acl_cooked_ent_t list" where
  "applicable creds ou og es = filter (\<lambda>e. ace_applies creds ou og (ce_id e)) es"

definition perms_of :: "tbs_acl_cooked_ent_t list \<Rightarrow> tbs_acl_permission_set_t" where
  "perms_of es = foldr (\<lambda>e p. ce_perm_set e OR p) es 0"

lemma perms_of_simps [simp]:
  "perms_of [] = 0" "perms_of (e # es) = ce_perm_set e OR perms_of es"
  by (simp_all add: perms_of_def)

lemma bit_perms_of: "bit (perms_of es) n \<longleftrightarrow> (\<exists>e\<in>set es. bit (ce_perm_set e) n)"
  by (induction es) (auto simp: bit_or_iff)

lemma and_eq_iff_bits: "(r :: u64) AND a = r \<longleftrightarrow> (\<forall>n. bit r n \<longrightarrow> bit a n)"
proof
  assume r: "r AND a = r"
  show "\<forall>n. bit r n \<longrightarrow> bit a n"
  proof (intro allI impI)
    fix n assume "bit r n"
    then have "bit (r AND a) n" using r by simp
    then show "bit a n" by (simp add: bit_and_iff)
  qed
next
  assume "\<forall>n. bit r n \<longrightarrow> bit a n"
  then show "r AND a = r" by (intro bit_word_eqI) (auto simp: bit_and_iff)
qed

lemma acl_check_loop_iff:
  "acl_check_loop r creds ou og allowed es \<longleftrightarrow>
    applicable creds ou og es \<noteq> [] \<and> r AND (allowed OR perms_of (applicable creds ou og es)) = r"
proof (induction es arbitrary: allowed)
  case Nil
  then show ?case by (simp add: applicable_def)
next
  case (Cons e es)
  show ?case
  proof (cases "ace_applies creds ou og (ce_id e)")
    case False
    then show ?thesis using Cons by (simp add: applicable_def)
  next
    case True
    let ?a = "allowed OR ce_perm_set e" and ?p = "perms_of (applicable creds ou og es)"
    have "r AND ?a = r \<or> (applicable creds ou og es \<noteq> [] \<and> r AND (?a OR ?p) = r)
        \<longleftrightarrow> r AND (?a OR ?p) = r"
      by (cases "applicable creds ou og es = []")
        (auto simp: and_eq_iff_bits bit_or_iff)
    then show ?thesis
      using True Cons by (auto simp: applicable_def tbs_acl_add_and_check_perms_def or.assoc Let_def)
  qed
qed

lemma check_permission_eq:
  assumes "wf_acl acl"
  shows "tbs_sid_acl_check_permission_creds acl r creds ou og =
    Some (TBS_ST_OK, acl_check_loop r creds ou og 0 (acl_aces acl))"
  using assms
  by (auto simp: wf_acl_def tbs_sid_acl_check_permission_creds_def acl_aces_def split: option.splits)

text \<open>C11: a request is granted exactly when some entry applies to the caller and the permissions
  of all the entries that apply together cover it.  In particular a list without an entry for the
  caller denies even the empty request.\<close>
theorem acl_permission_granted_iff:
  assumes "wf_acl acl"
  shows "tbs_sid_acl_check_permission_creds acl r creds ou og = Some (TBS_ST_OK,
    applicable creds ou og (acl_aces acl) \<noteq> [] \<and>
    (\<forall>n. bit r n \<longrightarrow> (\<exists>e\<in>set (acl_aces acl). ace_applies creds ou og (ce_id e) \<and> bit (ce_perm_set e) n)))"
  using assms
  by (auto simp: check_permission_eq acl_check_loop_iff and_eq_iff_bits bit_perms_of applicable_def)

text \<open>C30: the order of the entries and repeated entries do not matter: two lists with the same set
  of entries decide every request alike.\<close>
theorem acl_permission_order_independent:
  assumes "wf_acl acl" and "wf_acl acl'" and "set (acl_aces acl) = set (acl_aces acl')"
  shows "tbs_sid_acl_check_permission_creds acl r creds ou og
    = tbs_sid_acl_check_permission_creds acl' r creds ou og"
proof -
  have "applicable creds ou og (acl_aces acl) \<noteq> [] \<longleftrightarrow> applicable creds ou og (acl_aces acl') \<noteq> []"
    using assms(3) by (auto simp: applicable_def filter_empty_conv)
  then show ?thesis
    using assms
    by (simp add: check_permission_eq acl_check_loop_iff and_eq_iff_bits bit_perms_of applicable_def
        filter_empty_conv)
qed

text \<open>An access control list that lets the owner read and the group 10 write.\<close>
definition acl_example :: tbs_acl_pvt_t where
  "acl_example = \<lparr>ap_n_ents = 0, ap_ents = [], ap_cooked = Some \<lparr>ci_n_ents = 2, ci_limit = 2, ci_ents =
     [\<lparr>ce_id = \<lparr>si_kind = TBS_ACL_ID_OWNER_USER, si_domain = None, si_name = None, si_principal_id = 0\<rparr>,
        ce_perm_set = 0x4000\<rparr>,
      \<lparr>ce_id = \<lparr>si_kind = TBS_ACL_ID_GROUP, si_domain = None, si_name = None, si_principal_id = 10\<rparr>,
        ce_perm_set = 0x40\<rparr>]\<rparr>\<rparr>"

definition acl_example_swapped :: tbs_acl_pvt_t where
  "acl_example_swapped = acl_example\<lparr>ap_cooked := map_option (\<lambda>c. c\<lparr>ci_ents := rev (ci_ents c)\<rparr>)
     (ap_cooked acl_example)\<rparr>"

definition cred_example :: cred_t where
  "cred_example = \<lparr>cr_euid = 7, cr_egid = 1, cr_ruid = 7, cr_rgid = 1, cr_suid = 7, cr_sgid = 1,
     cr_fsuid = 7, cr_fsgid = 1, cr_ngroups = 1, cr_groups = [10]\<rparr>"

theorem acl_permission_granted_iff_witness:
  "tbs_sid_acl_check_permission_creds acl_example 0x4040 cred_example (Some 7) None
    = Some (TBS_ST_OK, True)"
proof -
  have wf: "wf_acl acl_example" by (simp add: wf_acl_def acl_example_def)
  have "applicable cred_example (Some 7) None (acl_aces acl_example) \<noteq> [] \<and>
    0x4040 AND perms_of (applicable cred_example (Some 7) None (acl_aces acl_example)) = 0x4040"
    by code_simp
  then show ?thesis
    using acl_permission_granted_iff [OF wf, of "0x4040" cred_example "Some 7" None]
    by (simp add: and_eq_iff_bits bit_perms_of applicable_def) blast
qed

theorem acl_permission_order_independent_witness:
  "tbs_sid_acl_check_permission_creds acl_example 0x4040 cred_example (Some 7) None
    = tbs_sid_acl_check_permission_creds acl_example_swapped 0x4040 cred_example (Some 7) None"
  by (rule acl_permission_order_independent)
    (simp_all add: wf_acl_def acl_aces_def acl_example_def acl_example_swapped_def insert_commute)

end
