(* ===== verification/Mvfs_Xdr.thy ===== *)
theory Mvfs_Xdr
  imports Mvfs_Prelude
begin

text \<open>The XDR stream of the kernel module and its primitive routines: the integral types of
  mvfs\_mdep\_linux.c, \<open>mdki_xdr_opaque\<close> of mvfs\_linux\_glue.c with the byte movers of
  mvfs\_linux\_only.h, and \<open>xdr_string\<close>.  A C routine \<open>bool_t xdr_T(XDR *, T *)\<close> becomes a
  function from a stream and an object to a result: TRUE with the object and the stream
  as the call left them, FALSE, or a fault where the C code would access
  memory outside of the buffer.  The locale \<open>xdr_codec\<close> is the contract of such a
  routine against the wire format it implements; each routine is an instance of it.\<close>

section \<open>Streams and results\<close>

datatype xdr_op = XDR_ENCODE | XDR_DECODE | XDR_FREE

text \<open>\<open>x_put\<close>: the bytes encoded so far; \<open>x_room\<close>: the bytes between \<open>x_data\<close> and
  \<open>x_limit\<close> when encoding; \<open>x_get\<close>: the bytes between \<open>x_data\<close> and \<open>x_limit\<close> when decoding.\<close>
record XDR =
  x_op :: xdr_op
  x_put :: "byte list"
  x_room :: nat
  x_get :: "byte list"

text \<open>\<open>XFault\<close>: an access outside of an object; \<open>XHang\<close>: the routine does not return.\<close>
datatype 'a xdr_res = XTrue 'a XDR | XFalse | XFault | XHang

type_synonym 'a xdrproc = "XDR \<Rightarrow> 'a \<Rightarrow> 'a xdr_res"

definition xput :: "XDR \<Rightarrow> byte list \<Rightarrow> XDR" where
  "xput x w = x\<lparr>x_put := x_put x @ w, x_room := x_room x - length w\<rparr>"

definition xgive :: "XDR \<Rightarrow> byte list \<Rightarrow> XDR" where
  "xgive x w = x\<lparr>x_get := w\<rparr>"

section \<open>Composition\<close>

text \<open>\<open>xdr_at p f upd\<close> is the call \<open>p(xdrs, &objp->f)\<close>; \<open>xdr_all\<close> is a chain of such calls with
  \<open>&&\<close>, which stops at the first that does not return TRUE.\<close>
definition xdr_at :: "'f xdrproc \<Rightarrow> ('a \<Rightarrow> 'f) \<Rightarrow> (('f \<Rightarrow> 'f) \<Rightarrow> 'a \<Rightarrow> 'a) \<Rightarrow> 'a xdrproc" where
  "xdr_at p f upd x obj = (case p x (f obj) of
       XTrue v x' \<Rightarrow> XTrue (upd (\<lambda>_. v) obj) x'
     | XFalse \<Rightarrow> XFalse | XFault \<Rightarrow> XFault | XHang \<Rightarrow> XHang)"

fun xdr_bind :: "'a xdr_res \<Rightarrow> ('a \<Rightarrow> XDR \<Rightarrow> 'b xdr_res) \<Rightarrow> 'b xdr_res" where
  "xdr_bind (XTrue v x) k = k v x"
| "xdr_bind XFalse k = XFalse"
| "xdr_bind XFault k = XFault"
| "xdr_bind XHang k = XHang"

fun xdr_all :: "'a xdrproc list \<Rightarrow> 'a xdrproc" where
  "xdr_all [] x obj = XTrue obj x"
| "xdr_all (p # ps) x obj = xdr_bind (p x obj) (\<lambda>obj x. xdr_all ps x obj)"

section \<open>Primitives\<close>

text \<open>\<open>MVFS_XDR_INTEGRAL_TYPE_OBJ\<close>: four big-endian bytes.  The macro does not check for space;
  without four bytes in the buffer it accesses memory behind it.  \<open>tr\<close> is the cast to
  \<open>u_int\<close> and \<open>ext\<close> the cast of the decoded 32 bits to the object's type.\<close>
definition xdr_integral :: "('a \<Rightarrow> u32) \<Rightarrow> (u32 \<Rightarrow> 'a) \<Rightarrow> 'a xdrproc" where
  "xdr_integral tr ext x obj =
    (case x_op x of
       XDR_ENCODE \<Rightarrow> if x_room x < 4 then XFault else XTrue obj (xput x (be32 (tr obj)))
     | XDR_DECODE \<Rightarrow> (case x_get x of
           a # b # c # d # rest \<Rightarrow> XTrue (ext (of_be32 a b c d)) (xgive x rest)
         | _ \<Rightarrow> XFault)
     | XDR_FREE \<Rightarrow> XFalse)"

definition xdr_u_long :: "u64 xdrproc" where "xdr_u_long = xdr_integral ucast ucast"
definition xdr_u_int :: "u32 xdrproc" where "xdr_u_int = xdr_integral (\<lambda>w. w) (\<lambda>w. w)"
definition xdr_u_short :: "u16 xdrproc" where "xdr_u_short = xdr_integral ucast ucast"
definition xdr_long :: "u64 xdrproc" where "xdr_long = xdr_integral ucast scast"
definition xdr_int :: "u32 xdrproc" where "xdr_int = xdr_integral (\<lambda>w. w) (\<lambda>w. w)"
definition xdr_bool :: "u32 xdrproc" where "xdr_bool = xdr_integral (\<lambda>w. w) (\<lambda>w. w)"
definition xdr_enum :: "u32 xdrproc" where "xdr_enum = xdr_integral (\<lambda>w. w) (\<lambda>w. w)"

definition mvfs_linux_xdr_getbytes :: "XDR \<Rightarrow> nat \<Rightarrow> byte list xdr_res" where
  "mvfs_linux_xdr_getbytes x cnt =
    (if cnt > length (x_get x) then XFalse
     else XTrue (take cnt (x_get x)) (xgive x (drop cnt (x_get x))))"

definition mvfs_linux_xdr_putbytes :: "XDR \<Rightarrow> byte list \<Rightarrow> unit xdr_res" where
  "mvfs_linux_xdr_putbytes x cp =
    (if length cp > x_room x then XFalse else XTrue () (xput x cp))"

definition xdr_padcount :: "nat \<Rightarrow> nat" where
  "xdr_padcount count = (if count mod 4 = 0 then 0 else 4 - count mod 4)"

text \<open>The object is the buffer \<open>charp\<close>; the routine moves its first \<open>count\<close> bytes.  A count beyond
  the buffer is an access outside of it.\<close>
definition mdki_xdr_opaque :: "nat \<Rightarrow> byte list xdrproc" where
  "mdki_xdr_opaque count x charp =
    (if count = 0 then XTrue charp x
     else let padcount = xdr_padcount count in
     case x_op x of
       XDR_DECODE \<Rightarrow>
         xdr_bind (mvfs_linux_xdr_getbytes x count) (\<lambda>bs x.
           if count > length charp then XFault
           else if padcount = 0 then XTrue (bs @ drop count charp) x
           else xdr_bind (mvfs_linux_xdr_getbytes x padcount) (\<lambda>ignorebytes x.
             XTrue (bs @ drop count charp) x))
     | XDR_ENCODE \<Rightarrow>
         if count > length charp then XFault
         else xdr_bind (mvfs_linux_xdr_putbytes x (take count charp)) (\<lambda>_ x.
           if padcount = 0 then XTrue charp x
           else xdr_bind (mvfs_linux_xdr_putbytes x (replicate padcount 0)) (\<lambda>_ x.
             XTrue charp x))
     | XDR_FREE \<Rightarrow> XFalse)"

text \<open>A string object is the C string in a caller's buffer of \<open>maxsize + 1\<close> bytes.  The length
  on the wire is compared with \<open>maxsize\<close> as an unsigned number; after a decode the
  buffer holds the bytes and a NUL, so the string is the bytes in front of the first NUL.\<close>
definition xdr_string :: "nat \<Rightarrow> cstr xdrproc" where
  "xdr_string maxsize x cp =
    (if x_op x = XDR_FREE then XFalse
     else xdr_bind (xdr_u_int x (of_nat (length cp))) (\<lambda>len x.
       if unat len > maxsize then XFalse
       else if x_op x = XDR_ENCODE then mdki_xdr_opaque (unat len) x cp
       else xdr_bind (mdki_xdr_opaque (unat len) x (replicate (maxsize + 1) 0)) (\<lambda>buf x.
         XTrue (takeWhile (\<lambda>c. c \<noteq> 0) (take (unat len) buf)) x)))"

section \<open>The contract of a routine\<close>

text \<open>\<open>ok\<close>: the objects the wire format can carry; \<open>wire\<close>: the bytes of an object;
  \<open>merge v v0\<close>: what decoding the bytes of \<open>v\<close> into an object \<open>v0\<close> leaves there.\<close>
locale xdr_codec =
  fixes p :: "'a xdrproc" and ok :: "'a \<Rightarrow> bool" and wire :: "'a \<Rightarrow> byte list"
    and merge :: "'a \<Rightarrow> 'a \<Rightarrow> 'a"
  assumes encode: "x_op x = XDR_ENCODE \<Longrightarrow> ok v \<Longrightarrow> length (wire v) \<le> x_room x \<Longrightarrow>
      p x v = XTrue v (xput x (wire v))"
    and decode: "x_op x = XDR_DECODE \<Longrightarrow> ok v \<Longrightarrow>
      p (xgive x (wire v @ r)) v0 = XTrue (merge v v0) (xgive x r)"
begin

text \<open>What a sender encodes into an empty buffer, a receiver decodes from it.\<close>
lemma roundtrip:
  assumes "ok v" and "length (wire v) \<le> n"
  shows "\<exists>x. p \<lparr>x_op = XDR_ENCODE, x_put = [], x_room = n, x_get = []\<rparr> v = XTrue v x \<and>
     p \<lparr>x_op = XDR_DECODE, x_put = [], x_room = 0, x_get = x_put x @ r\<rparr> v0
       = XTrue (merge v v0) \<lparr>x_op = XDR_DECODE, x_put = [], x_room = 0, x_get = r\<rparr>"
  using encode [of "\<lparr>x_op = XDR_ENCODE, x_put = [], x_room = n, x_get = []\<rparr>" v]
    decode [of "\<lparr>x_op = XDR_DECODE, x_put = [], x_room = 0, x_get = []\<rparr>" v r v0] assms
  by (simp add: xput_def xgive_def)

text \<open>The format is uniquely decodable: equal streams carry objects that decode alike.\<close>
lemma prefix_unique:
  assumes "ok v" and "ok w" and "wire v @ r = wire w @ s"
  shows "merge v u = merge w u \<and> r = s"
proof -
  let ?x = "\<lparr>x_op = XDR_DECODE, x_put = [], x_room = 0, x_get = []\<rparr>"
  have "XTrue (merge v u) (xgive ?x r) = XTrue (merge w u) (xgive ?x s)"
    using decode [of ?x v r u] decode [of ?x w s u] assms by simp
  then show ?thesis by (simp add: xgive_def)
qed

end

named_theorems xdr_rules \<open>encode and decode laws of the routines, in simp form\<close>

lemma xput_sel [simp]:
  "x_op (xput x w) = x_op x" "x_put (xput x w) = x_put x @ w"
  "x_room (xput x w) = x_room x - length w" "x_get (xput x w) = x_get x"
  by (simp_all add: xput_def)

lemma xgive_sel [simp]:
  "x_op (xgive x w) = x_op x" "x_put (xgive x w) = x_put x"
  "x_room (xgive x w) = x_room x" "x_get (xgive x w) = w"
  by (simp_all add: xgive_def)

lemma xput_xput [simp]: "xput (xput x w) w' = xput x (w @ w')"
  by (simp add: xput_def)

lemma xput_Nil [simp]: "xput x [] = x"
  by (simp add: xput_def)

lemma xgive_xgive [simp]: "xgive (xgive x w) w' = xgive x w'"
  by (simp add: xgive_def)

lemma xgive_x_get [simp]: "xgive x (x_get x) = x"
  by (simp add: xgive_def)

lemma xdr_bind_XTrueE:
  assumes "xdr_bind m k = XTrue v x"
  obtains u y where "m = XTrue u y" and "k u y = XTrue v x"
  using assms by (cases m) auto

lemma xdr_at_XTrue: "p x (f obj) = XTrue v x' \<Longrightarrow> xdr_at p f upd x obj = XTrue (upd (\<lambda>_. v) obj) x'"
  by (simp add: xdr_at_def)

section \<open>The primitives satisfy the contract\<close>

lemma integral_codec:
  assumes "\<And>v. ok v \<Longrightarrow> ext (tr v) = v"
  shows "xdr_codec (xdr_integral tr ext) ok (\<lambda>v. be32 (tr v)) (\<lambda>v v0. v)"
  using assms by unfold_locales (simp_all add: xdr_integral_def be32_def)

definition ok_u_long :: "u64 \<Rightarrow> bool" where "ok_u_long v \<longleftrightarrow> v < 0x100000000"
definition ok_long :: "u64 \<Rightarrow> bool" where "ok_long v \<longleftrightarrow> -0x80000000 \<le> sint v \<and> sint v < 0x80000000"

abbreviation wire32 :: "u32 \<Rightarrow> byte list" where "wire32 \<equiv> be32"
definition wire_long :: "u64 \<Rightarrow> byte list" where "wire_long v = be32 (ucast v)"
definition wire_u_short :: "u16 \<Rightarrow> byte list" where "wire_u_short v = be32 (ucast v)"

lemma length_wires [simp]: "length (wire_long v) = 4" "length (wire_u_short w) = 4"
  by (simp_all add: wire_long_def wire_u_short_def)

lemma u_long_survives: "ok_u_long v \<Longrightarrow> ucast (ucast v :: u32) = v"
proof -
  assume "ok_u_long v"
  then have "uint v < 2 ^ 32" by (simp add: ok_u_long_def word_less_def)
  then show ?thesis
    by (intro word_uint_eqI) (simp add: unsigned_ucast_eq unsigned_take_bit_eq take_bit_int_eq_self)
qed

lemma long_survives: "ok_long v \<Longrightarrow> scast (ucast v :: u32) = v"
proof -
  assume "ok_long v"
  then have "- (2 ^ 31) \<le> sint v" "sint v < 2 ^ 31" by (simp_all add: ok_long_def)
  then have "signed_take_bit 31 (sint v) = sint v"
    by (simp add: signed_take_bit_int_eq_self_iff)
  then have "sint (scast (ucast v :: u32) :: u64) = sint v"
    by (subst signed_scast_eq, subst signed_ucast_eq) (simp add: sint_uint [of v])
  then show ?thesis by (rule signed_word_eqI)
qed

lemma u_short_survives: "ucast (ucast (v :: u16) :: u32) = v"
  by (rule bit_word_eqI) (simp add: bit_simps)

interpretation u_long_c: xdr_codec xdr_u_long ok_u_long wire_long "\<lambda>v v0. v"
  unfolding xdr_u_long_def wire_long_def [abs_def]
  by (rule integral_codec) (rule u_long_survives)

interpretation long_c: xdr_codec xdr_long ok_long wire_long "\<lambda>v v0. v"
  unfolding xdr_long_def wire_long_def [abs_def]
  by (rule integral_codec) (rule long_survives)

interpretation u_short_c: xdr_codec xdr_u_short "\<lambda>_. True" wire_u_short "\<lambda>v v0. v"
  unfolding xdr_u_short_def wire_u_short_def [abs_def]
  by (rule integral_codec) (rule u_short_survives)

interpretation u_int_c: xdr_codec xdr_u_int "\<lambda>_. True" be32 "\<lambda>v v0. v"
  unfolding xdr_u_int_def by (rule integral_codec) (rule refl)

interpretation int_c: xdr_codec xdr_int "\<lambda>_. True" be32 "\<lambda>v v0. v"
  unfolding xdr_int_def by (rule integral_codec) (rule refl)

interpretation bool_c: xdr_codec xdr_bool "\<lambda>_. True" be32 "\<lambda>v v0. v"
  unfolding xdr_bool_def by (rule integral_codec) (rule refl)

interpretation enum_c: xdr_codec xdr_enum "\<lambda>_. True" be32 "\<lambda>v v0. v"
  unfolding xdr_enum_def by (rule integral_codec) (rule refl)

lemmas [xdr_rules] = u_long_c.encode u_long_c.decode long_c.encode long_c.decode
  u_short_c.encode u_short_c.decode u_int_c.encode u_int_c.decode int_c.encode int_c.decode
  bool_c.encode bool_c.decode enum_c.encode enum_c.decode

lemma xdr_integral_x_op: "xdr_integral tr ext x v = XTrue u y \<Longrightarrow> x_op y = x_op x"
  by (auto simp: xdr_integral_def split: xdr_op.splits if_splits list.splits)

lemma xdr_u_int_x_op: "xdr_u_int x v = XTrue u y \<Longrightarrow> x_op y = x_op x"
  unfolding xdr_u_int_def by (rule xdr_integral_x_op)

section \<open>Opaque data and strings\<close>

definition wire_opaque :: "byte list \<Rightarrow> byte list" where
  "wire_opaque bs = bs @ replicate (xdr_padcount (length bs)) 0"

lemma xdr_padcount_aligned: "4 dvd n + xdr_padcount n"
  unfolding xdr_padcount_def by presburger

lemma opaque_encode [xdr_rules]:
  assumes "x_op x = XDR_ENCODE" and "n \<le> length cp" and "length (wire_opaque (take n cp)) \<le> x_room x"
  shows "mdki_xdr_opaque n x cp = XTrue cp (xput x (wire_opaque (take n cp)))"
  using assms
  by (cases "n mod 4 = 0") (auto simp: mdki_xdr_opaque_def wire_opaque_def
      mvfs_linux_xdr_putbytes_def Let_def xdr_padcount_def min_absorb2)

lemma opaque_decode [xdr_rules]:
  assumes "x_op x = XDR_DECODE" and "length bs = n" and "n \<le> length cp"
  shows "mdki_xdr_opaque n (xgive x (wire_opaque bs @ r)) cp = XTrue (bs @ drop n cp) (xgive x r)"
  using assms
  by (auto simp: mdki_xdr_opaque_def wire_opaque_def mvfs_linux_xdr_getbytes_def Let_def
      xdr_padcount_def)

definition ok_string :: "nat \<Rightarrow> cstr \<Rightarrow> bool" where
  "ok_string maxsize s \<longleftrightarrow> 0 \<notin> set s \<and> length s \<le> maxsize"

definition wire_string :: "cstr \<Rightarrow> byte list" where
  "wire_string s = be32 (of_nat (length s)) @ wire_opaque s"

lemma string_codec:
  assumes "maxsize < 2 ^ 32"
  shows "xdr_codec (xdr_string maxsize) (ok_string maxsize) wire_string (\<lambda>v v0. v)"
proof
  fix x :: XDR and v v0 :: cstr and r
  assume ok: "ok_string maxsize v"
  then have len: "unat (of_nat (length v) :: u32) = length v"
    using assms by (simp add: ok_string_def unat_of_nat take_bit_nat_eq_self)
  have tw: "takeWhile (\<lambda>c. c \<noteq> 0) v = v"
    using ok by (auto simp: ok_string_def takeWhile_eq_all_conv)
  { assume "x_op x = XDR_ENCODE" and "length (wire_string v) \<le> x_room x"
    then show "xdr_string maxsize x v = XTrue v (xput x (wire_string v))"
      using ok by (simp add: xdr_string_def wire_string_def xdr_rules len ok_string_def) }
  { assume "x_op x = XDR_DECODE"
    then show "xdr_string maxsize (xgive x (wire_string v @ r)) v0 = XTrue v (xgive x r)"
      using ok tw by (simp add: xdr_string_def wire_string_def xdr_rules len ok_string_def) }
qed

text \<open>Whatever the bytes on the wire are, a decoded string fits the caller's buffer of
  \<open>maxsize + 1\<close> bytes and has no NUL inside.\<close>
lemma xdr_string_decode_bounded:
  assumes "x_op x = XDR_DECODE" and "xdr_string maxsize x v0 = XTrue v x'"
  shows "length v \<le> maxsize \<and> 0 \<notin> set v"
proof -
  obtain len y buf where "unat (len::u32) \<le> maxsize"
    and v: "v = takeWhile (\<lambda>c. c \<noteq> 0) (take (unat len) buf)"
    using assms unfolding xdr_string_def
    by (auto split: if_splits elim!: xdr_bind_XTrueE dest!: xdr_u_int_x_op
        simp: linorder_not_less)
  moreover have "length v \<le> unat len"
    unfolding v by (rule order_trans [OF length_takeWhile_le]) simp
  ultimately show ?thesis by (auto dest: set_takeWhileD)
qed

definition string_example :: "byte list" where
  "string_example = be32 3 @ [97, 0, 98, 0]"

lemma xdr_string_decode_bounded_witness: "length [97 :: byte] \<le> 8 \<and> 0 \<notin> set [97 :: byte]"
proof -
  have "xdr_string 8 \<lparr>x_op = XDR_DECODE, x_put = [], x_room = 0, x_get = string_example\<rparr> []
      = XTrue [97] \<lparr>x_op = XDR_DECODE, x_put = [], x_room = 0, x_get = []\<rparr>"
    by code_simp
  from xdr_string_decode_bounded [OF _ this] show ?thesis by simp
qed

end
