(* ===== verification/Xdr_Tbs.thy ===== *)
theory Xdr_Tbs
  imports Mvfs_Xdr Credutl
begin

text \<open>The XDR routines of xdr\_ks\_kernel.c and xdr\_tbs\_kernel.c: times, unique identifiers, SIDs and
  the database form of a file status, each with its wire format and its
  instance of the codec contract.\<close>

section \<open>Times\<close>

record timeval =
  tv_sec :: u64
  tv_usec :: u64

definition xdr_timeval :: "timeval xdrproc" where
  "xdr_timeval = xdr_all [xdr_at xdr_long tv_sec tv_sec_update, xdr_at xdr_long tv_usec tv_usec_update]"

definition ok_timeval :: "timeval \<Rightarrow> bool" where
  "ok_timeval t \<longleftrightarrow> ok_long (tv_sec t) \<and> ok_long (tv_usec t)"

definition wire_timeval :: "timeval \<Rightarrow> byte list" where
  "wire_timeval t = wire_long (tv_sec t) @ wire_long (tv_usec t)"

text \<open>\<open>time_t\<close> is a long and \<open>size_t\<close> an unsigned long on the 64 bit targets.\<close>
definition xdr_time_t :: "u64 xdrproc" where "xdr_time_t = xdr_long"
definition xdr_size_t :: "u64 xdrproc" where "xdr_size_t = xdr_u_long"
definition xdr_tbs_boolean_t :: "u32 xdrproc" where "xdr_tbs_boolean_t = xdr_int"
definition xdr_tbs_status_t :: "u32 xdrproc" where "xdr_tbs_status_t = xdr_int"
definition xdr_tbs_dbid_t :: "u64 xdrproc" where "xdr_tbs_dbid_t = xdr_u_long"
definition xdr_tbs_ftype_t :: "u64 xdrproc" where "xdr_tbs_ftype_t = xdr_u_long"
definition xdr_tbs_fmode_t :: "u64 xdrproc" where "xdr_tbs_fmode_t = xdr_u_long"
definition xdr_vob_mtype_t :: "u32 xdrproc" where "xdr_vob_mtype_t = xdr_enum"
definition xdr_ks_off32_t :: "u32 xdrproc" where "xdr_ks_off32_t = xdr_int"

lemmas xdr_scalar_defs [xdr_rules] = xdr_time_t_def xdr_size_t_def xdr_tbs_boolean_t_def
  xdr_tbs_status_t_def xdr_tbs_dbid_t_def xdr_tbs_ftype_t_def xdr_tbs_fmode_t_def
  xdr_vob_mtype_t_def xdr_ks_off32_t_def

section \<open>Unique identifiers\<close>

record tbs_uuid_t =
  time_low :: u32
  time_mid :: u16
  time_hi_and_version :: u16
  clock_seq_hi_and_reserved :: byte
  clock_seq_low :: byte
  uuid_node :: "byte list"

definition wf_uuid :: "tbs_uuid_t \<Rightarrow> bool" where
  "wf_uuid u \<longleftrightarrow> length (uuid_node u) = 6"

definition TBS_UUID_NULL :: tbs_uuid_t where
  "TBS_UUID_NULL = \<lparr>time_low = 0, time_mid = 0, time_hi_and_version = 0,
     clock_seq_hi_and_reserved = 0, clock_seq_low = 0, uuid_node = replicate 6 0\<rparr>"

text \<open>The packing into three words, step by step as in the code.\<close>
definition uuid_l1 :: "tbs_uuid_t \<Rightarrow> u32" where
  "uuid_l1 u = push_bit 16 (ucast (time_hi_and_version u)) OR ucast (time_mid u)"

definition uuid_l2 :: "tbs_uuid_t \<Rightarrow> u32" where
  "uuid_l2 u =
    (let l2 = ucast (clock_seq_hi_and_reserved u);
         l2 = push_bit 8 l2 OR ucast (clock_seq_low u);
         l2 = push_bit 8 l2 OR ucast (uuid_node u ! 0);
         l2 = push_bit 8 l2 OR ucast (uuid_node u ! 1) in l2)"

definition uuid_l3 :: "tbs_uuid_t \<Rightarrow> u32" where
  "uuid_l3 u = fold (\<lambda>i l3. push_bit 8 l3 OR ucast (uuid_node u ! i)) [2..<6] 0"

text \<open>The unpacking writes every field and all six bytes of the node.\<close>
definition uuid_unpack :: "u32 \<Rightarrow> u32 \<Rightarrow> u32 \<Rightarrow> u32 \<Rightarrow> tbs_uuid_t \<Rightarrow> tbs_uuid_t" where
  "uuid_unpack ulong_time_low l1 l2 l3 u =
     u\<lparr>time_low := ulong_time_low,
       time_mid := ucast (l1 AND 0xffff),
       time_hi_and_version := ucast (drop_bit 16 l1),
       clock_seq_low := ucast (drop_bit 8 (drop_bit 8 l2) AND 0xff),
       clock_seq_hi_and_reserved := ucast (drop_bit 8 (drop_bit 8 (drop_bit 8 l2)) AND 0xff),
       uuid_node := [ucast (drop_bit 8 l2 AND 0xff), ucast (l2 AND 0xff),
          ucast (drop_bit 8 (drop_bit 8 (drop_bit 8 l3)) AND 0xff),
          ucast (drop_bit 8 (drop_bit 8 l3) AND 0xff), ucast (drop_bit 8 l3 AND 0xff),
          ucast (l3 AND 0xff)]\<rparr>"

text \<open>On decode the words are uninitialised before they are read, here 0; a decode
  ignores the value it is given.\<close>
definition xdr_tbs_uuid_t :: "tbs_uuid_t xdrproc" where
  "xdr_tbs_uuid_t x obj =
    (if x_op x = XDR_FREE then XTrue obj x
     else let (l1, l2, l3) =
       (if x_op x = XDR_ENCODE then (uuid_l1 obj, uuid_l2 obj, uuid_l3 obj) else (0, 0, 0)) in
     xdr_bind (xdr_u_int x (time_low obj)) (\<lambda>ulong_time_low x.
     xdr_bind (xdr_u_int x l1) (\<lambda>l1 x.
     xdr_bind (xdr_u_int x l2) (\<lambda>l2 x.
     xdr_bind (xdr_u_int x l3) (\<lambda>l3 x.
       if x_op x = XDR_DECODE then XTrue (uuid_unpack ulong_time_low l1 l2 l3 obj) x
       else XTrue obj x)))))"

text \<open>The wire format: the sixteen bytes of the identifier, the high half of the time
  in front of the middle one.\<close>
definition wire_uuid :: "tbs_uuid_t \<Rightarrow> byte list" where
  "wire_uuid u = be32 (time_low u)
     @ [ucast (drop_bit 8 (time_hi_and_version u)), ucast (time_hi_and_version u),
        ucast (drop_bit 8 (time_mid u)), ucast (time_mid u),
        clock_seq_hi_and_reserved u, clock_seq_low u] @ uuid_node u"

type_synonym tbs_oid_t = tbs_uuid_t

definition xdr_tbs_oid_t :: "tbs_oid_t xdrproc" where "xdr_tbs_oid_t = xdr_tbs_uuid_t"

section \<open>SIDs\<close>

definition xdr_ks_char_t :: "byte xdrproc" where
  "xdr_ks_char_t x obj =
    (let i = (if x_op x = XDR_ENCODE then scast obj else 0) in
     xdr_bind (xdr_int x i) (\<lambda>i x.
       XTrue (if x_op x = XDR_DECODE then ucast i else obj) x))"

definition xdr_credutl_sid_t :: "credutl_sid_t xdrproc" where
  "xdr_credutl_sid_t x obj =
    (let obj = (if x_op x = XDR_DECODE
        then \<lparr>sid_length = 0, sid_type = 0, sid_bytes = replicate CREDUTL_MAX_SID_LENGTH 0\<rparr>
        else obj) in
     xdr_bind (xdr_at xdr_ks_char_t sid_length sid_length_update x obj) (\<lambda>obj x.
     if sid_length obj = 0 then XTrue obj x
     else xdr_bind (xdr_at xdr_ks_char_t sid_type sid_type_update x obj) (\<lambda>obj x.
     let length = (scast (sid_length obj) :: u32) - of_nat CREDUTL_SID_BASE_SIZE in
     if length > of_nat CREDUTL_MAX_SID_LENGTH then XFalse
     else xdr_at (mdki_xdr_opaque (unat length)) sid_bytes sid_bytes_update x obj)))"

definition wire_char :: "byte \<Rightarrow> byte list" where "wire_char b = be32 (scast b)"

text \<open>The number of bytes of a SID that travel.\<close>
definition sid_payload :: "credutl_sid_t \<Rightarrow> nat" where
  "sid_payload s = nat (sint (sid_length s) - 2)"

definition ok_sid :: "credutl_sid_t \<Rightarrow> bool" where
  "ok_sid s \<longleftrightarrow> wf_sid s \<and> (sid_length s = 0 \<or> 2 \<le> sint (sid_length s) \<and> sint (sid_length s) \<le> 34)"

definition wire_sid :: "credutl_sid_t \<Rightarrow> byte list" where
  "wire_sid s = wire_char (sid_length s) @
     (if sid_length s = 0 then []
      else wire_char (sid_type s) @ wire_opaque (take (sid_payload s) (sid_bytes s)))"

text \<open>What arrives: the bytes behind the payload are zero.\<close>
definition sid_canon :: "credutl_sid_t \<Rightarrow> credutl_sid_t" where
  "sid_canon s =
    (if sid_length s = 0
     then \<lparr>sid_length = 0, sid_type = 0, sid_bytes = replicate CREDUTL_MAX_SID_LENGTH 0\<rparr>
     else s\<lparr>sid_bytes := take (sid_payload s) (sid_bytes s)
        @ replicate (CREDUTL_MAX_SID_LENGTH - sid_payload s) 0\<rparr>)"

section \<open>File status\<close>

record tbs_fstat_db_t =
  fs_type :: u64
  fs_mode :: u64
  fs_nlink :: u64
  fs_flags :: u64
  fs_usid :: credutl_sid_t
  fs_gsid :: credutl_sid_t
  fs_size :: u64
  fs_nodeid :: u64
  fs_xtime :: timeval
  fs_atime :: timeval
  fs_mtime :: timeval
  fs_ctime :: timeval

definition KS_LLONG_HIGH :: "u64 \<Rightarrow> u32" where "KS_LLONG_HIGH llong = ucast (drop_bit 32 llong)"
definition KS_LLONG_LOW :: "u64 \<Rightarrow> u32" where "KS_LLONG_LOW llong = ucast llong"

text \<open>The high half is signed in the file status and unsigned in the settable attributes; the
  sign extension is shifted out.\<close>
definition KS_LLONG_COMBINE :: "u32 \<Rightarrow> u32 \<Rightarrow> u64" where
  "KS_LLONG_COMBINE lhigh llow = push_bit 32 (scast lhigh) OR ucast llow"

definition KS_ULLONG_COMBINE :: "u32 \<Rightarrow> u32 \<Rightarrow> u64" where
  "KS_ULLONG_COMBINE ulhigh ullow = push_bit 32 (ucast ulhigh) OR ucast ullow"

definition xdr_tbs_fstat_db_t :: "tbs_fstat_db_t xdrproc" where
  "xdr_tbs_fstat_db_t x obj =
    (let size_high = (if x_op x = XDR_ENCODE then KS_LLONG_HIGH (fs_size obj) else 0);
         size_low = (if x_op x = XDR_ENCODE then KS_LLONG_LOW (fs_size obj) else 0) in
     xdr_bind (xdr_all [xdr_at xdr_tbs_ftype_t fs_type fs_type_update,
                        xdr_at xdr_tbs_fmode_t fs_mode fs_mode_update,
                        xdr_at xdr_u_long fs_nlink fs_nlink_update,
                        xdr_at xdr_u_long fs_flags fs_flags_update,
                        xdr_at xdr_credutl_sid_t fs_usid fs_usid_update,
                        xdr_at xdr_credutl_sid_t fs_gsid fs_gsid_update] x obj) (\<lambda>obj x.
     xdr_bind (xdr_u_int x size_low) (\<lambda>size_low x.
     xdr_bind (xdr_int x size_high) (\<lambda>size_high x.
     xdr_bind (xdr_all [xdr_at xdr_u_long fs_nodeid fs_nodeid_update,
                        xdr_at xdr_timeval fs_xtime fs_xtime_update,
                        xdr_at xdr_timeval fs_atime fs_atime_update,
                        xdr_at xdr_timeval fs_mtime fs_mtime_update,
                        xdr_at xdr_timeval fs_ctime fs_ctime_update] x obj) (\<lambda>obj x.
       XTrue (if x_op x = XDR_DECODE then obj\<lparr>fs_size := KS_LLONG_COMBINE size_high size_low\<rparr>
              else obj) x)))))"

definition ok_fstat_db :: "tbs_fstat_db_t \<Rightarrow> bool" where
  "ok_fstat_db s \<longleftrightarrow> ok_u_long (fs_type s) \<and> ok_u_long (fs_mode s) \<and> ok_u_long (fs_nlink s) \<and>
     ok_u_long (fs_flags s) \<and> ok_sid (fs_usid s) \<and> ok_sid (fs_gsid s) \<and> ok_u_long (fs_nodeid s) \<and>
     ok_timeval (fs_xtime s) \<and> ok_timeval (fs_atime s) \<and> ok_timeval (fs_mtime s) \<and>
     ok_timeval (fs_ctime s)"

definition wire_fstat_db :: "tbs_fstat_db_t \<Rightarrow> byte list" where
  "wire_fstat_db s = wire_long (fs_type s) @ wire_long (fs_mode s) @ wire_long (fs_nlink s) @
     wire_long (fs_flags s) @ wire_sid (fs_usid s) @ wire_sid (fs_gsid s) @
     be32 (KS_LLONG_LOW (fs_size s)) @ be32 (KS_LLONG_HIGH (fs_size s)) @ wire_long (fs_nodeid s) @
     wire_timeval (fs_xtime s) @ wire_timeval (fs_atime s) @ wire_timeval (fs_mtime s) @
     wire_timeval (fs_ctime s)"

definition fstat_canon :: "tbs_fstat_db_t \<Rightarrow> tbs_fstat_db_t" where
  "fstat_canon s = s\<lparr>fs_usid := sid_canon (fs_usid s), fs_gsid := sid_canon (fs_gsid s)\<rparr>"

section \<open>The routines satisfy the contract\<close>

interpretation timeval_c: xdr_codec xdr_timeval ok_timeval wire_timeval "\<lambda>v v0. v"
  by unfold_locales
    (simp_all add: xdr_timeval_def wire_timeval_def ok_timeval_def xdr_at_def xdr_rules)

lemmas [xdr_rules] = timeval_c.encode timeval_c.decode

lemma length_wire_timeval [simp]: "length (wire_timeval t) = 8"
  by (simp add: wire_timeval_def)

lemma bit_u16_less: "bit (w :: u16) n \<Longrightarrow> n < 16"
  by (drule bit_imp_le_length) simp

lemma be32_uuid_l1:
  "be32 (uuid_l1 u) = [ucast (drop_bit 8 (time_hi_and_version u)), ucast (time_hi_and_version u),
     ucast (drop_bit 8 (time_mid u)), ucast (time_mid u)]"
  unfolding be32_def uuid_l1_def list.inject
  by (intro conjI; (rule bit_word_eqI)?) (auto simp: bit_simps dest: bit_u16_less)

lemma uuid_l2_of_be32:
  "uuid_l2 u = of_be32 (clock_seq_hi_and_reserved u) (clock_seq_low u) (uuid_node u ! 0) (uuid_node u ! 1)"
  by (simp add: uuid_l2_def of_be32_def Let_def push_bit_or or.assoc)

lemma uuid_l3_of_be32:
  "uuid_l3 u = of_be32 (uuid_node u ! 2) (uuid_node u ! 3) (uuid_node u ! 4) (uuid_node u ! 5)"
  by (simp add: uuid_l3_def of_be32_def push_bit_or or.assoc upt_rec)

lemma uuid_l1_halves:
  "ucast (uuid_l1 u AND 0xffff) = time_mid u" "ucast (drop_bit 16 (uuid_l1 u)) = time_hi_and_version u"
proof -
  have m: "(0xffff :: u32) = mask 16" by (simp add: mask_eq_exp_minus_1)
  show "ucast (uuid_l1 u AND 0xffff) = time_mid u"
    unfolding m by (rule bit_word_eqI) (auto simp: uuid_l1_def bit_simps)
  show "ucast (drop_bit 16 (uuid_l1 u)) = time_hi_and_version u"
    by (rule bit_word_eqI) (auto simp: uuid_l1_def bit_simps dest: bit_u16_less)
qed

lemma uuid_node_cases:
  assumes "wf_uuid u"
  obtains a b c d e f where "uuid_node u = [a, b, c, d, e, f]"
  using assms by (auto simp: wf_uuid_def eval_nat_numeral length_Suc_conv)

lemma uuid_unpack_pack:
  assumes "wf_uuid u"
  shows "uuid_unpack (time_low u) (uuid_l1 u) (uuid_l2 u) (uuid_l3 u) u0 = u"
  using assms
  by (rule uuid_node_cases)
    (simp add: uuid_unpack_def uuid_l1_halves uuid_l2_of_be32 uuid_l3_of_be32 mask_byte
      drop_bit_drop_bit)

lemma wire_uuid_words:
  assumes "wf_uuid u"
  shows "wire_uuid u = be32 (time_low u) @ be32 (uuid_l1 u) @ be32 (uuid_l2 u) @ be32 (uuid_l3 u)"
  using assms
  by (rule uuid_node_cases)
    (simp add: wire_uuid_def be32_uuid_l1 uuid_l2_of_be32 uuid_l3_of_be32)

interpretation uuid_c: xdr_codec xdr_tbs_uuid_t wf_uuid wire_uuid "\<lambda>v v0. v"
  by unfold_locales
    (simp_all add: xdr_tbs_uuid_t_def wire_uuid_words uuid_unpack_pack xdr_rules)

lemmas [xdr_rules] = uuid_c.encode uuid_c.decode xdr_tbs_oid_t_def

lemma length_wire_uuid [simp]: "wf_uuid u \<Longrightarrow> length (wire_uuid u) = 16"
  by (simp add: wire_uuid_words)

lemma ucast_scast_byte [simp]: "ucast (scast (b :: byte) :: u32) = b"
proof (rule bit_word_eqI)
  fix n assume "n < LENGTH(8)"
  then show "bit (ucast (scast b :: u32) :: byte) n = bit b n"
    by (cases "n = 7") (auto simp: bit_simps min_def)
qed

interpretation char_c: xdr_codec xdr_ks_char_t "\<lambda>_. True" wire_char "\<lambda>v v0. v"
  by unfold_locales (simp_all add: xdr_ks_char_t_def wire_char_def xdr_rules)

lemma length_wire_char [simp]: "length (wire_char b) = 4"
  by (simp add: wire_char_def)

lemmas [xdr_rules] = char_c.encode char_c.decode

lemma sid_payload_le: "ok_sid s \<Longrightarrow> sid_payload s \<le> 32"
  by (auto simp: ok_sid_def sid_payload_def)

lemma sid_payload_word:
  assumes "ok_sid s" and "sid_length s \<noteq> 0"
  shows "(scast (sid_length s) :: u32) - of_nat CREDUTL_SID_BASE_SIZE = of_nat (sid_payload s)"
proof -
  have "(scast (sid_length s) :: u32) = of_int (sint (sid_length s))" by simp
  moreover have "sint (sid_length s) = int (sid_payload s) + 2"
    using assms by (auto simp: ok_sid_def sid_payload_def)
  ultimately show ?thesis by (simp add: CREDUTL_SID_BASE_SIZE_def)
qed

lemma sid_payload_small [simp]:
  assumes "ok_sid s"
  shows "unat (of_nat (sid_payload s) :: u32) = sid_payload s"
    and "\<not> (of_nat (sid_payload s) :: u32) > of_nat CREDUTL_MAX_SID_LENGTH"
    and "\<not> (of_nat (sid_payload s) :: u32) > 32"
  using sid_payload_le [OF assms]
  by (simp_all add: unat_of_nat take_bit_nat_eq_self sid_consts word_less_nat_alt)

interpretation sid_c: xdr_codec xdr_credutl_sid_t ok_sid wire_sid "\<lambda>v v0. sid_canon v"
proof
  fix x :: XDR and v v0 :: credutl_sid_t and r
  assume ok: "ok_sid v"
  have len: "length (sid_bytes v) = 32" "sid_payload v \<le> 32"
    using ok sid_payload_le by (auto simp: ok_sid_def wf_sid_def sid_consts)
  { assume "x_op x = XDR_ENCODE" and "length (wire_sid v) \<le> x_room x"
    then show "xdr_credutl_sid_t x v = XTrue v (xput x (wire_sid v))"
      using ok len by (cases "sid_length v = 0")
        (simp_all add: xdr_credutl_sid_t_def wire_sid_def xdr_at_def xdr_rules Let_def
          sid_payload_word) }
  { assume "x_op x = XDR_DECODE"
    then show "xdr_credutl_sid_t (xgive x (wire_sid v @ r)) v0 = XTrue (sid_canon v) (xgive x r)"
      using ok len by (cases "sid_length v = 0")
        (simp_all add: xdr_credutl_sid_t_def wire_sid_def xdr_at_def xdr_rules Let_def
          sid_payload_word sid_canon_def sid_consts) }
qed

lemmas [xdr_rules] = sid_c.encode sid_c.decode

lemma length_wire_opaque: "length (wire_opaque bs) = length bs + xdr_padcount (length bs)"
  by (simp add: wire_opaque_def)

lemma llong_split_combine [simp]:
  "KS_LLONG_COMBINE (KS_LLONG_HIGH w) (KS_LLONG_LOW w) = w"
  "KS_ULLONG_COMBINE (KS_LLONG_HIGH w) (KS_LLONG_LOW w) = w"
proof -
  have "bit (KS_LLONG_COMBINE (KS_LLONG_HIGH w) (KS_LLONG_LOW w)) n = bit w n
    \<and> bit (KS_ULLONG_COMBINE (KS_LLONG_HIGH w) (KS_LLONG_LOW w)) n = bit w n" if "n < 64" for n
    using that by (cases "n < 32"; cases "n = 63")
      (auto simp: KS_LLONG_COMBINE_def KS_ULLONG_COMBINE_def KS_LLONG_HIGH_def KS_LLONG_LOW_def
        bit_simps min_def)
  then show "KS_LLONG_COMBINE (KS_LLONG_HIGH w) (KS_LLONG_LOW w) = w"
    "KS_ULLONG_COMBINE (KS_LLONG_HIGH w) (KS_LLONG_LOW w) = w"
    by (auto intro!: bit_word_eqI)
qed

interpretation fstat_c: xdr_codec xdr_tbs_fstat_db_t ok_fstat_db wire_fstat_db "\<lambda>v v0. fstat_canon v"
  by unfold_locales
    (simp_all add: xdr_tbs_fstat_db_t_def wire_fstat_db_def ok_fstat_db_def xdr_at_def xdr_rules
      Let_def fstat_canon_def)

lemmas [xdr_rules] = fstat_c.encode fstat_c.decode

section \<open>Arbitrary input\<close>

lemma getbytes_XTrueD:
  "mvfs_linux_xdr_getbytes x n = XTrue bs y \<Longrightarrow> length bs = n \<and> x_op y = x_op x"
  by (auto simp: mvfs_linux_xdr_getbytes_def split: if_splits)

lemma opaque_decode_length:
  assumes "x_op x = XDR_DECODE" and "mdki_xdr_opaque n x cp = XTrue v y"
  shows "length v = length cp \<and> drop n v = drop n cp"
  using assms
  by (auto simp: mdki_xdr_opaque_def Let_def split: if_splits elim!: xdr_bind_XTrueE
      dest!: getbytes_XTrueD)

lemma xdr_ks_char_t_op: "xdr_ks_char_t x v = XTrue u y \<Longrightarrow> x_op y = x_op x"
  by (auto simp: xdr_ks_char_t_def xdr_int_def elim!: xdr_bind_XTrueE dest!: xdr_integral_x_op)

lemma xdr_at_XTrueE:
  assumes "xdr_at p f upd x obj = XTrue v y"
  obtains u where "p x (f obj) = XTrue u y" and "v = upd (\<lambda>_. u) obj"
  using assms by (auto simp: xdr_at_def split: xdr_res.splits)

lemma sid_length_bound:
  fixes b :: byte
  assumes "\<not> (scast b :: u32) - 2 > 32"
  shows "2 \<le> sint b \<and> sint b \<le> 34 \<and> unat ((scast b :: u32) - 2) = nat (sint b - 2)"
proof -
  have r: "- 128 \<le> sint b" "sint b < 128"
    using sint_greater_eq [of b] sint_lt [of b] by simp_all
  have "(scast b :: u32) - 2 = of_int (sint b - 2)" by simp
  then have u: "uint ((scast b :: u32) - 2) = (sint b - 2) mod 2 ^ 32"
    by (simp only: uint_word_of_int) (simp add: take_bit_eq_mod)
  have le: "uint ((scast b :: u32) - 2) \<le> 32"
    using assms by (simp add: word_le_def linorder_not_less)
  have "2 \<le> sint b \<and> sint b \<le> 34 \<and> uint ((scast b :: u32) - 2) = sint b - 2"
  proof (cases "2 \<le> sint b")
    case True
    then show ?thesis
      using le r unfolding u by (simp add: mod_pos_pos_trivial)
  next
    case False
    then have "(sint b - 2 + 2 ^ 32) mod 2 ^ 32 = sint b - 2 + 2 ^ 32"
      using r by (intro mod_pos_pos_trivial) simp_all
    then have "(sint b - 2) mod 2 ^ 32 = sint b - 2 + 2 ^ 32"
      by (simp only: mod_add_self2)
    then show ?thesis
      using le r unfolding u by simp
  qed
  then show ?thesis by (simp add: unat_eq_nat_uint)
qed

text \<open>C28: whatever the bytes on the wire are, a decoded SID is well formed: its length is 0 or between the
  base size and the maximum, and the bytes behind its payload are zero.\<close>
theorem sid_decode_canonical:
  assumes "x_op x = XDR_DECODE" and "xdr_credutl_sid_t x v0 = XTrue v y"
  shows "ok_sid v \<and> sid_canon v = v"
proof -
  obtain n y1 where c1: "xdr_ks_char_t x 0 = XTrue n y1"
    using assms by (cases "xdr_ks_char_t x 0") (simp_all add: xdr_credutl_sid_t_def xdr_at_def)
  show ?thesis
  proof (cases "n = 0")
    case True
    with assms c1 show ?thesis
      by (auto simp: xdr_credutl_sid_t_def xdr_at_def ok_sid_def wf_sid_def sid_canon_def sid_consts)
  next
    case False
    obtain t y2 where c2: "xdr_ks_char_t y1 0 = XTrue t y2"
      using assms c1 False
      by (cases "xdr_ks_char_t y1 0") (simp_all add: xdr_credutl_sid_t_def xdr_at_def)
    have len: "\<not> (scast n :: u32) - 2 > 32"
      using assms c1 c2 False
      by (auto simp: xdr_credutl_sid_t_def xdr_at_def sid_consts CREDUTL_SID_BASE_SIZE_def Let_def)
    obtain bs where op: "mdki_xdr_opaque (unat ((scast n :: u32) - 2)) y2 (replicate 32 0) = XTrue bs y"
      and v: "v = \<lparr>sid_length = n, sid_type = t, sid_bytes = bs\<rparr>"
      using assms c1 c2 False
      by (auto simp: xdr_credutl_sid_t_def xdr_at_def sid_consts CREDUTL_SID_BASE_SIZE_def Let_def
          split: if_splits xdr_res.splits)
    have "x_op y2 = XDR_DECODE" using assms(1) c1 c2 by (auto dest!: xdr_ks_char_t_op)
    then have bs: "length bs = 32 \<and> drop (nat (sint n - 2)) bs = drop (nat (sint n - 2)) (replicate 32 0)"
      using opaque_decode_length [OF _ op] sid_length_bound [OF len] by simp
    then have "take (nat (sint n - 2)) bs @ replicate (32 - nat (sint n - 2)) 0 = bs"
      by (metis append_take_drop_id drop_replicate)
    then show ?thesis
      using sid_length_bound [OF len] bs False
      by (simp add: v ok_sid_def wf_sid_def sid_canon_def sid_payload_def sid_consts)
  qed
qed

definition sid_stream_example :: "byte list" where
  "sid_stream_example = be32 3 @ be32 1 @ [7, 0, 0, 0]"

definition sid_decoded_example :: credutl_sid_t where
  "sid_decoded_example = \<lparr>sid_length = 3, sid_type = 1, sid_bytes = 7 # replicate 31 0\<rparr>"

theorem sid_decode_canonical_witness: "ok_sid sid_decoded_example \<and> sid_canon sid_decoded_example = sid_decoded_example"
proof -
  have "xdr_credutl_sid_t \<lparr>x_op = XDR_DECODE, x_put = [], x_room = 0, x_get = sid_stream_example\<rparr> sid_decoded_example
      = XTrue sid_decoded_example \<lparr>x_op = XDR_DECODE, x_put = [], x_room = 0, x_get = []\<rparr>"
    by code_simp
  from sid_decode_canonical [OF _ this] show ?thesis by simp
qed

end
