(* ===== verification/Xdr_View.thy ===== *)
theory Xdr_View
  imports Xdr_Tbs
begin

text \<open>The structures and the requests of the view protocol (view\_base.h, view\_rpc\_kernel.h,
  xdr\_view\_kernel.c).  For each there is the record, the routine, the objects its wire format can
  carry, the wire format and the instance of the codec contract.\<close>

definition TBS_MAX_NAME_LEN :: nat where "TBS_MAX_NAME_LEN = 255"
definition TBS_MAX_PNAME_LEN :: nat where "TBS_MAX_PNAME_LEN = 1023"

definition xdr_ks_canon_pname_p_t :: "cstr xdrproc" where
  "xdr_ks_canon_pname_p_t = xdr_string TBS_MAX_PNAME_LEN"

interpretation name_c: xdr_codec "xdr_string TBS_MAX_NAME_LEN" "ok_string TBS_MAX_NAME_LEN"
  wire_string "\<lambda>v v0. v"
  by (rule string_codec) (simp add: TBS_MAX_NAME_LEN_def)

interpretation pname_c: xdr_codec "xdr_string TBS_MAX_PNAME_LEN" "ok_string TBS_MAX_PNAME_LEN"
  wire_string "\<lambda>v v0. v"
  by (rule string_codec) (simp add: TBS_MAX_PNAME_LEN_def)

lemmas [xdr_rules] = name_c.encode name_c.decode pname_c.encode pname_c.decode
  xdr_ks_canon_pname_p_t_def

definition xdr_view_build_session_t :: "u64 xdrproc" where "xdr_view_build_session_t = xdr_u_long"
definition xdr_view_name_state_t :: "u64 xdrproc" where "xdr_view_name_state_t = xdr_u_long"

lemmas [xdr_rules] = xdr_view_build_session_t_def xdr_view_name_state_t_def

section \<open>Structures\<close>

record view_fhandle_t =
  fh_vob_uuid :: tbs_uuid_t
  fh_ver_dbid :: u64
  fh_elem_dbid :: u64
  fh_gen :: u64
  fh_flags :: u64
  fh_pad0 :: u64

definition xdr_view_fhandle_t :: "view_fhandle_t xdrproc" where
  "xdr_view_fhandle_t x obj =
    (if x_op x = XDR_FREE then XTrue obj x
     else xdr_all
     [xdr_at xdr_tbs_uuid_t fh_vob_uuid fh_vob_uuid_update,
      xdr_at xdr_tbs_dbid_t fh_ver_dbid fh_ver_dbid_update,
      xdr_at xdr_tbs_dbid_t fh_elem_dbid fh_elem_dbid_update,
      xdr_at xdr_u_long fh_gen fh_gen_update, xdr_at xdr_u_long fh_flags fh_flags_update,
      xdr_at xdr_u_long fh_pad0 fh_pad0_update] x obj)"

definition ok_view_fhandle :: "view_fhandle_t \<Rightarrow> bool" where
  "ok_view_fhandle v \<longleftrightarrow>
     wf_uuid (fh_vob_uuid v) \<and> ok_u_long (fh_ver_dbid v) \<and>
     ok_u_long (fh_elem_dbid v) \<and> ok_u_long (fh_gen v) \<and>
     ok_u_long (fh_flags v) \<and> ok_u_long (fh_pad0 v)"

definition wire_view_fhandle :: "view_fhandle_t \<Rightarrow> byte list" where
  "wire_view_fhandle v =
     wire_uuid (fh_vob_uuid v) @ wire_long (fh_ver_dbid v) @ wire_long (fh_elem_dbid v) @
     wire_long (fh_gen v) @ wire_long (fh_flags v) @ wire_long (fh_pad0 v)"

interpretation view_fhandle_c: xdr_codec xdr_view_fhandle_t ok_view_fhandle wire_view_fhandle "\<lambda>v v0. v"
  by unfold_locales (simp_all add: xdr_view_fhandle_t_def ok_view_fhandle_def wire_view_fhandle_def xdr_at_def
      xdr_rules)

lemmas [xdr_rules] = view_fhandle_c.encode view_fhandle_c.decode

record view_vstat_t =
  vs_fstat :: tbs_fstat_db_t
  vs_mtype :: u32
  vs_elem_oid :: tbs_oid_t
  vs_obj_oid :: tbs_oid_t
  vs_event_time :: timeval
  vs_rolemap_oid :: tbs_oid_t
  vs_eacl_mtime :: timeval

definition xdr_view_vstat_t :: "view_vstat_t xdrproc" where
  "xdr_view_vstat_t x obj =
    (if x_op x = XDR_FREE then XTrue obj x
     else xdr_all
     [xdr_at xdr_tbs_fstat_db_t vs_fstat vs_fstat_update,
      xdr_at xdr_vob_mtype_t vs_mtype vs_mtype_update,
      xdr_at xdr_tbs_oid_t vs_elem_oid vs_elem_oid_update,
      xdr_at xdr_tbs_oid_t vs_obj_oid vs_obj_oid_update,
      xdr_at xdr_timeval vs_event_time vs_event_time_update,
      xdr_at xdr_tbs_oid_t vs_rolemap_oid vs_rolemap_oid_update,
      xdr_at xdr_timeval vs_eacl_mtime vs_eacl_mtime_update] x obj)"

definition ok_view_vstat :: "view_vstat_t \<Rightarrow> bool" where
  "ok_view_vstat v \<longleftrightarrow>
     ok_fstat_db (vs_fstat v) \<and> wf_uuid (vs_elem_oid v) \<and>
     wf_uuid (vs_obj_oid v) \<and> ok_timeval (vs_event_time v) \<and>
     wf_uuid (vs_rolemap_oid v) \<and> ok_timeval (vs_eacl_mtime v)"

definition wire_view_vstat :: "view_vstat_t \<Rightarrow> byte list" where
  "wire_view_vstat v =
     wire_fstat_db (vs_fstat v) @ be32 (vs_mtype v) @ wire_uuid (vs_elem_oid v) @
     wire_uuid (vs_obj_oid v) @ wire_timeval (vs_event_time v) @
     wire_uuid (vs_rolemap_oid v) @ wire_timeval (vs_eacl_mtime v)"

definition view_vstat_canon :: "view_vstat_t \<Rightarrow> view_vstat_t" where
  "view_vstat_canon v = v\<lparr>vs_fstat := fstat_canon (vs_fstat v)\<rparr>"

interpretation view_vstat_c: xdr_codec xdr_view_vstat_t ok_view_vstat wire_view_vstat "\<lambda>v v0. view_vstat_canon v"
  by unfold_locales (simp_all add: xdr_view_vstat_t_def ok_view_vstat_def wire_view_vstat_def view_vstat_canon_def xdr_at_def
      xdr_rules)

lemmas [xdr_rules] = view_vstat_c.encode view_vstat_c.decode

record view_vstat_v8_t =
  v8_fstat :: tbs_fstat_db_t
  v8_mtype :: u32
  v8_elem_oid :: tbs_oid_t
  v8_obj_oid :: tbs_oid_t
  v8_event_time :: timeval

definition xdr_view_vstat_v8_t :: "view_vstat_v8_t xdrproc" where
  "xdr_view_vstat_v8_t x obj =
    (if x_op x = XDR_FREE then XTrue obj x
     else xdr_all
     [xdr_at xdr_tbs_fstat_db_t v8_fstat v8_fstat_update,
      xdr_at xdr_vob_mtype_t v8_mtype v8_mtype_update,
      xdr_at xdr_tbs_oid_t v8_elem_oid v8_elem_oid_update,
      xdr_at xdr_tbs_oid_t v8_obj_oid v8_obj_oid_update,
      xdr_at xdr_timeval v8_event_time v8_event_time_update] x obj)"

definition ok_view_vstat_v8 :: "view_vstat_v8_t \<Rightarrow> bool" where
  "ok_view_vstat_v8 v \<longleftrightarrow>
     ok_fstat_db (v8_fstat v) \<and> wf_uuid (v8_elem_oid v) \<and>
     wf_uuid (v8_obj_oid v) \<and> ok_timeval (v8_event_time v)"

definition wire_view_vstat_v8 :: "view_vstat_v8_t \<Rightarrow> byte list" where
  "wire_view_vstat_v8 v =
     wire_fstat_db (v8_fstat v) @ be32 (v8_mtype v) @ wire_uuid (v8_elem_oid v) @
     wire_uuid (v8_obj_oid v) @ wire_timeval (v8_event_time v)"

definition view_vstat_v8_canon :: "view_vstat_v8_t \<Rightarrow> view_vstat_v8_t" where
  "view_vstat_v8_canon v = v\<lparr>v8_fstat := fstat_canon (v8_fstat v)\<rparr>"

interpretation view_vstat_v8_c: xdr_codec xdr_view_vstat_v8_t ok_view_vstat_v8 wire_view_vstat_v8 "\<lambda>v v0. view_vstat_v8_canon v"
  by unfold_locales (simp_all add: xdr_view_vstat_v8_t_def ok_view_vstat_v8_def wire_view_vstat_v8_def view_vstat_v8_canon_def xdr_at_def
      xdr_rules)

lemmas [xdr_rules] = view_vstat_v8_c.encode view_vstat_v8_c.decode

text \<open>The settable attributes.  A sender whose mask leaves out an owner sends the don't-care SID in
  its place.\<close>
record view_set_attr_t =
  sa_mask :: u64
  sa_type :: u64
  sa_mode :: u64
  sa_usid :: credutl_sid_t
  sa_gsid :: credutl_sid_t
  sa_size :: u64
  sa_atime :: timeval
  sa_mtime :: timeval

definition VIEW_ATTR_USID :: u64 where "VIEW_ATTR_USID = 0x0004"
definition VIEW_ATTR_GSID :: u64 where "VIEW_ATTR_GSID = 0x0008"

definition xdr_view_set_attr_t :: "view_set_attr_t xdrproc" where
  "xdr_view_set_attr_t x obj =
    (if x_op x = XDR_FREE then XTrue obj x
     else xdr_bind (xdr_all [xdr_at xdr_u_long sa_mask sa_mask_update,
        xdr_at xdr_u_long sa_type sa_type_update, xdr_at xdr_u_long sa_mode sa_mode_update] x obj)
      (\<lambda>obj x.
     xdr_bind
      (if x_op x = XDR_ENCODE then
         xdr_bind (xdr_credutl_sid_t x (if sa_mask obj AND VIEW_ATTR_USID = 0 then CREDUTL_SID_DONTCARE
             else sa_usid obj)) (\<lambda>_ x.
         xdr_bind (xdr_credutl_sid_t x (if sa_mask obj AND VIEW_ATTR_GSID = 0 then CREDUTL_SID_DONTCARE
             else sa_gsid obj)) (\<lambda>_ x. XTrue obj x))
       else xdr_all [xdr_at xdr_credutl_sid_t sa_usid sa_usid_update,
           xdr_at xdr_credutl_sid_t sa_gsid sa_gsid_update] x obj) (\<lambda>obj x.
     xdr_bind (xdr_u_int x (KS_LLONG_LOW (sa_size obj))) (\<lambda>size_low x.
     xdr_bind (xdr_u_int x (KS_LLONG_HIGH (sa_size obj))) (\<lambda>size_high x.
     xdr_bind (xdr_all [xdr_at xdr_timeval sa_atime sa_atime_update,
        xdr_at xdr_timeval sa_mtime sa_mtime_update] x obj) (\<lambda>obj x.
       XTrue (if x_op x = XDR_DECODE then obj\<lparr>sa_size := KS_ULLONG_COMBINE size_high size_low\<rparr>
              else obj) x))))))"

text \<open>The SIDs that travel.\<close>
definition sa_sent_usid :: "view_set_attr_t \<Rightarrow> credutl_sid_t" where
  "sa_sent_usid v = (if sa_mask v AND VIEW_ATTR_USID = 0 then CREDUTL_SID_DONTCARE else sa_usid v)"

definition sa_sent_gsid :: "view_set_attr_t \<Rightarrow> credutl_sid_t" where
  "sa_sent_gsid v = (if sa_mask v AND VIEW_ATTR_GSID = 0 then CREDUTL_SID_DONTCARE else sa_gsid v)"

definition ok_view_set_attr :: "view_set_attr_t \<Rightarrow> bool" where
  "ok_view_set_attr v \<longleftrightarrow> ok_u_long (sa_mask v) \<and> ok_u_long (sa_type v) \<and> ok_u_long (sa_mode v) \<and>
     ok_sid (sa_sent_usid v) \<and> ok_sid (sa_sent_gsid v) \<and> ok_timeval (sa_atime v) \<and>
     ok_timeval (sa_mtime v)"

definition wire_view_set_attr :: "view_set_attr_t \<Rightarrow> byte list" where
  "wire_view_set_attr v =
     wire_long (sa_mask v) @ wire_long (sa_type v) @ wire_long (sa_mode v) @
     wire_sid (sa_sent_usid v) @ wire_sid (sa_sent_gsid v) @
     be32 (KS_LLONG_LOW (sa_size v)) @ be32 (KS_LLONG_HIGH (sa_size v)) @
     wire_timeval (sa_atime v) @ wire_timeval (sa_mtime v)"

definition view_set_attr_canon :: "view_set_attr_t \<Rightarrow> view_set_attr_t" where
  "view_set_attr_canon v =
     v\<lparr>sa_usid := sid_canon (sa_sent_usid v), sa_gsid := sid_canon (sa_sent_gsid v)\<rparr>"

interpretation view_set_attr_c: xdr_codec xdr_view_set_attr_t ok_view_set_attr wire_view_set_attr
  "\<lambda>v v0. view_set_attr_canon v"
proof
  fix x :: XDR and v v0 :: view_set_attr_t and r
  assume ok: "ok_view_set_attr v"
  { assume "x_op x = XDR_ENCODE" and "length (wire_view_set_attr v) \<le> x_room x"
    then show "xdr_view_set_attr_t x v = XTrue v (xput x (wire_view_set_attr v))"
      using ok by (simp add: xdr_view_set_attr_t_def ok_view_set_attr_def wire_view_set_attr_def
          xdr_at_def xdr_rules sa_sent_usid_def [symmetric] sa_sent_gsid_def [symmetric]) }
  { assume "x_op x = XDR_DECODE"
    then show "xdr_view_set_attr_t (xgive x (wire_view_set_attr v @ r)) v0
        = XTrue (view_set_attr_canon v) (xgive x r)"
      using ok by (simp add: xdr_view_set_attr_t_def ok_view_set_attr_def wire_view_set_attr_def
          xdr_at_def xdr_rules view_set_attr_canon_def) }
qed

lemmas [xdr_rules] = view_set_attr_c.encode view_set_attr_c.decode

record view_handle_t =
  vh_view_uuid :: tbs_uuid_t

definition xdr_view_handle_t :: "view_handle_t xdrproc" where
  "xdr_view_handle_t = xdr_all
    [xdr_at xdr_tbs_uuid_t vh_view_uuid vh_view_uuid_update]"

definition ok_view_handle :: "view_handle_t \<Rightarrow> bool" where
  "ok_view_handle v \<longleftrightarrow>
     wf_uuid (vh_view_uuid v)"

definition wire_view_handle :: "view_handle_t \<Rightarrow> byte list" where
  "wire_view_handle v =
     wire_uuid (vh_view_uuid v)"

interpretation view_handle_c: xdr_codec xdr_view_handle_t ok_view_handle wire_view_handle "\<lambda>v v0. v"
  by unfold_locales (simp_all add: xdr_view_handle_t_def ok_view_handle_def wire_view_handle_def xdr_at_def
      xdr_rules)

lemmas [xdr_rules] = view_handle_c.encode view_handle_c.decode

record view_bhandle_t =
  bh_build_session :: u64
  bh_target_id :: u64

definition xdr_view_bhandle_t :: "view_bhandle_t xdrproc" where
  "xdr_view_bhandle_t x obj =
    (if x_op x = XDR_FREE then XTrue obj x
     else xdr_all
     [xdr_at xdr_view_build_session_t bh_build_session bh_build_session_update,
      xdr_at xdr_u_long bh_target_id bh_target_id_update] x obj)"

definition ok_view_bhandle :: "view_bhandle_t \<Rightarrow> bool" where
  "ok_view_bhandle v \<longleftrightarrow>
     ok_u_long (bh_build_session v) \<and> ok_u_long (bh_target_id v)"

definition wire_view_bhandle :: "view_bhandle_t \<Rightarrow> byte list" where
  "wire_view_bhandle v =
     wire_long (bh_build_session v) @ wire_long (bh_target_id v)"

interpretation view_bhandle_c: xdr_codec xdr_view_bhandle_t ok_view_bhandle wire_view_bhandle "\<lambda>v v0. v"
  by unfold_locales (simp_all add: xdr_view_bhandle_t_def ok_view_bhandle_def wire_view_bhandle_def xdr_at_def
      xdr_rules)

lemmas [xdr_rules] = view_bhandle_c.encode view_bhandle_c.decode

record view_hdr_req_t =
  hq_boot_time :: u64
  hq_xid :: u64
  hq_view :: view_handle_t
  hq_build_handle :: view_bhandle_t

definition xdr_view_hdr_req_t :: "view_hdr_req_t xdrproc" where
  "xdr_view_hdr_req_t x obj =
    (if x_op x = XDR_FREE then XTrue obj x
     else xdr_all
     [xdr_at xdr_time_t hq_boot_time hq_boot_time_update,
      xdr_at xdr_u_long hq_xid hq_xid_update,
      xdr_at xdr_view_handle_t hq_view hq_view_update,
      xdr_at xdr_view_bhandle_t hq_build_handle hq_build_handle_update] x obj)"

definition ok_view_hdr_req :: "view_hdr_req_t \<Rightarrow> bool" where
  "ok_view_hdr_req v \<longleftrightarrow>
     ok_long (hq_boot_time v) \<and> ok_u_long (hq_xid v) \<and>
     ok_view_handle (hq_view v) \<and> ok_view_bhandle (hq_build_handle v)"

definition wire_view_hdr_req :: "view_hdr_req_t \<Rightarrow> byte list" where
  "wire_view_hdr_req v =
     wire_long (hq_boot_time v) @ wire_long (hq_xid v) @ wire_view_handle (hq_view v) @
     wire_view_bhandle (hq_build_handle v)"

interpretation view_hdr_req_c: xdr_codec xdr_view_hdr_req_t ok_view_hdr_req wire_view_hdr_req "\<lambda>v v0. v"
  by unfold_locales (simp_all add: xdr_view_hdr_req_t_def ok_view_hdr_req_def wire_view_hdr_req_def xdr_at_def
      xdr_rules)

lemmas [xdr_rules] = view_hdr_req_c.encode view_hdr_req_c.decode

record view_hdr_reply_t =
  hr_xid :: u64
  hr_status :: u32

definition xdr_view_hdr_reply_t :: "view_hdr_reply_t xdrproc" where
  "xdr_view_hdr_reply_t x obj =
    (if x_op x = XDR_FREE then XTrue obj x
     else xdr_all
     [xdr_at xdr_u_long hr_xid hr_xid_update,
      xdr_at xdr_tbs_status_t hr_status hr_status_update] x obj)"

definition ok_view_hdr_reply :: "view_hdr_reply_t \<Rightarrow> bool" where
  "ok_view_hdr_reply v \<longleftrightarrow>
     ok_u_long (hr_xid v)"

definition wire_view_hdr_reply :: "view_hdr_reply_t \<Rightarrow> byte list" where
  "wire_view_hdr_reply v =
     wire_long (hr_xid v) @ be32 (hr_status v)"

interpretation view_hdr_reply_c: xdr_codec xdr_view_hdr_reply_t ok_view_hdr_reply wire_view_hdr_reply "\<lambda>v v0. v"
  by unfold_locales (simp_all add: xdr_view_hdr_reply_t_def ok_view_hdr_reply_def wire_view_hdr_reply_def xdr_at_def
      xdr_rules)

lemmas [xdr_rules] = view_hdr_reply_c.encode view_hdr_reply_c.decode

record view_dir_arg_t =
  da_d_fhandle :: view_fhandle_t
  da_name :: cstr

definition xdr_view_dir_arg_t :: "view_dir_arg_t xdrproc" where
  "xdr_view_dir_arg_t = xdr_all
    [xdr_at xdr_view_fhandle_t da_d_fhandle da_d_fhandle_update,
     xdr_at (xdr_string TBS_MAX_NAME_LEN) da_name da_name_update]"

definition ok_view_dir_arg :: "view_dir_arg_t \<Rightarrow> bool" where
  "ok_view_dir_arg v \<longleftrightarrow>
     ok_view_fhandle (da_d_fhandle v) \<and> ok_string TBS_MAX_NAME_LEN (da_name v)"

definition wire_view_dir_arg :: "view_dir_arg_t \<Rightarrow> byte list" where
  "wire_view_dir_arg v =
     wire_view_fhandle (da_d_fhandle v) @ wire_string (da_name v)"

interpretation view_dir_arg_c: xdr_codec xdr_view_dir_arg_t ok_view_dir_arg wire_view_dir_arg "\<lambda>v v0. v"
  by unfold_locales (simp_all add: xdr_view_dir_arg_t_def ok_view_dir_arg_def wire_view_dir_arg_def xdr_at_def
      xdr_rules)

lemmas [xdr_rules] = view_dir_arg_c.encode view_dir_arg_c.decode

record view_dir_mod_t =
  dm_dvstat :: view_vstat_t
  dm_dir_dtm_valid :: u32

definition xdr_view_dir_mod_t :: "view_dir_mod_t xdrproc" where
  "xdr_view_dir_mod_t = xdr_all
    [xdr_at xdr_view_vstat_t dm_dvstat dm_dvstat_update,
     xdr_at xdr_bool dm_dir_dtm_valid dm_dir_dtm_valid_update]"

definition ok_view_dir_mod :: "view_dir_mod_t \<Rightarrow> bool" where
  "ok_view_dir_mod v \<longleftrightarrow>
     ok_view_vstat (dm_dvstat v)"

definition wire_view_dir_mod :: "view_dir_mod_t \<Rightarrow> byte list" where
  "wire_view_dir_mod v =
     wire_view_vstat (dm_dvstat v) @ be32 (dm_dir_dtm_valid v)"

definition view_dir_mod_canon :: "view_dir_mod_t \<Rightarrow> view_dir_mod_t" where
  "view_dir_mod_canon v = v\<lparr>dm_dvstat := view_vstat_canon (dm_dvstat v)\<rparr>"

interpretation view_dir_mod_c: xdr_codec xdr_view_dir_mod_t ok_view_dir_mod wire_view_dir_mod "\<lambda>v v0. view_dir_mod_canon v"
  by unfold_locales (simp_all add: xdr_view_dir_mod_t_def ok_view_dir_mod_def wire_view_dir_mod_def view_dir_mod_canon_def xdr_at_def
      xdr_rules)

lemmas [xdr_rules] = view_dir_mod_c.encode view_dir_mod_c.decode

record view_dir_mod_v8_t =
  dm8_dvstat :: view_vstat_v8_t
  dm8_dir_dtm_valid :: u32

definition xdr_view_dir_mod_v8_t :: "view_dir_mod_v8_t xdrproc" where
  "xdr_view_dir_mod_v8_t = xdr_all
    [xdr_at xdr_view_vstat_v8_t dm8_dvstat dm8_dvstat_update,
     xdr_at xdr_bool dm8_dir_dtm_valid dm8_dir_dtm_valid_update]"

definition ok_view_dir_mod_v8 :: "view_dir_mod_v8_t \<Rightarrow> bool" where
  "ok_view_dir_mod_v8 v \<longleftrightarrow>
     ok_view_vstat_v8 (dm8_dvstat v)"

definition wire_view_dir_mod_v8 :: "view_dir_mod_v8_t \<Rightarrow> byte list" where
  "wire_view_dir_mod_v8 v =
     wire_view_vstat_v8 (dm8_dvstat v) @ be32 (dm8_dir_dtm_valid v)"

definition view_dir_mod_v8_canon :: "view_dir_mod_v8_t \<Rightarrow> view_dir_mod_v8_t" where
  "view_dir_mod_v8_canon v = v\<lparr>dm8_dvstat := view_vstat_v8_canon (dm8_dvstat v)\<rparr>"

interpretation view_dir_mod_v8_c: xdr_codec xdr_view_dir_mod_v8_t ok_view_dir_mod_v8 wire_view_dir_mod_v8 "\<lambda>v v0. view_dir_mod_v8_canon v"
  by unfold_locales (simp_all add: xdr_view_dir_mod_v8_t_def ok_view_dir_mod_v8_def wire_view_dir_mod_v8_def view_dir_mod_v8_canon_def xdr_at_def
      xdr_rules)

lemmas [xdr_rules] = view_dir_mod_v8_c.encode view_dir_mod_v8_c.decode

record view_eacl_cursor_t =
  ec_eacl_mtime :: timeval
  ec_next_offset :: u32

definition xdr_view_eacl_cursor_t :: "view_eacl_cursor_t xdrproc" where
  "xdr_view_eacl_cursor_t = xdr_all
    [xdr_at xdr_timeval ec_eacl_mtime ec_eacl_mtime_update,
     xdr_at xdr_u_int ec_next_offset ec_next_offset_update]"

definition ok_view_eacl_cursor :: "view_eacl_cursor_t \<Rightarrow> bool" where
  "ok_view_eacl_cursor v \<longleftrightarrow>
     ok_timeval (ec_eacl_mtime v)"

definition wire_view_eacl_cursor :: "view_eacl_cursor_t \<Rightarrow> byte list" where
  "wire_view_eacl_cursor v =
     wire_timeval (ec_eacl_mtime v) @ be32 (ec_next_offset v)"

interpretation view_eacl_cursor_c: xdr_codec xdr_view_eacl_cursor_t ok_view_eacl_cursor wire_view_eacl_cursor "\<lambda>v v0. v"
  by unfold_locales (simp_all add: xdr_view_eacl_cursor_t_def ok_view_eacl_cursor_def wire_view_eacl_cursor_def xdr_at_def
      xdr_rules)

lemmas [xdr_rules] = view_eacl_cursor_c.encode view_eacl_cursor_c.decode

section \<open>Requests\<close>

record view_null_req_t =
  nq_hdr :: view_hdr_req_t

definition xdr_view_null_req_t :: "view_null_req_t xdrproc" where
  "xdr_view_null_req_t = xdr_all
    [xdr_at xdr_view_hdr_req_t nq_hdr nq_hdr_update]"

definition ok_view_null_req :: "view_null_req_t \<Rightarrow> bool" where
  "ok_view_null_req v \<longleftrightarrow>
     ok_view_hdr_req (nq_hdr v)"

definition wire_view_null_req :: "view_null_req_t \<Rightarrow> byte list" where
  "wire_view_null_req v =
     wire_view_hdr_req (nq_hdr v)"

interpretation view_null_req_c: xdr_codec xdr_view_null_req_t ok_view_null_req wire_view_null_req "\<lambda>v v0. v"
  by unfold_locales (simp_all add: xdr_view_null_req_t_def ok_view_null_req_def wire_view_null_req_def xdr_at_def
      xdr_rules)

lemmas [xdr_rules] = view_null_req_c.encode view_null_req_c.decode

record view_dir_req_t =
  dq_hdr :: view_hdr_req_t
  dq_file :: view_dir_arg_t
  dq_dir_dtm :: timeval

definition xdr_view_dir_req_t :: "view_dir_req_t xdrproc" where
  "xdr_view_dir_req_t = xdr_all
    [xdr_at xdr_view_hdr_req_t dq_hdr dq_hdr_update,
     xdr_at xdr_view_dir_arg_t dq_file dq_file_update,
     xdr_at xdr_timeval dq_dir_dtm dq_dir_dtm_update]"

definition ok_view_dir_req :: "view_dir_req_t \<Rightarrow> bool" where
  "ok_view_dir_req v \<longleftrightarrow>
     ok_view_hdr_req (dq_hdr v) \<and> ok_view_dir_arg (dq_file v) \<and>
     ok_timeval (dq_dir_dtm v)"

definition wire_view_dir_req :: "view_dir_req_t \<Rightarrow> byte list" where
  "wire_view_dir_req v =
     wire_view_hdr_req (dq_hdr v) @ wire_view_dir_arg (dq_file v) @
     wire_timeval (dq_dir_dtm v)"

interpretation view_dir_req_c: xdr_codec xdr_view_dir_req_t ok_view_dir_req wire_view_dir_req "\<lambda>v v0. v"
  by unfold_locales (simp_all add: xdr_view_dir_req_t_def ok_view_dir_req_def wire_view_dir_req_def xdr_at_def
      xdr_rules)

lemmas [xdr_rules] = view_dir_req_c.encode view_dir_req_c.decode

record view_replica_root_req_t =
  rq_hdr :: view_hdr_req_t
  rq_vob_root :: tbs_oid_t
  rq_replica_root :: tbs_uuid_t
  rq_host_name :: cstr
  rq_host_pathname :: cstr
  rq_pname :: cstr
  rq_hm_warp_opt :: u32

definition xdr_view_replica_root_req_t :: "view_replica_root_req_t xdrproc" where
  "xdr_view_replica_root_req_t = xdr_all
    [xdr_at xdr_view_hdr_req_t rq_hdr rq_hdr_update,
     xdr_at xdr_tbs_oid_t rq_vob_root rq_vob_root_update,
     xdr_at xdr_tbs_uuid_t rq_replica_root rq_replica_root_update,
     xdr_at (xdr_string TBS_MAX_NAME_LEN) rq_host_name rq_host_name_update,
     xdr_at (xdr_string TBS_MAX_PNAME_LEN) rq_host_pathname rq_host_pathname_update,
     xdr_at xdr_enum rq_hm_warp_opt rq_hm_warp_opt_update,
     xdr_at xdr_ks_canon_pname_p_t rq_pname rq_pname_update]"

definition ok_view_replica_root_req :: "view_replica_root_req_t \<Rightarrow> bool" where
  "ok_view_replica_root_req v \<longleftrightarrow>
     ok_view_hdr_req (rq_hdr v) \<and> wf_uuid (rq_vob_root v) \<and>
     wf_uuid (rq_replica_root v) \<and> ok_string TBS_MAX_NAME_LEN (rq_host_name v) \<and>
     ok_string TBS_MAX_PNAME_LEN (rq_host_pathname v) \<and>
     ok_string TBS_MAX_PNAME_LEN (rq_pname v)"

definition wire_view_replica_root_req :: "view_replica_root_req_t \<Rightarrow> byte list" where
  "wire_view_replica_root_req v =
     wire_view_hdr_req (rq_hdr v) @ wire_uuid (rq_vob_root v) @
     wire_uuid (rq_replica_root v) @ wire_string (rq_host_name v) @
     wire_string (rq_host_pathname v) @ be32 (rq_hm_warp_opt v) @ wire_string (rq_pname v)"

interpretation view_replica_root_req_c: xdr_codec xdr_view_replica_root_req_t ok_view_replica_root_req wire_view_replica_root_req "\<lambda>v v0. v"
  by unfold_locales (simp_all add: xdr_view_replica_root_req_t_def ok_view_replica_root_req_def wire_view_replica_root_req_def xdr_at_def
      xdr_rules)

lemmas [xdr_rules] = view_replica_root_req_c.encode view_replica_root_req_c.decode

record view_lookup_req_t =
  lq_hdr :: view_hdr_req_t
  lq_d_fhandle :: view_fhandle_t
  lq_name :: cstr
  lq_hm_warp_opt :: u32
  lq_residual_pname :: cstr

definition xdr_view_lookup_req_t :: "view_lookup_req_t xdrproc" where
  "xdr_view_lookup_req_t = xdr_all
    [xdr_at xdr_view_hdr_req_t lq_hdr lq_hdr_update,
     xdr_at xdr_view_fhandle_t lq_d_fhandle lq_d_fhandle_update,
     xdr_at (xdr_string TBS_MAX_NAME_LEN) lq_name lq_name_update,
     xdr_at xdr_enum lq_hm_warp_opt lq_hm_warp_opt_update,
     xdr_at xdr_ks_canon_pname_p_t lq_residual_pname lq_residual_pname_update]"

definition ok_view_lookup_req :: "view_lookup_req_t \<Rightarrow> bool" where
  "ok_view_lookup_req v \<longleftrightarrow>
     ok_view_hdr_req (lq_hdr v) \<and> ok_view_fhandle (lq_d_fhandle v) \<and>
     ok_string TBS_MAX_NAME_LEN (lq_name v) \<and>
     ok_string TBS_MAX_PNAME_LEN (lq_residual_pname v)"

definition wire_view_lookup_req :: "view_lookup_req_t \<Rightarrow> byte list" where
  "wire_view_lookup_req v =
     wire_view_hdr_req (lq_hdr v) @ wire_view_fhandle (lq_d_fhandle v) @
     wire_string (lq_name v) @ be32 (lq_hm_warp_opt v) @ wire_string (lq_residual_pname v)"

interpretation view_lookup_req_c: xdr_codec xdr_view_lookup_req_t ok_view_lookup_req wire_view_lookup_req "\<lambda>v v0. v"
  by unfold_locales (simp_all add: xdr_view_lookup_req_t_def ok_view_lookup_req_def wire_view_lookup_req_def xdr_at_def
      xdr_rules)

lemmas [xdr_rules] = view_lookup_req_c.encode view_lookup_req_c.decode

record view_getattr_req_t =
  gq_hdr :: view_hdr_req_t
  gq_fhandle :: view_fhandle_t

definition xdr_view_getattr_req_t :: "view_getattr_req_t xdrproc" where
  "xdr_view_getattr_req_t = xdr_all
    [xdr_at xdr_view_hdr_req_t gq_hdr gq_hdr_update,
     xdr_at xdr_view_fhandle_t gq_fhandle gq_fhandle_update]"

definition ok_view_getattr_req :: "view_getattr_req_t \<Rightarrow> bool" where
  "ok_view_getattr_req v \<longleftrightarrow>
     ok_view_hdr_req (gq_hdr v) \<and> ok_view_fhandle (gq_fhandle v)"

definition wire_view_getattr_req :: "view_getattr_req_t \<Rightarrow> byte list" where
  "wire_view_getattr_req v =
     wire_view_hdr_req (gq_hdr v) @ wire_view_fhandle (gq_fhandle v)"

interpretation view_getattr_req_c: xdr_codec xdr_view_getattr_req_t ok_view_getattr_req wire_view_getattr_req "\<lambda>v v0. v"
  by unfold_locales (simp_all add: xdr_view_getattr_req_t_def ok_view_getattr_req_def wire_view_getattr_req_def xdr_at_def
      xdr_rules)

lemmas [xdr_rules] = view_getattr_req_c.encode view_getattr_req_c.decode

record view_setattr_req_t =
  sq_hdr :: view_hdr_req_t
  sq_fhandle :: view_fhandle_t
  sq_sattr :: view_set_attr_t

definition xdr_view_setattr_req_t :: "view_setattr_req_t xdrproc" where
  "xdr_view_setattr_req_t = xdr_all
    [xdr_at xdr_view_hdr_req_t sq_hdr sq_hdr_update,
     xdr_at xdr_view_fhandle_t sq_fhandle sq_fhandle_update,
     xdr_at xdr_view_set_attr_t sq_sattr sq_sattr_update]"

definition ok_view_setattr_req :: "view_setattr_req_t \<Rightarrow> bool" where
  "ok_view_setattr_req v \<longleftrightarrow>
     ok_view_hdr_req (sq_hdr v) \<and> ok_view_fhandle (sq_fhandle v) \<and>
     ok_view_set_attr (sq_sattr v)"

definition wire_view_setattr_req :: "view_setattr_req_t \<Rightarrow> byte list" where
  "wire_view_setattr_req v =
     wire_view_hdr_req (sq_hdr v) @ wire_view_fhandle (sq_fhandle v) @
     wire_view_set_attr (sq_sattr v)"

definition view_setattr_req_canon :: "view_setattr_req_t \<Rightarrow> view_setattr_req_t" where
  "view_setattr_req_canon v = v\<lparr>sq_sattr := view_set_attr_canon (sq_sattr v)\<rparr>"

interpretation view_setattr_req_c: xdr_codec xdr_view_setattr_req_t ok_view_setattr_req wire_view_setattr_req "\<lambda>v v0. view_setattr_req_canon v"
  by unfold_locales (simp_all add: xdr_view_setattr_req_t_def ok_view_setattr_req_def wire_view_setattr_req_def view_setattr_req_canon_def xdr_at_def
      xdr_rules)

lemmas [xdr_rules] = view_setattr_req_c.encode view_setattr_req_c.decode

record view_readlink_req_t =
  rlq_hdr :: view_hdr_req_t
  rlq_fhandle :: view_fhandle_t
  rlq_max_text_size :: u64

definition xdr_view_readlink_req_t :: "view_readlink_req_t xdrproc" where
  "xdr_view_readlink_req_t = xdr_all
    [xdr_at xdr_view_hdr_req_t rlq_hdr rlq_hdr_update,
     xdr_at xdr_view_fhandle_t rlq_fhandle rlq_fhandle_update,
     xdr_at xdr_size_t rlq_max_text_size rlq_max_text_size_update]"

definition ok_view_readlink_req :: "view_readlink_req_t \<Rightarrow> bool" where
  "ok_view_readlink_req v \<longleftrightarrow>
     ok_view_hdr_req (rlq_hdr v) \<and> ok_view_fhandle (rlq_fhandle v) \<and>
     ok_u_long (rlq_max_text_size v)"

definition wire_view_readlink_req :: "view_readlink_req_t \<Rightarrow> byte list" where
  "wire_view_readlink_req v =
     wire_view_hdr_req (rlq_hdr v) @ wire_view_fhandle (rlq_fhandle v) @
     wire_long (rlq_max_text_size v)"

interpretation view_readlink_req_c: xdr_codec xdr_view_readlink_req_t ok_view_readlink_req wire_view_readlink_req "\<lambda>v v0. v"
  by unfold_locales (simp_all add: xdr_view_readlink_req_t_def ok_view_readlink_req_def wire_view_readlink_req_def xdr_at_def
      xdr_rules)

lemmas [xdr_rules] = view_readlink_req_c.encode view_readlink_req_c.decode

record view_create_req_t =
  cq_hdr :: view_hdr_req_t
  cq_create :: view_dir_arg_t
  cq_iattr :: view_set_attr_t
  cq_max_text_size :: u64
  cq_dir_dtm :: timeval

definition xdr_view_create_req_t :: "view_create_req_t xdrproc" where
  "xdr_view_create_req_t = xdr_all
    [xdr_at xdr_view_hdr_req_t cq_hdr cq_hdr_update,
     xdr_at xdr_view_dir_arg_t cq_create cq_create_update,
     xdr_at xdr_view_set_attr_t cq_iattr cq_iattr_update,
     xdr_at xdr_size_t cq_max_text_size cq_max_text_size_update,
     xdr_at xdr_timeval cq_dir_dtm cq_dir_dtm_update]"

definition ok_view_create_req :: "view_create_req_t \<Rightarrow> bool" where
  "ok_view_create_req v \<longleftrightarrow>
     ok_view_hdr_req (cq_hdr v) \<and> ok_view_dir_arg (cq_create v) \<and>
     ok_view_set_attr (cq_iattr v) \<and> ok_u_long (cq_max_text_size v) \<and>
     ok_timeval (cq_dir_dtm v)"

definition wire_view_create_req :: "view_create_req_t \<Rightarrow> byte list" where
  "wire_view_create_req v =
     wire_view_hdr_req (cq_hdr v) @ wire_view_dir_arg (cq_create v) @
     wire_view_set_attr (cq_iattr v) @ wire_long (cq_max_text_size v) @
     wire_timeval (cq_dir_dtm v)"

definition view_create_req_canon :: "view_create_req_t \<Rightarrow> view_create_req_t" where
  "view_create_req_canon v = v\<lparr>cq_iattr := view_set_attr_canon (cq_iattr v)\<rparr>"

interpretation view_create_req_c: xdr_codec xdr_view_create_req_t ok_view_create_req wire_view_create_req "\<lambda>v v0. view_create_req_canon v"
  by unfold_locales (simp_all add: xdr_view_create_req_t_def ok_view_create_req_def wire_view_create_req_def view_create_req_canon_def xdr_at_def
      xdr_rules)

lemmas [xdr_rules] = view_create_req_c.encode view_create_req_c.decode

record view_link_req_t =
  lkq_hdr :: view_hdr_req_t
  lkq_fhandle :: view_fhandle_t
  lkq_to :: view_dir_arg_t
  lkq_dir_dtm :: timeval

definition xdr_view_link_req_t :: "view_link_req_t xdrproc" where
  "xdr_view_link_req_t = xdr_all
    [xdr_at xdr_view_hdr_req_t lkq_hdr lkq_hdr_update,
     xdr_at xdr_view_fhandle_t lkq_fhandle lkq_fhandle_update,
     xdr_at xdr_view_dir_arg_t lkq_to lkq_to_update,
     xdr_at xdr_timeval lkq_dir_dtm lkq_dir_dtm_update]"

definition ok_view_link_req :: "view_link_req_t \<Rightarrow> bool" where
  "ok_view_link_req v \<longleftrightarrow>
     ok_view_hdr_req (lkq_hdr v) \<and> ok_view_fhandle (lkq_fhandle v) \<and>
     ok_view_dir_arg (lkq_to v) \<and> ok_timeval (lkq_dir_dtm v)"

definition wire_view_link_req :: "view_link_req_t \<Rightarrow> byte list" where
  "wire_view_link_req v =
     wire_view_hdr_req (lkq_hdr v) @ wire_view_fhandle (lkq_fhandle v) @
     wire_view_dir_arg (lkq_to v) @ wire_timeval (lkq_dir_dtm v)"

interpretation view_link_req_c: xdr_codec xdr_view_link_req_t ok_view_link_req wire_view_link_req "\<lambda>v v0. v"
  by unfold_locales (simp_all add: xdr_view_link_req_t_def ok_view_link_req_def wire_view_link_req_def xdr_at_def
      xdr_rules)

lemmas [xdr_rules] = view_link_req_c.encode view_link_req_c.decode

record view_rename_req_t =
  rnq_hdr :: view_hdr_req_t
  rnq_from :: view_dir_arg_t
  rnq_to :: view_dir_arg_t
  rnq_dir_dtm :: timeval

definition xdr_view_rename_req_t :: "view_rename_req_t xdrproc" where
  "xdr_view_rename_req_t = xdr_all
    [xdr_at xdr_view_hdr_req_t rnq_hdr rnq_hdr_update,
     xdr_at xdr_view_dir_arg_t rnq_from rnq_from_update,
     xdr_at xdr_view_dir_arg_t rnq_to rnq_to_update,
     xdr_at xdr_timeval rnq_dir_dtm rnq_dir_dtm_update]"

definition ok_view_rename_req :: "view_rename_req_t \<Rightarrow> bool" where
  "ok_view_rename_req v \<longleftrightarrow>
     ok_view_hdr_req (rnq_hdr v) \<and> ok_view_dir_arg (rnq_from v) \<and>
     ok_view_dir_arg (rnq_to v) \<and> ok_timeval (rnq_dir_dtm v)"

definition wire_view_rename_req :: "view_rename_req_t \<Rightarrow> byte list" where
  "wire_view_rename_req v =
     wire_view_hdr_req (rnq_hdr v) @ wire_view_dir_arg (rnq_from v) @
     wire_view_dir_arg (rnq_to v) @ wire_timeval (rnq_dir_dtm v)"

interpretation view_rename_req_c: xdr_codec xdr_view_rename_req_t ok_view_rename_req wire_view_rename_req "\<lambda>v v0. v"
  by unfold_locales (simp_all add: xdr_view_rename_req_t_def ok_view_rename_req_def wire_view_rename_req_def xdr_at_def
      xdr_rules)

lemmas [xdr_rules] = view_rename_req_c.encode view_rename_req_c.decode

record view_symlink_req_t =
  slq_hdr :: view_hdr_req_t
  slq_create :: view_dir_arg_t
  slq_text :: cstr
  slq_iattr :: view_set_attr_t
  slq_dir_dtm :: timeval

definition xdr_view_symlink_req_t :: "view_symlink_req_t xdrproc" where
  "xdr_view_symlink_req_t = xdr_all
    [xdr_at xdr_view_hdr_req_t slq_hdr slq_hdr_update,
     xdr_at xdr_view_dir_arg_t slq_create slq_create_update,
     xdr_at xdr_ks_canon_pname_p_t slq_text slq_text_update,
     xdr_at xdr_view_set_attr_t slq_iattr slq_iattr_update,
     xdr_at xdr_timeval slq_dir_dtm slq_dir_dtm_update]"

definition ok_view_symlink_req :: "view_symlink_req_t \<Rightarrow> bool" where
  "ok_view_symlink_req v \<longleftrightarrow>
     ok_view_hdr_req (slq_hdr v) \<and> ok_view_dir_arg (slq_create v) \<and>
     ok_string TBS_MAX_PNAME_LEN (slq_text v) \<and> ok_view_set_attr (slq_iattr v) \<and>
     ok_timeval (slq_dir_dtm v)"

definition wire_view_symlink_req :: "view_symlink_req_t \<Rightarrow> byte list" where
  "wire_view_symlink_req v =
     wire_view_hdr_req (slq_hdr v) @ wire_view_dir_arg (slq_create v) @
     wire_string (slq_text v) @ wire_view_set_attr (slq_iattr v) @
     wire_timeval (slq_dir_dtm v)"

definition view_symlink_req_canon :: "view_symlink_req_t \<Rightarrow> view_symlink_req_t" where
  "view_symlink_req_canon v = v\<lparr>slq_iattr := view_set_attr_canon (slq_iattr v)\<rparr>"

interpretation view_symlink_req_c: xdr_codec xdr_view_symlink_req_t ok_view_symlink_req wire_view_symlink_req "\<lambda>v v0. view_symlink_req_canon v"
  by unfold_locales (simp_all add: xdr_view_symlink_req_t_def ok_view_symlink_req_def wire_view_symlink_req_def view_symlink_req_canon_def xdr_at_def
      xdr_rules)

lemmas [xdr_rules] = view_symlink_req_c.encode view_symlink_req_c.decode

record view_mkdir_req_t =
  mkq_hdr :: view_hdr_req_t
  mkq_create :: view_dir_arg_t
  mkq_iattr :: view_set_attr_t
  mkq_dir_dtm :: timeval

definition xdr_view_mkdir_req_t :: "view_mkdir_req_t xdrproc" where
  "xdr_view_mkdir_req_t = xdr_all
    [xdr_at xdr_view_hdr_req_t mkq_hdr mkq_hdr_update,
     xdr_at xdr_view_dir_arg_t mkq_create mkq_create_update,
     xdr_at xdr_view_set_attr_t mkq_iattr mkq_iattr_update,
     xdr_at xdr_timeval mkq_dir_dtm mkq_dir_dtm_update]"

definition ok_view_mkdir_req :: "view_mkdir_req_t \<Rightarrow> bool" where
  "ok_view_mkdir_req v \<longleftrightarrow>
     ok_view_hdr_req (mkq_hdr v) \<and> ok_view_dir_arg (mkq_create v) \<and>
     ok_view_set_attr (mkq_iattr v) \<and> ok_timeval (mkq_dir_dtm v)"

definition wire_view_mkdir_req :: "view_mkdir_req_t \<Rightarrow> byte list" where
  "wire_view_mkdir_req v =
     wire_view_hdr_req (mkq_hdr v) @ wire_view_dir_arg (mkq_create v) @
     wire_view_set_attr (mkq_iattr v) @ wire_timeval (mkq_dir_dtm v)"

definition view_mkdir_req_canon :: "view_mkdir_req_t \<Rightarrow> view_mkdir_req_t" where
  "view_mkdir_req_canon v = v\<lparr>mkq_iattr := view_set_attr_canon (mkq_iattr v)\<rparr>"

interpretation view_mkdir_req_c: xdr_codec xdr_view_mkdir_req_t ok_view_mkdir_req wire_view_mkdir_req "\<lambda>v v0. view_mkdir_req_canon v"
  by unfold_locales (simp_all add: xdr_view_mkdir_req_t_def ok_view_mkdir_req_def wire_view_mkdir_req_def view_mkdir_req_canon_def xdr_at_def
      xdr_rules)

lemmas [xdr_rules] = view_mkdir_req_c.encode view_mkdir_req_c.decode

text \<open>A directory read carries a word reserved for the high half of the size between the offset
  and the size; it is sent as zero and dropped on arrival.\<close>
record view_readdir_req_t =
  rdq_hdr :: view_hdr_req_t
  rdq_d_fhandle :: view_fhandle_t
  rdq_offset :: u64
  rdq_max_dirent_size :: u64

definition xdr_view_readdir_req_t :: "view_readdir_req_t xdrproc" where
  "xdr_view_readdir_req_t x obj =
    xdr_bind (xdr_all [xdr_at xdr_view_hdr_req_t rdq_hdr rdq_hdr_update,
       xdr_at xdr_view_fhandle_t rdq_d_fhandle rdq_d_fhandle_update,
       xdr_at xdr_u_long rdq_offset rdq_offset_update] x obj) (\<lambda>obj x.
    xdr_bind (xdr_int x 0) (\<lambda>size_high x.
    xdr_at xdr_size_t rdq_max_dirent_size rdq_max_dirent_size_update x obj))"

definition ok_view_readdir_req :: "view_readdir_req_t \<Rightarrow> bool" where
  "ok_view_readdir_req v \<longleftrightarrow> ok_view_hdr_req (rdq_hdr v) \<and> ok_view_fhandle (rdq_d_fhandle v) \<and>
     ok_u_long (rdq_offset v) \<and> ok_u_long (rdq_max_dirent_size v)"

definition wire_view_readdir_req :: "view_readdir_req_t \<Rightarrow> byte list" where
  "wire_view_readdir_req v = wire_view_hdr_req (rdq_hdr v) @ wire_view_fhandle (rdq_d_fhandle v) @
     wire_long (rdq_offset v) @ be32 0 @ wire_long (rdq_max_dirent_size v)"

interpretation view_readdir_req_c: xdr_codec xdr_view_readdir_req_t ok_view_readdir_req
  wire_view_readdir_req "\<lambda>v v0. v"
  by unfold_locales (simp_all add: xdr_view_readdir_req_t_def ok_view_readdir_req_def
      wire_view_readdir_req_def xdr_at_def xdr_rules)

record view_invalidate_req_t =
  ivq_hdr :: view_hdr_req_t
  ivq_type :: u32
  ivq_vob_oid :: tbs_oid_t
  ivq_obj_oid :: tbs_oid_t
  ivq_name :: cstr

definition xdr_view_invalidate_req_t :: "view_invalidate_req_t xdrproc" where
  "xdr_view_invalidate_req_t = xdr_all
    [xdr_at xdr_view_hdr_req_t ivq_hdr ivq_hdr_update,
     xdr_at xdr_enum ivq_type ivq_type_update,
     xdr_at xdr_tbs_oid_t ivq_vob_oid ivq_vob_oid_update,
     xdr_at xdr_tbs_oid_t ivq_obj_oid ivq_obj_oid_update,
     xdr_at (xdr_string TBS_MAX_NAME_LEN) ivq_name ivq_name_update]"

definition ok_view_invalidate_req :: "view_invalidate_req_t \<Rightarrow> bool" where
  "ok_view_invalidate_req v \<longleftrightarrow>
     ok_view_hdr_req (ivq_hdr v) \<and> wf_uuid (ivq_vob_oid v) \<and>
     wf_uuid (ivq_obj_oid v) \<and> ok_string TBS_MAX_NAME_LEN (ivq_name v)"

definition wire_view_invalidate_req :: "view_invalidate_req_t \<Rightarrow> byte list" where
  "wire_view_invalidate_req v =
     wire_view_hdr_req (ivq_hdr v) @ be32 (ivq_type v) @ wire_uuid (ivq_vob_oid v) @
     wire_uuid (ivq_obj_oid v) @ wire_string (ivq_name v)"

interpretation view_invalidate_req_c: xdr_codec xdr_view_invalidate_req_t ok_view_invalidate_req wire_view_invalidate_req "\<lambda>v v0. v"
  by unfold_locales (simp_all add: xdr_view_invalidate_req_t_def ok_view_invalidate_req_def wire_view_invalidate_req_def xdr_at_def
      xdr_rules)

lemmas [xdr_rules] = view_invalidate_req_c.encode view_invalidate_req_c.decode

record view_change_mtype_req_t =
  cmq_hdr :: view_hdr_req_t
  cmq_fhandle :: view_fhandle_t
  cmq_mtype :: u32

definition xdr_view_change_mtype_req_t :: "view_change_mtype_req_t xdrproc" where
  "xdr_view_change_mtype_req_t = xdr_all
    [xdr_at xdr_view_hdr_req_t cmq_hdr cmq_hdr_update,
     xdr_at xdr_view_fhandle_t cmq_fhandle cmq_fhandle_update,
     xdr_at xdr_vob_mtype_t cmq_mtype cmq_mtype_update]"

definition ok_view_change_mtype_req :: "view_change_mtype_req_t \<Rightarrow> bool" where
  "ok_view_change_mtype_req v \<longleftrightarrow>
     ok_view_hdr_req (cmq_hdr v) \<and> ok_view_fhandle (cmq_fhandle v)"

definition wire_view_change_mtype_req :: "view_change_mtype_req_t \<Rightarrow> byte list" where
  "wire_view_change_mtype_req v =
     wire_view_hdr_req (cmq_hdr v) @ wire_view_fhandle (cmq_fhandle v) @ be32 (cmq_mtype v)"

interpretation view_change_mtype_req_c: xdr_codec xdr_view_change_mtype_req_t ok_view_change_mtype_req wire_view_change_mtype_req "\<lambda>v v0. v"
  by unfold_locales (simp_all add: xdr_view_change_mtype_req_t_def ok_view_change_mtype_req_def wire_view_change_mtype_req_def xdr_at_def
      xdr_rules)

lemmas [xdr_rules] = view_change_mtype_req_c.encode view_change_mtype_req_c.decode

record view_change_oid_req_t =
  coq_hdr :: view_hdr_req_t
  coq_fhandle :: view_fhandle_t
  coq_option :: u32

definition xdr_view_change_oid_req_t :: "view_change_oid_req_t xdrproc" where
  "xdr_view_change_oid_req_t = xdr_all
    [xdr_at xdr_view_hdr_req_t coq_hdr coq_hdr_update,
     xdr_at xdr_view_fhandle_t coq_fhandle coq_fhandle_update,
     xdr_at xdr_enum coq_option coq_option_update]"

definition ok_view_change_oid_req :: "view_change_oid_req_t \<Rightarrow> bool" where
  "ok_view_change_oid_req v \<longleftrightarrow>
     ok_view_hdr_req (coq_hdr v) \<and> ok_view_fhandle (coq_fhandle v)"

definition wire_view_change_oid_req :: "view_change_oid_req_t \<Rightarrow> byte list" where
  "wire_view_change_oid_req v =
     wire_view_hdr_req (coq_hdr v) @ wire_view_fhandle (coq_fhandle v) @ be32 (coq_option v)"

interpretation view_change_oid_req_c: xdr_codec xdr_view_change_oid_req_t ok_view_change_oid_req wire_view_change_oid_req "\<lambda>v v0. v"
  by unfold_locales (simp_all add: xdr_view_change_oid_req_t_def ok_view_change_oid_req_def wire_view_change_oid_req_def xdr_at_def
      xdr_rules)

lemmas [xdr_rules] = view_change_oid_req_c.encode view_change_oid_req_c.decode

record view_gpath_req_t =
  gpq_hdr :: view_hdr_req_t
  gpq_fhandle :: view_fhandle_t
  gpq_hm_force :: u32
  gpq_max_path_size :: u64
  gpq_max_ext_path_size :: u64

definition xdr_view_gpath_req_t :: "view_gpath_req_t xdrproc" where
  "xdr_view_gpath_req_t = xdr_all
    [xdr_at xdr_view_hdr_req_t gpq_hdr gpq_hdr_update,
     xdr_at xdr_view_fhandle_t gpq_fhandle gpq_fhandle_update,
     xdr_at xdr_tbs_boolean_t gpq_hm_force gpq_hm_force_update,
     xdr_at xdr_size_t gpq_max_path_size gpq_max_path_size_update,
     xdr_at xdr_size_t gpq_max_ext_path_size gpq_max_ext_path_size_update]"

definition ok_view_gpath_req :: "view_gpath_req_t \<Rightarrow> bool" where
  "ok_view_gpath_req v \<longleftrightarrow>
     ok_view_hdr_req (gpq_hdr v) \<and> ok_view_fhandle (gpq_fhandle v) \<and>
     ok_u_long (gpq_max_path_size v) \<and> ok_u_long (gpq_max_ext_path_size v)"

definition wire_view_gpath_req :: "view_gpath_req_t \<Rightarrow> byte list" where
  "wire_view_gpath_req v =
     wire_view_hdr_req (gpq_hdr v) @ wire_view_fhandle (gpq_fhandle v) @
     be32 (gpq_hm_force v) @ wire_long (gpq_max_path_size v) @
     wire_long (gpq_max_ext_path_size v)"

interpretation view_gpath_req_c: xdr_codec xdr_view_gpath_req_t ok_view_gpath_req wire_view_gpath_req "\<lambda>v v0. v"
  by unfold_locales (simp_all add: xdr_view_gpath_req_t_def ok_view_gpath_req_def wire_view_gpath_req_def xdr_at_def
      xdr_rules)

lemmas [xdr_rules] = view_gpath_req_c.encode view_gpath_req_c.decode

record view_getprop_req_t =
  ppq_hdr :: view_hdr_req_t
  ppq_vprop :: u32

definition xdr_view_getprop_req_t :: "view_getprop_req_t xdrproc" where
  "xdr_view_getprop_req_t = xdr_all
    [xdr_at xdr_view_hdr_req_t ppq_hdr ppq_hdr_update,
     xdr_at xdr_enum ppq_vprop ppq_vprop_update]"

definition ok_view_getprop_req :: "view_getprop_req_t \<Rightarrow> bool" where
  "ok_view_getprop_req v \<longleftrightarrow>
     ok_view_hdr_req (ppq_hdr v)"

definition wire_view_getprop_req :: "view_getprop_req_t \<Rightarrow> byte list" where
  "wire_view_getprop_req v =
     wire_view_hdr_req (ppq_hdr v) @ be32 (ppq_vprop v)"

interpretation view_getprop_req_c: xdr_codec xdr_view_getprop_req_t ok_view_getprop_req wire_view_getprop_req "\<lambda>v v0. v"
  by unfold_locales (simp_all add: xdr_view_getprop_req_t_def ok_view_getprop_req_def wire_view_getprop_req_def xdr_at_def
      xdr_rules)

lemmas [xdr_rules] = view_getprop_req_c.encode view_getprop_req_c.decode

record view_eacl_rolemap_req_t =
  erq_hdr :: view_hdr_req_t
  erq_replica_uuid :: tbs_uuid_t
  erq_rolemap_oid :: tbs_oid_t
  erq_cursor :: view_eacl_cursor_t

definition xdr_view_eacl_rolemap_req_t :: "view_eacl_rolemap_req_t xdrproc" where
  "xdr_view_eacl_rolemap_req_t = xdr_all
    [xdr_at xdr_view_hdr_req_t erq_hdr erq_hdr_update,
     xdr_at xdr_tbs_uuid_t erq_replica_uuid erq_replica_uuid_update,
     xdr_at xdr_tbs_oid_t erq_rolemap_oid erq_rolemap_oid_update,
     xdr_at xdr_view_eacl_cursor_t erq_cursor erq_cursor_update]"

definition ok_view_eacl_rolemap_req :: "view_eacl_rolemap_req_t \<Rightarrow> bool" where
  "ok_view_eacl_rolemap_req v \<longleftrightarrow>
     ok_view_hdr_req (erq_hdr v) \<and> wf_uuid (erq_replica_uuid v) \<and>
     wf_uuid (erq_rolemap_oid v) \<and> ok_view_eacl_cursor (erq_cursor v)"

definition wire_view_eacl_rolemap_req :: "view_eacl_rolemap_req_t \<Rightarrow> byte list" where
  "wire_view_eacl_rolemap_req v =
     wire_view_hdr_req (erq_hdr v) @ wire_uuid (erq_replica_uuid v) @
     wire_uuid (erq_rolemap_oid v) @ wire_view_eacl_cursor (erq_cursor v)"

interpretation view_eacl_rolemap_req_c: xdr_codec xdr_view_eacl_rolemap_req_t ok_view_eacl_rolemap_req wire_view_eacl_rolemap_req "\<lambda>v v0. v"
  by unfold_locales (simp_all add: xdr_view_eacl_rolemap_req_t_def ok_view_eacl_rolemap_req_def wire_view_eacl_rolemap_req_def xdr_at_def
      xdr_rules)

lemmas [xdr_rules] = view_eacl_rolemap_req_c.encode view_eacl_rolemap_req_c.decode

end
