(* ===== verification/Tbs_Acl_Xdr.thy ===== *)
theory Tbs_Acl_Xdr
  imports Tbs_Acl Xdr_View
begin

text \<open>Access control lists on the wire (tbs\_acl\_c\_xdr\_kernel.c) and the reply that carries them
  (xdr\_view\_kernel.c).  An effective list travels in blocks: the first block makes the receiver
  allocate the whole array, the following ones fill it.  The kernel only decodes entries.\<close>

section \<open>Entries\<close>

definition xdr_tbs_acl_id_kind_t :: "u32 xdrproc" where "xdr_tbs_acl_id_kind_t = xdr_enum"
definition xdr_tbs_acl_permission_set_t :: "u64 xdrproc" where
  "xdr_tbs_acl_permission_set_t = xdr_u_long"

definition credutl_unix_sid_to_kernel_uid :: "credutl_sid_t \<Rightarrow> u32 option" where
  "credutl_unix_sid_to_kernel_uid sid =
    (if sid_type sid \<noteq> CREDUTL_SID_TYPE_UNIX then None
     else let uid = credutl_sid_to_unix_uid sid in
       if uid = ucast KS_UID_NOBODY then None else Some (ucast uid))"

definition credutl_unix_sid_to_kernel_gid :: "credutl_sid_t \<Rightarrow> u32 option" where
  "credutl_unix_sid_to_kernel_gid sid =
    (if sid_type sid \<noteq> CREDUTL_SID_TYPE_UNIX then None
     else let gid = credutl_sid_to_unix_gid sid in
       if gid = ucast KS_UID_NOBODY then None else Some (ucast gid))"

definition credutl_sid_to_kernel_uid :: "credutl_sid_t \<Rightarrow> u32 option" where
  "credutl_sid_to_kernel_uid = credutl_unix_sid_to_kernel_uid"

definition credutl_sid_to_kernel_gid :: "credutl_sid_t \<Rightarrow> u32 option" where
  "credutl_sid_to_kernel_gid = credutl_unix_sid_to_kernel_gid"

text \<open>The local \<open>sid\<close> is filled completely by its decode.\<close>
definition xdr_tbs_sid_acl_id_t :: "tbs_sid_acl_id_t xdrproc" where
  "xdr_tbs_sid_acl_id_t x obj =
    (if x_op x \<noteq> XDR_DECODE then XFalse
     else xdr_bind (xdr_at xdr_tbs_acl_id_kind_t si_kind si_kind_update x obj) (\<lambda>obj x.
     xdr_bind (xdr_long x (-1)) (\<lambda>size x.
     if size \<noteq> -1 then XFalse
     else xdr_bind (xdr_long x (-1)) (\<lambda>size x.
     if size \<noteq> -1 then XFalse
     else let obj = obj\<lparr>si_domain := None, si_name := None\<rparr> in
     xdr_bind (xdr_credutl_sid_t x CREDUTL_SID_NOBODY) (\<lambda>sid x.
     if si_kind obj = TBS_ACL_ID_USER then
       (case credutl_sid_to_kernel_uid sid of None \<Rightarrow> XFalse
        | Some uid \<Rightarrow> XTrue (obj\<lparr>si_principal_id := uid\<rparr>) x)
     else if si_kind obj = TBS_ACL_ID_GROUP then
       (case credutl_sid_to_kernel_gid sid of None \<Rightarrow> XFalse
        | Some gid \<Rightarrow> XTrue (obj\<lparr>si_principal_id := gid\<rparr>) x)
     else XTrue (obj\<lparr>si_principal_id := 0\<rparr>) x)))))"

definition xdr_tbs_acl_cooked_ent_t :: "tbs_acl_cooked_ent_t xdrproc" where
  "xdr_tbs_acl_cooked_ent_t = xdr_all [xdr_at xdr_tbs_sid_acl_id_t ce_id ce_id_update,
     xdr_at xdr_tbs_acl_permission_set_t ce_perm_set ce_perm_set_update]"

section \<open>Blocks\<close>

definition BLOCKSIZE :: u32 where "BLOCKSIZE = 50"

definition acl_zero_ent :: tbs_acl_cooked_ent_t where
  "acl_zero_ent = \<lparr>ce_id = \<lparr>si_kind = 0, si_domain = None, si_name = None, si_principal_id = 0\<rparr>,
     ce_perm_set = 0\<rparr>"

text \<open>The clean-up loop \<open>while (--i >= 0)\<close> behind a failed entry.  \<open>i\<close> is unsigned, the calls in the
  body do nothing (an entry refuses \<open>XDR_FREE\<close> at once).\<close>
partial_function (option) acl_unwind :: "u32 \<Rightarrow> unit option" where
  "acl_unwind i = (if i - 1 \<ge> 0 then acl_unwind (i - 1) else Some ())"

text \<open>The loop over the entries of a block; \<open>i + offset\<close> is computed in 32 bits and
  indexes the allocated array.  Only a decode touches the entry.\<close>
function acl_block_loop :: "u32 \<Rightarrow> u32 \<Rightarrow> nat \<Rightarrow> tbs_acl_cooked_ent_t list xdrproc" where
  "acl_block_loop limit offset i x ents =
    (if i \<ge> unat limit then XTrue ents x
     else let k = unat (of_nat i + offset) in
     if k \<ge> length ents \<and> x_op x = XDR_DECODE then XFault
     else case xdr_tbs_acl_cooked_ent_t x (if k < length ents then ents ! k else acl_zero_ent) of
       XTrue e x' \<Rightarrow> acl_block_loop limit offset (i + 1) x' (ents[k := e])
     | XFault \<Rightarrow> XFault
     | XHang \<Rightarrow> XHang
     | XFalse \<Rightarrow>
         if x_op x = XDR_DECODE then
           (case acl_unwind (of_nat i + offset) of None \<Rightarrow> XHang | Some _ \<Rightarrow> XFalse)
         else XFalse)"
  by pat_completeness auto
termination
  by (relation "measure (\<lambda>(limit, _, i, _). unat limit - i)") auto

declare acl_block_loop.simps [simp del]

text \<open>\<open>offset_p\<close>: \<open>None\<close> is a null pointer, the full transfer.  \<open>alloc\<close>: whether the array can be
  allocated; its result is cleared without a check.\<close>
definition xdr_tbs_acl_cooked_info_block ::
  "bool \<Rightarrow> (u32 option \<times> tbs_acl_cooked_info_t) xdrproc" where
  "xdr_tbs_acl_cooked_info_block alloc x obj = (case obj of (offset_p, info) \<Rightarrow>
    (case x_op x of
       XDR_ENCODE \<Rightarrow> (case offset_p of
           Some off \<Rightarrow>
             if off > ci_n_ents info then XFalse
             else let limit = min BLOCKSIZE (ci_n_ents info - off); n_ents = ci_n_ents info in
               xdr_bind (xdr_u_int x limit) (\<lambda>_ x.
               xdr_bind (xdr_u_int x n_ents) (\<lambda>_ x.
               xdr_bind (acl_block_loop limit off 0 x (ci_ents info)) (\<lambda>ents x.
                 XTrue (Some (if off + limit \<ge> n_ents then 0 else off + limit), info\<lparr>ci_ents := ents\<rparr>) x)))
         | None \<Rightarrow>
             xdr_bind (xdr_u_int x (ci_n_ents info)) (\<lambda>n x.
             xdr_bind (acl_block_loop n 0 0 x (ci_ents info)) (\<lambda>ents x.
               XTrue (None, info\<lparr>ci_ents := ents\<rparr>) x)))
     | XDR_DECODE \<Rightarrow>
         xdr_bind (xdr_u_int x 0) (\<lambda>n_ents x.
         xdr_bind (if offset_p = None then XTrue n_ents x else xdr_u_int x 0) (\<lambda>total_ents x.
         let offset = (case offset_p of None \<Rightarrow> 0 | Some off \<Rightarrow> off) in
         if offset = 0 then
           if \<not> alloc then XFault
           else xdr_bind (acl_block_loop n_ents 0 0 x (replicate (unat total_ents) acl_zero_ent)) (\<lambda>ents x.
             XTrue (offset_p, \<lparr>ci_n_ents = n_ents, ci_limit = total_ents, ci_ents = ents\<rparr>) x)
         else if ci_n_ents info + n_ents > ci_limit info then XFalse
         else xdr_bind (acl_block_loop n_ents offset 0 x (ci_ents info)) (\<lambda>ents x.
             XTrue (offset_p, info\<lparr>ci_n_ents := ci_n_ents info + n_ents, ci_ents := ents\<rparr>) x)))
     | XDR_FREE \<Rightarrow> (case offset_p of
           None \<Rightarrow> XFalse
         | Some off \<Rightarrow>
             xdr_bind (acl_block_loop (ci_n_ents info) off 0 x (ci_ents info)) (\<lambda>ents x.
               XTrue (offset_p, info\<lparr>ci_ents := []\<rparr>) x))))"

section \<open>Handles and fragments\<close>

text \<open>\<open>al_h\<close>, \<open>al_c\<close>, \<open>al_e\<close>: whether the allocations of the handle, of the cooked info and of the array
  succeed.  The object is the offset with the handle.\<close>
definition xdr_tbs_sid_acl_body ::
  "bool \<Rightarrow> bool \<Rightarrow> bool \<Rightarrow> (u32 option \<times> tbs_sid_acl_h_t) xdrproc" where
  "xdr_tbs_sid_acl_body al_h al_c al_e x obj = (case obj of (offset_p, aclh) \<Rightarrow>
    (case x_op x of
       XDR_FREE \<Rightarrow> XTrue (offset_p, fst (tbs_sid_acl_free aclh)) x
     | XDR_ENCODE \<Rightarrow>
         xdr_bind (xdr_bool x (if aclh = None then 1 else 0)) (\<lambda>_ x.
         case aclh of None \<Rightarrow> XTrue obj x
         | Some acl \<Rightarrow> (case ap_cooked acl of None \<Rightarrow> XFault
             | Some info \<Rightarrow>
                 xdr_bind (xdr_tbs_acl_cooked_info_block al_e x (offset_p, info)) (\<lambda>(off, info) x.
                   XTrue (off, Some (acl\<lparr>ap_cooked := Some info\<rparr>)) x)))
     | XDR_DECODE \<Rightarrow>
         xdr_bind (xdr_bool x 0) (\<lambda>null_handle x.
         if null_handle \<noteq> 0 then XTrue (offset_p, None) x
         else if offset_p = None \<or> aclh = None then
           if \<not> al_h then XFalse
           else if \<not> al_c then XFalse
           else xdr_bind (xdr_tbs_acl_cooked_info_block al_e x
                  (offset_p, \<lparr>ci_n_ents = 0, ci_limit = 0, ci_ents = []\<rparr>)) (\<lambda>(off, info) x.
                XTrue (off, Some \<lparr>ap_n_ents = 0, ap_ents = [], ap_cooked = Some info\<rparr>) x)
         else (case ap_cooked (the aclh) of None \<Rightarrow> XFault
           | Some info \<Rightarrow>
               xdr_bind (xdr_tbs_acl_cooked_info_block al_e x (offset_p, info)) (\<lambda>(off, info) x.
                 XTrue (off, Some ((the aclh)\<lparr>ap_cooked := Some info\<rparr>)) x)))))"

definition xdr_tbs_sid_acl_h_t :: "bool \<Rightarrow> bool \<Rightarrow> bool \<Rightarrow> tbs_sid_acl_h_t xdrproc" where
  "xdr_tbs_sid_acl_h_t al_h al_c al_e x aclh =
     xdr_bind (xdr_tbs_sid_acl_body al_h al_c al_e x (None, aclh)) (\<lambda>(_, aclh) x. XTrue aclh x)"

definition xdr_tbs_sid_acl_fragment_t ::
  "bool \<Rightarrow> bool \<Rightarrow> bool \<Rightarrow> (u32 \<times> tbs_sid_acl_h_t) xdrproc" where
  "xdr_tbs_sid_acl_fragment_t al_h al_c al_e x obj =
     xdr_bind (xdr_tbs_sid_acl_body al_h al_c al_e x (Some (fst obj), snd obj)) (\<lambda>(off, aclh) x.
       XTrue (the off, aclh) x)"

record view_eacl_rolemap_reply_t =
  err_hdr :: view_hdr_reply_t
  err_cursor :: view_eacl_cursor_t
  err_eaclh :: tbs_sid_acl_h_t
  err_eacl_mtime :: timeval
  err_policy_oid :: tbs_oid_t

definition xdr_view_eacl_rolemap_reply_t ::
  "bool \<Rightarrow> bool \<Rightarrow> bool \<Rightarrow> view_eacl_rolemap_reply_t xdrproc" where
  "xdr_view_eacl_rolemap_reply_t al_h al_c al_e x obj =
    xdr_bind (xdr_at xdr_view_hdr_reply_t err_hdr err_hdr_update x obj) (\<lambda>obj x.
     if hr_status (err_hdr obj) \<noteq> 0 then XTrue obj x
     else xdr_bind (xdr_tbs_sid_acl_fragment_t al_h al_c al_e x
            (ec_next_offset (err_cursor obj), err_eaclh obj)) (\<lambda>(off, aclh) x.
       xdr_all [xdr_at xdr_view_eacl_cursor_t err_cursor err_cursor_update,
          xdr_at xdr_timeval err_eacl_mtime err_eacl_mtime_update,
          xdr_at xdr_tbs_oid_t err_policy_oid err_policy_oid_update] x
        (obj\<lparr>err_cursor := (err_cursor obj)\<lparr>ec_next_offset := off\<rparr>, err_eaclh := aclh\<rparr>)))"

section \<open>The wire format of a sender\<close>

text \<open>The SID a sender puts into an entry.\<close>
definition ace_sid :: "tbs_acl_cooked_ent_t \<Rightarrow> credutl_sid_t" where
  "ace_sid e =
    (if si_kind (ce_id e) = TBS_ACL_ID_USER
     then credutl_unix_uid_to_sid (si_principal_id (ce_id e)) CREDUTL_SID_NOBODY
     else if si_kind (ce_id e) = TBS_ACL_ID_GROUP
     then credutl_unix_gid_to_sid (si_principal_id (ce_id e)) CREDUTL_SID_NOBODY
     else CREDUTL_SID_NOBODY)"

definition wire_ace :: "tbs_acl_cooked_ent_t \<Rightarrow> byte list" where
  "wire_ace e = be32 (si_kind (ce_id e)) @ wire_long (-1) @ wire_long (-1) @ wire_sid (ace_sid e)
     @ wire_long (ce_perm_set e)"

text \<open>The entries the kernel form can hold: no strings, no nobody as user or group, no principal
  with the other kinds.\<close>
definition ok_ace :: "tbs_acl_cooked_ent_t \<Rightarrow> bool" where
  "ok_ace e \<longleftrightarrow> si_domain (ce_id e) = None \<and> si_name (ce_id e) = None \<and> ok_u_long (ce_perm_set e) \<and>
     (if si_kind (ce_id e) = TBS_ACL_ID_USER \<or> si_kind (ce_id e) = TBS_ACL_ID_GROUP
      then si_principal_id (ce_id e) \<noteq> KS_UID_NOBODY else si_principal_id (ce_id e) = 0)"

definition wire_aces :: "tbs_acl_cooked_ent_t list \<Rightarrow> byte list" where
  "wire_aces es = concat (map wire_ace es)"

text \<open>The block of a list of entries that starts at an offset.\<close>
definition wire_acl_block :: "nat \<Rightarrow> nat \<Rightarrow> tbs_acl_cooked_ent_t list \<Rightarrow> byte list" where
  "wire_acl_block off count es =
     be32 (of_nat count) @ be32 (of_nat (length es)) @ wire_aces (take count (drop off es))"

section \<open>Decoding entries\<close>

lemma ok_sid_id_to_sid [simp]:
  assumes "wf_sid s"
  shows "ok_sid (credutl_unix_id_to_sid i t s)"
  using id_to_sid_fields [OF assms] by (simp add: ok_sid_def)

lemma sid_canon_id_to_sid:
  "sid_canon (credutl_unix_id_to_sid i t CREDUTL_SID_NOBODY) = credutl_unix_id_to_sid i t CREDUTL_SID_NOBODY"
proof -
  have r: "replicate 32 (0 :: byte) = 0 # 0 # 0 # 0 # 0 # replicate 27 0"
    by (simp add: eval_nat_numeral)
  have "sid_bytes (credutl_unix_id_to_sid i t CREDUTL_SID_NOBODY) = be32 i @ t # replicate 27 0"
    by (simp add: credutl_unix_id_to_sid_def CREDUTL_SID_NOBODY_def sid_consts r id_bytes_be32 be32_def
        numeral_eq_Suc)
  then show ?thesis
    by (simp add: sid_canon_def sid_payload_def sid_consts)
qed

lemma ok_sid_NOBODY [simp]: "ok_sid CREDUTL_SID_NOBODY"
  by (simp add: ok_sid_def) (simp add: CREDUTL_SID_NOBODY_def)

lemma ok_ace_sid [simp]: "ok_sid (ace_sid e)"
  by (simp add: ace_sid_def credutl_unix_uid_to_sid_def credutl_unix_gid_to_sid_def)

lemma ok_long_minus_1 [simp]: "ok_long (-1)"
  by (simp add: ok_long_def)

lemma ucast_nobody_iff [simp]: "(ucast (a :: u32) :: u64) = ucast b \<longleftrightarrow> a = b"
  by (metis ucast_up_down)

lemma decode_ace:
  assumes "x_op x = XDR_DECODE" and "ok_ace e"
  shows "xdr_tbs_acl_cooked_ent_t (xgive x (wire_ace e @ r)) e0 = XTrue e (xgive x r)"
proof -
  have "sid_canon CREDUTL_SID_NOBODY = CREDUTL_SID_NOBODY"
    by (simp add: sid_canon_def sid_payload_def CREDUTL_SID_NOBODY_def sid_consts)
  then have canon: "sid_canon (ace_sid e) = ace_sid e"
    by (simp add: ace_sid_def credutl_unix_uid_to_sid_def credutl_unix_gid_to_sid_def
        sid_canon_id_to_sid)
  have uid: "si_kind (ce_id e) = TBS_ACL_ID_USER \<Longrightarrow>
      credutl_sid_to_kernel_uid (ace_sid e) = Some (si_principal_id (ce_id e))"
    and gid: "si_kind (ce_id e) = TBS_ACL_ID_GROUP \<Longrightarrow>
      credutl_sid_to_kernel_gid (ace_sid e) = Some (si_principal_id (ce_id e))"
    using assms(2)
    by (simp_all add: ok_ace_def ace_sid_def credutl_sid_to_kernel_uid_def credutl_sid_to_kernel_gid_def
        credutl_unix_sid_to_kernel_uid_def credutl_unix_sid_to_kernel_gid_def Let_def sid_consts
        credutl_unix_uid_to_sid_def credutl_unix_gid_to_sid_def acl_kinds)
  note simps = xdr_tbs_acl_cooked_ent_t_def xdr_tbs_sid_acl_id_t_def wire_ace_def xdr_at_def
    xdr_tbs_acl_id_kind_t_def xdr_tbs_acl_permission_set_t_def xdr_rules canon Let_def ok_ace_def
  consider (u) "si_kind (ce_id e) = TBS_ACL_ID_USER" | (g) "si_kind (ce_id e) = TBS_ACL_ID_GROUP"
    | (o) "si_kind (ce_id e) \<noteq> TBS_ACL_ID_USER \<and> si_kind (ce_id e) \<noteq> TBS_ACL_ID_GROUP" by blast
  then show ?thesis
  proof cases
    case u
    then show ?thesis using assms uid by (simp add: simps)
  next
    case g
    then have "TBS_ACL_ID_GROUP \<noteq> TBS_ACL_ID_USER" by (simp add: acl_kinds)
    then show ?thesis using assms g gid by (simp add: simps)
  next
    case o
    then show ?thesis using assms by (simp add: simps)
  qed
qed

text \<open>The loop takes well-formed entries one after the other into the array.\<close>
lemma decode_aces_prefix:
  assumes "x_op x = XDR_DECODE" and "\<forall>e\<in>set es. ok_ace e"
    and "i + length es \<le> unat limit" and "i + unat offset + length es \<le> length ents"
    and "length ents < 2 ^ 32"
  shows "acl_block_loop limit offset i (xgive x (wire_aces es @ r)) ents
    = acl_block_loop limit offset (i + length es) (xgive x r)
        (take (i + unat offset) ents @ es @ drop (i + unat offset + length es) ents)"
  using assms(2-)
proof (induction es arbitrary: i ents)
  case Nil
  then show ?case by (simp add: wire_aces_def)
next
  case (Cons e es)
  let ?k = "i + unat offset"
  have "of_nat i + offset = of_nat ?k" by simp
  then have k: "unat (of_nat i + offset) = ?k"
    using Cons.prems(3,4) by (simp only: unat_of_nat) (simp add: take_bit_nat_eq_self)
  have "acl_block_loop limit offset i (xgive x (wire_aces (e # es) @ r)) ents
    = acl_block_loop limit offset (i + 1) (xgive x (wire_aces es @ r)) (ents[?k := e])"
    using Cons.prems assms(1) k
    by (subst acl_block_loop.simps) (simp add: wire_aces_def decode_ace Let_def)
  also have "\<dots> = acl_block_loop limit offset (i + 1 + length es) (xgive x r)
      (take (?k + 1) (ents[?k := e]) @ es @ drop (?k + 1 + length es) (ents[?k := e]))"
    using Cons.IH [of "i + 1" "ents[?k := e]"] Cons.prems by simp
  also have "take (?k + 1) (ents[?k := e]) @ es @ drop (?k + 1 + length es) (ents[?k := e])
      = take ?k ents @ (e # es) @ drop (?k + length (e # es)) ents"
    using Cons.prems by (simp add: take_Suc_conv_app_nth)
  finally show ?case by simp
qed

lemma decode_aces:
  assumes "x_op x = XDR_DECODE" and "\<forall>e\<in>set es. ok_ace e"
    and "length es = unat limit" and "unat offset + length es \<le> length ents"
    and "length ents < 2 ^ 32"
  shows "acl_block_loop limit offset 0 (xgive x (wire_aces es @ r)) ents
    = XTrue (take (unat offset) ents @ es @ drop (unat offset + length es) ents) (xgive x r)"
proof -
  have "acl_block_loop limit offset (length es) y ents' = XTrue ents' y" for y ents'
    using assms(3) by (subst acl_block_loop.simps) simp
  then show ?thesis
    using decode_aces_prefix [of x es 0 limit offset ents r] assms by simp
qed

section \<open>Fragments\<close>

text \<open>The handle after the first \<open>n\<close> entries of a list have arrived.\<close>
definition partial_acl :: "nat \<Rightarrow> tbs_acl_cooked_ent_t list \<Rightarrow> tbs_acl_pvt_t" where
  "partial_acl n es = \<lparr>ap_n_ents = 0, ap_ents = [], ap_cooked = Some \<lparr>ci_n_ents = of_nat n,
     ci_limit = of_nat (length es), ci_ents = take n es @ replicate (length es - n) acl_zero_ent\<rparr>\<rparr>"

definition wire_fragment :: "nat \<Rightarrow> nat \<Rightarrow> tbs_acl_cooked_ent_t list \<Rightarrow> byte list" where
  "wire_fragment off count es = be32 0 @ wire_acl_block off count es"

lemma unat_of_nat_u32: "n < 2 ^ 32 \<Longrightarrow> unat (of_nat n :: u32) = n"
  by (simp add: unat_of_nat take_bit_nat_eq_self)

lemma partial_acl_aces: "n \<le> length es \<Longrightarrow> length es < 2 ^ 32 \<Longrightarrow> acl_aces (partial_acl n es) = take n es"
  by (simp add: acl_aces_def partial_acl_def unat_of_nat_u32)

lemma partial_acl_wf: "n \<le> length es \<Longrightarrow> length es < 2 ^ 32 \<Longrightarrow> wf_acl (partial_acl n es)"
  by (simp add: wf_acl_def partial_acl_def unat_of_nat_u32)

lemma decode_first_fragment:
  assumes "x_op x = XDR_DECODE" and "\<forall>e\<in>set es. ok_ace e"
    and "count \<le> length es" and "length es < 2 ^ 32"
  shows "xdr_tbs_sid_acl_fragment_t True True True (xgive x (wire_fragment 0 count es @ r)) (0, None)
    = XTrue (0, Some (partial_acl count es)) (xgive x r)"
proof -
  have ok: "\<forall>e\<in>set (take count es). ok_ace e" using assms(2) by (meson in_set_takeD)
  note loop = decode_aces [OF assms(1) ok, of "of_nat count" 0 "replicate (length es) acl_zero_ent" r]
  show ?thesis
    using assms loop
    by (simp add: xdr_tbs_sid_acl_fragment_t_def xdr_tbs_sid_acl_body_def wire_fragment_def
        wire_acl_block_def xdr_tbs_acl_cooked_info_block_def xdr_rules unat_of_nat_u32 partial_acl_def
        Let_def)
qed

lemma decode_next_fragment:
  assumes "x_op x = XDR_DECODE" and "\<forall>e\<in>set es. ok_ace e"
    and "0 < off" and "off + count \<le> length es" and "length es < 2 ^ 32"
  shows "xdr_tbs_sid_acl_fragment_t True True True (xgive x (wire_fragment off count es @ r))
      (of_nat off, Some (partial_acl off es))
    = XTrue (of_nat off, Some (partial_acl (off + count) es)) (xgive x r)"
proof -
  let ?b = "take count (drop off es)"
  have ok: "\<forall>e\<in>set ?b. ok_ace e" using assms(2) by (meson in_set_takeD in_set_dropD)
  have off0: "(of_nat off :: u32) \<noteq> 0"
    using assms(3-5) unat_of_nat_u32 [of off] by auto
  have "unat (of_nat off + of_nat count :: u32) = off + count"
    using assms(4,5) unat_of_nat_u32 [of "off + count"] by simp
  then have le: "\<not> (of_nat off + of_nat count :: u32) > of_nat (length es)"
    using assms(4,5) unat_of_nat_u32 [of "length es"] by (simp add: word_less_nat_alt)
  have app: "take off es @ ?b = take (off + count) es" by (simp add: take_add)
  note loop = decode_aces [OF assms(1) ok, of "of_nat count" "of_nat off"
      "take off es @ replicate (length es - off) acl_zero_ent" r]
  show ?thesis
    using assms loop off0 le app
    by (simp add: xdr_tbs_sid_acl_fragment_t_def xdr_tbs_sid_acl_body_def wire_fragment_def
        wire_acl_block_def xdr_tbs_acl_cooked_info_block_def xdr_rules unat_of_nat_u32 partial_acl_def
        Let_def)
qed

section \<open>Malformed input\<close>

lemma acl_unwind_diverges: "acl_unwind i = None"
proof -
  have "False" if "acl_unwind i = Some u" for u
    using that by (rule acl_unwind.raw_induct [where P = "\<lambda>_ _. False", rotated]) (auto split: if_splits)
  then show ?thesis by (cases "acl_unwind i") auto
qed

text \<open>C33: an entry that does not decode makes the routine hang: the loop that is to release the
  entries in front of it runs down an unsigned counter and never ends.\<close>
theorem acl_bad_entry_hangs:
  assumes "x_op x = XDR_DECODE" and "\<forall>e\<in>set es. ok_ace e" and "length es < unat limit"
    and "length es < length ents" and "length ents < 2 ^ 32"
    and "\<And>e0. xdr_tbs_acl_cooked_ent_t (xgive x r) e0 = XFalse"
  shows "acl_block_loop limit 0 0 (xgive x (wire_aces es @ r)) ents = XHang"
proof -
  have "acl_block_loop limit 0 (length es) (xgive x r) ents' = XHang"
    if "length ents' = length ents" for ents'
    using assms that
    by (subst acl_block_loop.simps) (simp add: acl_unwind_diverges Let_def unat_of_nat_u32)
  then show ?thesis
    using decode_aces_prefix [of x es 0 limit 0 ents r] assms by simp
qed

definition acl_bad_entry :: "byte list" where
  "acl_bad_entry = be32 TBS_ACL_ID_ALL @ wire_long 0 @ [0]"

definition xdr_decoder :: XDR where
  "xdr_decoder = \<lparr>x_op = XDR_DECODE, x_put = [], x_room = 0, x_get = []\<rparr>"

lemma xdr_decoder_op [simp]: "x_op xdr_decoder = XDR_DECODE"
  by (simp add: xdr_decoder_def)

theorem acl_bad_entry_hangs_witness:
  "acl_block_loop 1 0 0 (xgive xdr_decoder (wire_aces [] @ acl_bad_entry)) [acl_zero_ent] = XHang"
  by (rule acl_bad_entry_hangs)
    (simp_all add: acl_bad_entry_def xdr_tbs_acl_cooked_ent_t_def xdr_tbs_sid_acl_id_t_def xdr_at_def
      xdr_tbs_acl_id_kind_t_def xdr_rules ok_long_def)

text \<open>C34: the first block of a list is not checked against the array it makes the receiver
  allocate: when it announces more entries than the list has in total, the entry behind the
  last one is written outside of the array.\<close>
theorem acl_first_block_overflow:
  assumes "x_op x = XDR_DECODE" and "\<forall>e\<in>set es. ok_ace e"
    and "length es < count" and "count < 2 ^ 32"
  shows "xdr_tbs_sid_acl_fragment_t True True True
     (xgive x (be32 0 @ be32 (of_nat count) @ be32 (of_nat (length es)) @ wire_aces es @ r)) (0, None)
    = XFault"
proof -
  have "acl_block_loop (of_nat count) 0 (length es) (xgive x r) ents' = XFault"
    if "length ents' = length es" for ents'
    using assms that by (subst acl_block_loop.simps) (simp add: Let_def unat_of_nat_u32)
  then have "acl_block_loop (of_nat count) 0 0 (xgive x (wire_aces es @ r))
      (replicate (length es) acl_zero_ent) = XFault"
    using decode_aces_prefix [of x es 0 "of_nat count" 0 "replicate (length es) acl_zero_ent" r] assms
    by (simp add: unat_of_nat_u32)
  then show ?thesis
    using assms
    by (simp add: xdr_tbs_sid_acl_fragment_t_def xdr_tbs_sid_acl_body_def
        xdr_tbs_acl_cooked_info_block_def xdr_rules unat_of_nat_u32 Let_def)
qed

theorem acl_first_block_overflow_witness:
  "xdr_tbs_sid_acl_fragment_t True True True
     (xgive xdr_decoder (be32 0 @ be32 1 @ be32 0 @ wire_aces [] @ [])) (0, None) = XFault"
  using acl_first_block_overflow [of xdr_decoder "[]" 1 "[]"] by simp

end
