(* ===== verification/Mvfs_Dlist.thy ===== *)
theory Mvfs_Dlist
  imports Mvfs_Prelude
begin

text \<open>The circular doubly linked lists of the module: the list macros of mvfs\_base.h, the LRU and hash
  chain macros of mvfs\_dncops.c and the chain operations of mvfs\_acl.c work on a pair of
  pointers in every element and in the list head.  Here they are assignments to two
  pointer fields over addresses.  The locale \<open>ring_ops\<close> states what they mean for the list a
  head stands for; each family of macros is an instance.\<close>

type_synonym addr = nat

definition NULL :: addr where "NULL = 0"

text \<open>The \<open>next\<close> and \<open>prev\<close> fields of all elements and heads.\<close>
record links =
  l_next :: "addr \<Rightarrow> addr"
  l_prev :: "addr \<Rightarrow> addr"

definition set_next :: "addr \<Rightarrow> addr \<Rightarrow> links \<Rightarrow> links" where
  "set_next a v h = h\<lparr>l_next := (l_next h)(a := v)\<rparr>"

definition set_prev :: "addr \<Rightarrow> addr \<Rightarrow> links \<Rightarrow> links" where
  "set_prev a v h = h\<lparr>l_prev := (l_prev h)(a := v)\<rparr>"

section \<open>The macros\<close>

definition INIT_LIST :: "addr \<Rightarrow> links \<Rightarrow> links" where
  "INIT_LIST name h = set_next name name (set_prev name name h)"

definition ADD_TO_EOL :: "addr \<Rightarrow> addr \<Rightarrow> links \<Rightarrow> links" where
  "ADD_TO_EOL lp item h =
    (let h = set_prev item (l_prev h lp) h;
         h = set_next item (l_next h (l_prev h lp)) h;
         h = set_next (l_prev h lp) item h
     in set_prev lp item h)"

definition ADD_TO_BOL :: "addr \<Rightarrow> addr \<Rightarrow> links \<Rightarrow> links" where
  "ADD_TO_BOL lp item h =
    (let h = set_next item (l_next h lp) h;
         h = set_prev item (l_prev h (l_next h lp)) h;
         h = set_prev (l_next h lp) item h
     in set_next lp item h)"

definition RM_LIST :: "addr \<Rightarrow> links \<Rightarrow> links" where
  "RM_LIST item h =
    (if l_next h item \<noteq> NULL then
       let h = set_prev (l_next h item) (l_prev h item) h;
           h = set_next (l_prev h item) (l_next h item) h;
           h = set_next item NULL h
       in set_prev item NULL h
     else h)"

text \<open>The name cache macros insert after the element they are given; \<open>NC_INSHASH_LOCKED\<close> and
  \<open>NC_RMHASH_LOCKED\<close> do the same with the hash chain pointers, and \<open>mvfs_eaclhash_add_entry\<close>
  and \<open>mvfs_eaclhash_remove_entry\<close> with those of the EACL entries.  These are the links alone: the hash value
  that \<open>NC_RMHASH_LOCKED\<close> resets as well is a field of the entry.\<close>
definition NC_INSLRU_LOCKED :: "addr \<Rightarrow> addr \<Rightarrow> links \<Rightarrow> links" where
  "NC_INSLRU_LOCKED LRUP dp h =
    (let h = set_next dp (l_next h LRUP) h;
         h = set_prev dp LRUP h;
         h = set_prev (l_next h LRUP) dp h
     in set_next LRUP dp h)"

definition NC_RMLRU_LOCKED :: "addr \<Rightarrow> links \<Rightarrow> links" where
  "NC_RMLRU_LOCKED dp h =
    (let h = set_prev (l_next h dp) (l_prev h dp) h;
         h = set_next (l_prev h dp) (l_next h dp) h;
         h = set_prev dp NULL h
     in set_next dp NULL h)"

definition NC_INSHASH_LOCKED :: "addr \<Rightarrow> addr \<Rightarrow> links \<Rightarrow> links" where
  "NC_INSHASH_LOCKED HP dp h =
    (let h = set_next dp (l_next h HP) h;
         h = set_prev dp HP h;
         h = set_prev (l_next h HP) dp h
     in set_next HP dp h)"

definition NC_RMHASH_LOCKED :: "addr \<Rightarrow> links \<Rightarrow> links" where
  "NC_RMHASH_LOCKED dp h =
    (let h = set_prev (l_next h dp) (l_prev h dp) h;
         h = set_next (l_prev h dp) (l_next h dp) h;
         h = set_prev dp NULL h
     in set_next dp NULL h)"

section \<open>Rings\<close>

text \<open>\<open>chain h a xs b\<close>: from \<open>a\<close> the \<open>next\<close> fields lead over \<open>xs\<close> to \<open>b\<close>, and the \<open>prev\<close> fields back.\<close>
fun chain :: "links \<Rightarrow> addr \<Rightarrow> addr list \<Rightarrow> addr \<Rightarrow> bool" where
  "chain h a [] b \<longleftrightarrow> l_next h a = b \<and> l_prev h b = a"
| "chain h a (x # xs) b \<longleftrightarrow> l_next h a = x \<and> l_prev h x = a \<and> chain h x xs b"

definition ring :: "links \<Rightarrow> addr \<Rightarrow> addr list \<Rightarrow> bool" where
  "ring h hp xs \<longleftrightarrow> distinct (hp # xs) \<and> NULL \<notin> set (hp # xs) \<and> chain h hp xs hp"

text \<open>The contract: insertion behind the head, insertion in front of the head, removal of any
  element; other rings are left alone.\<close>
locale ring_ops =
  fixes ins :: "addr \<Rightarrow> addr \<Rightarrow> links \<Rightarrow> links" and rm :: "addr \<Rightarrow> links \<Rightarrow> links"
  assumes ins_after: "ring h hp (xs @ ys) \<Longrightarrow> p = last (hp # xs) \<Longrightarrow> a \<notin> set (hp # xs @ ys) \<Longrightarrow>
      a \<noteq> NULL \<Longrightarrow> ring (ins p a h) hp (xs @ a # ys)"
    and rm_elem: "ring h hp (xs @ a # ys) \<Longrightarrow> ring (rm a h) hp (xs @ ys)"
    and ins_other: "ring h hp xs \<Longrightarrow> ring h hp' ys \<Longrightarrow> p \<in> set (hp' # ys) \<Longrightarrow>
      a \<notin> set (hp # xs) \<Longrightarrow> a \<notin> set (hp' # ys) \<Longrightarrow> set (hp # xs) \<inter> set (hp' # ys) = {} \<Longrightarrow> ring (ins p a h) hp xs"
    and rm_other: "ring h hp xs \<Longrightarrow> ring h hp' ys \<Longrightarrow> a \<in> set ys \<Longrightarrow>
      set (hp # xs) \<inter> set (hp' # ys) = {} \<Longrightarrow> ring (rm a h) hp xs"
begin

lemma ins_front: "ring h hp xs \<Longrightarrow> a \<notin> set (hp # xs) \<Longrightarrow> a \<noteq> NULL \<Longrightarrow> ring (ins hp a h) hp (a # xs)"
  using ins_after [of h hp "[]" xs hp a] by simp

lemma ins_back:
  "ring h hp xs \<Longrightarrow> a \<notin> set (hp # xs) \<Longrightarrow> a \<noteq> NULL \<Longrightarrow> ring (ins (last (hp # xs)) a h) hp (xs @ [a])"
  using ins_after [of h hp xs "[]" _ a] by simp

text \<open>Moving an element to the back of its ring, the \<open>use\<close> of an LRU list.\<close>
lemma move_to_back:
  assumes "ring h hp (xs @ a # ys)"
  shows "ring (ins (last (hp # xs @ ys)) a (rm a h)) hp (xs @ ys @ [a])"
proof -
  have "ring (rm a h) hp (xs @ ys)" using assms by (rule rm_elem)
  moreover have "a \<notin> set (hp # xs @ ys)" "a \<noteq> NULL" using assms by (auto simp: ring_def)
  ultimately show ?thesis using ins_back [of "rm a h" hp "xs @ ys" a] by simp
qed

text \<open>An element that is inserted and removed leaves the list as it was.\<close>
lemma ins_rm: "ring h hp xs \<Longrightarrow> a \<notin> set (hp # xs) \<Longrightarrow> a \<noteq> NULL \<Longrightarrow> ring (rm a (ins hp a h)) hp xs"
  using ins_front [of h hp xs a] rm_elem [of "ins hp a h" hp "[]" a xs] by simp

end

section \<open>The macros satisfy the contract\<close>

lemma chain_append:
  "chain h a (xs @ x # ys) b \<longleftrightarrow> chain h a xs x \<and> chain h x ys b"
  by (induction xs arbitrary: a) auto

lemma chain_last_next: "chain h a xs b \<Longrightarrow> l_next h (last (a # xs)) = b \<and> l_prev h b = last (a # xs)"
  by (induction xs arbitrary: a) (auto split: if_splits)

text \<open>A chain only depends on the \<open>next\<close> fields of its start and its elements and on the \<open>prev\<close>
  fields of its elements and its end.\<close>
lemma chain_cong:
  assumes "chain h a xs b"
    and "\<And>x. x \<in> set (a # xs) \<Longrightarrow> l_next h' x = l_next h x"
    and "\<And>x. x \<in> set (xs @ [b]) \<Longrightarrow> l_prev h' x = l_prev h x"
  shows "chain h' a xs b"
  using assms by (induction xs arbitrary: a) auto

text \<open>The effect of an insertion and of a removal on the two fields.\<close>
definition linked_after :: "addr \<Rightarrow> addr \<Rightarrow> links \<Rightarrow> links" where
  "linked_after p a h = \<lparr>l_next = (l_next h)(a := l_next h p, p := a),
     l_prev = (l_prev h)(a := p, l_next h p := a)\<rparr>"

definition unlinked :: "addr \<Rightarrow> links \<Rightarrow> links" where
  "unlinked a h = \<lparr>l_next = (l_next h)(l_prev h a := l_next h a, a := NULL),
     l_prev = (l_prev h)(l_next h a := l_prev h a, a := NULL)\<rparr>"

lemma chain_redirect:
  assumes "chain h a xs b" and "distinct (a # xs)" and "c \<notin> set xs"
    and "\<And>x. x \<in> set (a # xs) \<Longrightarrow> x \<noteq> last (a # xs) \<Longrightarrow> l_next h' x = l_next h x"
    and "\<And>x. x \<in> set xs \<Longrightarrow> l_prev h' x = l_prev h x"
    and "l_next h' (last (a # xs)) = c" and "l_prev h' c = last (a # xs)"
  shows "chain h' a xs c"
  using assms
proof (induction xs arbitrary: a)
  case Nil
  then show ?case by simp
next
  case (Cons x xs)
  have "l_next h' a = l_next h a" using Cons.prems(2,4) by (intro Cons.prems(4)) auto
  moreover have "chain h' x xs c"
    using Cons.prems by (intro Cons.IH) auto
  ultimately show ?case using Cons.prems by auto
qed

lemma linked_after_ring:
  assumes r: "ring h hp (xs @ ys)" and p: "p = last (hp # xs)" and a: "a \<notin> set (hp # xs @ ys)" "a \<noteq> NULL"
  shows "ring (linked_after p a h) hp (xs @ a # ys)"
proof -
  let ?h = "linked_after p a h"
  have d: "distinct (hp # xs @ ys)" and n: "NULL \<notin> set (hp # xs @ ys)"
    using r by (auto simp: ring_def)
  have pin: "p \<in> set (hp # xs)" by (simp add: p)
  have "chain ?h hp xs a \<and> chain ?h a ys hp"
  proof (cases ys)
    case Nil
    then have c: "chain h hp xs hp" using r by (simp add: ring_def)
    note l = chain_last_next [OF c, folded p]
    have "chain ?h hp xs a"
      using a d l by (intro chain_redirect [OF c]) (auto simp: linked_after_def p Nil)
    then show ?thesis using l pin a d by (auto simp: Nil linked_after_def)
  next
    case (Cons y ys')
    then have c: "chain h hp xs y" "chain h y ys' hp" using r by (simp_all add: ring_def chain_append)
    note l = chain_last_next [OF c(1), folded p]
    have py: "p \<notin> set ys" "p \<noteq> a" using pin d a by auto
    have "chain ?h hp xs a"
      using a d l by (intro chain_redirect [OF c(1)]) (auto simp: linked_after_def p Cons)
    moreover have "chain ?h y ys' hp"
      using a d l py by (intro chain_cong [OF c(2)]) (auto simp: linked_after_def Cons)
    ultimately show ?thesis using l py by (auto simp: Cons linked_after_def)
  qed
  then show ?thesis using d n a by (auto simp: ring_def chain_append)
qed

lemma unlinked_ring:
  assumes r: "ring h hp (xs @ a # ys)"
  shows "ring (unlinked a h) hp (xs @ ys)"
proof -
  let ?h = "unlinked a h" and ?p = "last (hp # xs)"
  have d: "distinct (hp # xs @ a # ys)" and n: "NULL \<notin> set (hp # xs @ a # ys)"
    using r by (auto simp: ring_def)
  have c: "chain h hp xs a" "chain h a ys hp" using r by (simp_all add: ring_def chain_append)
  note l = chain_last_next [OF c(1)]
  have pin: "?p \<in> set (hp # xs)" by (rule last_in_set) simp
  then have pa: "?p \<noteq> a" "?p \<notin> set ys" using d by auto
  have "chain ?h hp (xs @ ys) hp"
  proof (cases ys)
    case Nil
    have na: "l_next h a = hp" using c(2) Nil by simp
    have "chain ?h hp xs hp"
      using d l na pa by (intro chain_redirect [OF c(1)]) (auto simp: unlinked_def Nil split: if_splits)
    then show ?thesis by (simp add: Nil)
  next
    case (Cons y ys')
    have na: "l_next h a = y" "chain h y ys' hp" using c(2) Cons by simp_all
    have "chain ?h hp xs y"
      using d l na pa by (intro chain_redirect [OF c(1)]) (auto simp: unlinked_def Cons split: if_splits)
    moreover have "chain ?h y ys' hp"
      using d l na pa by (intro chain_cong [OF na(2)]) (auto simp: unlinked_def Cons split: if_splits)
    ultimately show ?thesis by (simp add: Cons chain_append)
  qed
  then show ?thesis using d n by (auto simp: ring_def)
qed

lemma chain_closed:
  "chain h a xs b \<Longrightarrow> x \<in> set (a # xs) \<Longrightarrow> l_next h x \<in> set (xs @ [b])"
  "chain h a xs b \<Longrightarrow> x \<in> set (xs @ [b]) \<Longrightarrow> l_prev h x \<in> set (a # xs)"
  by (induction xs arbitrary: a) auto

lemma ring_closed:
  assumes "ring h hp xs" and "x \<in> set (hp # xs)"
  shows "l_next h x \<in> set (hp # xs) \<and> l_prev h x \<in> set (hp # xs)"
  using assms chain_closed [of h hp xs hp x] by (auto simp: ring_def)

lemma linked_after_other:
  assumes "ring h hp xs" and "ring h hp' ys" and "p \<in> set (hp' # ys)" and "a \<notin> set (hp # xs)"
    and "set (hp # xs) \<inter> set (hp' # ys) = {}"
  shows "ring (linked_after p a h) hp xs"
proof -
  have "l_next h p \<in> set (hp' # ys)" using ring_closed [OF assms(2,3)] by simp
  then have ne: "x \<noteq> p \<and> x \<noteq> a \<and> x \<noteq> l_next h p" if "x \<in> set (hp # xs)" for x
    using that assms(3-5) by blast
  have "chain (linked_after p a h) hp xs hp"
  proof (rule chain_cong)
    show "chain h hp xs hp" using assms(1) by (simp add: ring_def)
    show "l_next (linked_after p a h) x = l_next h x" if "x \<in> set (hp # xs)" for x
      using ne [OF that] by (simp add: linked_after_def)
    show "l_prev (linked_after p a h) x = l_prev h x" if "x \<in> set (xs @ [hp])" for x
      using ne [of x] that by (auto simp: linked_after_def)
  qed
  then show ?thesis using assms(1) by (simp add: ring_def)
qed

lemma unlinked_other:
  assumes "ring h hp xs" and "ring h hp' ys" and "a \<in> set ys"
    and "set (hp # xs) \<inter> set (hp' # ys) = {}"
  shows "ring (unlinked a h) hp xs"
proof -
  have "l_next h a \<in> set (hp' # ys) \<and> l_prev h a \<in> set (hp' # ys)"
    using ring_closed [OF assms(2), of a] assms(3) by simp
  then have ne: "x \<noteq> a \<and> x \<noteq> l_next h a \<and> x \<noteq> l_prev h a" if "x \<in> set (hp # xs)" for x
    using that assms(3,4) by (metis disjoint_iff list.set_intros(2))
  have "chain (unlinked a h) hp xs hp"
  proof (rule chain_cong)
    show "chain h hp xs hp" using assms(1) by (simp add: ring_def)
    show "l_next (unlinked a h) x = l_next h x" if "x \<in> set (hp # xs)" for x
      using ne [OF that] by (simp add: unlinked_def)
    show "l_prev (unlinked a h) x = l_prev h x" if "x \<in> set (xs @ [hp])" for x
      using ne [of x] that by (auto simp: unlinked_def)
  qed
  then show ?thesis using assms(1) by (simp add: ring_def)
qed

lemma nc_ins_eq: "a \<noteq> p \<Longrightarrow> NC_INSLRU_LOCKED p a h = linked_after p a h"
  "a \<noteq> p \<Longrightarrow> NC_INSHASH_LOCKED p a h = linked_after p a h"
  by (simp_all add: NC_INSLRU_LOCKED_def NC_INSHASH_LOCKED_def linked_after_def set_next_def set_prev_def
      Let_def fun_upd_twist)

lemma ring_no_self:
  assumes "ring h hp xs" and "a \<in> set xs"
  shows "l_next h a \<noteq> a \<and> l_prev h a \<noteq> a \<and> l_next h a \<noteq> NULL"
proof -
  obtain us vs where xs: "xs = us @ a # vs" using assms(2) by (meson split_list)
  then have c: "chain h hp us a" "chain h a vs hp" and d: "distinct (hp # us @ a # vs)"
    and n: "NULL \<notin> set (hp # us @ a # vs)"
    using assms(1) by (auto simp: ring_def chain_append)
  have "l_prev h a = last (hp # us)" using chain_last_next [OF c(1)] by simp
  moreover have "last (hp # us) \<in> set (hp # us)" by (rule last_in_set) simp
  ultimately show ?thesis using c(2) d n by (cases vs) auto
qed

lemma nc_rm_eq:
  assumes "ring h hp xs" and "a \<in> set xs"
  shows "NC_RMLRU_LOCKED a h = unlinked a h" and "NC_RMHASH_LOCKED a h = unlinked a h"
    and "RM_LIST a h = unlinked a h"
  using ring_no_self [OF assms]
  by (simp_all add: NC_RMLRU_LOCKED_def NC_RMHASH_LOCKED_def RM_LIST_def unlinked_def set_next_def
      set_prev_def Let_def)

lemma ring_next_prev:
  assumes "ring h hp xs" and "p \<in> set (hp # xs)"
  shows "l_prev h (l_next h p) = p \<and> l_next h (l_prev h p) = p"
proof -
  have "chain h a ys b \<Longrightarrow> x \<in> set (a # ys) \<Longrightarrow> l_prev h (l_next h x) = x" for a b ys x
    by (induction ys arbitrary: a) auto
  moreover have "chain h a ys b \<Longrightarrow> x \<in> set (ys @ [b]) \<Longrightarrow> l_next h (l_prev h x) = x" for a b ys x
    by (induction ys arbitrary: a) auto
  ultimately show ?thesis using assms by (auto simp: ring_def)
qed

lemma bol_eq:
  assumes "ring h hp xs" and "p \<in> set (hp # xs)" and "a \<notin> set (hp # xs)"
  shows "ADD_TO_BOL p a h = linked_after p a h"
proof -
  have "a \<noteq> p" "a \<noteq> l_next h p" using assms ring_closed [OF assms(1,2)] by auto
  then show ?thesis
    using ring_next_prev [OF assms(1,2)]
    by (simp add: ADD_TO_BOL_def linked_after_def set_next_def set_prev_def Let_def fun_upd_twist)
qed

lemma ring_last_in: "ring h hp (xs @ ys) \<Longrightarrow> last (hp # xs) \<in> set (hp # xs @ ys)"
  using last_in_set [of "hp # xs"] by auto

interpretation lru_ring: ring_ops NC_INSLRU_LOCKED NC_RMLRU_LOCKED
proof
  show "ring (NC_INSLRU_LOCKED p a h) hp (xs @ a # ys)"
    if "ring h hp (xs @ ys)" "p = last (hp # xs)" "a \<notin> set (hp # xs @ ys)" "a \<noteq> NULL" for h hp xs ys p a
    using linked_after_ring [OF that] ring_last_in [OF that(1)] that(2,3) nc_ins_eq(1) [of a p h] by metis
  show "ring (NC_RMLRU_LOCKED a h) hp (xs @ ys)" if "ring h hp (xs @ a # ys)" for h hp xs a ys
    using unlinked_ring [OF that] nc_rm_eq(1) [OF that, of a] by simp
  show "ring (NC_INSLRU_LOCKED p a h) hp xs"
    if "ring h hp xs" "ring h hp' ys" "p \<in> set (hp' # ys)" "a \<notin> set (hp # xs)" "a \<notin> set (hp' # ys)"
      "set (hp # xs) \<inter> set (hp' # ys) = {}" for h hp xs hp' ys p a
    using linked_after_other [OF that(1-4,6)] that(3,5) nc_ins_eq(1) [of a p h] by metis
  show "ring (NC_RMLRU_LOCKED a h) hp xs"
    if "ring h hp xs" "ring h hp' ys" "a \<in> set ys" "set (hp # xs) \<inter> set (hp' # ys) = {}" for h hp xs hp' ys a
    using unlinked_other [OF that] nc_rm_eq(1) [OF that(2,3)] by simp
qed

interpretation hash_ring: ring_ops NC_INSHASH_LOCKED NC_RMHASH_LOCKED
proof
  show "ring (NC_INSHASH_LOCKED p a h) hp (xs @ a # ys)"
    if "ring h hp (xs @ ys)" "p = last (hp # xs)" "a \<notin> set (hp # xs @ ys)" "a \<noteq> NULL" for h hp xs ys p a
    using linked_after_ring [OF that] ring_last_in [OF that(1)] that(2,3) nc_ins_eq(2) [of a p h] by metis
  show "ring (NC_RMHASH_LOCKED a h) hp (xs @ ys)" if "ring h hp (xs @ a # ys)" for h hp xs a ys
    using unlinked_ring [OF that] nc_rm_eq(2) [OF that, of a] by simp
  show "ring (NC_INSHASH_LOCKED p a h) hp xs"
    if "ring h hp xs" "ring h hp' ys" "p \<in> set (hp' # ys)" "a \<notin> set (hp # xs)" "a \<notin> set (hp' # ys)"
      "set (hp # xs) \<inter> set (hp' # ys) = {}" for h hp xs hp' ys p a
    using linked_after_other [OF that(1-4,6)] that(3,5) nc_ins_eq(2) [of a p h] by metis
  show "ring (NC_RMHASH_LOCKED a h) hp xs"
    if "ring h hp xs" "ring h hp' ys" "a \<in> set ys" "set (hp # xs) \<inter> set (hp' # ys) = {}" for h hp xs hp' ys a
    using unlinked_other [OF that] nc_rm_eq(2) [OF that(2,3)] by simp
qed

interpretation base_ring: ring_ops ADD_TO_BOL RM_LIST
proof
  show "ring (ADD_TO_BOL p a h) hp (xs @ a # ys)"
    if "ring h hp (xs @ ys)" "p = last (hp # xs)" "a \<notin> set (hp # xs @ ys)" "a \<noteq> NULL" for h hp xs ys p a
    using linked_after_ring [OF that] bol_eq [OF that(1), of p a] ring_last_in [OF that(1)] that(2,3) by simp
  show "ring (RM_LIST a h) hp (xs @ ys)" if "ring h hp (xs @ a # ys)" for h hp xs a ys
    using unlinked_ring [OF that] nc_rm_eq(3) [OF that, of a] by simp
  show "ring (ADD_TO_BOL p a h) hp xs"
    if "ring h hp xs" "ring h hp' ys" "p \<in> set (hp' # ys)" "a \<notin> set (hp # xs)" "a \<notin> set (hp' # ys)"
      "set (hp # xs) \<inter> set (hp' # ys) = {}" for h hp xs hp' ys p a
    using linked_after_other [OF that(1-4,6)] bol_eq [OF that(2,3,5)] by simp
  show "ring (RM_LIST a h) hp xs"
    if "ring h hp xs" "ring h hp' ys" "a \<in> set ys" "set (hp # xs) \<inter> set (hp' # ys) = {}" for h hp xs hp' ys a
    using unlinked_other [OF that] nc_rm_eq(3) [OF that(2,3)] by simp
qed

text \<open>Adding at the end of a list is an insertion behind its last element.\<close>
lemma eol_ring:
  assumes "ring h hp xs" and "a \<notin> set (hp # xs)" and "a \<noteq> NULL"
  shows "ring (ADD_TO_EOL hp a h) hp (xs @ [a])"
proof -
  let ?p = "l_prev h hp"
  have p: "?p = last (hp # xs)" using chain_last_next [of h hp xs hp] assms(1) by (simp add: ring_def)
  have "a \<noteq> ?p" "a \<noteq> hp" using assms ring_closed [OF assms(1), of hp] by auto
  moreover have "l_next h ?p = hp" using ring_next_prev [OF assms(1), of hp] by simp
  ultimately have "ADD_TO_EOL hp a h = linked_after ?p a h"
    by (simp add: ADD_TO_EOL_def linked_after_def set_next_def set_prev_def Let_def fun_upd_twist)
  then show ?thesis using linked_after_ring [of h hp xs "[]" ?p a] assms p by simp
qed

section \<open>Properties\<close>

text \<open>C29: taking an element out of an LRU list and putting it in behind the last one, with the
  pointer assignments of the name cache, moves it to the back of the list and keeps the order of
  the others.\<close>
theorem lru_move_to_back:
  assumes "ring h hp (xs @ a # ys)"
  shows "ring (NC_INSLRU_LOCKED (last (hp # xs @ ys)) a (NC_RMLRU_LOCKED a h)) hp (xs @ ys @ [a])"
  using assms by (rule lru_ring.move_to_back)

text \<open>A ring of the elements 2 and 3 with the head 1.\<close>
definition ring_example :: links where
  "ring_example = NC_INSLRU_LOCKED 1 2 (NC_INSLRU_LOCKED 1 3
     (INIT_LIST 1 \<lparr>l_next = \<lambda>_. NULL, l_prev = \<lambda>_. NULL\<rparr>))"

lemma ring_example_ring: "ring ring_example 1 [2, 3]"
  by (simp add: ring_example_def ring_def NC_INSLRU_LOCKED_def INIT_LIST_def set_next_def set_prev_def
      NULL_def Let_def)

theorem lru_move_to_back_witness:
  "ring (NC_INSLRU_LOCKED 3 2 (NC_RMLRU_LOCKED 2 ring_example)) 1 [3, 2]"
  using lru_move_to_back [of ring_example 1 "[]" 2 "[3]"] ring_example_ring by simp

end
