(* ===== verification/Mvfs_Eacl.thy ===== *)
theory Mvfs_Eacl
  imports Tbs_Acl_Xdr Mvfs_Dlist
begin

text \<open>The cache of effective access control lists (mvfs\_acl.c, mvfs\_acl.h, \<open>mvfs_clnt_get_eacl_mnp\<close> of
  mvfs\_clnt.c): a hash table of reference counted entries, keyed by rolemap, replica and view type,
  each with the list fetched from the view server.  A slot holds its chain as the list of entry
  addresses from the slot's \<open>next\<close> on; the pointer operations behind it are those of the theory
  \<open>Mvfs_Dlist\<close>.  The chain locks are not modelled: an operation is one step.\<close>

section \<open>Data\<close>

datatype mvfs_view_type = ENUM_Unix | ENUM_Windows

record mvfs_eaclhash_entry_key =
  eah_rolemap_oid :: tbs_oid_t
  eah_replica_uuid :: tbs_uuid_t
  eah_view_type :: mvfs_view_type

record mvfs_eaclhash_entry =
  eah_key :: mvfs_eaclhash_entry_key
  eah_refcnt :: u32
  eah_eacl_lut :: timeval
  eah_policy_oid :: tbs_oid_t
  eah_eaclh :: tbs_sid_acl_h_t

record mvfs_eaclhash_slot =
  eah_chain :: "addr list"
  eah_entry_cnt :: u32

record mvfs_acl_data =
  mvfs_eaclhash :: "mvfs_eaclhash_slot list"
  mvfs_eaclhash_size :: nat
  eah_heap :: "addr \<rightharpoonup> mvfs_eaclhash_entry"
  eac_hits :: u64
  eac_misses :: u64
  eac_hashcnt :: u64

text \<open>What the routines use of an mnode, its vfs and its view: the null view pointer, or whether the
  view is a Windows view.\<close>
record acl_mnode =
  mn_isvob :: bool
  mn_rolemap_oid :: tbs_oid_t
  mn_eacl_mtime :: timeval
  mn_vobuuid :: tbs_uuid_t
  mn_viewvp :: "bool option"
  mn_aclh :: "addr option"

definition the_entry :: "mvfs_acl_data \<Rightarrow> addr \<Rightarrow> mvfs_eaclhash_entry" where
  "the_entry st a = the (eah_heap st a)"

section \<open>Hash\<close>

definition mfs_uuid_to_hash32 :: "tbs_uuid_t \<Rightarrow> u64" where
  "mfs_uuid_to_hash32 u =
    (let val = drop_bit 2 (time_low u) + drop_bit 22 (time_low u) +
       ((ucast (time_mid u) + ucast (time_hi_and_version u) + ucast (clock_seq_low u)
         + push_bit 26 (ucast (clock_seq_hi_and_reserved u))
         + push_bit 20 (ucast (uuid_node u ! 5)) + push_bit 16 (ucast (uuid_node u ! 4))
         + push_bit 12 (ucast (uuid_node u ! 3)) + push_bit 8 (ucast (uuid_node u ! 2))
         + push_bit 4 (ucast (uuid_node u ! 1)) + ucast (uuid_node u ! 0)) * 536870909) :: u32
     in ucast (val AND 0xffffffff))"

definition view_type_num :: "mvfs_view_type \<Rightarrow> u64" where
  "view_type_num t = (case t of ENUM_Unix \<Rightarrow> 0 | ENUM_Windows \<Rightarrow> 1)"

definition MVFS_EACLHASH :: "nat \<Rightarrow> mvfs_eaclhash_entry_key \<Rightarrow> nat" where
  "MVFS_EACLHASH table_size key =
     unat (mfs_uuid_to_hash32 (eah_rolemap_oid key) + mfs_uuid_to_hash32 (eah_replica_uuid key)
       + view_type_num (eah_view_type key)) mod table_size"

section \<open>Times\<close>

definition DATE_TIMEVALCMP :: "timeval \<Rightarrow> timeval \<Rightarrow> int" where
  "DATE_TIMEVALCMP t1 t2 =
    (if tv_sec t1 < tv_sec t2 then -1
     else if tv_sec t1 > tv_sec t2 then 1
     else if sint (tv_usec t1) < sint (tv_usec t2) then -1
     else if sint (tv_usec t1) > sint (tv_usec t2) then 1 else 0)"

definition MVFS_TIMEVAL_NEWER :: "timeval \<Rightarrow> timeval \<Rightarrow> bool" where
  "MVFS_TIMEVAL_NEWER t1 t2 \<longleftrightarrow> DATE_TIMEVALCMP t1 t2 = 1"

definition timeval_zero :: timeval where "timeval_zero = \<lparr>tv_sec = 0, tv_usec = 0\<rparr>"

section \<open>Fetching a list\<close>

text \<open>The outcome of a call to the view server: the error of the RPC layer and the reply as the
  XDR routine left it.  A server answers the calls of one update in order.\<close>
type_synonym eacl_rpc = "int \<times> view_eacl_rolemap_reply_t"
type_synonym eacl_server = "nat \<Rightarrow> view_eacl_cursor_t \<Rightarrow> tbs_sid_acl_h_t \<Rightarrow> eacl_rpc"

definition VIEW_EACL_CURSOR_NULL :: view_eacl_cursor_t where
  "VIEW_EACL_CURSOR_NULL = \<lparr>ec_eacl_mtime = timeval_zero, ec_next_offset = 0\<rparr>"

text \<open>\<open>now\<close> is \<open>MDKI_CTIME()\<close>.  The attribute cache of the mnode, which a stale status invalidates
  as well, is not part of the state.\<close>
definition mvfs_clnt_get_eacl_mnp :: "bool \<Rightarrow> u64 \<Rightarrow> (view_eacl_cursor_t \<Rightarrow> tbs_sid_acl_h_t \<Rightarrow> eacl_rpc)
    \<Rightarrow> view_eacl_cursor_t \<Rightarrow> mvfs_eaclhash_entry
    \<Rightarrow> int \<times> tbs_status_t \<times> view_eacl_cursor_t \<times> mvfs_eaclhash_entry" where
  "mvfs_clnt_get_eacl_mnp viewvp_null now rpc cursor ep =
    (if viewvp_null then (ESRCH, TBS_ST_OK, cursor, ep)
     else case rpc cursor (eah_eaclh ep) of (error, rr) \<Rightarrow>
       let status = (if error = 0 then sint (hr_status (err_hdr rr)) else TBS_ST_OK) in
       if error = 0 \<and> status = TBS_ST_OK then
         (error, status, err_cursor rr, ep\<lparr>eah_eaclh := err_eaclh rr,
            eah_eacl_lut := err_eacl_mtime rr, eah_policy_oid := err_policy_oid rr\<rparr>)
       else (error, status, cursor, ep\<lparr>eah_eaclh := None,
            eah_eacl_lut := (eah_eacl_lut ep)\<lparr>tv_sec := now\<rparr>\<rparr>))"

definition mvfs_eacl_blocks_default :: nat where "mvfs_eacl_blocks_default = 100"

text \<open>The loop with its one restart.  \<open>k\<close> counts the calls, \<open>count\<close> is the loop variable.\<close>
function eacl_fetch :: "eacl_server \<Rightarrow> bool \<Rightarrow> (nat \<Rightarrow> u64) \<Rightarrow> nat \<Rightarrow> nat \<Rightarrow> bool \<Rightarrow> view_eacl_cursor_t
    \<Rightarrow> mvfs_eaclhash_entry \<Rightarrow> int \<times> tbs_status_t \<times> view_eacl_cursor_t \<times> mvfs_eaclhash_entry" where
  "eacl_fetch rpc viewvp_null clock k count restarted cursor ep =
    (if count \<ge> mvfs_eacl_blocks_default then (0, TBS_ST_OK, cursor, ep)
     else case mvfs_clnt_get_eacl_mnp viewvp_null (clock k) (rpc k) cursor ep of
       (error, status, cursor, ep) \<Rightarrow>
         if error = 0 \<and> status = TBS_ST_ESTALE \<and> \<not> restarted then
           eacl_fetch rpc viewvp_null clock (k + 1) 0 True VIEW_EACL_CURSOR_NULL (ep\<lparr>eah_eaclh := None\<rparr>)
         else if error = 0 \<and> status = TBS_ST_OK then
           if ec_next_offset cursor = 0 then (error, status, cursor, ep)
           else eacl_fetch rpc viewvp_null clock (k + 1) (count + 1) restarted cursor ep
         else (error, status, cursor, ep))"
  by pat_completeness auto
termination
  by (relation "measures [\<lambda>(_, _, _, _, _, restarted, _, _). if restarted then 0 else 1,
      \<lambda>(_, _, _, _, count, _, _, _). mvfs_eacl_blocks_default - count]") auto

declare eacl_fetch.simps [simp del]

definition mvfs_eaclhash_update_eaclh :: "eacl_server \<Rightarrow> bool \<Rightarrow> (nat \<Rightarrow> u64)
    \<Rightarrow> mvfs_eaclhash_entry \<Rightarrow> mvfs_eaclhash_entry" where
  "mvfs_eaclhash_update_eaclh rpc viewvp_null clock ep =
    (case eacl_fetch rpc viewvp_null clock 0 0 False VIEW_EACL_CURSOR_NULL (ep\<lparr>eah_eaclh := None\<rparr>) of
       (error, status, cursor, ep) \<Rightarrow>
         let error = (if error = 0 \<and> status = TBS_ST_OK \<and> ec_next_offset cursor \<noteq> 0 then ERANGE else error) in
         if error \<noteq> 0 \<or> status \<noteq> TBS_ST_OK then ep\<lparr>eah_eaclh := None\<rparr> else ep)"

definition mvfs_eacl_err_timeout :: u64 where "mvfs_eacl_err_timeout = 4 * 60"

definition mvfs_eaclhash_validate_eaclh :: "eacl_server \<Rightarrow> (nat \<Rightarrow> u64) \<Rightarrow> acl_mnode
    \<Rightarrow> mvfs_eaclhash_entry \<Rightarrow> mvfs_eaclhash_entry" where
  "mvfs_eaclhash_validate_eaclh rpc clock mn ep =
    (if MVFS_TIMEVAL_NEWER (mn_eacl_mtime mn) (eah_eacl_lut ep) \<or>
        (eah_eaclh ep = None \<and> sint (tv_sec (eah_eacl_lut ep) + mvfs_eacl_err_timeout) < sint (clock 0))
     then mvfs_eaclhash_update_eaclh rpc (mn_viewvp mn = None) clock ep
     else ep)"

section \<open>The table\<close>

definition key_matches :: "mvfs_eaclhash_entry_key \<Rightarrow> mvfs_eaclhash_entry_key \<Rightarrow> bool" where
  "key_matches k1 k2 \<longleftrightarrow> eah_rolemap_oid k1 = eah_rolemap_oid k2 \<and>
     eah_replica_uuid k1 = eah_replica_uuid k2 \<and> eah_view_type k1 = eah_view_type k2"

definition set_entry :: "addr \<Rightarrow> mvfs_eaclhash_entry \<Rightarrow> mvfs_acl_data \<Rightarrow> mvfs_acl_data" where
  "set_entry a e st = st\<lparr>eah_heap := (eah_heap st)(a \<mapsto> e)\<rparr>"

fun chain_find :: "mvfs_acl_data \<Rightarrow> mvfs_eaclhash_entry_key \<Rightarrow> addr list \<Rightarrow> addr option" where
  "chain_find st key [] = None"
| "chain_find st key (ep # rest) =
    (if key_matches (eah_key (the_entry st ep)) key then Some ep else chain_find st key rest)"

definition mvfs_eaclhash_find_entry :: "mvfs_eaclhash_entry_key \<Rightarrow> nat \<Rightarrow> mvfs_acl_data
    \<Rightarrow> addr option \<times> mvfs_acl_data" where
  "mvfs_eaclhash_find_entry key hash_val st =
    (case chain_find st key (eah_chain (mvfs_eaclhash st ! hash_val)) of
       Some ep \<Rightarrow> (Some ep, (set_entry ep ((the_entry st ep)\<lparr>eah_refcnt := eah_refcnt (the_entry st ep) + 1\<rparr>) st)
          \<lparr>eac_hits := eac_hits st + 1\<rparr>)
     | None \<Rightarrow> (None, st\<lparr>eac_misses := eac_misses st + 1\<rparr>))"

definition upd_slot :: "nat \<Rightarrow> (mvfs_eaclhash_slot \<Rightarrow> mvfs_eaclhash_slot) \<Rightarrow> mvfs_acl_data \<Rightarrow> mvfs_acl_data" where
  "upd_slot i f st = st\<lparr>mvfs_eaclhash := (mvfs_eaclhash st)[i := f (mvfs_eaclhash st ! i)]\<rparr>"

definition mvfs_eaclhash_add_entry :: "addr \<Rightarrow> nat \<Rightarrow> mvfs_acl_data \<Rightarrow> mvfs_acl_data" where
  "mvfs_eaclhash_add_entry ep hash_val st =
     (upd_slot hash_val (\<lambda>s. s\<lparr>eah_chain := ep # eah_chain s, eah_entry_cnt := eah_entry_cnt s + 1\<rparr>) st)
       \<lparr>eac_hashcnt := eac_hashcnt st + 1\<rparr>"

definition mvfs_eaclhash_remove_entry :: "addr \<Rightarrow> nat \<Rightarrow> mvfs_acl_data \<Rightarrow> mvfs_acl_data" where
  "mvfs_eaclhash_remove_entry ep hash_val st =
     (upd_slot hash_val (\<lambda>s. s\<lparr>eah_chain := remove1 ep (eah_chain s), eah_entry_cnt := eah_entry_cnt s - 1\<rparr>) st)
       \<lparr>eac_hashcnt := eac_hashcnt st - 1\<rparr>"

definition mvfs_eaclhash_free_entry :: "addr \<Rightarrow> mvfs_acl_data \<Rightarrow> mvfs_acl_data" where
  "mvfs_eaclhash_free_entry ep st = st\<lparr>eah_heap := (eah_heap st)(ep := None)\<rparr>"

definition mvfs_eaclhash_validate :: "eacl_server \<Rightarrow> (nat \<Rightarrow> u64) \<Rightarrow> acl_mnode \<Rightarrow> addr option
    \<Rightarrow> mvfs_acl_data \<Rightarrow> mvfs_acl_data" where
  "mvfs_eaclhash_validate rpc clock mn ep st = (case ep of
     None \<Rightarrow> st
   | Some a \<Rightarrow> set_entry a (mvfs_eaclhash_validate_eaclh rpc clock mn (the_entry st a)) st)"

text \<open>\<open>alloc\<close>: the address \<open>KMEM_ALLOC\<close> returns for a new entry, or \<open>None\<close>.\<close>
definition mvfs_eaclhash_get :: "eacl_server \<Rightarrow> (nat \<Rightarrow> u64) \<Rightarrow> addr option \<Rightarrow> acl_mnode
    \<Rightarrow> mvfs_eaclhash_entry_key \<Rightarrow> mvfs_acl_data \<Rightarrow> addr option \<times> mvfs_acl_data" where
  "mvfs_eaclhash_get rpc clock alloc mn key st =
    (let hash_val = MVFS_EACLHASH (mvfs_eaclhash_size st) key in
     case mvfs_eaclhash_find_entry key hash_val st of
       (Some ep, st) \<Rightarrow> (Some ep,
          set_entry ep (mvfs_eaclhash_validate_eaclh rpc clock mn (the_entry st ep)) st)
     | (None, st) \<Rightarrow> (case alloc of
          None \<Rightarrow> (None, st)
        | Some new_ep \<Rightarrow>
            let e = mvfs_eaclhash_update_eaclh rpc (mn_viewvp mn = None) clock
                 \<lparr>eah_key = key, eah_refcnt = 1, eah_eacl_lut = timeval_zero,
                  eah_policy_oid = TBS_UUID_NULL, eah_eaclh = None\<rparr> in
            (Some new_ep, mvfs_eaclhash_add_entry new_ep hash_val (set_entry new_ep e st))))"

definition mvfs_eaclhash_release :: "addr option \<Rightarrow> mvfs_acl_data \<Rightarrow> mvfs_acl_data" where
  "mvfs_eaclhash_release ep st = (case ep of
     None \<Rightarrow> st
   | Some a \<Rightarrow>
       let hash_val = MVFS_EACLHASH (mvfs_eaclhash_size st) (eah_key (the_entry st a));
           refcnt = eah_refcnt (the_entry st a) - 1;
           st = set_entry a ((the_entry st a)\<lparr>eah_refcnt := refcnt\<rparr>) st in
       if refcnt = 0
       then mvfs_eaclhash_free_entry a (mvfs_eaclhash_remove_entry a hash_val st)
       else st)"

section \<open>Operations on mnodes\<close>

definition MFS_OIDNULL :: "tbs_oid_t \<Rightarrow> bool" where
  "MFS_OIDNULL oid \<longleftrightarrow> time_low oid = 0 \<and> oid = TBS_UUID_NULL"

definition mnode_acl_key :: "acl_mnode \<Rightarrow> mvfs_eaclhash_entry_key" where
  "mnode_acl_key mn = \<lparr>eah_rolemap_oid = mn_rolemap_oid mn, eah_replica_uuid = mn_vobuuid mn,
     eah_view_type = (if mn_viewvp mn = Some True then ENUM_Windows else ENUM_Unix)\<rparr>"

definition mvfs_acl_cache :: "eacl_server \<Rightarrow> (nat \<Rightarrow> u64) \<Rightarrow> addr option \<Rightarrow> acl_mnode
    \<Rightarrow> mvfs_acl_data \<Rightarrow> acl_mnode \<times> mvfs_acl_data" where
  "mvfs_acl_cache rpc clock alloc mn st =
    (if MFS_OIDNULL (mn_rolemap_oid mn)
     then (mn\<lparr>mn_aclh := None\<rparr>, mvfs_eaclhash_release (mn_aclh mn) st)
     else case mvfs_eaclhash_get rpc clock alloc mn (mnode_acl_key mn) st of
       (ep, st) \<Rightarrow>
         if mn_aclh mn \<noteq> ep then (mn\<lparr>mn_aclh := ep\<rparr>, mvfs_eaclhash_release (mn_aclh mn) st)
         else (mn, mvfs_eaclhash_release ep st))"

definition mvfs_acl_uncache :: "acl_mnode \<Rightarrow> mvfs_acl_data \<Rightarrow> acl_mnode \<times> mvfs_acl_data" where
  "mvfs_acl_uncache mn st = (mn\<lparr>mn_aclh := None\<rparr>, mvfs_eaclhash_release (mn_aclh mn) st)"

definition VOB_MTYPE_POLICY :: nat where "VOB_MTYPE_POLICY = 43"
definition VOB_MTYPE_ROLEMAP :: nat where "VOB_MTYPE_ROLEMAP = 44"

definition oid_hits :: "nat \<Rightarrow> tbs_oid_t \<Rightarrow> mvfs_eaclhash_entry \<Rightarrow> bool" where
  "oid_hits oid_type obj_oid e \<longleftrightarrow>
     oid_type = VOB_MTYPE_ROLEMAP \<and> eah_rolemap_oid (eah_key e) = obj_oid \<or>
     oid_type = VOB_MTYPE_POLICY \<and> eah_policy_oid e = obj_oid"

fun inval_chain :: "nat \<Rightarrow> tbs_oid_t \<Rightarrow> addr list \<Rightarrow> mvfs_acl_data \<Rightarrow> mvfs_acl_data" where
  "inval_chain oid_type obj_oid [] st = st"
| "inval_chain oid_type obj_oid (ep # rest) st =
    inval_chain oid_type obj_oid rest
      (if oid_hits oid_type obj_oid (the_entry st ep)
       then set_entry ep ((the_entry st ep)\<lparr>eah_eacl_lut := timeval_zero\<rparr>) st else st)"

definition mvfs_acl_inval_oid :: "nat \<Rightarrow> tbs_oid_t \<Rightarrow> mvfs_acl_data \<Rightarrow> mvfs_acl_data" where
  "mvfs_acl_inval_oid oid_type obj_oid st =
     fold (\<lambda>hash_val st. inval_chain oid_type obj_oid (eah_chain (mvfs_eaclhash st ! hash_val)) st)
       [0..<mvfs_eaclhash_size st] st"

section \<open>Set-up and tear-down\<close>

definition mvfs_eaclhash_size_default :: nat where "mvfs_eaclhash_size_default = 1024"

text \<open>\<open>alloc\<close>, \<open>alloc_locks\<close>: whether the table and its lock pool can be allocated.  The result is the
  errno and the data with the table pointer, \<open>None\<close> for NULL.\<close>
definition mvfs_acl_init :: "bool \<Rightarrow> bool \<Rightarrow> int \<times> mvfs_acl_data option" where
  "mvfs_acl_init alloc alloc_locks =
    (if \<not> alloc then (ENOMEM, None)
     else if \<not> alloc_locks then (ENOMEM, None)
     else (0, Some \<lparr>mvfs_eaclhash = replicate mvfs_eaclhash_size_default \<lparr>eah_chain = [], eah_entry_cnt = 0\<rparr>,
        mvfs_eaclhash_size = mvfs_eaclhash_size_default, eah_heap = Map.empty,
        eac_hits = 0, eac_misses = 0, eac_hashcnt = 0\<rparr>))"

fun free_chain :: "nat \<Rightarrow> addr list \<Rightarrow> mvfs_acl_data \<Rightarrow> mvfs_acl_data" where
  "free_chain hash_val [] st = st"
| "free_chain hash_val (ep # rest) st =
    free_chain hash_val rest (mvfs_eaclhash_free_entry ep (mvfs_eaclhash_remove_entry ep hash_val st))"

text \<open>The entries still in the table are removed and freed, then the table goes.\<close>
definition mvfs_acl_free :: "mvfs_acl_data \<Rightarrow> mvfs_acl_data" where
  "mvfs_acl_free st =
     (fold (\<lambda>hash_val st. free_chain hash_val (eah_chain (mvfs_eaclhash st ! hash_val)) st)
       [0..<mvfs_eaclhash_size st] st)\<lparr>mvfs_eaclhash := []\<rparr>"

section \<open>The contract of a reference counted table\<close>

text \<open>The references that a list of handles accounts for.\<close>
definition refs_of :: "addr option list \<Rightarrow> addr \<Rightarrow> nat" where
  "refs_of hs a = length (filter (\<lambda>h. h = Some a) hs)"

lemma refs_of_pos: "i < length hs \<Longrightarrow> hs ! i = Some a \<Longrightarrow> 0 < refs_of hs a"
  by (auto simp: refs_of_def length_filter_conv_card card_gt_0_iff)

lemma refs_of_le: "refs_of hs a \<le> length hs"
  by (simp add: refs_of_def)

lemma refs_of_upd:
  "i < length hs \<Longrightarrow> refs_of (hs[i := h]) a + (if hs ! i = Some a then 1 else 0)
     = refs_of hs a + (if h = Some a then 1 else 0)"
proof (induction hs arbitrary: i)
  case (Cons x hs)
  show ?case
  proof (cases i)
    case 0
    then show ?thesis by (auto simp: refs_of_def)
  next
    case (Suc j)
    then show ?thesis using Cons.IH [of j] Cons.prems by (auto simp: refs_of_def split: if_splits)
  qed
qed simp

text \<open>\<open>inv s rf\<close>: the table is in order and every object in it is held as often as \<open>rf\<close> says.  \<open>hold\<close>
  looks up or creates an object and takes a reference, \<open>drop\<close> gives one back.\<close>
locale refcount_table =
  fixes inv :: "'s \<Rightarrow> (addr \<Rightarrow> nat) \<Rightarrow> bool" and can_hold :: "'k \<Rightarrow> 's \<Rightarrow> bool"
    and hold :: "'k \<Rightarrow> 's \<Rightarrow> addr option \<times> 's" and drop :: "addr option \<Rightarrow> 's \<Rightarrow> 's"
    and max_refs :: nat
  assumes hold_Some: "inv s rf \<Longrightarrow> can_hold k s \<Longrightarrow> hold k s = (Some a, s') \<Longrightarrow> rf a + 1 < max_refs \<Longrightarrow>
      inv s' (rf(a := rf a + 1))"
    and hold_None: "inv s rf \<Longrightarrow> can_hold k s \<Longrightarrow> hold k s = (None, s') \<Longrightarrow> inv s' rf"
    and drop_Some: "inv s rf \<Longrightarrow> 0 < rf a \<Longrightarrow> inv (drop (Some a) s) (rf(a := rf a - 1))"
    and drop_None: "drop None s = s"
begin

lemma clear_handle:
  assumes "inv s (refs_of hs)" and "i < length hs"
  shows "inv (drop (hs ! i) s) (refs_of (hs[i := None]))"
proof (cases "hs ! i")
  case None
  then show ?thesis using assms by (metis drop_None list_update_id)
next
  case (Some a)
  have "(refs_of hs)(a := refs_of hs a - 1) = refs_of (hs[i := None])"
  proof
    fix b show "((refs_of hs)(a := refs_of hs a - 1)) b = refs_of (hs[i := None]) b"
      using refs_of_upd [OF assms(2), of None b] Some by (auto split: if_splits)
  qed
  then show ?thesis using drop_Some [OF assms(1), of a] refs_of_pos [OF assms(2) Some] Some by simp
qed

text \<open>Replacing the handle at a position: hold the new object, drop the old one, or drop the
  second reference when they are the same.\<close>
lemma swap_handle:
  assumes "inv s (refs_of hs)" and "i < length hs" and "length hs + 1 < max_refs"
    and "can_hold k s" and "hold k s = (h, s')"
  shows "inv (drop (hs ! i) s') (refs_of (hs[i := h]))"
proof (cases h)
  case None
  then show ?thesis using hold_None [OF assms(1,4)] assms(2,5) clear_handle by simp
next
  case (Some a)
  let ?rf = "(refs_of hs)(a := refs_of hs a + 1)"
  have "refs_of hs a + 1 < max_refs" using refs_of_le [of hs a] assms(3) by linarith
  then have inv': "inv s' ?rf" using hold_Some [OF assms(1,4)] assms(5) Some by simp
  show ?thesis
  proof (cases "hs ! i")
    case None
    have "?rf = refs_of (hs[i := h])"
      using refs_of_upd [OF assms(2), of h] None Some by (intro ext) (auto split: if_splits)
    then show ?thesis using inv' None by (simp add: drop_None)
  next
    fix b assume old: "hs ! i = Some b"
    have "?rf(b := ?rf b - 1) = refs_of (hs[i := h])"
    proof
      fix c show "(?rf(b := ?rf b - 1)) c = refs_of (hs[i := h]) c"
        using refs_of_upd [OF assms(2), of h c] refs_of_pos [OF assms(2) old] old Some
        by (auto split: if_splits)
    qed
    then show ?thesis
      using drop_Some [OF inv', of b] refs_of_pos [OF assms(2) old] old by auto
  qed
qed

end

section \<open>The invariant of the table\<close>

definition slot_chain :: "mvfs_acl_data \<Rightarrow> nat \<Rightarrow> addr list" where
  "slot_chain st i = eah_chain (mvfs_eaclhash st ! i)"

definition entry_hash :: "mvfs_acl_data \<Rightarrow> addr \<Rightarrow> nat" where
  "entry_hash st a = MVFS_EACLHASH (mvfs_eaclhash_size st) (eah_key (the_entry st a))"

definition slot_entries :: "mvfs_acl_data \<Rightarrow> nat \<Rightarrow> addr set" where
  "slot_entries st i = {a \<in> dom (eah_heap st). entry_hash st a = i}"

text \<open>The chain of a slot holds exactly the entries with its hash value, once each, and the slot's
  counter is their number.\<close>
definition slots_ok :: "mvfs_acl_data \<Rightarrow> bool" where
  "slots_ok st \<longleftrightarrow> 0 < mvfs_eaclhash_size st \<and> length (mvfs_eaclhash st) = mvfs_eaclhash_size st \<and>
     (\<forall>i<mvfs_eaclhash_size st. distinct (slot_chain st i) \<and>
        set (slot_chain st i) = slot_entries st i \<and>
        eah_entry_cnt (mvfs_eaclhash st ! i) = of_nat (length (slot_chain st i)))"

definition keys_ok :: "mvfs_acl_data \<Rightarrow> bool" where
  "keys_ok st \<longleftrightarrow> inj_on (\<lambda>a. eah_key (the_entry st a)) (dom (eah_heap st))"

text \<open>An entry is allocated exactly while it has a holder, and counts its holders.\<close>
definition refs_ok :: "mvfs_acl_data \<Rightarrow> (addr \<Rightarrow> nat) \<Rightarrow> bool" where
  "refs_ok st rf \<longleftrightarrow> (\<forall>a. (a \<in> dom (eah_heap st) \<longleftrightarrow> 0 < rf a) \<and>
     (a \<in> dom (eah_heap st) \<longrightarrow> unat (eah_refcnt (the_entry st a)) = rf a))"

definition eacl_inv :: "mvfs_acl_data \<Rightarrow> (addr \<Rightarrow> nat) \<Rightarrow> bool" where
  "eacl_inv st rf \<longleftrightarrow> slots_ok st \<and> keys_ok st \<and> refs_ok st rf"

lemma key_matches_iff [simp]: "key_matches k1 k2 \<longleftrightarrow> k1 = k2"
  by (auto simp: key_matches_def)

lemma set_entry_sel [simp]:
  "mvfs_eaclhash (set_entry a e st) = mvfs_eaclhash st"
  "mvfs_eaclhash_size (set_entry a e st) = mvfs_eaclhash_size st"
  "eah_heap (set_entry a e st) = (eah_heap st)(a \<mapsto> e)"
  "the_entry (set_entry a e st) b = (if b = a then e else the_entry st b)"
  "slot_chain (set_entry a e st) i = slot_chain st i"
  by (simp_all add: set_entry_def the_entry_def slot_chain_def)

lemma stats_inv [simp]:
  "eacl_inv (st\<lparr>eac_hits := n\<rparr>) rf = eacl_inv st rf"
  "eacl_inv (st\<lparr>eac_misses := n\<rparr>) rf = eacl_inv st rf"
  "eacl_inv (st\<lparr>eac_hashcnt := n\<rparr>) rf = eacl_inv st rf"
  by (simp_all add: eacl_inv_def slots_ok_def keys_ok_def refs_ok_def slot_entries_def entry_hash_def
      slot_chain_def the_entry_def)

lemma get_eacl_keeps:
  "mvfs_clnt_get_eacl_mnp nv now rpc cursor ep = (error, status, cursor', ep') \<Longrightarrow>
     eah_key ep' = eah_key ep \<and> eah_refcnt ep' = eah_refcnt ep"
  by (auto simp: mvfs_clnt_get_eacl_mnp_def Let_def split: if_splits prod.splits)

lemma eacl_fetch_keeps:
  "eacl_fetch rpc nv clock k count restarted cursor ep = (error, status, cursor', ep') \<Longrightarrow>
     eah_key ep' = eah_key ep \<and> eah_refcnt ep' = eah_refcnt ep"
proof (induction rpc nv clock k count restarted cursor ep arbitrary: error status cursor' ep'
    rule: eacl_fetch.induct)
  case (1 rpc nv clock k count restarted cursor ep)
  obtain e s c p where g: "mvfs_clnt_get_eacl_mnp nv (clock k) (rpc k) cursor ep = (e, s, c, p)"
    by (metis prod_cases4)
  note IH = "1.IH" [OF _ g [symmetric] refl refl]
  show ?case
  proof (cases "count \<ge> mvfs_eacl_blocks_default")
    case True
    then show ?thesis using "1.prems" by (subst (asm) eacl_fetch.simps) simp
  next
    case False
    then show ?thesis using "1.prems" IH get_eacl_keeps [OF g]
      by (subst (asm) eacl_fetch.simps) (simp add: g split: if_splits)
  qed
qed

lemma update_eaclh_keeps [simp]:
  "eah_key (mvfs_eaclhash_update_eaclh rpc nv clock ep) = eah_key ep"
  "eah_refcnt (mvfs_eaclhash_update_eaclh rpc nv clock ep) = eah_refcnt ep"
  by (auto simp: mvfs_eaclhash_update_eaclh_def Let_def dest!: eacl_fetch_keeps split: prod.splits)

lemma validate_eaclh_keeps [simp]:
  "eah_key (mvfs_eaclhash_validate_eaclh rpc clock mn ep) = eah_key ep"
  "eah_refcnt (mvfs_eaclhash_validate_eaclh rpc clock mn ep) = eah_refcnt ep"
  by (simp_all add: mvfs_eaclhash_validate_eaclh_def)

text \<open>Rewriting an entry under the same key.\<close>
lemma set_entry_slots:
  assumes "a \<in> dom (eah_heap st)" and "eah_key e = eah_key (the_entry st a)"
  shows "slots_ok (set_entry a e st) = slots_ok st"
proof -
  have "slot_entries (set_entry a e st) i = slot_entries st i" for i
    using assms by (auto simp: slot_entries_def entry_hash_def)
  then show ?thesis by (simp add: slots_ok_def)
qed

lemma set_entry_keys:
  assumes "a \<in> dom (eah_heap st)" and "eah_key e = eah_key (the_entry st a)"
  shows "keys_ok (set_entry a e st) = keys_ok st"
proof -
  have "dom ((eah_heap st)(a \<mapsto> e)) = dom (eah_heap st)" using assms(1) by auto
  moreover have "(\<lambda>b. eah_key (the_entry (set_entry a e st) b)) = (\<lambda>b. eah_key (the_entry st b))"
    using assms(2) by auto
  ultimately show ?thesis by (simp only: keys_ok_def set_entry_sel)
qed

lemma set_entry_inv:
  assumes "eacl_inv st rf" and "a \<in> dom (eah_heap st)" and "eah_key e = eah_key (the_entry st a)"
    and "unat (eah_refcnt e) = n" and "0 < n"
  shows "eacl_inv (set_entry a e st) (rf(a := n))"
  using assms unfolding eacl_inv_def
  by (simp add: set_entry_slots set_entry_keys) (auto simp: refs_ok_def)

lemma chain_find_Some: "chain_find st key as = Some a \<Longrightarrow> a \<in> set as \<and> eah_key (the_entry st a) = key"
  by (induction as) (auto split: if_splits)

lemma chain_find_None: "chain_find st key as = None \<Longrightarrow> \<forall>a\<in>set as. eah_key (the_entry st a) \<noteq> key"
  by (induction as) (auto split: if_splits)

text \<open>A new entry at a fresh address with a key that is not in the table.\<close>
lemma add_entry_inv:
  assumes "eacl_inv st rf" and "a \<notin> dom (eah_heap st)" and "eah_refcnt e = 1"
    and h: "h = MVFS_EACLHASH (mvfs_eaclhash_size st) (eah_key e)"
    and new: "\<forall>b\<in>dom (eah_heap st). eah_key (the_entry st b) \<noteq> eah_key e"
  shows "eacl_inv (mvfs_eaclhash_add_entry a h (set_entry a e st)) (rf(a := 1))"
proof -
  let ?st = "mvfs_eaclhash_add_entry a h (set_entry a e st)"
  have sel: "eah_heap ?st = (eah_heap st)(a \<mapsto> e)" "mvfs_eaclhash_size ?st = mvfs_eaclhash_size st"
    "\<And>b. the_entry ?st b = (if b = a then e else the_entry st b)"
    by (simp_all add: mvfs_eaclhash_add_entry_def upd_slot_def the_entry_def)
  have S: "slots_ok st" "keys_ok st" "refs_ok st rf" using assms(1) by (auto simp: eacl_inv_def)
  have hl: "h < mvfs_eaclhash_size st" using S(1) by (auto simp: h MVFS_EACLHASH_def slots_ok_def)
  have ch: "slot_chain ?st i = (if i = h then a # slot_chain st i else slot_chain st i)"
    if "i < mvfs_eaclhash_size st" for i
    using hl that S(1)
    by (simp add: slot_chain_def mvfs_eaclhash_add_entry_def upd_slot_def slots_ok_def nth_list_update)
  have en: "slot_entries ?st i = (if i = h then insert a (slot_entries st i) else slot_entries st i)" for i
    using assms(2) by (auto simp: slot_entries_def entry_hash_def sel h [symmetric])
  have cn: "eah_entry_cnt (mvfs_eaclhash ?st ! i)
      = (if i = h then eah_entry_cnt (mvfs_eaclhash st ! i) + 1 else eah_entry_cnt (mvfs_eaclhash st ! i))"
    if "i < mvfs_eaclhash_size st" for i
    using hl that S(1) by (simp add: mvfs_eaclhash_add_entry_def upd_slot_def slots_ok_def nth_list_update)
  have "slots_ok ?st"
    using S(1) assms(2) ch en cn unfolding slots_ok_def
    by (simp add: sel) (auto simp: mvfs_eaclhash_add_entry_def upd_slot_def slot_entries_def)
  moreover have "keys_ok ?st"
    using S(2) new assms(2) unfolding keys_ok_def inj_on_def by (auto simp: sel)
  moreover have "refs_ok ?st (rf(a := 1))"
    using S(3) assms(3) by (auto simp: refs_ok_def sel)
  ultimately show ?thesis by (simp add: eacl_inv_def)
qed

text \<open>Taking the last reference away.\<close>
lemma free_entry_inv:
  assumes "eacl_inv st rf" and "a \<in> dom (eah_heap st)" and h: "h = entry_hash st a"
  shows "eacl_inv (mvfs_eaclhash_free_entry a (mvfs_eaclhash_remove_entry a h st)) (rf(a := 0))"
proof -
  let ?st = "mvfs_eaclhash_free_entry a (mvfs_eaclhash_remove_entry a h st)"
  have sel: "eah_heap ?st = (eah_heap st)(a := None)" "mvfs_eaclhash_size ?st = mvfs_eaclhash_size st"
    "\<And>b. b \<noteq> a \<Longrightarrow> the_entry ?st b = the_entry st b"
    by (simp_all add: mvfs_eaclhash_free_entry_def mvfs_eaclhash_remove_entry_def upd_slot_def the_entry_def)
  have S: "slots_ok st" "keys_ok st" "refs_ok st rf" using assms(1) by (auto simp: eacl_inv_def)
  have hl: "h < mvfs_eaclhash_size st" using S(1) by (auto simp: h entry_hash_def MVFS_EACLHASH_def slots_ok_def)
  have ha: "a \<in> set (slot_chain st h)" using S(1) hl assms(2) h by (simp add: slots_ok_def slot_entries_def)
  have ch: "slot_chain ?st i = (if i = h then remove1 a (slot_chain st i) else slot_chain st i)"
    if "i < mvfs_eaclhash_size st" for i
    using hl that S(1)
    by (simp add: slot_chain_def mvfs_eaclhash_free_entry_def mvfs_eaclhash_remove_entry_def upd_slot_def
        slots_ok_def nth_list_update)
  have en: "slot_entries ?st i = slot_entries st i - {a}" for i
    by (auto simp: slot_entries_def entry_hash_def sel split: if_splits)
  have other: "i \<noteq> h \<Longrightarrow> a \<notin> slot_entries st i" for i using h by (auto simp: slot_entries_def)
  have cn: "eah_entry_cnt (mvfs_eaclhash ?st ! i)
      = (if i = h then eah_entry_cnt (mvfs_eaclhash st ! i) - 1 else eah_entry_cnt (mvfs_eaclhash st ! i))"
    if "i < mvfs_eaclhash_size st" for i
    using hl that S(1)
    by (simp add: mvfs_eaclhash_free_entry_def mvfs_eaclhash_remove_entry_def upd_slot_def slots_ok_def
        nth_list_update)
  have "distinct (slot_chain ?st i) \<and> set (slot_chain ?st i) = slot_entries ?st i \<and>
      eah_entry_cnt (mvfs_eaclhash ?st ! i) = of_nat (length (slot_chain ?st i))"
    if i: "i < mvfs_eaclhash_size st" for i
  proof (cases "i = h")
    case True
    have "word_of_nat (length (slot_chain st h) - Suc 0) = word_of_nat (length (slot_chain st h)) - (1::u32)"
      using ha by (cases "slot_chain st h") auto
    then show ?thesis
      using S(1) i ha True by (simp add: slots_ok_def ch cn en length_remove1)
  next
    case False
    then show ?thesis using S(1) i other by (simp add: slots_ok_def ch cn en)
  qed
  moreover have "length (mvfs_eaclhash ?st) = length (mvfs_eaclhash st)"
    by (simp add: mvfs_eaclhash_free_entry_def mvfs_eaclhash_remove_entry_def upd_slot_def)
  ultimately have "slots_ok ?st" using S(1) by (simp add: slots_ok_def sel)
  moreover have "keys_ok ?st"
    using S(2) unfolding keys_ok_def inj_on_def by (simp add: sel)
  moreover have "refs_ok ?st (rf(a := 0))"
    using S(3) by (auto simp: refs_ok_def sel)
  ultimately show ?thesis by (simp add: eacl_inv_def)
qed


lemma get_hit_inv:
  assumes "eacl_inv st rf" and "a \<in> dom (eah_heap st)" and "rf a + 1 < 2 ^ 32"
    and e: "e = (the_entry st a)\<lparr>eah_refcnt := eah_refcnt (the_entry st a) + 1\<rparr>"
  shows "eacl_inv (set_entry a (mvfs_eaclhash_validate_eaclh rpc clock mn e)
           ((set_entry a e st)\<lparr>eac_hits := n\<rparr>)) (rf(a := rf a + 1))"
proof -
  have "unat (eah_refcnt (the_entry st a)) = rf a" using assms(1,2) by (auto simp: eacl_inv_def refs_ok_def)
  then have c: "unat (eah_refcnt e) = rf a + 1"
    using assms(3) by (simp add: e unat_word_ariths take_bit_nat_eq_self unsigned_of_nat)
  have inv: "eacl_inv ((set_entry a e st)\<lparr>eac_hits := n\<rparr>) (rf(a := rf a + 1))"
    using set_entry_inv [OF assms(1,2) _ c] by (simp add: e)
  show ?thesis
    using set_entry_inv [OF inv, of a "mvfs_eaclhash_validate_eaclh rpc clock mn e" "rf a + 1"] c
    by (simp add: the_entry_def set_entry_def)
qed

text \<open>The argument of \<open>hold\<close>: the server, the clock, what the allocator returns, the mnode and the key.\<close>
type_synonym eacl_get_arg =
  "eacl_server \<times> (nat \<Rightarrow> u64) \<times> addr option \<times> acl_mnode \<times> mvfs_eaclhash_entry_key"

definition eacl_hold :: "eacl_get_arg \<Rightarrow> mvfs_acl_data \<Rightarrow> addr option \<times> mvfs_acl_data" where
  "eacl_hold arg st = (case arg of (rpc, clock, alloc, mn, key) \<Rightarrow> mvfs_eaclhash_get rpc clock alloc mn key st)"

text \<open>The allocator returns a fresh address or none.\<close>
definition alloc_ok :: "addr option \<Rightarrow> mvfs_acl_data \<Rightarrow> bool" where
  "alloc_ok alloc st \<longleftrightarrow> (\<forall>a. alloc = Some a \<longrightarrow> eah_heap st a = None)"

definition eacl_can_hold :: "eacl_get_arg \<Rightarrow> mvfs_acl_data \<Rightarrow> bool" where
  "eacl_can_hold arg st = (case arg of (_, _, alloc, _, _) \<Rightarrow> alloc_ok alloc st)"

lemma find_hit:
  assumes "slots_ok st" and "chain_find st key (eah_chain (mvfs_eaclhash st ! h)) = Some a"
    and "h = MVFS_EACLHASH (mvfs_eaclhash_size st) key"
  shows "a \<in> dom (eah_heap st)"
  using chain_find_Some [OF assms(2)] assms(1,3)
  by (auto simp: slots_ok_def slot_entries_def slot_chain_def MVFS_EACLHASH_def)

lemma find_miss:
  assumes "slots_ok st" and "chain_find st key (eah_chain (mvfs_eaclhash st ! h)) = None"
    and "h = MVFS_EACLHASH (mvfs_eaclhash_size st) key"
  shows "\<forall>b\<in>dom (eah_heap st). eah_key (the_entry st b) \<noteq> key"
proof (intro ballI notI)
  fix b assume "b \<in> dom (eah_heap st)" and k: "eah_key (the_entry st b) = key"
  then have "b \<in> slot_entries st h" by (simp add: slot_entries_def entry_hash_def assms(3))
  moreover have "h < mvfs_eaclhash_size st" using assms(1,3) by (simp add: slots_ok_def MVFS_EACLHASH_def)
  ultimately have "b \<in> set (slot_chain st h)" using assms(1) by (simp add: slots_ok_def)
  then show False using chain_find_None [OF assms(2)] k by (auto simp: slot_chain_def)
qed

lemma get_cases:
  assumes "mvfs_eaclhash_get rpc clock alloc mn key st = (r, st')"
    and "h = MVFS_EACLHASH (mvfs_eaclhash_size st) key"
  obtains (hit) a e where "r = Some a" "chain_find st key (eah_chain (mvfs_eaclhash st ! h)) = Some a"
      "e = (the_entry st a)\<lparr>eah_refcnt := eah_refcnt (the_entry st a) + 1\<rparr>"
      "st' = set_entry a (mvfs_eaclhash_validate_eaclh rpc clock mn e)
           ((set_entry a e st)\<lparr>eac_hits := eac_hits st + 1\<rparr>)"
    | (no_memory) "r = None" "alloc = None" "st' = st\<lparr>eac_misses := eac_misses st + 1\<rparr>"
      "chain_find st key (eah_chain (mvfs_eaclhash st ! h)) = None"
    | (new) a e where "r = Some a" "alloc = Some a"
      "chain_find st key (eah_chain (mvfs_eaclhash st ! h)) = None"
      "e = mvfs_eaclhash_update_eaclh rpc (mn_viewvp mn = None) clock
         \<lparr>eah_key = key, eah_refcnt = 1, eah_eacl_lut = timeval_zero,
          eah_policy_oid = TBS_UUID_NULL, eah_eaclh = None\<rparr>"
      "st' = mvfs_eaclhash_add_entry a h (set_entry a e (st\<lparr>eac_misses := eac_misses st + 1\<rparr>))"
proof (cases "chain_find st key (eah_chain (mvfs_eaclhash st ! h))")
  case None
  then show ?thesis
    using assms no_memory new
    by (cases alloc) (simp_all add: mvfs_eaclhash_get_def mvfs_eaclhash_find_entry_def Let_def, blast?)
next
  case (Some a)
  show ?thesis
    using assms Some
    by (intro hit [OF _ Some refl])
      (simp_all add: mvfs_eaclhash_get_def mvfs_eaclhash_find_entry_def Let_def set_entry_def the_entry_def)
qed

lemma get_inv:
  assumes inv: "eacl_inv st rf" and "alloc_ok alloc st"
    and g: "mvfs_eaclhash_get rpc clock alloc mn key st = (r, st')"
    and "\<And>a. r = Some a \<Longrightarrow> rf a + 1 < 2 ^ 32"
  shows "eacl_inv st' (case r of None \<Rightarrow> rf | Some a \<Rightarrow> rf(a := rf a + 1))"
  using g refl
proof (cases rule: get_cases)
  case (hit a e)
  have "a \<in> dom (eah_heap st)" using find_hit [OF _ hit(2)] inv by (simp add: eacl_inv_def)
  then show ?thesis using get_hit_inv [OF inv _ assms(4) hit(3)] hit by simp
next
  case no_memory
  then show ?thesis using inv by simp
next
  case (new a e)
  let ?st = "st\<lparr>eac_misses := eac_misses st + 1\<rparr>"
  have fresh: "a \<notin> dom (eah_heap ?st)" using assms(2) new by (auto simp: alloc_ok_def)
  have "rf a = 0" using inv fresh by (auto simp: eacl_inv_def refs_ok_def)
  moreover have "\<forall>b\<in>dom (eah_heap ?st). eah_key (the_entry ?st b) \<noteq> eah_key e"
    using find_miss [OF _ new(3) refl] inv by (simp add: eacl_inv_def new(4) the_entry_def)
  ultimately show ?thesis
    using add_entry_inv [OF _ fresh, of rf e "MVFS_EACLHASH (mvfs_eaclhash_size st) key"] inv
    by (simp add: new)
qed

lemma release_inv:
  assumes inv: "eacl_inv st rf" and "0 < rf a"
  shows "eacl_inv (mvfs_eaclhash_release (Some a) st) (rf(a := rf a - 1))"
proof -
  let ?e = "(the_entry st a)\<lparr>eah_refcnt := eah_refcnt (the_entry st a) - 1\<rparr>"
  have a: "a \<in> dom (eah_heap st)" and c: "unat (eah_refcnt (the_entry st a)) = rf a"
    using assms by (auto simp: eacl_inv_def refs_ok_def)
  have "eah_refcnt (the_entry st a) \<noteq> 0" using c assms(2) by auto
  then have c': "unat (eah_refcnt ?e) = rf a - 1" using c by (simp add: unat_minus_one)
  show ?thesis
  proof (cases "rf a = 1")
    case True
    then have z: "eah_refcnt (the_entry st a) - 1 = 0" using c' by (simp add: unat_eq_zero)
    have "mvfs_eaclhash_release (Some a) st
        = mvfs_eaclhash_free_entry a (mvfs_eaclhash_remove_entry a (entry_hash st a) st)"
      by (simp add: mvfs_eaclhash_release_def Let_def z entry_hash_def mvfs_eaclhash_free_entry_def
          mvfs_eaclhash_remove_entry_def upd_slot_def set_entry_def)
    then show ?thesis using free_entry_inv [OF inv a refl] True by simp
  next
    case False
    then have "eah_refcnt (the_entry st a) - 1 \<noteq> 0" using c' assms(2) by auto
    then show ?thesis
      using set_entry_inv [OF inv a _ c'] False assms(2) by (simp add: mvfs_eaclhash_release_def Let_def)
  qed
qed

interpretation eacl_table: refcount_table eacl_inv eacl_can_hold eacl_hold mvfs_eaclhash_release "2 ^ 32"
proof
  fix st rf arg a st'
  assume "eacl_inv st rf" "eacl_can_hold arg st" "eacl_hold arg st = (Some a, st')" "rf a + 1 < 2 ^ 32"
  then show "eacl_inv st' (rf(a := rf a + 1))"
    using get_inv [of st rf _ _ _ _ _ "Some a" st']
    by (fastforce simp: eacl_can_hold_def eacl_hold_def split: prod.splits)
next
  fix st rf arg st'
  assume "eacl_inv st rf" "eacl_can_hold arg st" "eacl_hold arg st = (None, st')"
  then show "eacl_inv st' rf"
    using get_inv [of st rf _ _ _ _ _ None st']
    by (fastforce simp: eacl_can_hold_def eacl_hold_def split: prod.splits)
next
  show "eacl_inv (mvfs_eaclhash_release (Some a) st) (rf(a := rf a - 1))"
    if "eacl_inv st rf" "0 < rf a" for st rf a
    using that by (rule release_inv)
  show "mvfs_eaclhash_release None st = st" for st by (simp add: mvfs_eaclhash_release_def)
qed

section \<open>The mnodes and the table\<close>

lemma acl_cache_inv:
  assumes "eacl_inv st (refs_of (map mn_aclh ms))" and "i < length ms" and "length ms + 1 < 2 ^ 32"
    and "alloc_ok alloc st" and c: "mvfs_acl_cache rpc clock alloc (ms ! i) st = (mn', st')"
  shows "eacl_inv st' (refs_of (map mn_aclh (ms[i := mn'])))"
proof (cases "MFS_OIDNULL (mn_rolemap_oid (ms ! i))")
  case True
  then show ?thesis
    using c eacl_table.clear_handle [OF assms(1), of i] assms(2)
    by (auto simp: mvfs_acl_cache_def map_update)
next
  case False
  let ?arg = "(rpc, clock, alloc, ms ! i, mnode_acl_key (ms ! i))"
  obtain h st1 where g: "eacl_hold ?arg st = (h, st1)" by force
  have "eacl_inv (mvfs_eaclhash_release (map mn_aclh ms ! i) st1) (refs_of ((map mn_aclh ms)[i := h]))"
    using eacl_table.swap_handle [OF assms(1) _ _ _ g] assms by (simp add: eacl_can_hold_def)
  then show ?thesis
    using c g False assms(2)
    by (auto simp: mvfs_acl_cache_def eacl_hold_def map_update split: if_splits)
qed

lemma acl_uncache_inv:
  assumes "eacl_inv st (refs_of (map mn_aclh ms))" and "i < length ms"
    and "mvfs_acl_uncache (ms ! i) st = (mn', st')"
  shows "eacl_inv st' (refs_of (map mn_aclh (ms[i := mn'])))"
  using eacl_table.clear_handle [OF assms(1), of i] assms(2,3)
  by (auto simp: mvfs_acl_uncache_def map_update)

lemma same_entry_inv:
  assumes "eacl_inv st rf" and "a \<in> dom (eah_heap st)" and "eah_key e = eah_key (the_entry st a)"
    and "eah_refcnt e = eah_refcnt (the_entry st a)"
  shows "eacl_inv (set_entry a e st) rf"
proof -
  have "unat (eah_refcnt e) = rf a" "0 < rf a" using assms by (auto simp: eacl_inv_def refs_ok_def)
  then show ?thesis using set_entry_inv [OF assms(1-3)] by fastforce
qed

lemma inval_chain_inv:
  "eacl_inv st rf \<Longrightarrow> set as \<subseteq> dom (eah_heap st) \<Longrightarrow> eacl_inv (inval_chain t oid as st) rf"
proof (induction t oid as st rule: inval_chain.induct)
  case (2 t oid ep rest st)
  let ?e = "(the_entry st ep)\<lparr>eah_eacl_lut := timeval_zero\<rparr>"
  have "eacl_inv (set_entry ep ?e st) rf" using same_entry_inv [of st rf ep ?e] "2.prems" by simp
  moreover have "set rest \<subseteq> dom (eah_heap (set_entry ep ?e st))" using "2.prems" by auto
  ultimately show ?case
    using "2.IH" "2.prems" by (cases "oid_hits t oid (the_entry st ep)") (simp_all del: set_entry_sel)
qed simp

lemma inval_chain_size [simp]: "mvfs_eaclhash_size (inval_chain t oid as st) = mvfs_eaclhash_size st"
  by (induction t oid as st rule: inval_chain.induct) simp_all

lemma inval_fold_inv:
  "eacl_inv st rf \<Longrightarrow> n \<le> mvfs_eaclhash_size st \<Longrightarrow>
   eacl_inv (fold (\<lambda>h st. inval_chain t oid (eah_chain (mvfs_eaclhash st ! h)) st) [0..<n] st) rf \<and>
   mvfs_eaclhash_size (fold (\<lambda>h st. inval_chain t oid (eah_chain (mvfs_eaclhash st ! h)) st) [0..<n] st)
     = mvfs_eaclhash_size st"
proof (induction n)
  case (Suc n)
  let ?st = "fold (\<lambda>h st. inval_chain t oid (eah_chain (mvfs_eaclhash st ! h)) st) [0..<n] st"
  have IH: "eacl_inv ?st rf" "mvfs_eaclhash_size ?st = mvfs_eaclhash_size st" using Suc by simp_all
  have "set (eah_chain (mvfs_eaclhash ?st ! n)) \<subseteq> dom (eah_heap ?st)"
    using IH Suc.prems by (auto simp: eacl_inv_def slots_ok_def slot_chain_def slot_entries_def)
  then show ?case using IH inval_chain_inv [OF IH(1)] by simp
qed simp

lemma inval_oid_inv: "eacl_inv st rf \<Longrightarrow> eacl_inv (mvfs_acl_inval_oid t oid st) rf"
  using inval_fold_inv [of st rf "mvfs_eaclhash_size st"] by (simp add: mvfs_acl_inval_oid_def)

text \<open>The steps that change the cache: an mnode's list is cached, given up or validated, a rolemap or
  policy is invalidated, an mnode appears, or its attributes change.\<close>
inductive acl_step :: "acl_mnode list \<times> mvfs_acl_data \<Rightarrow> acl_mnode list \<times> mvfs_acl_data \<Rightarrow> bool" where
  cache: "i < length ms \<Longrightarrow> alloc_ok alloc st \<Longrightarrow> mvfs_acl_cache rpc clock alloc (ms ! i) st = (mn', st')
    \<Longrightarrow> acl_step (ms, st) (ms[i := mn'], st')"
| uncache: "i < length ms \<Longrightarrow> mvfs_acl_uncache (ms ! i) st = (mn', st') \<Longrightarrow> acl_step (ms, st) (ms[i := mn'], st')"
| validate: "i < length ms \<Longrightarrow>
    acl_step (ms, st) (ms, mvfs_eaclhash_validate rpc clock (ms ! i) (mn_aclh (ms ! i)) st)"
| inval: "acl_step (ms, st) (ms, mvfs_acl_inval_oid oid_type obj_oid st)"
| attrs: "i < length ms \<Longrightarrow> mn_aclh mn' = mn_aclh (ms ! i) \<Longrightarrow> acl_step (ms, st) (ms[i := mn'], st)"
| mnode: "mn_aclh mn = None \<Longrightarrow> length ms + 2 < 2 ^ 32 \<Longrightarrow> acl_step (ms, st) (ms @ [mn], st)"

definition acl_sys_inv :: "acl_mnode list \<times> mvfs_acl_data \<Rightarrow> bool" where
  "acl_sys_inv s \<longleftrightarrow> eacl_inv (snd s) (refs_of (map mn_aclh (fst s))) \<and> length (fst s) + 1 < 2 ^ 32"

lemma refs_of_snoc_None [simp]: "refs_of (hs @ [None]) = refs_of hs"
  by (simp add: refs_of_def fun_eq_iff)

lemma handle_allocated:
  assumes "eacl_inv st (refs_of (map mn_aclh ms))" and "i < length ms" and "mn_aclh (ms ! i) = Some a"
  shows "a \<in> dom (eah_heap st)"
proof -
  have "0 < refs_of (map mn_aclh ms) a" using refs_of_pos [of i "map mn_aclh ms" a] assms(2,3) by simp
  then show ?thesis using assms(1) by (auto simp: eacl_inv_def refs_ok_def)
qed

lemma validate_inv:
  assumes "eacl_inv st (refs_of (map mn_aclh ms))" and "i < length ms"
  shows "eacl_inv (mvfs_eaclhash_validate rpc clock mn (mn_aclh (ms ! i)) st) (refs_of (map mn_aclh ms))"
  using same_entry_inv [OF assms(1) handle_allocated [OF assms]] assms(1)
  by (auto simp: mvfs_eaclhash_validate_def split: option.splits)

lemma acl_step_inv: "acl_step s s' \<Longrightarrow> acl_sys_inv s \<Longrightarrow> acl_sys_inv s'"
proof (induction rule: acl_step.induct)
  case (attrs i ms mn' st)
  then have "map mn_aclh (ms[i := mn']) = map mn_aclh ms"
    by (metis length_map list_update_id map_update nth_map)
  then show ?case using attrs by (simp add: acl_sys_inv_def)
qed (auto simp: acl_sys_inv_def acl_cache_inv acl_uncache_inv validate_inv inval_oid_inv)

lemma acl_init_inv: "mvfs_acl_init True True = (0, Some st) \<Longrightarrow> acl_sys_inv ([], st)"
  by (auto simp: mvfs_acl_init_def acl_sys_inv_def eacl_inv_def slots_ok_def keys_ok_def refs_ok_def
      slot_chain_def slot_entries_def mvfs_eaclhash_size_default_def refs_of_def)

section \<open>Reassembly of a list\<close>

text \<open>One call: the bytes of the reply are decoded into a reply structure that starts with the
  caller's cursor and handle.\<close>
definition eacl_reply_init :: "view_eacl_cursor_t \<Rightarrow> tbs_sid_acl_h_t \<Rightarrow> view_eacl_rolemap_reply_t" where
  "eacl_reply_init cursor aclh = \<lparr>err_hdr = \<lparr>hr_xid = 0, hr_status = 0\<rparr>, err_cursor = cursor,
     err_eaclh = aclh, err_eacl_mtime = timeval_zero, err_policy_oid = TBS_UUID_NULL\<rparr>"

definition eacl_call :: "byte list \<Rightarrow> view_eacl_cursor_t \<Rightarrow> tbs_sid_acl_h_t \<Rightarrow> eacl_rpc" where
  "eacl_call bytes cursor aclh =
    (case xdr_view_eacl_rolemap_reply_t True True True (xgive xdr_decoder bytes) (eacl_reply_init cursor aclh) of
       XTrue rr x \<Rightarrow> (0, rr)
     | _ \<Rightarrow> (EIO, eacl_reply_init cursor aclh))"

text \<open>A view server that hands a list out in blocks of \<open>blk\<close> entries.\<close>
definition eacl_next_cursor :: "nat \<Rightarrow> tbs_acl_cooked_ent_t list \<Rightarrow> timeval \<Rightarrow> nat \<Rightarrow> view_eacl_cursor_t" where
  "eacl_next_cursor blk es mtime off = \<lparr>ec_eacl_mtime = mtime,
     ec_next_offset = (if off + blk < length es then of_nat (off + blk) else 0)\<rparr>"

definition eacl_block_bytes :: "nat \<Rightarrow> tbs_acl_cooked_ent_t list \<Rightarrow> timeval \<Rightarrow> tbs_oid_t \<Rightarrow> nat \<Rightarrow> byte list" where
  "eacl_block_bytes blk es mtime policy off =
     wire_view_hdr_reply \<lparr>hr_xid = 0, hr_status = 0\<rparr> @ wire_fragment off (min blk (length es - off)) es @
     wire_view_eacl_cursor (eacl_next_cursor blk es mtime off) @ wire_timeval mtime @ wire_uuid policy"

definition eacl_block_server :: "nat \<Rightarrow> tbs_acl_cooked_ent_t list \<Rightarrow> timeval \<Rightarrow> tbs_oid_t \<Rightarrow> eacl_server" where
  "eacl_block_server blk es mtime policy k cursor aclh =
     eacl_call (eacl_block_bytes blk es mtime policy (unat (ec_next_offset cursor))) cursor aclh"

lemma decode_fragment:
  assumes "x_op x = XDR_DECODE" and "\<forall>e\<in>set es. ok_ace e" and "length es < 2 ^ 32"
    and "off + count \<le> length es"
  shows "xdr_tbs_sid_acl_fragment_t True True True (xgive x (wire_fragment off count es @ r))
      (of_nat off, if off = 0 then None else Some (partial_acl off es))
    = XTrue (of_nat off, Some (partial_acl (off + count) es)) (xgive x r)"
  using decode_first_fragment [of x es count r] decode_next_fragment [of x es off count r] assms by simp

lemma eacl_block_call:
  assumes "\<forall>e\<in>set es. ok_ace e" and "length es < 2 ^ 32" and "ok_timeval mtime" and "wf_uuid policy"
    and "off \<le> length es" and "ec_next_offset cursor = of_nat off"
    and aclh: "aclh = (if off = 0 then None else Some (partial_acl off es))"
  shows "eacl_block_server blk es mtime policy k cursor aclh
    = (0, \<lparr>err_hdr = \<lparr>hr_xid = 0, hr_status = 0\<rparr>, err_cursor = eacl_next_cursor blk es mtime off,
          err_eaclh = Some (partial_acl (min (off + blk) (length es)) es), err_eacl_mtime = mtime,
          err_policy_oid = policy\<rparr>)"
proof -
  let ?n = "min blk (length es - off)"
  have off: "unat (word_of_nat off :: u32) = off" using assms(2,5) by (simp add: unat_of_nat_u32)
  have c: "ok_view_eacl_cursor (eacl_next_cursor blk es mtime off)"
    using assms(3) by (simp add: ok_view_eacl_cursor_def eacl_next_cursor_def)
  have h: "ok_view_hdr_reply \<lparr>hr_xid = 0, hr_status = 0\<rparr>"
    by (simp add: ok_view_hdr_reply_def ok_u_long_def)
  have m: "off + ?n = min (off + blk) (length es)" using assms(5) by simp
  have f: "xdr_tbs_sid_acl_fragment_t True True True (xgive xdr_decoder (wire_fragment off ?n es @ r))
      (of_nat off, aclh) = XTrue (of_nat off, Some (partial_acl (min (off + blk) (length es)) es)) (xgive xdr_decoder r)"
    for r using decode_fragment [of xdr_decoder es off ?n r] assms m by (simp only: aclh) simp
  show ?thesis
    using timeval_c.decode [of xdr_decoder mtime] uuid_c.decode [of xdr_decoder policy "[]"] assms(3,4,6) c h
    by (simp add: eacl_block_server_def eacl_call_def off eacl_block_bytes_def eacl_reply_init_def
        xdr_view_eacl_rolemap_reply_t_def xdr_at_def view_hdr_reply_c.decode view_eacl_cursor_c.decode f
        xdr_rules)
qed

definition fetched :: "tbs_acl_cooked_ent_t list \<Rightarrow> timeval \<Rightarrow> tbs_oid_t \<Rightarrow> nat
    \<Rightarrow> mvfs_eaclhash_entry \<Rightarrow> mvfs_eaclhash_entry" where
  "fetched es mtime policy n ep = ep\<lparr>eah_eaclh := Some (partial_acl n es), eah_eacl_lut := mtime,
     eah_policy_oid := policy\<rparr>"

lemma fetched_sel [simp]:
  "eah_eaclh (fetched es mtime policy n ep) = Some (partial_acl n es)"
  "fetched es mtime policy m (fetched es mtime policy n ep) = fetched es mtime policy m ep"
  by (simp_all add: fetched_def)

lemma eacl_next_cursor_offset:
  assumes "length es < 2 ^ 32" and "0 < blk"
  shows "ec_next_offset (eacl_next_cursor blk es mtime off) = 0 \<longleftrightarrow> length es \<le> off + blk"
    and "off + blk < length es \<Longrightarrow> ec_next_offset (eacl_next_cursor blk es mtime off) = of_nat (off + blk)"
  using assms unat_of_nat_u32 [of "off + blk"]
  by (auto simp: eacl_next_cursor_def unat_eq_zero [symmetric])

text \<open>One turn of the loop against the block server.\<close>
lemma eacl_fetch_block:
  assumes "\<forall>e\<in>set es. ok_ace e" "length es < 2 ^ 32" "ok_timeval mtime" "wf_uuid policy"
    and "0 < blk" and "count < mvfs_eacl_blocks_default" and "off \<le> length es"
    and "ec_next_offset cursor = of_nat off"
    and "eah_eaclh ep = (if off = 0 then None else Some (partial_acl off es))"
  shows "eacl_fetch (eacl_block_server blk es mtime policy) False clock k count restarted cursor ep =
    (let cursor = eacl_next_cursor blk es mtime off;
         ep = fetched es mtime policy (min (off + blk) (length es)) ep in
     if length es \<le> off + blk then (0, TBS_ST_OK, cursor, ep)
     else eacl_fetch (eacl_block_server blk es mtime policy) False clock (k + 1) (count + 1) restarted cursor ep)"
  by (subst eacl_fetch.simps)
    (use assms eacl_block_call [OF assms(1-4,7,8,9), of blk k] eacl_next_cursor_offset(1) [OF assms(2,5), of mtime off]
     in \<open>simp add: mvfs_clnt_get_eacl_mnp_def Let_def fetched_def errno_code\<close>)

lemma eacl_fetch_all:
  assumes "\<forall>e\<in>set es. ok_ace e" "length es < 2 ^ 32" "ok_timeval mtime" "wf_uuid policy" "0 < blk"
    and "length es \<le> mvfs_eacl_blocks_default * blk"
    and "off = 0 \<or> off < length es" and "off = count * blk" and "ec_next_offset cursor = of_nat off"
    and "eah_eaclh ep = (if off = 0 then None else Some (partial_acl off es))"
  shows "\<exists>cursor'. ec_next_offset cursor' = 0 \<and>
     eacl_fetch (eacl_block_server blk es mtime policy) False clock k count restarted cursor ep
       = (0, TBS_ST_OK, cursor', fetched es mtime policy (length es) ep)"
  using assms
proof (induction "length es - off" arbitrary: off k count cursor ep rule: less_induct)
  case less
  have "off < mvfs_eacl_blocks_default * blk \<or> off = 0" using less.prems(6,7) by linarith
  then have "count * blk < mvfs_eacl_blocks_default * blk \<or> count = 0" using less.prems(5,8) by simp
  then have count: "count < mvfs_eacl_blocks_default" using mult_less_cancel2 by (auto simp: mvfs_eacl_blocks_default_def)
  have le: "off \<le> length es" using less.prems(7) by auto
  note step = eacl_fetch_block [OF less.prems(1-5) count le less.prems(9,10), of clock k restarted]
  note nx = eacl_next_cursor_offset [OF less.prems(2,5), where mtime = mtime and off = off]
  show ?case
  proof (cases "length es \<le> off + blk")
    case True
    then show ?thesis using step nx(1) by (simp add: Let_def min_def split: if_splits)
  next
    case False
    let ?c = "eacl_next_cursor blk es mtime off" and ?ep = "fetched es mtime policy (off + blk) ep"
    have "\<exists>cursor'. ec_next_offset cursor' = 0 \<and>
      eacl_fetch (eacl_block_server blk es mtime policy) False clock (k + 1) (count + 1) restarted ?c ?ep
       = (0, TBS_ST_OK, cursor', fetched es mtime policy (length es) ?ep)"
      using less.prems False nx(2) by (intro less.hyps [of "off + blk"]) auto
    then show ?thesis using step False by (simp add: Let_def min_def)
  qed
qed

lemma eacl_fetch_too_long:
  assumes "\<forall>e\<in>set es. ok_ace e" "length es < 2 ^ 32" "ok_timeval mtime" "wf_uuid policy" "0 < blk"
    and "mvfs_eacl_blocks_default * blk < length es"
    and "count \<le> mvfs_eacl_blocks_default" and "off = count * blk" and "ec_next_offset cursor = of_nat off"
    and "eah_eaclh ep = (if off = 0 then None else Some (partial_acl off es))"
  shows "\<exists>cursor' ep'. ec_next_offset cursor' = of_nat (mvfs_eacl_blocks_default * blk) \<and>
     eacl_fetch (eacl_block_server blk es mtime policy) False clock k count restarted cursor ep
       = (0, TBS_ST_OK, cursor', ep')"
  using assms
proof (induction "mvfs_eacl_blocks_default - count" arbitrary: off k count cursor ep)
  case 0
  then show ?case by (subst eacl_fetch.simps) simp
next
  case (Suc d)
  have count: "count < mvfs_eacl_blocks_default" using Suc.hyps(2) by simp
  then have "(count + 1) * blk \<le> mvfs_eacl_blocks_default * blk" by (intro mult_le_mono1) simp
  then have more: "off + blk < length es" using Suc.prems(6,8) by simp
  note step = eacl_fetch_block [OF Suc.prems(1-5) count _ Suc.prems(9,10), of clock k restarted]
  let ?c = "eacl_next_cursor blk es mtime off" and ?ep = "fetched es mtime policy (off + blk) ep"
  have "\<exists>cursor' ep'. ec_next_offset cursor' = of_nat (mvfs_eacl_blocks_default * blk) \<and>
      eacl_fetch (eacl_block_server blk es mtime policy) False clock (k + 1) (count + 1) restarted ?c ?ep
       = (0, TBS_ST_OK, cursor', ep')"
    using Suc.prems Suc.hyps(2) count more eacl_next_cursor_offset(2) [OF Suc.prems(2,5) more]
    by (intro Suc.hyps(1) [of "count + 1" "off + blk"]) auto
  then show ?case using step more by (simp add: Let_def min_def)
qed

lemma update_reassembled:
  assumes "\<forall>e\<in>set es. ok_ace e" and "length es < 2 ^ 32" and "ok_timeval mtime" and "wf_uuid policy"
    and "0 < blk" and "length es \<le> mvfs_eacl_blocks_default * blk"
  shows "\<exists>acl. mvfs_eaclhash_update_eaclh (eacl_block_server blk es mtime policy) False clock ep
        = ep\<lparr>eah_eaclh := Some acl, eah_eacl_lut := mtime, eah_policy_oid := policy\<rparr> \<and>
        wf_acl acl \<and> acl_aces acl = es"
proof -
  obtain c where "ec_next_offset c = 0"
    "eacl_fetch (eacl_block_server blk es mtime policy) False clock 0 0 False VIEW_EACL_CURSOR_NULL
       (ep\<lparr>eah_eaclh := None\<rparr>) = (0, TBS_ST_OK, c, fetched es mtime policy (length es) (ep\<lparr>eah_eaclh := None\<rparr>))"
    using eacl_fetch_all [OF assms, of 0 0 VIEW_EACL_CURSOR_NULL] by (force simp: VIEW_EACL_CURSOR_NULL_def)
  then show ?thesis
    using assms partial_acl_aces [of "length es" es] partial_acl_wf [of "length es" es]
    by (auto simp: mvfs_eaclhash_update_eaclh_def fetched_def)
qed

lemma update_too_long:
  assumes "\<forall>e\<in>set es. ok_ace e" and "length es < 2 ^ 32" and "ok_timeval mtime" and "wf_uuid policy"
    and "0 < blk" and "mvfs_eacl_blocks_default * blk < length es"
  shows "eah_eaclh (mvfs_eaclhash_update_eaclh (eacl_block_server blk es mtime policy) False clock ep) = None"
proof -
  obtain c ep' where "ec_next_offset c = of_nat (mvfs_eacl_blocks_default * blk)"
    "eacl_fetch (eacl_block_server blk es mtime policy) False clock 0 0 False VIEW_EACL_CURSOR_NULL
       (ep\<lparr>eah_eaclh := None\<rparr>) = (0, TBS_ST_OK, c, ep')"
    using eacl_fetch_too_long [OF assms, of 0 0 VIEW_EACL_CURSOR_NULL] by (force simp: VIEW_EACL_CURSOR_NULL_def)
  moreover have "(of_nat (mvfs_eacl_blocks_default * blk) :: u32) \<noteq> 0"
    using assms(2,5,6) unat_of_nat_u32 [of "mvfs_eacl_blocks_default * blk"]
    by (auto simp: mvfs_eacl_blocks_default_def unat_eq_zero [symmetric])
  ultimately show ?thesis by (simp add: mvfs_eaclhash_update_eaclh_def)
qed

text \<open>C3: a list the view server hands out in blocks is reassembled as a whole: after an update the
  entry holds every access control entry in the server's order and the server's modification time; a
  list of more than a hundred blocks leaves the entry without a list.\<close>
theorem update_reassembles:
  assumes "\<forall>e\<in>set es. ok_ace e" and "length es < 2 ^ 32" and "ok_timeval mtime" and "wf_uuid policy"
    and "0 < blk"
  shows "if length es \<le> mvfs_eacl_blocks_default * blk
    then \<exists>acl. mvfs_eaclhash_update_eaclh (eacl_block_server blk es mtime policy) False clock ep
        = ep\<lparr>eah_eaclh := Some acl, eah_eacl_lut := mtime, eah_policy_oid := policy\<rparr> \<and>
        wf_acl acl \<and> acl_aces acl = es
    else eah_eaclh (mvfs_eaclhash_update_eaclh (eacl_block_server blk es mtime policy) False clock ep) = None"
  using update_reassembled [OF assms] update_too_long [OF assms] by simp

definition ace_example :: "u32 \<Rightarrow> tbs_acl_cooked_ent_t" where
  "ace_example uid = \<lparr>ce_id = \<lparr>si_kind = TBS_ACL_ID_USER, si_domain = None, si_name = None,
     si_principal_id = uid\<rparr>, ce_perm_set = 0x4000\<rparr>"

lemma ace_example_ok: "uid \<noteq> KS_UID_NOBODY \<Longrightarrow> ok_ace (ace_example uid)"
  by (simp add: ok_ace_def ace_example_def ok_u_long_def)

definition entry_example :: mvfs_eaclhash_entry where
  "entry_example = \<lparr>eah_key = \<lparr>eah_rolemap_oid = TBS_UUID_NULL\<lparr>time_low := 1\<rparr>, eah_replica_uuid = TBS_UUID_NULL,
     eah_view_type = ENUM_Unix\<rparr>, eah_refcnt = 1, eah_eacl_lut = \<lparr>tv_sec = 5, tv_usec = 0\<rparr>,
     eah_policy_oid = TBS_UUID_NULL, eah_eaclh = None\<rparr>"

theorem update_reassembles_witness:
  "\<exists>acl. mvfs_eaclhash_update_eaclh
      (eacl_block_server 1 [ace_example 7, ace_example 8] timeval_zero TBS_UUID_NULL) False (\<lambda>_. 0) entry_example
        = entry_example\<lparr>eah_eaclh := Some acl, eah_eacl_lut := timeval_zero, eah_policy_oid := TBS_UUID_NULL\<rparr> \<and>
        wf_acl acl \<and> acl_aces acl = [ace_example 7, ace_example 8]"
proof -
  have "\<forall>e\<in>set [ace_example 7, ace_example 8]. ok_ace e"
    by (simp add: ace_example_ok KS_UID_NOBODY_def)
  moreover have "ok_timeval timeval_zero" by (simp add: ok_timeval_def timeval_zero_def ok_long_def)
  moreover have "wf_uuid TBS_UUID_NULL" by (simp add: wf_uuid_def TBS_UUID_NULL_def)
  ultimately show ?thesis
    using update_reassembles [of "[ace_example 7, ace_example 8]" timeval_zero TBS_UUID_NULL 1 "\<lambda>_. 0" entry_example]
    by (simp add: mvfs_eacl_blocks_default_def)
qed

section \<open>Reachable states\<close>

lemma acl_reachable_inv: "acl_step\<^sup>*\<^sup>* s s' \<Longrightarrow> acl_sys_inv s \<Longrightarrow> acl_sys_inv s'"
  by (induction rule: rtranclp_induct) (auto intro: acl_step_inv)

lemma refs_of_card: "refs_of (map f xs) a = card {i. i < length xs \<and> f (xs ! i) = Some a}"
  by (simp add: refs_of_def length_filter_conv_card) (rule arg_cong [where f = card], auto)

text \<open>C2: in every state the cache can reach, an mnode's handle points at an allocated entry; an
  allocated entry counts exactly the mnodes that hold it and has at least one; the chain of a slot
  holds exactly the entries whose key hashes to it; and no two entries have the same key.\<close>
theorem eacl_cache_safety:
  assumes "mvfs_acl_init True True = (0, Some st0)" and "acl_step\<^sup>*\<^sup>* ([], st0) (ms, st)"
  shows "(\<forall>i<length ms. \<forall>a. mn_aclh (ms ! i) = Some a \<longrightarrow> a \<in> dom (eah_heap st)) \<and>
    (\<forall>a\<in>dom (eah_heap st). unat (eah_refcnt (the_entry st a)) = card {i. i < length ms \<and> mn_aclh (ms ! i) = Some a}
       \<and> 0 < unat (eah_refcnt (the_entry st a))) \<and>
    (\<forall>i<mvfs_eaclhash_size st. distinct (slot_chain st i) \<and> set (slot_chain st i) =
       {a \<in> dom (eah_heap st). MVFS_EACLHASH (mvfs_eaclhash_size st) (eah_key (the_entry st a)) = i}) \<and>
    inj_on (\<lambda>a. eah_key (the_entry st a)) (dom (eah_heap st))"
proof -
  have inv: "eacl_inv st (refs_of (map mn_aclh ms))"
    using acl_reachable_inv [OF assms(2) acl_init_inv [OF assms(1)]] by (simp add: acl_sys_inv_def)
  have refs: "refs_ok st (refs_of (map mn_aclh ms))" using inv by (simp add: eacl_inv_def)
  have "\<forall>a\<in>dom (eah_heap st). unat (eah_refcnt (the_entry st a)) = card {i. i < length ms \<and> mn_aclh (ms ! i) = Some a}
       \<and> 0 < unat (eah_refcnt (the_entry st a))"
    using refs by (simp add: refs_ok_def refs_of_card)
  moreover have "\<forall>i<length ms. \<forall>a. mn_aclh (ms ! i) = Some a \<longrightarrow> a \<in> dom (eah_heap st)"
    using handle_allocated [OF inv] by blast
  moreover have "\<forall>i<mvfs_eaclhash_size st. distinct (slot_chain st i) \<and> set (slot_chain st i) =
       {a \<in> dom (eah_heap st). MVFS_EACLHASH (mvfs_eaclhash_size st) (eah_key (the_entry st a)) = i}"
    using inv by (simp add: eacl_inv_def slots_ok_def slot_entries_def entry_hash_def)
  moreover have "inj_on (\<lambda>a. eah_key (the_entry st a)) (dom (eah_heap st))"
    using inv by (simp add: eacl_inv_def keys_ok_def)
  ultimately show ?thesis by (intro conjI)
qed

definition mnode_example :: acl_mnode where
  "mnode_example = \<lparr>mn_isvob = True, mn_rolemap_oid = TBS_UUID_NULL\<lparr>time_low := 1\<rparr>,
     mn_eacl_mtime = \<lparr>tv_sec = 5, tv_usec = 0\<rparr>, mn_vobuuid = TBS_UUID_NULL, mn_viewvp = Some False,
     mn_aclh = None\<rparr>"

definition cached_example :: "acl_mnode \<times> mvfs_acl_data" where
  "cached_example = mvfs_acl_cache (eacl_block_server 1 [] timeval_zero TBS_UUID_NULL) (\<lambda>_. 0) (Some 7) mnode_example
     (the (snd (mvfs_acl_init True True)))"

lemma cached_example_reachable:
  "acl_step\<^sup>*\<^sup>* ([], the (snd (mvfs_acl_init True True))) ([fst cached_example], snd cached_example)"
proof -
  let ?st = "the (snd (mvfs_acl_init True True))"
  have "acl_step ([], ?st) ([] @ [mnode_example], ?st)" by (rule acl_step.mnode) (simp_all add: mnode_example_def)
  moreover have "acl_step ([mnode_example], ?st) ([mnode_example][0 := fst cached_example], snd cached_example)"
    by (rule acl_step.cache [of _ _ "Some 7"]) (simp_all add: alloc_ok_def mvfs_acl_init_def cached_example_def)
  ultimately show ?thesis by (simp add: rtranclp.rtrancl_into_rtrancl)
qed

lemma cached_example_handle: "mn_aclh (fst cached_example) = Some 7"
proof -
  have "MVFS_EACLHASH 1024 k < 1024" for k by (simp add: MVFS_EACLHASH_def)
  then show ?thesis
    by (simp add: cached_example_def mvfs_acl_cache_def mnode_example_def mvfs_eaclhash_get_def
      mvfs_eaclhash_find_entry_def mvfs_acl_init_def mvfs_eaclhash_size_default_def MFS_OIDNULL_def
      TBS_UUID_NULL_def Let_def)
qed

theorem eacl_cache_safety_witness:
  "eah_heap (snd cached_example) 7 \<noteq> None \<and> unat (eah_refcnt (the_entry (snd cached_example) 7)) = 1"
proof -
  have s: "mvfs_acl_init True True = (0, Some (the (snd (mvfs_acl_init True True))))"
    by (simp add: mvfs_acl_init_def)
  note c = eacl_cache_safety [OF s cached_example_reachable]
  have d: "7 \<in> dom (eah_heap (snd cached_example))" using c cached_example_handle by simp
  moreover have "{i. i < length [fst cached_example] \<and> mn_aclh ([fst cached_example] ! i) = Some 7} = {0}"
    using cached_example_handle by auto
  ultimately show ?thesis using c by auto
qed

section \<open>Invalidation\<close>

definition inval_entry :: "nat \<Rightarrow> tbs_oid_t \<Rightarrow> mvfs_eaclhash_entry \<Rightarrow> mvfs_eaclhash_entry" where
  "inval_entry t oid e = (if oid_hits t oid e then e\<lparr>eah_eacl_lut := timeval_zero\<rparr> else e)"

lemma inval_entry_sel [simp]:
  "eah_key (inval_entry t oid e) = eah_key e" "inval_entry t oid (inval_entry t oid e) = inval_entry t oid e"
  by (simp_all add: inval_entry_def oid_hits_def)

lemma inval_chain_entry:
  "distinct as \<Longrightarrow> the_entry (inval_chain t oid as st) a
     = (if a \<in> set as then inval_entry t oid (the_entry st a) else the_entry st a)"
  by (induction t oid as st rule: inval_chain.induct) (auto simp: inval_entry_def)

lemma inval_chain_table [simp]: "mvfs_eaclhash (inval_chain t oid as st) = mvfs_eaclhash st"
  by (induction t oid as st rule: inval_chain.induct) simp_all

lemma inval_chain_dom: "set as \<subseteq> dom (eah_heap st) \<Longrightarrow> dom (eah_heap (inval_chain t oid as st)) = dom (eah_heap st)"
  by (induction t oid as st rule: inval_chain.induct) (auto simp: insert_absorb dom_fun_upd)

lemma inval_fold_entry:
  assumes "slots_ok st"
  shows "n \<le> mvfs_eaclhash_size st \<Longrightarrow>
   the_entry (fold (\<lambda>h st. inval_chain t oid (eah_chain (mvfs_eaclhash st ! h)) st) [0..<n] st) a
     = (if \<exists>i<n. a \<in> set (slot_chain st i) then inval_entry t oid (the_entry st a) else the_entry st a) \<and>
   mvfs_eaclhash (fold (\<lambda>h st. inval_chain t oid (eah_chain (mvfs_eaclhash st ! h)) st) [0..<n] st) = mvfs_eaclhash st"
proof (induction n)
  case (Suc n)
  then have "distinct (slot_chain st n)" using assms by (simp add: slots_ok_def)
  then show ?case
    using Suc by (auto simp: inval_chain_entry slot_chain_def less_Suc_eq)
qed simp

lemma inval_oid_entry:
  assumes "slots_ok st" and "a \<in> dom (eah_heap st)"
  shows "the_entry (mvfs_acl_inval_oid t oid st) a = inval_entry t oid (the_entry st a)"
proof -
  have "entry_hash st a < mvfs_eaclhash_size st" using assms(1) by (simp add: entry_hash_def MVFS_EACLHASH_def slots_ok_def)
  moreover from this have "a \<in> set (slot_chain st (entry_hash st a))"
    using assms by (auto simp: slots_ok_def slot_entries_def)
  ultimately show ?thesis
    using inval_fold_entry [OF assms(1), of "mvfs_eaclhash_size st"] by (auto simp: mvfs_acl_inval_oid_def)
qed

text \<open>C12: once a rolemap or a policy is invalidated, the next validation of an entry that depends on it
  fetches the list again, whenever the mnode's own modification time is set; the entries that do not
  depend on it are left as they are.\<close>
theorem inval_oid_forces_refetch:
  assumes "eacl_inv st rf" and "a \<in> dom (eah_heap st)"
    and "0 < tv_sec (mn_eacl_mtime mn)"
    and "st' = mvfs_acl_inval_oid t oid st"
  shows "if oid_hits t oid (the_entry st a)
    then the_entry (mvfs_eaclhash_validate rpc clock mn (Some a) st') a =
      mvfs_eaclhash_update_eaclh rpc (mn_viewvp mn = None) clock ((the_entry st a)\<lparr>eah_eacl_lut := timeval_zero\<rparr>)
    else the_entry st' a = the_entry st a"
  using assms inval_oid_entry [of st a t oid]
  by (simp add: eacl_inv_def mvfs_eaclhash_validate_def inval_entry_def mvfs_eaclhash_validate_eaclh_def
      MVFS_TIMEVAL_NEWER_def DATE_TIMEVALCMP_def timeval_zero_def word_gt_0)

lemma cached_example_inv:
  "eacl_inv (snd cached_example) (refs_of [Some 7])" "7 \<in> dom (eah_heap (snd cached_example))"
proof -
  let ?st = "the (snd (mvfs_acl_init True True))"
  have "mvfs_acl_init True True = (0, Some ?st)" by (simp add: mvfs_acl_init_def)
  then have inv: "acl_sys_inv ([fst cached_example], snd cached_example)"
    using acl_reachable_inv [OF cached_example_reachable acl_init_inv] by simp
  then show "eacl_inv (snd cached_example) (refs_of [Some 7])"
    by (simp add: acl_sys_inv_def cached_example_handle)
  then show "7 \<in> dom (eah_heap (snd cached_example))"
    using handle_allocated [of "snd cached_example" "[fst cached_example]" 0 7]
    by (simp add: cached_example_handle)
qed

lemma cached_example_key:
  "eah_rolemap_oid (eah_key (the_entry (snd cached_example) 7)) = TBS_UUID_NULL\<lparr>time_low := 1\<rparr>"
proof -
  have "MVFS_EACLHASH 1024 k < 1024" for k by (simp add: MVFS_EACLHASH_def)
  then show ?thesis
    by (simp add: cached_example_def mvfs_acl_cache_def mnode_example_def mvfs_eaclhash_get_def
      mvfs_eaclhash_find_entry_def mvfs_acl_init_def mvfs_eaclhash_size_default_def MFS_OIDNULL_def
      TBS_UUID_NULL_def Let_def mvfs_eaclhash_release_def the_entry_def mvfs_eaclhash_add_entry_def
      upd_slot_def mnode_acl_key_def)
qed

theorem inval_oid_forces_refetch_witness:
  "the_entry (mvfs_eaclhash_validate (eacl_block_server 1 [] timeval_zero TBS_UUID_NULL) (\<lambda>_. 9) mnode_example (Some 7)
      (mvfs_acl_inval_oid 44 (TBS_UUID_NULL\<lparr>time_low := 1\<rparr>) (snd cached_example))) 7 =
   mvfs_eaclhash_update_eaclh (eacl_block_server 1 [] timeval_zero TBS_UUID_NULL) False (\<lambda>_. 9)
      ((the_entry (snd cached_example) 7)\<lparr>eah_eacl_lut := timeval_zero\<rparr>)"
proof -
  have "oid_hits 44 (TBS_UUID_NULL\<lparr>time_low := 1\<rparr>) (the_entry (snd cached_example) 7)"
    by (simp add: oid_hits_def cached_example_key VOB_MTYPE_ROLEMAP_def)
  moreover have "0 < tv_sec (mn_eacl_mtime mnode_example)" "mn_viewvp mnode_example = Some False"
    by (simp_all add: mnode_example_def)
  ultimately show ?thesis
    using inval_oid_forces_refetch [OF cached_example_inv, of mnode_example _ 44] by simp
qed

end
