(* ===== verification/Mvfs_Access.thy ===== *)
theory Mvfs_Access
  imports Mvfs_Eacl
begin

text \<open>The access check (mvfs\_acl.c: \<open>mvfs_chkaccess_acl\<close>, \<open>mvfs_chkaccess_modebits\<close>,
  \<open>mvfs_chkaccess\<close>): root passes; an object with a rolemap is checked against the effective access
  control list of its cache entry, everything else against the mode bits.  A C \<open>int\<close> that holds mode
  bits is an \<open>int\<close>.\<close>

section \<open>The check\<close>

definition VREAD :: int where "VREAD = 0x100"
definition VWRITE :: int where "VWRITE = 0x80"
definition VEXEC :: int where "VEXEC = 0x40"
definition S_IXUSR :: int where "S_IXUSR = 0x40"
definition S_IXGRP :: int where "S_IXGRP = 0x8"
definition ELEMENT_RIGHTS_READ_INFO :: tbs_acl_permission_set_t where "ELEMENT_RIGHTS_READ_INFO = 0x4000"
definition ELEMENT_RIGHTS_WRITE_DIR :: tbs_acl_permission_set_t where "ELEMENT_RIGHTS_WRITE_DIR = 0x40"
definition ELEMENT_RIGHTS_LOOKUP_DIR :: tbs_acl_permission_set_t where "ELEMENT_RIGHTS_LOOKUP_DIR = 0x80"

text \<open>The permissions a mode asks for, or an early EACCES: the \<open>requested_perms\<close> part of the routine.\<close>
definition acl_requested_perms :: "bool \<Rightarrow> int \<Rightarrow> u32 \<Rightarrow> int \<Rightarrow> cred_t \<Rightarrow> tbs_acl_permission_set_t option" where
  "acl_requested_perms is_dir mode owner_uid vmode cred =
    (let requested_perms = (if mode AND VREAD \<noteq> 0 then ELEMENT_RIGHTS_READ_INFO else 0) in
     if is_dir then
       Some (requested_perms OR (if mode AND VWRITE \<noteq> 0 then ELEMENT_RIGHTS_WRITE_DIR else 0)
         OR (if mode AND VEXEC \<noteq> 0 then ELEMENT_RIGHTS_LOOKUP_DIR else 0))
     else if mode AND VWRITE \<noteq> 0 then None
     else if mode AND VEXEC \<noteq> 0 then
       if \<not> ((vmode AND S_IXUSR \<noteq> 0 \<and> cr_fsuid cred = owner_uid) \<or> vmode AND S_IXGRP \<noteq> 0) then None
       else Some (requested_perms OR ELEMENT_RIGHTS_READ_INFO)
     else Some requested_perms)"

text \<open>The result is the error with \<open>check_modebits\<close>, and the cache, in which the entry may have been
  brought up to date; \<open>None\<close> is an access outside of a list.\<close>
definition mvfs_chkaccess_acl :: "eacl_server \<Rightarrow> (nat \<Rightarrow> u64) \<Rightarrow> bool \<Rightarrow> acl_mnode \<Rightarrow> int \<Rightarrow> u32 \<Rightarrow> u32 \<Rightarrow> int
    \<Rightarrow> cred_t \<Rightarrow> mvfs_acl_data \<Rightarrow> ((int \<times> bool) \<times> mvfs_acl_data) option" where
  "mvfs_chkaccess_acl rpc clock is_dir mn mode owner_usid owner_gsid vmode cred st =
    (if MDKI_CR_IS_ROOT cred then Some ((0, False), st)
     else if \<not> mn_isvob mn then Some ((0, True), st)
     else if MFS_OIDNULL (mn_rolemap_oid mn) then Some ((0, True), st)
     else
       let ep = mn_aclh mn; st = mvfs_eaclhash_validate rpc clock mn ep st in
       case ep of None \<Rightarrow> Some ((EACCES, False), st)
       | Some a \<Rightarrow> (case eah_eaclh (the_entry st a) of None \<Rightarrow> Some ((EACCES, False), st)
         | Some eaclh \<Rightarrow> (case acl_requested_perms is_dir mode owner_usid vmode cred of
             None \<Rightarrow> Some ((EACCES, False), st)
           | Some requested_perms \<Rightarrow>
               (case tbs_sid_acl_check_permission_creds eaclh requested_perms cred (Some owner_usid) (Some owner_gsid) of
                  None \<Rightarrow> None
                | Some (status, granted) \<Rightarrow>
                    Some ((if status = TBS_ST_OK then if granted then 0 else EACCES else EACCES, False), st)))))"

definition mvfs_chkaccess_modebits :: "int \<Rightarrow> u64 \<Rightarrow> u64 \<Rightarrow> int \<Rightarrow> cred_t \<Rightarrow> int" where
  "mvfs_chkaccess_modebits mode vuid vgid vmode cred =
    (let mode = (if ucast (cr_fsuid cred) \<noteq> vuid then
         let mode = drop_bit 3 mode in
         if ucast (cr_fsgid cred) \<noteq> vgid then
           if \<not> mvfs_groupmember vgid cred then drop_bit 3 mode else mode
         else mode
       else mode) in
     if vmode AND mode = mode then 0 else EACCES)"

definition mvfs_chkaccess :: "eacl_server \<Rightarrow> (nat \<Rightarrow> u64) \<Rightarrow> bool \<Rightarrow> acl_mnode \<Rightarrow> int \<Rightarrow> u64 \<Rightarrow> u64 \<Rightarrow> int
    \<Rightarrow> cred_t \<Rightarrow> mvfs_acl_data \<Rightarrow> (int \<times> mvfs_acl_data) option" where
  "mvfs_chkaccess rpc clock is_dir mn mode vuid vgid vmode cred st =
    (case mvfs_chkaccess_acl rpc clock is_dir mn mode (ucast vuid) (ucast vgid) vmode cred st of
       None \<Rightarrow> None
     | Some ((error, check_modebits), st) \<Rightarrow>
         Some (if check_modebits then mvfs_chkaccess_modebits mode vuid vgid vmode cred else error, st))"

section \<open>What it decides\<close>

text \<open>The class of the caller: owner, group or public.\<close>
definition mode_class :: "u64 \<Rightarrow> u64 \<Rightarrow> cred_t \<Rightarrow> nat" where
  "mode_class vuid vgid cred =
    (if ucast (cr_fsuid cred) = vuid then 0
     else if ucast (cr_fsgid cred) = vgid \<or> mvfs_groupmember vgid cred then 3 else 6)"

lemma int_and_eq_iff: "(v :: int) AND m = m \<longleftrightarrow> (\<forall>n. bit m n \<longrightarrow> bit v n)"
proof
  assume m: "v AND m = m"
  show "\<forall>n. bit m n \<longrightarrow> bit v n"
  proof (intro allI impI)
    fix n assume "bit m n"
    then have "bit (v AND m) n" using m by simp
    then show "bit v n" by (simp add: bit_and_iff)
  qed
qed (auto intro!: bit_eqI simp: bit_and_iff)

lemma modebits_class:
  "mvfs_chkaccess_modebits mode vuid vgid vmode cred =
    (if \<forall>n. bit mode (mode_class vuid vgid cred + n) \<longrightarrow> bit vmode n then 0 else EACCES)"
  by (simp add: mvfs_chkaccess_modebits_def mode_class_def int_and_eq_iff bit_drop_bit_eq Let_def add.commute)

text \<open>The mode bits grant a request for read (bit 8), write (bit 7) and execute (bit 6) exactly
  when each requested bit is set in the one class the caller belongs to: the owner's, else the
  group's, else the public one.  An owner is never helped by the bits of a wider class.\<close>
lemma modebits_decides:
  assumes "\<forall>n. bit mode n \<longrightarrow> n \<in> {6, 7, 8}"
  shows "mvfs_chkaccess_modebits mode vuid vgid vmode cred =
    (if \<forall>n\<in>{6, 7, 8}. bit mode n \<longrightarrow> bit vmode (n - mode_class vuid vgid cred) then 0 else EACCES)"
proof -
  let ?c = "mode_class vuid vgid cred"
  have c: "?c \<le> 6" by (simp add: mode_class_def)
  have "(\<forall>n. bit mode (?c + n) \<longrightarrow> bit vmode n) \<longleftrightarrow> (\<forall>n\<in>{6, 7, 8}. bit mode n \<longrightarrow> bit vmode (n - ?c))"
  proof
    assume a: "\<forall>n. bit mode (?c + n) \<longrightarrow> bit vmode n"
    show "\<forall>n\<in>{6, 7, 8}. bit mode n \<longrightarrow> bit vmode (n - ?c)"
    proof (intro ballI impI)
      fix n assume "n \<in> {6, 7, 8 :: nat}" and "bit mode n"
      then show "bit vmode (n - ?c)" using a [rule_format, of "n - ?c"] c by auto
    qed
  next
    assume a: "\<forall>n\<in>{6, 7, 8}. bit mode n \<longrightarrow> bit vmode (n - ?c)"
    show "\<forall>n. bit mode (?c + n) \<longrightarrow> bit vmode n"
      using a assms by fastforce
  qed
  then show ?thesis by (simp add: modebits_class)
qed

lemma VREAD_bits: "bit VREAD n \<longleftrightarrow> n = 8"
  using bit_exp_iff [where 'a = int, of 8 n] by (auto simp: VREAD_def)

lemma modebits_decides_witness:
  "mvfs_chkaccess_modebits VREAD 7 0 0x3F cred_example = EACCES"
proof -
  have "mode_class 7 0 cred_example = 0" by (simp add: mode_class_def cred_example_def)
  moreover have "\<not> bit (0x3F :: int) 8" by code_simp
  moreover have "\<exists>n\<in>{6, 7, 8}. bit VREAD n \<and> \<not> bit (0x3F :: int) (n - 0)"
    using calculation(2) by (auto simp: VREAD_bits)
  ultimately show ?thesis
    using modebits_decides [of VREAD 7 0 "0x3F" cred_example] by (auto simp: VREAD_bits)
qed

section \<open>The effective list decides\<close>

text \<open>An object under access control: a VOB object with a rolemap.\<close>
definition has_rolemap :: "acl_mnode \<Rightarrow> bool" where
  "has_rolemap mn \<longleftrightarrow> mn_isvob mn \<and> \<not> MFS_OIDNULL (mn_rolemap_oid mn)"

text \<open>The reference decision: what a list of entries allows the caller to do.\<close>
definition aces_allow :: "tbs_acl_cooked_ent_t list \<Rightarrow> bool \<Rightarrow> int \<Rightarrow> u32 \<Rightarrow> u32 \<Rightarrow> int \<Rightarrow> cred_t \<Rightarrow> bool" where
  "aces_allow es is_dir mode ou og vmode cred =
    (case acl_requested_perms is_dir mode ou vmode cred of None \<Rightarrow> False
     | Some r \<Rightarrow> applicable cred (Some ou) (Some og) es \<noteq> [] \<and>
         r AND perms_of (applicable cred (Some ou) (Some og) es) = r)"

lemma chkaccess_root:
  "MDKI_CR_IS_ROOT cred \<Longrightarrow>
     mvfs_chkaccess rpc clock is_dir mn mode vuid vgid vmode cred st = Some (0, st)"
  by (simp add: mvfs_chkaccess_def mvfs_chkaccess_acl_def)

lemma chkaccess_modebits:
  "\<not> MDKI_CR_IS_ROOT cred \<Longrightarrow> \<not> has_rolemap mn \<Longrightarrow>
     mvfs_chkaccess rpc clock is_dir mn mode vuid vgid vmode cred st
       = Some (mvfs_chkaccess_modebits mode vuid vgid vmode cred, st)"
  by (auto simp: mvfs_chkaccess_def mvfs_chkaccess_acl_def has_rolemap_def)

lemma chkaccess_acl_list:
  assumes "\<not> MDKI_CR_IS_ROOT cred" and "has_rolemap mn" and "mn_aclh mn = Some a"
    and st': "st' = mvfs_eaclhash_validate rpc clock mn (Some a) st"
    and "eah_eaclh (the_entry st' a) = Some acl" and "wf_acl acl"
  shows "mvfs_chkaccess rpc clock is_dir mn mode vuid vgid vmode cred st =
    Some (if aces_allow (acl_aces acl) is_dir mode (ucast vuid) (ucast vgid) vmode cred then 0 else EACCES, st')"
  using assms
  by (auto simp: mvfs_chkaccess_def mvfs_chkaccess_acl_def has_rolemap_def aces_allow_def Let_def
      check_permission_eq acl_check_loop_iff split: option.splits)

lemma chkaccess_no_list:
  assumes "\<not> MDKI_CR_IS_ROOT cred" and "has_rolemap mn"
    and st': "st' = mvfs_eaclhash_validate rpc clock mn (mn_aclh mn) st"
    and "\<And>a. mn_aclh mn = Some a \<Longrightarrow> eah_eaclh (the_entry st' a) = None"
  shows "mvfs_chkaccess rpc clock is_dir mn mode vuid vgid vmode cred st = Some (EACCES, st')"
  using assms
  by (auto simp: mvfs_chkaccess_def mvfs_chkaccess_acl_def has_rolemap_def Let_def split: option.splits)

text \<open>C7: the check is total on a cache whose lists are well formed, and decides: root passes; an
  object without a rolemap goes by its mode bits; an object with one is denied when its entry has no
  list, and otherwise goes by the list alone.\<close>
theorem chkaccess_decides:
  assumes "st' = (if MDKI_CR_IS_ROOT cred \<or> \<not> has_rolemap mn then st
      else mvfs_eaclhash_validate rpc clock mn (mn_aclh mn) st)"
    and "acl = (case mn_aclh mn of None \<Rightarrow> None | Some a \<Rightarrow> eah_eaclh (the_entry st' a))"
    and "case acl of None \<Rightarrow> True | Some l \<Rightarrow> wf_acl l"
  shows "mvfs_chkaccess rpc clock is_dir mn mode vuid vgid vmode cred st = Some
    (if MDKI_CR_IS_ROOT cred then 0
     else if \<not> has_rolemap mn then mvfs_chkaccess_modebits mode vuid vgid vmode cred
     else case acl of None \<Rightarrow> EACCES
       | Some l \<Rightarrow> if aces_allow (acl_aces l) is_dir mode (ucast vuid) (ucast vgid) vmode cred then 0 else EACCES,
     st')"
proof -
  consider "MDKI_CR_IS_ROOT cred" | "\<not> MDKI_CR_IS_ROOT cred" "\<not> has_rolemap mn"
    | "\<not> MDKI_CR_IS_ROOT cred" "has_rolemap mn" by blast
  then show ?thesis
  proof cases
    case 3
    show ?thesis
    proof (cases acl)
      case None
      then show ?thesis
        using 3 assms chkaccess_no_list [OF 3, of st' rpc clock st] by (auto split: option.splits)
    next
      case (Some l)
      then obtain a where a: "mn_aclh mn = Some a" "eah_eaclh (the_entry st' a) = Some l"
        using assms(2) by (auto split: option.splits)
      have "st' = mvfs_eaclhash_validate rpc clock mn (Some a) st" using 3 assms(1) a by simp
      from chkaccess_acl_list [OF 3 a(1) this a(2)] show ?thesis using 3 assms(3) Some by simp
    qed
  qed (use assms in \<open>simp_all add: chkaccess_root chkaccess_modebits\<close>)
qed

theorem chkaccess_decides_witness:
  "mvfs_chkaccess (\<lambda>_ _ _. (5, eacl_reply_init VIEW_EACL_CURSOR_NULL None)) (\<lambda>_. 0) True mnode_example VREAD 7 0 0x100
      cred_example (snd cached_example) = Some (EACCES, snd cached_example)"
proof -
  have m: "mn_aclh mnode_example = None" "has_rolemap mnode_example" "\<not> MDKI_CR_IS_ROOT cred_example"
    by (simp_all add: mnode_example_def has_rolemap_def MFS_OIDNULL_def TBS_UUID_NULL_def
        MDKI_CR_IS_ROOT_def cred_example_def)
  show ?thesis
    using chkaccess_decides [of "snd cached_example" cred_example mnode_example "snd cached_example"
        "\<lambda>_ _ _. (5, eacl_reply_init VIEW_EACL_CURSOR_NULL None)" "\<lambda>_. 0" None True VREAD 7 0 "0x100"] m
    by (simp add: mvfs_eaclhash_validate_def)
qed

text \<open>C10: when the view server cannot be asked, access is denied: an entry whose list is out of date
  and cannot be fetched again does not fall back on its old list nor on the mode bits.\<close>
theorem chkaccess_fails_safe:
  assumes "\<not> MDKI_CR_IS_ROOT cred" and "has_rolemap mn" and "mn_aclh mn = Some a"
    and "MVFS_TIMEVAL_NEWER (mn_eacl_mtime mn) (eah_eacl_lut (the_entry st a))"
    and "\<And>k cursor aclh. fst (rpc k cursor aclh) \<noteq> 0"
  shows "\<exists>st'. mvfs_chkaccess rpc clock is_dir mn mode vuid vgid vmode cred st = Some (EACCES, st') \<and>
     eah_eaclh (the_entry st' a) = None"
proof -
  have g: "fst (mvfs_clnt_get_eacl_mnp nv now (rpc k) cursor ep) \<noteq> 0" for nv now k cursor ep
    using assms(5) [of k cursor "eah_eaclh ep"]
    by (auto simp: mvfs_clnt_get_eacl_mnp_def Let_def split: prod.splits)
  have "fst (eacl_fetch rpc nv clock 0 0 False cursor ep) \<noteq> 0" for nv cursor ep
    using g [of nv "clock 0" 0 cursor ep]
    by (subst eacl_fetch.simps) (auto simp: mvfs_eacl_blocks_default_def split: prod.splits)
  then have "eah_eaclh (mvfs_eaclhash_update_eaclh rpc nv clock ep) = None" for nv ep
    by (simp add: mvfs_eaclhash_update_eaclh_def Let_def split: prod.splits) (metis fst_conv)
  then have n: "eah_eaclh (the_entry (mvfs_eaclhash_validate rpc clock mn (Some a) st) a) = None"
    using assms(4) by (simp add: mvfs_eaclhash_validate_def mvfs_eaclhash_validate_eaclh_def)
  then show ?thesis using chkaccess_no_list [OF assms(1,2) refl, of rpc clock st] assms(3) by auto
qed

text \<open>A directory's mnode whose entry is older than its modification time.\<close>
definition mnode_stale :: acl_mnode where
  "mnode_stale = mnode_example\<lparr>mn_aclh := Some 7\<rparr>"

definition acl_data_stale :: mvfs_acl_data where
  "acl_data_stale = set_entry 7 (entry_example\<lparr>eah_eacl_lut := timeval_zero\<rparr>) (snd cached_example)"

lemma stale_example:
  "\<not> MDKI_CR_IS_ROOT cred_example" "has_rolemap mnode_stale" "mn_aclh mnode_stale = Some 7"
  "mn_viewvp mnode_stale \<noteq> None"
  "MVFS_TIMEVAL_NEWER (mn_eacl_mtime mnode_stale) (eah_eacl_lut (the_entry acl_data_stale 7))"
  by (simp_all add: mnode_stale_def mnode_example_def acl_data_stale_def has_rolemap_def MFS_OIDNULL_def
      TBS_UUID_NULL_def MDKI_CR_IS_ROOT_def cred_example_def MVFS_TIMEVAL_NEWER_def DATE_TIMEVALCMP_def timeval_zero_def)

theorem chkaccess_fails_safe_witness:
  "\<exists>st'. mvfs_chkaccess (\<lambda>_ cursor aclh. (EIO, eacl_reply_init cursor aclh)) (\<lambda>_. 0) True mnode_stale VREAD 7 0 0x1FF
     cred_example acl_data_stale = Some (EACCES, st') \<and> eah_eaclh (the_entry st' 7) = None"
  by (rule chkaccess_fails_safe) (use stale_example in simp_all)

text \<open>C1: access follows the view server's current list: when an object's entry is out of date, the
  check fetches the list in blocks, and grants exactly what the entries at the server allow.\<close>
theorem chkaccess_follows_server:
  assumes "\<not> MDKI_CR_IS_ROOT cred" and "has_rolemap mn" and "mn_aclh mn = Some a"
    and "mn_viewvp mn \<noteq> None"
    and "MVFS_TIMEVAL_NEWER (mn_eacl_mtime mn) (eah_eacl_lut (the_entry st a))"
    and "\<forall>e\<in>set es. ok_ace e" and "0 < blk" and "length es \<le> mvfs_eacl_blocks_default * blk"
    and "length es < 2 ^ 32" and "ok_timeval mtime" and "wf_uuid policy"
  shows "\<exists>st'. mvfs_chkaccess (eacl_block_server blk es mtime policy) clock is_dir mn mode vuid vgid vmode cred st
    = Some (if aces_allow es is_dir mode (ucast vuid) (ucast vgid) vmode cred then 0 else EACCES, st')"
proof -
  obtain acl where acl: "wf_acl acl" "acl_aces acl = es" and
    u: "mvfs_eaclhash_update_eaclh (eacl_block_server blk es mtime policy) False clock (the_entry st a)
        = (the_entry st a)\<lparr>eah_eaclh := Some acl, eah_eacl_lut := mtime, eah_policy_oid := policy\<rparr>"
    using update_reassembled [OF assms(6,9,10,11,7,8), of clock "the_entry st a"] by auto
  let ?st = "mvfs_eaclhash_validate (eacl_block_server blk es mtime policy) clock mn (Some a) st"
  have v: "(mn_viewvp mn = None) = False" using assms(4) by simp
  have "eah_eaclh (the_entry ?st a) = Some acl"
    using assms(5) u by (simp add: v mvfs_eaclhash_validate_def mvfs_eaclhash_validate_eaclh_def)
  from chkaccess_acl_list [OF assms(1,2,3) refl this acl(1)] acl(2) show ?thesis by auto
qed

theorem chkaccess_follows_server_witness:
  "\<exists>st'. mvfs_chkaccess (eacl_block_server 1 [ace_example 7, ace_example 8] timeval_zero TBS_UUID_NULL) (\<lambda>_. 0)
      True mnode_stale VREAD 9 0 0 cred_example acl_data_stale = Some (0, st')"
proof -
  have es: "\<forall>e\<in>set [ace_example 7, ace_example 8]. ok_ace e"
    by (simp add: ace_example_ok KS_UID_NOBODY_def)
  have t: "ok_timeval timeval_zero" by (simp add: ok_timeval_def timeval_zero_def ok_long_def)
  have u: "wf_uuid TBS_UUID_NULL" by (simp add: wf_uuid_def TBS_UUID_NULL_def)
  have "aces_allow [ace_example 7, ace_example 8] True VREAD 9 0 0 cred_example" by code_simp
  then show ?thesis
    using chkaccess_follows_server [OF stale_example es _ _ _ t u, of 1 "\<lambda>_. 0" True VREAD 9 0 0]
    by (simp add: mvfs_eacl_blocks_default_def)
qed

end
