(* ===== verification/Xdr_Readdir.thy ===== *)
theory Xdr_Readdir
  imports Xdr_View
begin

text \<open>The directory block of a \<open>view_readdir\<close> reply (xdr\_view\_kernel.c): a sequence of names on the
  wire is unpacked into Linux directory records (mvfs\_linux\_mdki.c) in a buffer of the size
  that the caller asked for.\<close>

section \<open>Directory records\<close>

record linux_dirent =
  d_ino :: u64
  d_off :: u64
  d_reclen :: u16
  d_name :: "byte list"

text \<open>Offset of the name in \<open>struct linux_dirent64\<close>, and the size of a record rounded up to
  \<open>sizeof(long)\<close>: the C expression has the width of \<open>size_t\<close> and is returned as an int.\<close>
definition LINUX_DIRENT_BASESIZE :: nat where "LINUX_DIRENT_BASESIZE = 19"

definition mdki_linux_dirent_reclen :: "u32 \<Rightarrow> u32" where
  "mdki_linux_dirent_reclen namelen =
     ucast ((of_nat LINUX_DIRENT_BASESIZE + scast namelen + 8 :: u64) AND NOT 7)"

section \<open>The reply\<close>

text \<open>\<open>rd_ents\<close>: \<open>None\<close> is the NULL pointer; otherwise the records with their positions in the
  buffer.\<close>
record view_readdir_reply_t =
  rd_hdr :: view_hdr_reply_t
  rd_offset :: u64
  rd_size :: nat
  rd_eof :: u32
  rd_max_dirent_size :: nat
  rd_ents :: "(nat \<times> linux_dirent) list option"

definition readdir_entry :: "u32 \<Rightarrow> XDR \<Rightarrow> (byte list \<times> u64 \<times> u32) xdr_res" where
  "readdir_entry namelen x =
    xdr_bind (mdki_xdr_opaque (unat namelen) x (replicate (unat namelen) 0)) (\<lambda>name x.
    xdr_bind (xdr_u_long x 0) (\<lambda>ino x.
    xdr_bind (xdr_ks_off32_t x 0) (\<lambda>offset x.
    xdr_bind (xdr_int x 0) (\<lambda>size_high x. XTrue (name, ino, offset) x))))"

lemma xdr_integral_get:
  "xdr_integral tr ext x v = XTrue u y \<Longrightarrow> x_op x = XDR_DECODE \<Longrightarrow>
     x_op y = XDR_DECODE \<and> length (x_get x) = length (x_get y) + 4"
  by (auto simp: xdr_integral_def split: list.splits)

lemma opaque_get:
  "mdki_xdr_opaque n x v = XTrue u y \<Longrightarrow> x_op x = XDR_DECODE \<Longrightarrow>
     x_op y = XDR_DECODE \<and> length (x_get y) + n \<le> length (x_get x) \<and> length u = length v"
  by (auto simp: mdki_xdr_opaque_def mvfs_linux_xdr_getbytes_def Let_def split: if_splits
      elim!: xdr_bind_XTrueE)

lemma readdir_entry_get:
  assumes "readdir_entry namelen x = XTrue e y" and "x_op x = XDR_DECODE"
  shows "x_op y = XDR_DECODE \<and> length (x_get y) + unat namelen + 12 \<le> length (x_get x)
    \<and> length (fst e) = unat namelen"
  using assms
  by (auto simp: readdir_entry_def xdr_u_long_def xdr_ks_off32_t_def xdr_int_def
      elim!: xdr_bind_XTrueE dest!: opaque_get xdr_integral_get)

text \<open>The loop over the entries.  \<open>offset\<close> is the offset of the last entry (uninitialised before the
  first), \<open>pos\<close> the distance of \<open>dp\<close> from the start of the buffer.  A record that does not fit ends the
  loop with the end-of-file mark cleared, in front of the mark on the wire.\<close>
function readdir_loop :: "XDR \<Rightarrow> nat \<Rightarrow> nat \<Rightarrow> u32 \<Rightarrow> (nat \<times> linux_dirent) list
    \<Rightarrow> ((nat \<times> linux_dirent) list \<times> nat \<times> u32 \<times> u32) xdr_res" where
  "readdir_loop x total_size pos offset ents =
    (if x_op x \<noteq> XDR_DECODE then XFalse
     else case xdr_u_int x 0 of
       XFalse \<Rightarrow> XFalse
     | XFault \<Rightarrow> XFault
     | XHang \<Rightarrow> XHang
     | XTrue namelen x1 \<Rightarrow>
         if namelen = 0 then
           xdr_bind (xdr_bool x1 0) (\<lambda>eof x. XTrue (ents, pos, offset, eof) x)
         else let reclen = mdki_linux_dirent_reclen namelen in
         if unat reclen > total_size then XTrue (ents, pos, offset, 0) x1
         else case readdir_entry namelen x1 of
           XFalse \<Rightarrow> XFalse
         | XFault \<Rightarrow> XFault
         | XHang \<Rightarrow> XHang
         | XTrue e x2 \<Rightarrow>
             readdir_loop x2 (total_size - unat reclen) (pos + unat reclen) (snd (snd e))
               (ents @ [(pos, \<lparr>d_ino = fst (snd e), d_off = scast (snd (snd e)),
                  d_reclen = ucast reclen, d_name = fst e\<rparr>)]))"
  by pat_completeness auto
termination
  by (relation "measure (\<lambda>(x, _). length (x_get x))")
    (auto simp: xdr_u_int_def dest!: xdr_integral_get readdir_entry_get)

declare readdir_loop.simps [simp del]

text \<open>\<open>alloc\<close>: whether \<open>KMEM_ALLOC\<close> succeeds; \<open>offset0\<close>: the uninitialised local.\<close>
definition xdr_view_readdir_reply_t :: "bool \<Rightarrow> u32 \<Rightarrow> view_readdir_reply_t xdrproc" where
  "xdr_view_readdir_reply_t alloc offset0 x obj =
    xdr_bind (xdr_at xdr_view_hdr_reply_t rd_hdr rd_hdr_update x obj) (\<lambda>obj x.
     if hr_status (rd_hdr obj) \<noteq> 0 then XTrue obj x
     else case x_op x of
       XDR_FREE \<Rightarrow> XTrue (obj\<lparr>rd_ents := None\<rparr>) x
     | XDR_ENCODE \<Rightarrow> XFalse
     | XDR_DECODE \<Rightarrow>
         if rd_ents obj = None \<and> \<not> alloc then XFalse
         else xdr_bind (readdir_loop x (rd_max_dirent_size obj) 0 offset0 [])
           (\<lambda>(ents, pos, offset, eof) x.
             XTrue (obj\<lparr>rd_eof := eof, rd_offset := scast offset, rd_size := pos,
                rd_ents := Some ents\<rparr>) x))"

section \<open>The records stay inside the buffer\<close>

text \<open>A record at its position holds the name with its terminating NUL, and ends in
  front of the limit.\<close>
definition dirent_fits :: "nat \<Rightarrow> nat \<times> linux_dirent \<Rightarrow> bool" where
  "dirent_fits limit = (\<lambda>(pos, d).
     LINUX_DIRENT_BASESIZE + length (d_name d) + 1 \<le> unat (mdki_linux_dirent_reclen (of_nat (length (d_name d))))
     \<and> pos + unat (mdki_linux_dirent_reclen (of_nat (length (d_name d)))) \<le> limit)"

lemma round_down_8: "unat ((w :: u64) AND NOT 7) = unat w div 8 * 8"
proof -
  have m: "(7 :: u64) = mask 3" by (simp add: mask_eq_exp_minus_1)
  have p: "w AND NOT (mask 3) = push_bit 3 (drop_bit 3 w)"
    by (rule bit_word_eqI) (auto simp: bit_simps)
  have "unat w < 2 ^ 64" using unsigned_less [of w, where 'a = nat] by simp
  then have "unat w div 8 * 8 < 2 ^ 64" by (meson div_times_less_eq_dividend le_less_trans)
  then show ?thesis unfolding m p
    by (simp only: unsigned_push_bit_eq unsigned_drop_bit_eq)
      (simp add: push_bit_eq_mult drop_bit_eq_div take_bit_nat_eq_self)
qed

lemma scast_small:
  assumes "unat (n :: u32) < 2 ^ 30"
  shows "(scast n :: u64) = of_nat (unat n)"
proof -
  have "unat n < 2 ^ 31" using assms by simp
  then have "int (unat n) < 2 ^ 31" by (metis of_nat_less_iff of_nat_numeral of_nat_power)
  then have "uint n < 2 ^ 31" by (simp only: uint_nat)
  moreover have "- (2 ^ 31) \<le> uint n" by (rule order_trans [of _ 0]) simp_all
  ultimately have "signed_take_bit 31 (uint n) = uint n"
    by (intro signed_take_bit_int_eq_self)
  then have "sint n = uint n" by (simp add: sint_uint)
  then have "(scast n :: u64) = of_int (uint n)" by (metis of_int_sint)
  also have "\<dots> = of_nat (unat n)" by (simp only: uint_nat of_int_of_nat_eq)
  finally show ?thesis .
qed

lemma unat_reclen:
  assumes "unat n < 2 ^ 30"
  shows "unat (mdki_linux_dirent_reclen n) = (27 + unat n) div 8 * 8"
proof -
  let ?w = "of_nat (27 + unat n) :: u64"
  have w: "(of_nat LINUX_DIRENT_BASESIZE + scast n + 8 :: u64) = ?w"
    using scast_small [OF assms] by (simp add: LINUX_DIRENT_BASESIZE_def)
  have u: "unat ?w = 27 + unat n"
    using assms by (subst unat_of_nat) (simp add: take_bit_nat_eq_self)
  have s: "(27 + unat n) div 8 * 8 < 2 ^ 32" using assms by simp
  show ?thesis unfolding mdki_linux_dirent_reclen_def w
    using s u round_down_8 [of ?w]
    by (simp only: unsigned_ucast_eq) (simp add: take_bit_nat_eq_self)
qed

lemma reclen_holds_name:
  assumes "unat n < 2 ^ 30"
  shows "LINUX_DIRENT_BASESIZE + unat n + 1 \<le> unat (mdki_linux_dirent_reclen n)"
  unfolding unat_reclen [OF assms] LINUX_DIRENT_BASESIZE_def by presburger

lemma readdir_loop_fits:
  assumes "readdir_loop x total_size pos offset ents = XTrue (ents', pos', offset', eof) y"
    and "length (x_get x) < 2 ^ 30"
    and "pos + total_size = limit" and "\<forall>e\<in>set ents. dirent_fits limit e"
  shows "(\<forall>e\<in>set ents'. dirent_fits limit e) \<and> pos' \<le> limit"
  using assms
proof (induction x total_size pos offset ents rule: readdir_loop.induct)
  case (1 x total_size pos offset ents)
  from "1.prems"(1) have op: "x_op x = XDR_DECODE"
    by (subst (asm) readdir_loop.simps) (simp split: if_splits)
  from "1.prems"(1) op obtain n x1 where n: "xdr_u_int x 0 = XTrue n x1"
    by (subst (asm) readdir_loop.simps) (auto split: xdr_res.splits)
  have x1: "x_op x1 = XDR_DECODE" "length (x_get x1) < 2 ^ 30"
    using n op "1.prems"(2) by (auto simp: xdr_u_int_def dest!: xdr_integral_get)
  show ?case
  proof (cases "n = 0 \<or> unat (mdki_linux_dirent_reclen n) > total_size")
    case True
    with "1.prems" op n show ?thesis
      by (subst (asm) readdir_loop.simps)
        (auto simp: Let_def split: if_splits elim!: xdr_bind_XTrueE)
  next
    case False
    with "1.prems"(1) op n obtain e x2 where e: "readdir_entry n x1 = XTrue e x2"
      by (subst (asm) readdir_loop.simps) (auto simp: Let_def split: xdr_res.splits)
    let ?r = "unat (mdki_linux_dirent_reclen n)"
    let ?d = "\<lparr>d_ino = fst (snd e), d_off = scast (snd (snd e)),
        d_reclen = ucast (mdki_linux_dirent_reclen n), d_name = fst e\<rparr> :: linux_dirent"
    have loop: "readdir_loop x2 (total_size - ?r) (pos + ?r) (snd (snd e)) (ents @ [(pos, ?d)])
        = XTrue (ents', pos', offset', eof) y"
      using "1.prems"(1) op n e False by (subst (asm) readdir_loop.simps) (simp add: Let_def)
    have len: "length (fst e) = unat n" "unat n < 2 ^ 30" "length (x_get x2) < 2 ^ 30"
      using readdir_entry_get [OF e x1(1)] x1(2) by auto
    then have "dirent_fits limit (pos, ?d)"
      using reclen_holds_name [OF len(2)] False "1.prems"(3) by (auto simp: dirent_fits_def)
    then show ?thesis
      using "1.IH" [of n x1 "mdki_linux_dirent_reclen n" e x2] op n e False loop len(3) "1.prems"(3,4) by auto
  qed
qed

lemma hdr_reply_get:
  assumes "xdr_view_hdr_reply_t x v = XTrue u y" and "x_op x = XDR_DECODE"
  shows "x_op y = XDR_DECODE \<and> length (x_get y) \<le> length (x_get x)"
  using assms
  by (auto simp: xdr_view_hdr_reply_t_def xdr_u_long_def xdr_tbs_status_t_def xdr_int_def
      elim!: xdr_bind_XTrueE xdr_at_XTrueE dest!: xdr_integral_get)

text \<open>C25: whatever bytes a directory reply carries, the records unpacked from it lie inside the
  buffer of the requested size, each name with its terminating NUL inside its record, and the size
  reported to the caller is within the buffer.\<close>
theorem readdir_reply_in_bounds:
  assumes "x_op x = XDR_DECODE" and "length (x_get x) < 2 ^ 30"
    and "xdr_view_readdir_reply_t alloc offset0 x obj = XTrue obj' y"
    and "hr_status (rd_hdr obj') = 0"
  shows "rd_size obj' \<le> rd_max_dirent_size obj \<and>
    (\<forall>e\<in>set (the (rd_ents obj')). dirent_fits (rd_max_dirent_size obj) e)"
proof -
  from assms(3) obtain h x1 where h: "xdr_view_hdr_reply_t x (rd_hdr obj) = XTrue h x1"
    by (auto simp: xdr_view_readdir_reply_t_def elim!: xdr_bind_XTrueE xdr_at_XTrueE)
  note x1 = hdr_reply_get [OF h assms(1)]
  from assms(3,4) h x1 obtain ents pos offset eof where
    loop: "readdir_loop x1 (rd_max_dirent_size obj) 0 offset0 [] = XTrue (ents, pos, offset, eof) y"
    and obj': "rd_size obj' = pos" "rd_ents obj' = Some ents"
    by (auto simp: xdr_view_readdir_reply_t_def xdr_at_def split: if_splits elim!: xdr_bind_XTrueE)
  show ?thesis
    using readdir_loop_fits [OF loop, of "rd_max_dirent_size obj"] x1 assms(2) by (simp add: obj')
qed

text \<open>A reply of one entry, \<open>a\<close> with inode 7 at offset 5, followed by the end mark.\<close>
definition readdir_example :: "byte list" where
  "readdir_example = be32 1 @ be32 0 @ be32 1 @ [0x61, 0, 0, 0] @ be32 7 @ be32 5 @ be32 0
     @ be32 0 @ be32 1"

definition readdir_example_obj :: view_readdir_reply_t where
  "readdir_example_obj = \<lparr>rd_hdr = \<lparr>hr_xid = 0, hr_status = 0\<rparr>, rd_offset = 0, rd_size = 0, rd_eof = 0,
     rd_max_dirent_size = 64, rd_ents = None\<rparr>"

definition readdir_example_out :: view_readdir_reply_t where
  "readdir_example_out = \<lparr>rd_hdr = \<lparr>hr_xid = 1, hr_status = 0\<rparr>, rd_offset = 5, rd_size = 24, rd_eof = 1,
     rd_max_dirent_size = 64,
     rd_ents = Some [(0, \<lparr>d_ino = 7, d_off = 5, d_reclen = 24, d_name = [97]\<rparr>)]\<rparr>"

lemma readdir_example_run:
  "xdr_view_readdir_reply_t True 0
      \<lparr>x_op = XDR_DECODE, x_put = [], x_room = 0, x_get = readdir_example\<rparr> readdir_example_obj
   = XTrue readdir_example_out \<lparr>x_op = XDR_DECODE, x_put = [], x_room = 0, x_get = []\<rparr>"
  by code_simp

theorem readdir_reply_in_bounds_witness:
  "rd_size readdir_example_out \<le> rd_max_dirent_size readdir_example_obj \<and>
    dirent_fits (rd_max_dirent_size readdir_example_obj) (hd (the (rd_ents readdir_example_out)))"
proof -
  have "rd_size readdir_example_out \<le> rd_max_dirent_size readdir_example_obj \<and>
    (\<forall>e\<in>set (the (rd_ents readdir_example_out)). dirent_fits (rd_max_dirent_size readdir_example_obj) e)"
    by (rule readdir_reply_in_bounds [OF _ _ readdir_example_run])
      (simp_all add: readdir_example_def readdir_example_out_def)
  then show ?thesis by (simp add: readdir_example_out_def)
qed

end
