(* ===== verification/Mvfs_Rdc.thy ===== *)
theory Mvfs_Rdc
  imports Xdr_Readdir Tbs_Errno Mvfs_Dlist "HOL-Library.Multiset"
begin

text \<open>Reading a directory of a VOB: the cache of directory blocks of an mnode (mvfs\_rdc.c), the call to
  the view server that fills it (\<open>mfs_clnt_readdir\<close>, mvfs\_clnt.c), the copy to the caller
  (\<open>mdki_linux_readdir_uiomove\<close>, mvfs\_linux\_mdki.c) and the part of \<open>mfs_readdir\<close> that ties them together
  (mvfs\_vnodeops.c).  A block is an address with the records the XDR routine has put there.  The
  kernel's \<open>filldir\<close> callback, which is not part of the program, is a parameter.  An operation that frees
  memory returns the blocks it frees with the sizes it frees them with.\<close>

section \<open>Data\<close>

type_synonym rddir_block = "addr \<times> (nat \<times> linux_dirent) list"

record mvfs_rce =
  rce_valid :: bool
  rce_eof :: u32
  rce_offset :: u64
  rce_endoffset :: u64
  rce_size :: nat
  rce_bsize :: nat
  rce_block :: "rddir_block option"

text \<open>The readdir part of an mnode: the cache, \<open>None\<close> for NULL, and the known end of the directory.\<close>
record rd_mnode =
  rddir_cache :: "mvfs_rce list option"
  dir_eof :: bool
  rddir_off :: u64

record rdc_common =
  mvfs_rdcenabled :: bool
  mvfs_rddir_blocks :: u32
  mvfs_largeinit :: int
  init_rddir_blocks :: u32
  ac_rddirhit :: u64
  ac_rddirmiss :: u64

record 'b uio =
  uio_resid :: int
  uio_offset :: u64
  uio_buff :: 'b
  uio_rddir_full :: bool

text \<open>\<open>filldir buff name offset ino\<close>.\<close>
type_synonym 'b filldir = "'b \<Rightarrow> byte list \<Rightarrow> u64 \<Rightarrow> u64 \<Rightarrow> int \<times> 'b"

type_synonym freed = "(addr \<times> nat) list"

section \<open>Copying a block to the caller\<close>

text \<open>\<open>start\<close> is the offset the call began with, \<open>off\<close> that of the entry at the cursor.\<close>
fun uiomove_loop :: "'b filldir \<Rightarrow> u64 \<Rightarrow> u64 \<Rightarrow> int \<Rightarrow> linux_dirent list \<Rightarrow> 'b uio \<Rightarrow> int \<times> 'b uio" where
  "uiomove_loop ffunc start off err [] uio = (err, uio)"
| "uiomove_loop ffunc start off err (d # ds) uio =
    (case ffunc (uio_buff uio) (takeWhile (\<lambda>c. c \<noteq> 0) (d_name d)) off (d_ino d) of (err, b) \<Rightarrow>
       if err < 0 then
         (0, uio\<lparr>uio_buff := b, uio_resid := (if off \<noteq> start then 0 else uio_resid uio), uio_rddir_full := True\<rparr>)
       else uiomove_loop ffunc start (d_off d) err ds (uio\<lparr>uio_buff := b, uio_offset := d_off d\<rparr>))"

definition mdki_linux_readdir_uiomove :: "'b filldir \<Rightarrow> (nat \<times> linux_dirent) list \<Rightarrow> nat \<Rightarrow> 'b uio \<Rightarrow> u64
    \<Rightarrow> int \<times> 'b uio" where
  "mdki_linux_readdir_uiomove ffunc from cnt uio offset =
    (case uiomove_loop ffunc offset offset 0 (map snd (takeWhile (\<lambda>(pos, _). pos < cnt) from)) uio of
       (err, uio) \<Rightarrow> (- err, uio))"

section \<open>The cache\<close>

definition rce_freed :: "mvfs_rce \<Rightarrow> freed" where
  "rce_freed ep = (if rce_valid ep then case rce_block ep of None \<Rightarrow> [] | Some b \<Rightarrow> [(fst b, rce_bsize ep)] else [])"

definition mvfs_rddir_cache_empty :: "mvfs_rce list \<Rightarrow> mvfs_rce list \<times> freed" where
  "mvfs_rddir_cache_empty entries =
     (map (\<lambda>ep. if rce_valid ep then ep\<lparr>rce_valid := False, rce_block := None\<rparr> else ep) entries,
      concat (map rce_freed entries))"

definition mvfs_rddir_cache_flush :: "rd_mnode \<Rightarrow> rd_mnode \<times> freed" where
  "mvfs_rddir_cache_flush mn = (case rddir_cache mn of None \<Rightarrow> (mn, [])
     | Some es \<Rightarrow> (case mvfs_rddir_cache_empty es of (es, freed) \<Rightarrow> (mn\<lparr>rddir_cache := Some es\<rparr>, freed)))"

text \<open>The array of the cache itself goes as well; it is not among the blocks.\<close>
definition mvfs_rddir_cache_destroy :: "rd_mnode \<Rightarrow> rd_mnode \<times> freed" where
  "mvfs_rddir_cache_destroy mn = (case rddir_cache mn of None \<Rightarrow> (mn, [])
     | Some es \<Rightarrow> (mn\<lparr>rddir_cache := None\<rparr>, snd (mvfs_rddir_cache_empty es)))"

text \<open>The test of the lookup; the count is an \<open>int\<close> that is compared as a \<open>size_t\<close>.\<close>
definition rce_match :: "'b uio \<Rightarrow> mvfs_rce \<Rightarrow> bool" where
  "rce_match uio ep \<longleftrightarrow> rce_valid ep \<and> uio_offset uio = rce_offset ep \<and>
     unat (word_of_int (uio_resid uio) :: u64) \<ge> rce_size ep"

text \<open>The result: on a hit the error, the end-of-file mark and the uio.\<close>
definition mvfs_rddir_cache_get :: "'b filldir \<Rightarrow> rd_mnode \<Rightarrow> 'b uio \<Rightarrow> rdc_common
    \<Rightarrow> (int \<times> u32 \<times> 'b uio) option \<times> rdc_common" where
  "mvfs_rddir_cache_get ffunc mn uio com =
    (if \<not> mvfs_rdcenabled com then (None, com)
     else case Option.bind (rddir_cache mn) (List.find (rce_match uio)) of
       None \<Rightarrow> (None, com\<lparr>ac_rddirmiss := ac_rddirmiss com + 1\<rparr>)
     | Some ep \<Rightarrow>
         (if rce_size ep \<noteq> 0 then
            case mdki_linux_readdir_uiomove ffunc (snd (the (rce_block ep))) (rce_size ep) uio (rce_offset ep) of
              (err, uio) \<Rightarrow> Some (err, rce_eof ep,
                 if uio_rddir_full uio then uio else uio\<lparr>uio_offset := rce_endoffset ep\<rparr>)
          else Some (0, rce_eof ep, uio), com\<lparr>ac_rddirhit := ac_rddirhit com + 1\<rparr>))"

text \<open>The search for a slot: \<open>i\<close> is the loop variable, the slot at the cursor is the one before it.\<close>
function rdc_scan :: "mvfs_rce list \<Rightarrow> nat \<Rightarrow> nat" where
  "rdc_scan es i = (if i < length es then if \<not> rce_valid (es ! i) then i else rdc_scan es (i + 1) else i - 1)"
  by pat_completeness auto
termination by (relation "measure (\<lambda>(es, i). length es - i)") auto

declare rdc_scan.simps [simp del]

definition rdc_slot :: "mvfs_rce list \<Rightarrow> u64 \<Rightarrow> nat" where
  "rdc_slot es offset = (if offset = 0 then 0 else rdc_scan es 1)"

definition rce_new :: mvfs_rce where
  "rce_new = \<lparr>rce_valid = False, rce_eof = 0, rce_offset = 0, rce_endoffset = 0, rce_size = 0, rce_bsize = 0,
     rce_block = None\<rparr>"

text \<open>\<open>alloc\<close>: whether the array can be allocated when there is none.\<close>
definition mvfs_rddir_cache_enter_mnlocked :: "rdc_common \<Rightarrow> bool \<Rightarrow> rd_mnode \<Rightarrow> mvfs_rce \<Rightarrow> rd_mnode \<times> freed" where
  "mvfs_rddir_cache_enter_mnlocked com alloc mn entryp =
    (if \<not> mvfs_rdcenabled com then (mn, [])
     else if rddir_cache mn = None \<and> \<not> alloc then (mn, [])
     else
       let es = (case rddir_cache mn of None \<Rightarrow> replicate (unat (mvfs_rddir_blocks com)) rce_new | Some es \<Rightarrow> es);
           i = rdc_slot es (rce_offset entryp) in
       (mn\<lparr>rddir_cache := Some (es[i := entryp])\<rparr>, rce_freed (es ! i)))"

definition mvfs_rddir_cache_enter :: "rdc_common \<Rightarrow> bool \<Rightarrow> rd_mnode \<Rightarrow> mvfs_rce \<Rightarrow> rd_mnode \<times> freed" where
  "mvfs_rddir_cache_enter com alloc mn entryp = mvfs_rddir_cache_enter_mnlocked com alloc mn entryp"

section \<open>Sizes\<close>

record mvfs_cache_sizes_t =
  sz_mask :: u32
  sz_size :: "u32 list"

definition MVFS_SETCACHE_RDDIR_BLOCKS :: nat where "MVFS_SETCACHE_RDDIR_BLOCKS = 7"

definition MVFS_SIZE_PRESENT :: "mvfs_cache_sizes_t \<Rightarrow> nat \<Rightarrow> bool" where
  "MVFS_SIZE_PRESENT sz b \<longleftrightarrow> sz_mask sz AND push_bit b 1 \<noteq> 0"

definition MVFS_SIZE_VALID :: "mvfs_cache_sizes_t \<Rightarrow> nat \<Rightarrow> bool" where
  "MVFS_SIZE_VALID sz b \<longleftrightarrow> MVFS_SIZE_PRESENT sz b \<and> sz_size sz ! b \<noteq> - 1"

definition MVFS_SIZE_DEFLOAD_NONZERO :: "mvfs_cache_sizes_t \<Rightarrow> nat \<Rightarrow> u32 \<Rightarrow> u32" where
  "MVFS_SIZE_DEFLOAD_NONZERO sz b def =
    (if MVFS_SIZE_VALID sz b then if sz_size sz ! b = 0 then def else sz_size sz ! b else def)"

definition RDDIR_FORMULA :: "int \<Rightarrow> u32" where
  "RDDIR_FORMULA scale = (if scale > 2 then 6 else word_of_int (2 * (scale + 1)))"

definition mvfs_rddir_cache_getcaches :: "rdc_common \<Rightarrow> mvfs_cache_sizes_t \<Rightarrow> int \<times> mvfs_cache_sizes_t" where
  "mvfs_rddir_cache_getcaches com szp =
     (0, szp\<lparr>sz_size := (sz_size szp)[MVFS_SETCACHE_RDDIR_BLOCKS := mvfs_rddir_blocks com]\<rparr>)"

definition mvfs_rddir_cache_setcaches :: "mvfs_cache_sizes_t \<Rightarrow> int" where
  "mvfs_rddir_cache_setcaches szp = 0"

definition mvfs_rddir_cache_init :: "mvfs_cache_sizes_t \<Rightarrow> rdc_common \<Rightarrow> rdc_common" where
  "mvfs_rddir_cache_init mma_sizes com = com\<lparr>init_rddir_blocks := mvfs_rddir_blocks com,
     mvfs_rddir_blocks := MVFS_SIZE_DEFLOAD_NONZERO mma_sizes MVFS_SETCACHE_RDDIR_BLOCKS
       (RDDIR_FORMULA (mvfs_largeinit com))\<rparr>"

definition mvfs_rddir_cache_unload :: "rdc_common \<Rightarrow> rdc_common" where
  "mvfs_rddir_cache_unload com = com\<lparr>mvfs_rddir_blocks := init_rddir_blocks com\<rparr>"

definition mvfs_rddir_compute_caches :: "int \<Rightarrow> mvfs_cache_sizes_t \<Rightarrow> int \<times> mvfs_cache_sizes_t" where
  "mvfs_rddir_compute_caches scale_factor szp =
    (0, if \<not> MVFS_SIZE_PRESENT szp MVFS_SETCACHE_RDDIR_BLOCKS then
          szp\<lparr>sz_size := (sz_size szp)[MVFS_SETCACHE_RDDIR_BLOCKS := RDDIR_FORMULA scale_factor],
             sz_mask := sz_mask szp OR push_bit MVFS_SETCACHE_RDDIR_BLOCKS 1\<rparr>
        else szp)"

section \<open>The call to the view server\<close>

definition MFS_MAXRPCDATA :: int where "MFS_MAXRPCDATA = 8192"

text \<open>\<open>a\<close>: what the allocation of the buffer returns; \<open>rpc offset count\<close>: the error of the RPC layer and
  the reply.  The result: the error, the end-of-file mark if one is returned, the uio, the mnode and
  what is freed.\<close>
definition mfs_clnt_readdir :: "rdc_common \<Rightarrow> 'b filldir \<Rightarrow> bool \<Rightarrow> addr option \<Rightarrow> bool
    \<Rightarrow> (u64 \<Rightarrow> nat \<Rightarrow> int \<times> view_readdir_reply_t) \<Rightarrow> rd_mnode \<Rightarrow> 'b uio
    \<Rightarrow> int \<times> u32 option \<times> 'b uio \<times> rd_mnode \<times> freed" where
  "mfs_clnt_readdir com ffunc vw_null a alloc rpc mn uio =
    (if vw_null then (ESRCH, None, uio, mn, [])
     else if dir_eof mn \<and> uio_offset uio = rddir_off mn \<and> rddir_off mn \<noteq> 0 then
       case (if mvfs_rdcenabled com then mvfs_rddir_cache_enter_mnlocked com alloc mn
               \<lparr>rce_valid = True, rce_eof = 1, rce_offset = uio_offset uio, rce_endoffset = uio_offset uio,
                rce_size = 0, rce_bsize = 0, rce_block = None\<rparr> else (mn, [])) of
         (mn, freed) \<Rightarrow> (0, Some 1, uio, mn, freed)
     else case a of None \<Rightarrow> (ENOMEM, None, uio, mn, [])
     | Some ents \<Rightarrow>
         let off = uio_offset uio; count = nat (min (uio_resid uio) MFS_MAXRPCDATA) in
         (case rpc off count of (error, rr) \<Rightarrow>
           let error = (if error = 0 then tbs_status2errno (sint (hr_status (rd_hdr rr))) else error) in
           if error \<noteq> 0 then (error, None, uio, mn, [(ents, count)])
           else
             (case (if rd_size rr \<noteq> 0 then
                 case mdki_linux_readdir_uiomove ffunc (the (rd_ents rr)) (rd_size rr) uio off of (err, uio) \<Rightarrow>
                   (err, if uio_rddir_full uio then uio else uio\<lparr>uio_offset := rd_offset rr\<rparr>, rd_offset rr)
               else (0, uio, off)) of (error, uio, endoffset) \<Rightarrow>
             let mn = (if rd_eof rr \<noteq> 0 then mn\<lparr>dir_eof := True, rddir_off := endoffset\<rparr> else mn) in
             if mvfs_rdcenabled com then
               (case mvfs_rddir_cache_enter_mnlocked com alloc mn
                  \<lparr>rce_valid = True, rce_eof = rd_eof rr, rce_offset = off, rce_endoffset = endoffset,
                   rce_size = rd_size rr, rce_bsize = count, rce_block = Some (ents, the (rd_ents rr))\<rparr> of
                 (mn, freed) \<Rightarrow> (error, Some (rd_eof rr), uio, mn, freed))
             else (error, Some (rd_eof rr), uio, mn, [(ents, count)]))))"

text \<open>The VOB case of \<open>mfs_readdir\<close>.  \<open>timedout\<close>: whether the attributes have timed out; \<open>getattr\<close>: what
  \<open>mfs_getattr\<close> returns and leaves of the readdir state.  An offset from \<open>MVFS_MAX_DIRSIZE\<close> on, for which
  the code reports the end at once, and the binding of a root version come before it.\<close>
definition mfs_readdir_vob :: "'b filldir \<Rightarrow> bool \<Rightarrow> (rd_mnode \<Rightarrow> int \<times> rd_mnode) \<Rightarrow> bool \<Rightarrow> addr option \<Rightarrow> bool
    \<Rightarrow> (u64 \<Rightarrow> nat \<Rightarrow> int \<times> view_readdir_reply_t) \<Rightarrow> rdc_common \<Rightarrow> rd_mnode \<Rightarrow> 'b uio
    \<Rightarrow> (int \<times> u32 option \<times> 'b uio \<times> rd_mnode \<times> freed) \<times> rdc_common" where
  "mfs_readdir_vob ffunc timedout getattr vw_null a alloc rpc com mn uio =
    (if timedout then
       (case getattr mn of (err, mn) \<Rightarrow>
        case (if err \<noteq> 0 then mvfs_rddir_cache_flush mn else (mn, [])) of (mn, freed) \<Rightarrow>
        case mfs_clnt_readdir com ffunc vw_null a alloc rpc mn uio of (error, eof, uio, mn, freed') \<Rightarrow>
          ((error, eof, uio, mn, freed @ freed'), com\<lparr>ac_rddirmiss := ac_rddirmiss com + 1\<rparr>))
     else
       case (if rddir_cache mn \<noteq> None then mvfs_rddir_cache_get ffunc mn uio com else (None, com)) of
         (Some (error, eof, uio), com) \<Rightarrow> ((error, Some eof, uio, mn, []), com)
       | (None, com) \<Rightarrow> (mfs_clnt_readdir com ffunc vw_null a alloc rpc mn uio, com))"

section \<open>Ownership of the blocks\<close>

text \<open>The blocks the cache owns, with their sizes.\<close>
definition rdc_owned :: "rd_mnode \<Rightarrow> (addr \<times> nat) multiset" where
  "rdc_owned mn = (case rddir_cache mn of None \<Rightarrow> {#} | Some es \<Rightarrow> mset (concat (map rce_freed es)))"

definition rdc_wf :: "rdc_common \<Rightarrow> rd_mnode \<Rightarrow> bool" where
  "rdc_wf com mn \<longleftrightarrow> mvfs_rddir_blocks com \<noteq> 0 \<and> rddir_cache mn \<noteq> Some []"

lemma rdc_scan_bound: "0 < i \<Longrightarrow> i \<le> length es \<Longrightarrow> rdc_scan es i < length es"
  by (induction es i rule: rdc_scan.induct) (subst rdc_scan.simps, auto)

lemma rdc_slot_bound: "es \<noteq> [] \<Longrightarrow> rdc_slot es off < length es"
  using rdc_scan_bound [of 1 es] by (cases es) (simp_all add: rdc_slot_def)

lemma rce_freed_upd:
  "i < length es \<Longrightarrow> mset (concat (map rce_freed (es[i := e]))) + mset (rce_freed (es ! i))
     = mset (concat (map rce_freed es)) + mset (rce_freed e)"
proof (induction es arbitrary: i)
  case (Cons x es)
  then show ?case by (cases i) (auto simp: ac_simps)
qed simp

lemma rce_freed_new [simp]: "rce_freed rce_new = []"
  by (simp add: rce_freed_def rce_new_def)

lemma concat_rce_new [simp]: "concat (map rce_freed (replicate n rce_new)) = []"
  by (induction n) simp_all

text \<open>The array an entry goes to.\<close>
definition rdc_entries :: "rdc_common \<Rightarrow> rd_mnode \<Rightarrow> mvfs_rce list" where
  "rdc_entries com mn = (case rddir_cache mn of None \<Rightarrow> replicate (unat (mvfs_rddir_blocks com)) rce_new | Some es \<Rightarrow> es)"

lemma rdc_entries_wf: "rdc_wf com mn \<Longrightarrow> rdc_entries com mn \<noteq> []"
  by (auto simp: rdc_wf_def rdc_entries_def unat_eq_zero split: option.splits)

lemma rdc_entries_owned: "mset (concat (map rce_freed (rdc_entries com mn))) = rdc_owned mn"
  by (simp add: rdc_entries_def rdc_owned_def split: option.splits)

lemma enter_eq:
  assumes "mvfs_rdcenabled com" and "alloc \<or> rddir_cache mn \<noteq> None"
  shows "mvfs_rddir_cache_enter_mnlocked com alloc mn e =
    (let es = rdc_entries com mn; i = rdc_slot es (rce_offset e) in
     (mn\<lparr>rddir_cache := Some (es[i := e])\<rparr>, rce_freed (es ! i)))"
  using assms by (auto simp: mvfs_rddir_cache_enter_mnlocked_def rdc_entries_def)

lemma enter_conserves:
  assumes "rdc_wf com mn" and "mvfs_rdcenabled com" and "alloc \<or> rddir_cache mn \<noteq> None"
    and "mvfs_rddir_cache_enter_mnlocked com alloc mn e = (mn', freed)"
  shows "rdc_owned mn' + mset freed = rdc_owned mn + mset (rce_freed e)"
proof -
  let ?es = "rdc_entries com mn"
  have "rdc_slot ?es (rce_offset e) < length ?es" using rdc_slot_bound [OF rdc_entries_wf [OF assms(1)]] .
  from rce_freed_upd [OF this, of e] show ?thesis
    using assms by (auto simp: enter_eq Let_def rdc_owned_def [of "mn\<lparr>rddir_cache := _\<rparr>"] rdc_entries_owned)
qed

text \<open>Whether a call gets as far as asking the server, with a buffer of its own.\<close>
definition readdir_asks :: "bool \<Rightarrow> rd_mnode \<Rightarrow> 'b uio \<Rightarrow> bool" where
  "readdir_asks vw_null mn uio \<longleftrightarrow> \<not> vw_null \<and> \<not> (dir_eof mn \<and> uio_offset uio = rddir_off mn \<and> rddir_off mn \<noteq> 0)"

text \<open>The buffer a call allocates for the reply, with its size.\<close>
definition readdir_count :: "'b uio \<Rightarrow> nat" where
  "readdir_count uio = nat (min (uio_resid uio) MFS_MAXRPCDATA)"

definition readdir_buffer :: "bool \<Rightarrow> addr option \<Rightarrow> rd_mnode \<Rightarrow> 'b uio \<Rightarrow> (addr \<times> nat) multiset" where
  "readdir_buffer vw_null a mn uio =
    (if readdir_asks vw_null mn uio then case a of None \<Rightarrow> {#} | Some ents \<Rightarrow> {#(ents, readdir_count uio)#} else {#})"

text \<open>Whether the server answers the call with a block.\<close>
definition readdir_answers :: "(u64 \<Rightarrow> nat \<Rightarrow> int \<times> view_readdir_reply_t) \<Rightarrow> 'b uio \<Rightarrow> bool" where
  "readdir_answers rpc uio \<longleftrightarrow> (case rpc (uio_offset uio) (readdir_count uio) of (err, rr) \<Rightarrow>
     err = 0 \<and> tbs_status2errno (sint (hr_status (rd_hdr rr))) = 0)"

text \<open>Whether the array of the cache has to be allocated for an entry and cannot be.\<close>
definition rdc_no_array :: "rdc_common \<Rightarrow> bool \<Rightarrow> rd_mnode \<Rightarrow> bool" where
  "rdc_no_array com alloc mn \<longleftrightarrow> mvfs_rdcenabled com \<and> rddir_cache mn = None \<and> \<not> alloc"

lemma enter_no_array: "rdc_no_array com alloc mn \<Longrightarrow> mvfs_rddir_cache_enter_mnlocked com alloc mn e = (mn, [])"
  by (simp add: rdc_no_array_def mvfs_rddir_cache_enter_mnlocked_def)

text \<open>An entry that is entered is owned by the cache afterwards, unless there is no array for it.\<close>
lemma enter_accounts:
  assumes "rdc_wf com mn" and "mvfs_rdcenabled com"
    and "mvfs_rddir_cache_enter_mnlocked com alloc mn e = (mn', freed)"
  shows "rdc_owned mn' + mset freed + (if rdc_no_array com alloc mn then mset (rce_freed e) else {#})
    = rdc_owned mn + mset (rce_freed e)"
proof (cases "rdc_no_array com alloc mn")
  case True
  then show ?thesis using enter_no_array [OF True] assms(3) by simp
next
  case False
  then show ?thesis using enter_conserves [OF assms(1,2) _ assms(3)] assms(2) by (auto simp: rdc_no_array_def)
qed

lemma readdir_quiet:
  assumes "rdc_wf com mn" and "\<not> readdir_asks vw_null mn uio"
    and "mfs_clnt_readdir com ffunc vw_null a alloc rpc mn uio = (error, eof, uio', mn', freed)"
  shows "rdc_owned mn' + mset freed = rdc_owned mn"
proof -
  let ?e = "\<lparr>rce_valid = True, rce_eof = 1, rce_offset = uio_offset uio, rce_endoffset = uio_offset uio,
     rce_size = 0, rce_bsize = 0, rce_block = None\<rparr>"
  obtain mn1 freed1 where en: "mvfs_rddir_cache_enter_mnlocked com alloc mn ?e = (mn1, freed1)" by force
  have "mvfs_rdcenabled com \<Longrightarrow> rdc_owned mn1 + mset freed1 = rdc_owned mn"
    using enter_accounts [OF assms(1) _ en] by (simp add: rce_freed_def split: if_splits)
  then show ?thesis using assms(2,3) en by (auto simp: mfs_clnt_readdir_def readdir_asks_def split: if_splits)
qed

lemma readdir_unanswered:
  assumes "readdir_asks vw_null mn uio" and "\<not> (readdir_answers rpc uio \<and> mvfs_rdcenabled com)"
    and "mfs_clnt_readdir com ffunc vw_null (Some ents) alloc rpc mn uio = (error, eof, uio', mn', freed)"
  shows "rdc_owned mn' + mset freed = rdc_owned mn + {#(ents, readdir_count uio)#}"
proof -
  obtain err rr where rpc: "rpc (uio_offset uio) (readdir_count uio) = (err, rr)" by force
  show ?thesis
    using assms rpc
    by (auto simp: mfs_clnt_readdir_def readdir_asks_def readdir_answers_def readdir_count_def rdc_owned_def Let_def
        split: if_splits prod.splits)
qed

lemma readdir_answered:
  assumes "rdc_wf com mn" and "readdir_asks vw_null mn uio" and "readdir_answers rpc uio" and "mvfs_rdcenabled com"
    and "mfs_clnt_readdir com ffunc vw_null (Some ents) alloc rpc mn uio = (error, eof, uio', mn', freed)"
  shows "rdc_owned mn' + mset freed + (if rdc_no_array com alloc mn then {#(ents, readdir_count uio)#} else {#})
    = rdc_owned mn + {#(ents, readdir_count uio)#}"
proof -
  obtain err rr where rpc: "rpc (uio_offset uio) (readdir_count uio) = (err, rr)" by force
  define end_off where "end_off = (if rd_size rr \<noteq> 0 then rd_offset rr else uio_offset uio)"
  define mn1 where "mn1 = (if rd_eof rr \<noteq> 0 then mn\<lparr>dir_eof := True, rddir_off := end_off\<rparr> else mn)"
  let ?e = "\<lparr>rce_valid = True, rce_eof = rd_eof rr, rce_offset = uio_offset uio, rce_endoffset = end_off,
     rce_size = rd_size rr, rce_bsize = readdir_count uio, rce_block = Some (ents, the (rd_ents rr))\<rparr>"
  have mn1: "rdc_wf com mn1" "rdc_owned mn1 = rdc_owned mn" "rdc_no_array com alloc mn1 = rdc_no_array com alloc mn"
    using assms(1) by (simp_all add: rdc_wf_def mn1_def rdc_owned_def rdc_no_array_def)
  have "mvfs_rddir_cache_enter_mnlocked com alloc mn1 ?e = (mn', freed)"
    using assms(2-5) rpc
    by (auto simp: mfs_clnt_readdir_def readdir_asks_def readdir_answers_def readdir_count_def Let_def mn1_def end_off_def
        split: if_splits prod.splits)
  from enter_accounts [OF mn1(1) assms(4) this] show ?thesis using mn1(2,3) by (simp add: rce_freed_def split: if_splits)
qed

text \<open>C9: where the directory blocks go.  After a read, the blocks the cache owns and the blocks that were
  freed are together those it owned before and the buffer of the call, each with the size it was
  allocated with: none is lost, none is freed twice.  There is exactly one exception: when the server
  has answered, the cache is enabled and its array does not exist and cannot be allocated, the buffer of
  the call is neither kept nor freed, and only it is lost.\<close>
theorem readdir_blocks_conserved:
  assumes "rdc_wf com mn"
    and "mfs_clnt_readdir com ffunc vw_null a alloc rpc mn uio = (error, eof, uio', mn', freed)"
  shows "rdc_owned mn' + mset freed +
      (if readdir_answers rpc uio \<and> rdc_no_array com alloc mn then readdir_buffer vw_null a mn uio else {#})
    = rdc_owned mn + readdir_buffer vw_null a mn uio"
proof (cases "readdir_asks vw_null mn uio")
  case False
  then show ?thesis using readdir_quiet [OF assms(1) False assms(2)] by (simp add: readdir_buffer_def)
next
  case True
  show ?thesis
  proof (cases a)
    case None
    then show ?thesis
      using True assms(2) by (auto simp: mfs_clnt_readdir_def readdir_asks_def readdir_buffer_def split: if_splits)
  next
    case (Some ents)
    note call = assms(2) [unfolded Some]
    have buf: "readdir_buffer vw_null a mn uio = {#(ents, readdir_count uio)#}" using True Some by (simp add: readdir_buffer_def)
    show ?thesis
    proof (cases "readdir_answers rpc uio \<and> mvfs_rdcenabled com")
      case ans: True
      then show ?thesis using readdir_answered [OF assms(1) True _ _ call] buf by (simp split: if_splits)
    next
      case no: False
      then show ?thesis using readdir_unanswered [OF True no call] buf by (auto simp: rdc_no_array_def)
    qed
  qed
qed

definition rdc_common_example :: rdc_common where
  "rdc_common_example = \<lparr>mvfs_rdcenabled = True, mvfs_rddir_blocks = 2, mvfs_largeinit = 0, init_rddir_blocks = 0,
     ac_rddirhit = 0, ac_rddirmiss = 0\<rparr>"

definition rd_mnode_example :: rd_mnode where
  "rd_mnode_example = \<lparr>rddir_cache = None, dir_eof = False, rddir_off = 0\<rparr>"

text \<open>A caller with room for everything that collects the names.\<close>
definition collect :: "byte list list filldir" where
  "collect buff name off ino = (0, buff @ [name])"

definition uio_example :: "byte list list uio" where
  "uio_example = \<lparr>uio_resid = 64, uio_offset = 0, uio_buff = [], uio_rddir_full = False\<rparr>"

definition readdir_run_example :: "int \<times> u32 option \<times> byte list list uio \<times> rd_mnode \<times> freed" where
  "readdir_run_example = mfs_clnt_readdir rdc_common_example collect False (Some 5) True
     (\<lambda>_ _. (0, readdir_example_out)) rd_mnode_example uio_example"

theorem readdir_blocks_conserved_witness:
  "rdc_owned (fst (snd (snd (snd readdir_run_example)))) + mset (snd (snd (snd (snd readdir_run_example)))) = {#(5, 64)#}"
proof -
  have w: "rdc_wf rdc_common_example rd_mnode_example"
    by (simp add: rdc_wf_def rdc_common_example_def rd_mnode_example_def)
  show ?thesis
    using readdir_blocks_conserved [OF w, of collect False "Some 5" True "\<lambda>_ _. (0, readdir_example_out)" uio_example]
    by (cases readdir_run_example) (simp add: readdir_run_example_def readdir_buffer_def readdir_count_def readdir_asks_def
        rdc_no_array_def rd_mnode_example_def uio_example_def rdc_owned_def MFS_MAXRPCDATA_def)
qed

text \<open>Giving the cache up frees exactly the blocks it owns: a flush keeps the array, a destroy
  does not, and neither leaves a block or a valid entry behind.\<close>
lemma rddir_cache_teardown:
  "rdc_owned (fst (mvfs_rddir_cache_flush mn)) = {#} \<and> mset (snd (mvfs_rddir_cache_flush mn)) = rdc_owned mn \<and>
   rddir_cache (fst (mvfs_rddir_cache_destroy mn)) = None \<and> mset (snd (mvfs_rddir_cache_destroy mn)) = rdc_owned mn \<and>
   (case rddir_cache (fst (mvfs_rddir_cache_flush mn)) of None \<Rightarrow> True | Some es \<Rightarrow> list_all (\<lambda>ep. \<not> rce_valid ep) es)"
proof -
  let ?clear = "\<lambda>ep. if rce_valid ep then ep\<lparr>rce_valid := False, rce_block := None\<rparr> else ep"
  have "rce_freed (?clear ep) = []" for ep by (cases "rce_valid ep") (simp_all add: rce_freed_def)
  then have "mset (concat (map rce_freed (map ?clear es))) = {#}" for es by (induction es) simp_all
  moreover have "list_all (\<lambda>ep. \<not> rce_valid ep) (map ?clear es)" for es by (induction es) simp_all
  ultimately have clear: "mset (concat (map rce_freed (fst (mvfs_rddir_cache_empty es)))) = {#}"
      "list_all (\<lambda>ep. \<not> rce_valid ep) (fst (mvfs_rddir_cache_empty es))" for es
    by (simp_all only: mvfs_rddir_cache_empty_def fst_conv)
  have freed: "mset (snd (mvfs_rddir_cache_empty es)) = mset (concat (map rce_freed es))" for es
    by (simp only: mvfs_rddir_cache_empty_def snd_conv)
  show ?thesis
    by (cases "rddir_cache mn") (use clear freed in \<open>simp_all add: mvfs_rddir_cache_flush_def
      mvfs_rddir_cache_destroy_def rdc_owned_def case_prod_beta del: mset_concat\<close>)
qed



section \<open>The cache gives what the server gives\<close>

text \<open>The specification of a read: a reply delivered to the caller, with its end-of-file mark.\<close>
definition readdir_deliver :: "'b filldir \<Rightarrow> view_readdir_reply_t \<Rightarrow> 'b uio \<Rightarrow> int \<times> u32 \<times> 'b uio" where
  "readdir_deliver ffunc rr uio =
    (if rd_size rr \<noteq> 0 then
       case mdki_linux_readdir_uiomove ffunc (the (rd_ents rr)) (rd_size rr) uio (uio_offset uio) of
         (err, uio) \<Rightarrow> (err, rd_eof rr, if uio_rddir_full uio then uio else uio\<lparr>uio_offset := rd_offset rr\<rparr>)
     else (0, rd_eof rr, uio))"

text \<open>A server with a fixed directory: \<open>srv offset count\<close>.  Once a reply says that the directory ends,
  reading at its end offset gives nothing but the end again.\<close>
definition srv_ends :: "(u64 \<Rightarrow> nat \<Rightarrow> view_readdir_reply_t) \<Rightarrow> bool" where
  "srv_ends srv \<longleftrightarrow> (\<forall>off c c'. rd_eof (srv off c) \<noteq> 0 \<longrightarrow>
     (let o' = (if rd_size (srv off c) \<noteq> 0 then rd_offset (srv off c) else off) in
      rd_size (srv o' c') = 0 \<and> rd_eof (srv o' c') = 1))"

text \<open>What an entry holds is some reply of the server.\<close>
definition rce_from :: "(u64 \<Rightarrow> nat \<Rightarrow> view_readdir_reply_t) \<Rightarrow> mvfs_rce \<Rightarrow> bool" where
  "rce_from srv ep \<longleftrightarrow> (\<exists>c. let rr = srv (rce_offset ep) c in
     rce_eof ep = rd_eof rr \<and> rce_size ep = rd_size rr \<and>
     (rd_size rr \<noteq> 0 \<longrightarrow> rce_endoffset ep = rd_offset rr \<and> map_option snd (rce_block ep) = Some (the (rd_ents rr))))"

definition rdc_coherent :: "(u64 \<Rightarrow> nat \<Rightarrow> view_readdir_reply_t) \<Rightarrow> rd_mnode \<Rightarrow> bool" where
  "rdc_coherent srv mn \<longleftrightarrow>
     (case rddir_cache mn of None \<Rightarrow> True | Some es \<Rightarrow> list_all (\<lambda>ep. rce_valid ep \<longrightarrow> rce_from srv ep) es) \<and>
     (dir_eof mn \<longrightarrow> (\<forall>c. rd_size (srv (rddir_off mn) c) = 0 \<and> rd_eof (srv (rddir_off mn) c) = 1))"

lemma find_Some_in: "List.find P xs = Some x \<Longrightarrow> x \<in> set xs \<and> P x"
  by (induction xs) (auto split: if_splits)

lemma cache_hit_delivers:
  assumes "rdc_coherent srv mn" and "mvfs_rddir_cache_get ffunc mn uio com = (Some r, com')"
  shows "\<exists>c. r = readdir_deliver ffunc (srv (uio_offset uio) c) uio"
proof -
  obtain es ep where es: "rddir_cache mn = Some es" "List.find (rce_match uio) es = Some ep"
    using assms(2) by (auto simp: mvfs_rddir_cache_get_def split: if_splits option.splits bind_splits)
  have ep: "ep \<in> set es" "rce_match uio ep" using find_Some_in [OF es(2)] by auto
  then have "rce_from srv ep" and off: "uio_offset uio = rce_offset ep"
    using assms(1) es(1) by (auto simp: rdc_coherent_def list_all_iff rce_match_def)
  then obtain c where c: "rce_eof ep = rd_eof (srv (rce_offset ep) c)" "rce_size ep = rd_size (srv (rce_offset ep) c)"
    "rd_size (srv (rce_offset ep) c) \<noteq> 0 \<longrightarrow> rce_endoffset ep = rd_offset (srv (rce_offset ep) c) \<and>
       map_option snd (rce_block ep) = Some (the (rd_ents (srv (rce_offset ep) c)))"
    by (auto simp: rce_from_def Let_def)
  have "r = readdir_deliver ffunc (srv (uio_offset uio) c) uio"
    using assms(2) es c off
    by (auto simp: mvfs_rddir_cache_get_def readdir_deliver_def split: if_splits prod.splits)
  then show ?thesis by blast
qed

lemma enter_coherent:
  assumes "rdc_coherent srv mn" and "rce_from srv e"
  shows "rdc_coherent srv (fst (mvfs_rddir_cache_enter_mnlocked com alloc mn e))"
proof -
  have "list_all (\<lambda>ep. rce_valid ep \<longrightarrow> rce_from srv ep) (rdc_entries com mn)"
    using assms(1) by (auto simp: rdc_coherent_def rdc_entries_def rce_new_def list_all_iff split: option.splits)
  then have "list_all (\<lambda>ep. rce_valid ep \<longrightarrow> rce_from srv ep) ((rdc_entries com mn)[i := e])" for i
    using assms(2) set_update_subset_insert [of "rdc_entries com mn" i e] by (auto simp: list_all_iff)
  then show ?thesis
    using assms(1) enter_eq [of com alloc mn e]
    by (cases "mvfs_rdcenabled com \<and> (alloc \<or> rddir_cache mn \<noteq> None)")
      (auto simp: Let_def rdc_coherent_def mvfs_rddir_cache_enter_mnlocked_def)
qed

lemma flush_coherent: "rdc_coherent srv mn \<Longrightarrow> rdc_coherent srv (fst (mvfs_rddir_cache_flush mn))"
  by (auto simp: rdc_coherent_def mvfs_rddir_cache_flush_def mvfs_rddir_cache_empty_def list_all_iff
      split: option.splits)

text \<open>The entry and the end of directory that a reply leaves behind.\<close>
lemma reply_coherent:
  assumes "srv_ends srv" and "rdc_coherent srv mn" and "rr = srv off c"
    and "e = (if rd_size rr \<noteq> 0 then rd_offset rr else off)"
  shows "rdc_coherent srv (if rd_eof rr \<noteq> 0 then mn\<lparr>dir_eof := True, rddir_off := e\<rparr> else mn)"
    and "rce_from srv \<lparr>rce_valid = True, rce_eof = rd_eof rr, rce_offset = off, rce_endoffset = e,
           rce_size = rd_size rr, rce_bsize = n, rce_block = Some (a, the (rd_ents rr))\<rparr>"
proof -
  have "rd_eof rr \<noteq> 0 \<Longrightarrow> rd_size (srv e c') = 0 \<and> rd_eof (srv e c') = 1" for c'
    using assms(1) unfolding srv_ends_def Let_def assms(4) assms(3) by blast
  then show "rdc_coherent srv (if rd_eof rr \<noteq> 0 then mn\<lparr>dir_eof := True, rddir_off := e\<rparr> else mn)"
    using assms(2) by (simp add: rdc_coherent_def)
  show "rce_from srv \<lparr>rce_valid = True, rce_eof = rd_eof rr, rce_offset = off, rce_endoffset = e,
           rce_size = rd_size rr, rce_bsize = n, rce_block = Some (a, the (rd_ents rr))\<rparr>"
    using assms(3,4) by (auto simp: rce_from_def Let_def)
qed

lemma clnt_readdir_delivers:
  assumes "srv_ends srv" and "\<And>off c. hr_status (rd_hdr (srv off c)) = 0" and "rdc_coherent srv mn"
  shows "case mfs_clnt_readdir com ffunc False (Some a) alloc (\<lambda>off c. (0, srv off c)) mn uio of
    (error, eof, uio', mn', freed) \<Rightarrow> rdc_coherent srv mn' \<and>
      (\<exists>c. (error, the eof, uio') = readdir_deliver ffunc (srv (uio_offset uio) c) uio)"
proof (cases "readdir_asks False mn uio")
  case False
  let ?e = "\<lparr>rce_valid = True, rce_eof = 1, rce_offset = uio_offset uio, rce_endoffset = uio_offset uio,
     rce_size = 0, rce_bsize = 0, rce_block = None\<rparr>"
  have z: "rd_size (srv (uio_offset uio) 0) = 0" "rd_eof (srv (uio_offset uio) 0) = 1"
    using False assms(3) by (auto simp: readdir_asks_def rdc_coherent_def)
  then have "rce_from srv ?e" by (auto simp: rce_from_def Let_def)
  then have "rdc_coherent srv (fst (mvfs_rddir_cache_enter_mnlocked com alloc mn ?e))"
    by (rule enter_coherent [OF assms(3)])
  moreover have "(0, 1, uio) = readdir_deliver ffunc (srv (uio_offset uio) 0) uio" using z by (simp add: readdir_deliver_def)
  ultimately show ?thesis
    using False assms(3) by (auto simp: mfs_clnt_readdir_def readdir_asks_def split: prod.splits)
next
  case True
  define c where "c = nat (min (uio_resid uio) MFS_MAXRPCDATA)"
  define rr where "rr = srv (uio_offset uio) c"
  define e where "e = (if rd_size rr \<noteq> 0 then rd_offset rr else uio_offset uio)"
  note coh = reply_coherent [OF assms(1,3) rr_def e_def]
  note en = enter_coherent [OF coh(1,2), of com alloc c a]
  have st: "tbs_status2errno (sint (hr_status (rd_hdr rr))) = 0"
    using assms(2) tbs_status2errno_OK by (simp add: rr_def TBS_ST_OK_def)
  have d: "(error, the eof, uio') = readdir_deliver ffunc rr uio \<and> rdc_coherent srv mn'"
    if r: "mfs_clnt_readdir com ffunc False (Some a) alloc (\<lambda>off c. (0, srv off c)) mn uio = (error, eof, uio', mn', freed)"
    for error eof uio' mn' freed
    using r True st coh(1) en
    by (auto simp: mfs_clnt_readdir_def readdir_asks_def readdir_deliver_def Let_def c_def [symmetric]
        rr_def [symmetric] e_def split: if_splits prod.splits)
  then show ?thesis unfolding rr_def by (auto split: prod.split)
qed

text \<open>C8: as long as the directory does not change at the server, a read is served with what the server
  has at its offset, whether it is answered from the cache or by a call, and leaves the cache
  in agreement with the server.  \<open>getattr\<close> may flush the cache.\<close>
theorem readdir_served_by_server:
  assumes "srv_ends srv" and "\<And>off c. hr_status (rd_hdr (srv off c)) = 0" and "rdc_coherent srv mn"
    and "\<And>mn. rdc_coherent srv mn \<Longrightarrow> rdc_coherent srv (snd (getattr mn))"
  shows "case mfs_readdir_vob ffunc timedout getattr False (Some a) alloc (\<lambda>off c. (0, srv off c)) com mn uio of
    ((error, eof, uio', mn', freed), com') \<Rightarrow> rdc_coherent srv mn' \<and>
      (\<exists>c. (error, the eof, uio') = readdir_deliver ffunc (srv (uio_offset uio) c) uio)"
proof (cases timedout)
  case True
  have "rdc_coherent srv (fst (if fst (getattr mn) \<noteq> 0 then mvfs_rddir_cache_flush (snd (getattr mn)) else (snd (getattr mn), [])))"
    using assms(3,4) flush_coherent by simp
  from clnt_readdir_delivers [OF assms(1,2) this, where com = com and ffunc = ffunc and a = a and alloc = alloc and uio = uio] show ?thesis
    using True by (auto simp: mfs_readdir_vob_def split: prod.splits if_splits)
next
  case False
  note clnt = clnt_readdir_delivers [OF assms(1-3), where ffunc = ffunc and a = a and alloc = alloc and uio = uio]
  show ?thesis
  proof (cases "mvfs_rddir_cache_get ffunc mn uio com")
    case (Pair r com1)
    show ?thesis
    proof (cases "rddir_cache mn = None \<or> r = None")
      case True
      then show ?thesis
        using False Pair clnt [where com = com] clnt [where com = com1]
        by (auto simp: mfs_readdir_vob_def split: prod.splits)
    next
      case hit: False
      then obtain x where x: "r = Some x" by auto
      obtain c where "x = readdir_deliver ffunc (srv (uio_offset uio) c) uio"
        using cache_hit_delivers [OF assms(3)] Pair x by metis
      then have "\<exists>c. x = readdir_deliver ffunc (srv (uio_offset uio) c) uio" ..
      then show ?thesis
        using False hit x Pair assms(3) by (cases x) (simp add: mfs_readdir_vob_def)
    qed
  qed
qed

definition srv_example :: "u64 \<Rightarrow> nat \<Rightarrow> view_readdir_reply_t" where
  "srv_example off c = (if off = 0 then readdir_example_out else readdir_example_out\<lparr>rd_size := 0, rd_ents := None\<rparr>)"

theorem readdir_served_by_server_witness:
  "case mfs_readdir_vob collect False (\<lambda>mn. (0, mn)) False (Some 5) True (\<lambda>off c. (0, srv_example off c))
      rdc_common_example rd_mnode_example uio_example of
    ((error, eof, uio', mn', freed), com') \<Rightarrow> rdc_coherent srv_example mn' \<and>
      (\<exists>c. (error, the eof, uio') = readdir_deliver collect (srv_example (uio_offset uio_example) c) uio_example)"
  by (rule readdir_served_by_server)
    (auto simp: srv_ends_def srv_example_def readdir_example_out_def rdc_coherent_def rd_mnode_example_def Let_def)

section \<open>The explicit flush after a change\<close>

text \<open>The macro \<open>MVFS_CLNT_RDDIR_CACHE_CHECK\<close> that a call which changes the directory ends with.\<close>
definition MVFS_CLNT_RDDIR_CACHE_CHECK :: "rd_mnode \<Rightarrow> rd_mnode \<times> freed" where
  "MVFS_CLNT_RDDIR_CACHE_CHECK mn = (case rddir_cache mn of None \<Rightarrow> (mn, [])
     | Some es \<Rightarrow> if rce_valid (es ! 0) then mvfs_rddir_cache_flush mn else (mn, []))"

text \<open>The check looks at the first slot only, but a block that does not start at offset 0 never goes
  there while there is more than one slot: entered into a new cache it survives the check that is to
  flush the directory's blocks.\<close>
lemma rddir_check_misses_block:
  assumes "mvfs_rdcenabled com" and "2 \<le> unat (mvfs_rddir_blocks com)" and "rddir_cache mn = None"
    and "rce_valid e" and "rce_offset e \<noteq> 0"
    and "mn' = fst (mvfs_rddir_cache_enter_mnlocked com True mn e)"
  shows "MVFS_CLNT_RDDIR_CACHE_CHECK mn' = (mn', []) \<and>
    (\<exists>es. rddir_cache mn' = Some es \<and> e \<in> set es)"
proof -
  let ?es = "replicate (unat (mvfs_rddir_blocks com)) rce_new"
  have "rdc_scan ?es 1 = 1" using assms(2) by (subst rdc_scan.simps) (simp add: rce_new_def)
  then have c: "rddir_cache mn' = Some (?es[1 := e])"
    using assms by (simp add: mvfs_rddir_cache_enter_mnlocked_def rdc_slot_def Let_def)
  have "e \<in> set (?es[1 := e])" using assms(2) by (simp add: set_update_memI)
  moreover have "\<not> rce_valid (?es[1 := e] ! 0)" using assms(2) by (simp add: rce_new_def)
  ultimately show ?thesis using c by (simp add: MVFS_CLNT_RDDIR_CACHE_CHECK_def)
qed

lemma rddir_check_misses_block_witness:
  "MVFS_CLNT_RDDIR_CACHE_CHECK (fst (mvfs_rddir_cache_enter_mnlocked rdc_common_example True rd_mnode_example
      (rce_new\<lparr>rce_valid := True, rce_offset := 5\<rparr>)))
    = (fst (mvfs_rddir_cache_enter_mnlocked rdc_common_example True rd_mnode_example
      (rce_new\<lparr>rce_valid := True, rce_offset := 5\<rparr>)), [])"
  using rddir_check_misses_block [of rdc_common_example rd_mnode_example "rce_new\<lparr>rce_valid := True, rce_offset := 5\<rparr>"]
  by (simp add: rdc_common_example_def rd_mnode_example_def)

end
