(* ===== verification/Xdr_View_Reply.thy ===== *)
theory Xdr_View_Reply
  imports Xdr_View Tbs_Errno
begin

text \<open>The replies of the view protocol.  A reply carries its body only with the status
  \<open>TBS_ST_OK\<close>; with any other status the fields behind the header keep what the caller's structure
  held (\<open>merge\<close>).  The name state of a lookup travels with every status, that of a
  getattr also with EACCES.\<close>

section \<open>Replies with a body on success only\<close>

record view_null_reply_t =
  nr_hdr :: view_hdr_reply_t

definition xdr_view_null_reply_t :: "view_null_reply_t xdrproc" where
  "xdr_view_null_reply_t = xdr_all
    [xdr_at xdr_view_hdr_reply_t nr_hdr nr_hdr_update]"

definition ok_view_null_reply :: "view_null_reply_t \<Rightarrow> bool" where
  "ok_view_null_reply v \<longleftrightarrow>
     ok_view_hdr_reply (nr_hdr v)"

definition wire_view_null_reply :: "view_null_reply_t \<Rightarrow> byte list" where
  "wire_view_null_reply v =
     wire_view_hdr_reply (nr_hdr v)"

interpretation view_null_reply_c: xdr_codec xdr_view_null_reply_t ok_view_null_reply wire_view_null_reply "\<lambda>v v0. v"
  by unfold_locales (simp_all add: xdr_view_null_reply_t_def ok_view_null_reply_def wire_view_null_reply_def xdr_at_def
      xdr_rules)

lemmas [xdr_rules] = view_null_reply_c.encode view_null_reply_c.decode

record view_dir_reply_t =
  dr_hdr :: view_hdr_reply_t
  dr_vstat :: view_vstat_t

definition xdr_view_dir_reply_t :: "view_dir_reply_t xdrproc" where
  "xdr_view_dir_reply_t x obj = xdr_bind (xdr_at xdr_view_hdr_reply_t dr_hdr dr_hdr_update x obj) (\<lambda>obj x.
     if hr_status (dr_hdr obj) \<noteq> 0 then XTrue obj x
     else xdr_all
       [xdr_at xdr_view_vstat_t dr_vstat dr_vstat_update] x obj)"

definition ok_view_dir_reply :: "view_dir_reply_t \<Rightarrow> bool" where
  "ok_view_dir_reply v \<longleftrightarrow> ok_view_hdr_reply (dr_hdr v) \<and> (hr_status (dr_hdr v) = 0 \<longrightarrow>
     ok_view_vstat (dr_vstat v))"

definition wire_view_dir_reply :: "view_dir_reply_t \<Rightarrow> byte list" where
  "wire_view_dir_reply v = wire_view_hdr_reply (dr_hdr v) @ (if hr_status (dr_hdr v) \<noteq> 0 then [] else
     wire_view_vstat (dr_vstat v))"

definition view_dir_reply_merge :: "view_dir_reply_t \<Rightarrow> view_dir_reply_t \<Rightarrow> view_dir_reply_t" where
  "view_dir_reply_merge v v0 = (if hr_status (dr_hdr v) \<noteq> 0 then v0\<lparr>dr_hdr := dr_hdr v\<rparr>
     else v\<lparr>dr_vstat := view_vstat_canon (dr_vstat v)\<rparr>)"

interpretation view_dir_reply_c: xdr_codec xdr_view_dir_reply_t ok_view_dir_reply wire_view_dir_reply view_dir_reply_merge
  by unfold_locales (auto simp: xdr_view_dir_reply_t_def ok_view_dir_reply_def wire_view_dir_reply_def view_dir_reply_merge_def xdr_at_def
      xdr_rules split: if_splits)

record view_dir_v8_reply_t =
  dr8_hdr :: view_hdr_reply_t
  dr8_vstat :: view_vstat_v8_t

definition xdr_view_dir_v8_reply_t :: "view_dir_v8_reply_t xdrproc" where
  "xdr_view_dir_v8_reply_t x obj = xdr_bind (xdr_at xdr_view_hdr_reply_t dr8_hdr dr8_hdr_update x obj) (\<lambda>obj x.
     if hr_status (dr8_hdr obj) \<noteq> 0 then XTrue obj x
     else xdr_all
       [xdr_at xdr_view_vstat_v8_t dr8_vstat dr8_vstat_update] x obj)"

definition ok_view_dir_v8_reply :: "view_dir_v8_reply_t \<Rightarrow> bool" where
  "ok_view_dir_v8_reply v \<longleftrightarrow> ok_view_hdr_reply (dr8_hdr v) \<and> (hr_status (dr8_hdr v) = 0 \<longrightarrow>
     ok_view_vstat_v8 (dr8_vstat v))"

definition wire_view_dir_v8_reply :: "view_dir_v8_reply_t \<Rightarrow> byte list" where
  "wire_view_dir_v8_reply v = wire_view_hdr_reply (dr8_hdr v) @ (if hr_status (dr8_hdr v) \<noteq> 0 then [] else
     wire_view_vstat_v8 (dr8_vstat v))"

definition view_dir_v8_reply_merge :: "view_dir_v8_reply_t \<Rightarrow> view_dir_v8_reply_t \<Rightarrow> view_dir_v8_reply_t" where
  "view_dir_v8_reply_merge v v0 = (if hr_status (dr8_hdr v) \<noteq> 0 then v0\<lparr>dr8_hdr := dr8_hdr v\<rparr>
     else v\<lparr>dr8_vstat := view_vstat_v8_canon (dr8_vstat v)\<rparr>)"

interpretation view_dir_v8_reply_c: xdr_codec xdr_view_dir_v8_reply_t ok_view_dir_v8_reply wire_view_dir_v8_reply view_dir_v8_reply_merge
  by unfold_locales (auto simp: xdr_view_dir_v8_reply_t_def ok_view_dir_v8_reply_def wire_view_dir_v8_reply_def view_dir_v8_reply_merge_def xdr_at_def
      xdr_rules split: if_splits)

record view_dir_mod_reply_t =
  dmr_hdr :: view_hdr_reply_t
  dmr_dir_mod :: view_dir_mod_t

definition xdr_view_dir_mod_reply_t :: "view_dir_mod_reply_t xdrproc" where
  "xdr_view_dir_mod_reply_t x obj = xdr_bind (xdr_at xdr_view_hdr_reply_t dmr_hdr dmr_hdr_update x obj) (\<lambda>obj x.
     if hr_status (dmr_hdr obj) \<noteq> 0 then XTrue obj x
     else xdr_all
       [xdr_at xdr_view_dir_mod_t dmr_dir_mod dmr_dir_mod_update] x obj)"

definition ok_view_dir_mod_reply :: "view_dir_mod_reply_t \<Rightarrow> bool" where
  "ok_view_dir_mod_reply v \<longleftrightarrow> ok_view_hdr_reply (dmr_hdr v) \<and> (hr_status (dmr_hdr v) = 0 \<longrightarrow>
     ok_view_dir_mod (dmr_dir_mod v))"

definition wire_view_dir_mod_reply :: "view_dir_mod_reply_t \<Rightarrow> byte list" where
  "wire_view_dir_mod_reply v = wire_view_hdr_reply (dmr_hdr v) @ (if hr_status (dmr_hdr v) \<noteq> 0 then [] else
     wire_view_dir_mod (dmr_dir_mod v))"

definition view_dir_mod_reply_merge :: "view_dir_mod_reply_t \<Rightarrow> view_dir_mod_reply_t \<Rightarrow> view_dir_mod_reply_t" where
  "view_dir_mod_reply_merge v v0 = (if hr_status (dmr_hdr v) \<noteq> 0 then v0\<lparr>dmr_hdr := dmr_hdr v\<rparr>
     else v\<lparr>dmr_dir_mod := view_dir_mod_canon (dmr_dir_mod v)\<rparr>)"

interpretation view_dir_mod_reply_c: xdr_codec xdr_view_dir_mod_reply_t ok_view_dir_mod_reply wire_view_dir_mod_reply view_dir_mod_reply_merge
  by unfold_locales (auto simp: xdr_view_dir_mod_reply_t_def ok_view_dir_mod_reply_def wire_view_dir_mod_reply_def view_dir_mod_reply_merge_def xdr_at_def
      xdr_rules split: if_splits)

record view_dir_mod_v8_reply_t =
  dmr8_hdr :: view_hdr_reply_t
  dmr8_dir_mod :: view_dir_mod_v8_t

definition xdr_view_dir_mod_v8_reply_t :: "view_dir_mod_v8_reply_t xdrproc" where
  "xdr_view_dir_mod_v8_reply_t x obj = xdr_bind (xdr_at xdr_view_hdr_reply_t dmr8_hdr dmr8_hdr_update x obj) (\<lambda>obj x.
     if hr_status (dmr8_hdr obj) \<noteq> 0 then XTrue obj x
     else xdr_all
       [xdr_at xdr_view_dir_mod_v8_t dmr8_dir_mod dmr8_dir_mod_update] x obj)"

definition ok_view_dir_mod_v8_reply :: "view_dir_mod_v8_reply_t \<Rightarrow> bool" where
  "ok_view_dir_mod_v8_reply v \<longleftrightarrow> ok_view_hdr_reply (dmr8_hdr v) \<and> (hr_status (dmr8_hdr v) = 0 \<longrightarrow>
     ok_view_dir_mod_v8 (dmr8_dir_mod v))"

definition wire_view_dir_mod_v8_reply :: "view_dir_mod_v8_reply_t \<Rightarrow> byte list" where
  "wire_view_dir_mod_v8_reply v = wire_view_hdr_reply (dmr8_hdr v) @ (if hr_status (dmr8_hdr v) \<noteq> 0 then [] else
     wire_view_dir_mod_v8 (dmr8_dir_mod v))"

definition view_dir_mod_v8_reply_merge :: "view_dir_mod_v8_reply_t \<Rightarrow> view_dir_mod_v8_reply_t \<Rightarrow> view_dir_mod_v8_reply_t" where
  "view_dir_mod_v8_reply_merge v v0 = (if hr_status (dmr8_hdr v) \<noteq> 0 then v0\<lparr>dmr8_hdr := dmr8_hdr v\<rparr>
     else v\<lparr>dmr8_dir_mod := view_dir_mod_v8_canon (dmr8_dir_mod v)\<rparr>)"

interpretation view_dir_mod_v8_reply_c: xdr_codec xdr_view_dir_mod_v8_reply_t ok_view_dir_mod_v8_reply wire_view_dir_mod_v8_reply view_dir_mod_v8_reply_merge
  by unfold_locales (auto simp: xdr_view_dir_mod_v8_reply_t_def ok_view_dir_mod_v8_reply_def wire_view_dir_mod_v8_reply_def view_dir_mod_v8_reply_merge_def xdr_at_def
      xdr_rules split: if_splits)

record view_root_reply_t =
  rr_hdr :: view_hdr_reply_t
  rr_fhandle :: view_fhandle_t
  rr_vstat :: view_vstat_t
  rr_bh_invariant :: u32

definition xdr_view_root_reply_t :: "view_root_reply_t xdrproc" where
  "xdr_view_root_reply_t x obj = xdr_bind (xdr_at xdr_view_hdr_reply_t rr_hdr rr_hdr_update x obj) (\<lambda>obj x.
     if hr_status (rr_hdr obj) \<noteq> 0 then XTrue obj x
     else xdr_all
       [xdr_at xdr_view_vstat_t rr_vstat rr_vstat_update,
        xdr_at xdr_view_fhandle_t rr_fhandle rr_fhandle_update,
        xdr_at xdr_bool rr_bh_invariant rr_bh_invariant_update] x obj)"

definition ok_view_root_reply :: "view_root_reply_t \<Rightarrow> bool" where
  "ok_view_root_reply v \<longleftrightarrow> ok_view_hdr_reply (rr_hdr v) \<and> (hr_status (rr_hdr v) = 0 \<longrightarrow>
     ok_view_vstat (rr_vstat v) \<and> ok_view_fhandle (rr_fhandle v))"

definition wire_view_root_reply :: "view_root_reply_t \<Rightarrow> byte list" where
  "wire_view_root_reply v = wire_view_hdr_reply (rr_hdr v) @ (if hr_status (rr_hdr v) \<noteq> 0 then [] else
     wire_view_vstat (rr_vstat v) @ wire_view_fhandle (rr_fhandle v) @
     be32 (rr_bh_invariant v))"

definition view_root_reply_merge :: "view_root_reply_t \<Rightarrow> view_root_reply_t \<Rightarrow> view_root_reply_t" where
  "view_root_reply_merge v v0 = (if hr_status (rr_hdr v) \<noteq> 0 then v0\<lparr>rr_hdr := rr_hdr v\<rparr>
     else v\<lparr>rr_vstat := view_vstat_canon (rr_vstat v)\<rparr>)"

interpretation view_root_reply_c: xdr_codec xdr_view_root_reply_t ok_view_root_reply wire_view_root_reply view_root_reply_merge
  by unfold_locales (auto simp: xdr_view_root_reply_t_def ok_view_root_reply_def wire_view_root_reply_def view_root_reply_merge_def xdr_at_def
      xdr_rules split: if_splits)

record view_root_v8_reply_t =
  rr8_hdr :: view_hdr_reply_t
  rr8_fhandle :: view_fhandle_t
  rr8_vstat :: view_vstat_v8_t
  rr8_bh_invariant :: u32

definition xdr_view_root_v8_reply_t :: "view_root_v8_reply_t xdrproc" where
  "xdr_view_root_v8_reply_t x obj = xdr_bind (xdr_at xdr_view_hdr_reply_t rr8_hdr rr8_hdr_update x obj) (\<lambda>obj x.
     if hr_status (rr8_hdr obj) \<noteq> 0 then XTrue obj x
     else xdr_all
       [xdr_at xdr_view_vstat_v8_t rr8_vstat rr8_vstat_update,
        xdr_at xdr_view_fhandle_t rr8_fhandle rr8_fhandle_update,
        xdr_at xdr_bool rr8_bh_invariant rr8_bh_invariant_update] x obj)"

definition ok_view_root_v8_reply :: "view_root_v8_reply_t \<Rightarrow> bool" where
  "ok_view_root_v8_reply v \<longleftrightarrow> ok_view_hdr_reply (rr8_hdr v) \<and> (hr_status (rr8_hdr v) = 0 \<longrightarrow>
     ok_view_vstat_v8 (rr8_vstat v) \<and> ok_view_fhandle (rr8_fhandle v))"

definition wire_view_root_v8_reply :: "view_root_v8_reply_t \<Rightarrow> byte list" where
  "wire_view_root_v8_reply v = wire_view_hdr_reply (rr8_hdr v) @ (if hr_status (rr8_hdr v) \<noteq> 0 then [] else
     wire_view_vstat_v8 (rr8_vstat v) @ wire_view_fhandle (rr8_fhandle v) @
     be32 (rr8_bh_invariant v))"

definition view_root_v8_reply_merge :: "view_root_v8_reply_t \<Rightarrow> view_root_v8_reply_t \<Rightarrow> view_root_v8_reply_t" where
  "view_root_v8_reply_merge v v0 = (if hr_status (rr8_hdr v) \<noteq> 0 then v0\<lparr>rr8_hdr := rr8_hdr v\<rparr>
     else v\<lparr>rr8_vstat := view_vstat_v8_canon (rr8_vstat v)\<rparr>)"

interpretation view_root_v8_reply_c: xdr_codec xdr_view_root_v8_reply_t ok_view_root_v8_reply wire_view_root_v8_reply view_root_v8_reply_merge
  by unfold_locales (auto simp: xdr_view_root_v8_reply_t_def ok_view_root_v8_reply_def wire_view_root_v8_reply_def view_root_v8_reply_merge_def xdr_at_def
      xdr_rules split: if_splits)

record view_lookup_reply_t =
  lr_hdr :: view_hdr_reply_t
  lr_name_state :: u64
  lr_fhandle :: view_fhandle_t
  lr_vstat :: view_vstat_t
  lr_residual_resolved :: u64
  lr_bh_invariant :: u32
  lr_lvut :: timeval

definition xdr_view_lookup_reply_t :: "view_lookup_reply_t xdrproc" where
  "xdr_view_lookup_reply_t x obj = xdr_bind (xdr_all [xdr_at xdr_view_hdr_reply_t lr_hdr lr_hdr_update, xdr_at xdr_view_name_state_t lr_name_state lr_name_state_update] x obj) (\<lambda>obj x.
     if hr_status (lr_hdr obj) \<noteq> 0 then XTrue obj x
     else xdr_all
       [xdr_at xdr_view_fhandle_t lr_fhandle lr_fhandle_update,
        xdr_at xdr_view_vstat_t lr_vstat lr_vstat_update,
        xdr_at xdr_size_t lr_residual_resolved lr_residual_resolved_update,
        xdr_at xdr_bool lr_bh_invariant lr_bh_invariant_update,
        xdr_at xdr_timeval lr_lvut lr_lvut_update] x obj)"

definition ok_view_lookup_reply :: "view_lookup_reply_t \<Rightarrow> bool" where
  "ok_view_lookup_reply v \<longleftrightarrow> ok_view_hdr_reply (lr_hdr v) \<and> ok_u_long (lr_name_state v) \<and> (hr_status (lr_hdr v) = 0 \<longrightarrow>
     ok_view_fhandle (lr_fhandle v) \<and> ok_view_vstat (lr_vstat v) \<and>
     ok_u_long (lr_residual_resolved v) \<and> ok_timeval (lr_lvut v))"

definition wire_view_lookup_reply :: "view_lookup_reply_t \<Rightarrow> byte list" where
  "wire_view_lookup_reply v = wire_view_hdr_reply (lr_hdr v) @ wire_long (lr_name_state v) @ (if hr_status (lr_hdr v) \<noteq> 0 then [] else
     wire_view_fhandle (lr_fhandle v) @ wire_view_vstat (lr_vstat v) @
     wire_long (lr_residual_resolved v) @ be32 (lr_bh_invariant v) @
     wire_timeval (lr_lvut v))"

definition view_lookup_reply_merge :: "view_lookup_reply_t \<Rightarrow> view_lookup_reply_t \<Rightarrow> view_lookup_reply_t" where
  "view_lookup_reply_merge v v0 = (if hr_status (lr_hdr v) \<noteq> 0 then v0\<lparr>lr_hdr := lr_hdr v, lr_name_state := lr_name_state v\<rparr>
     else v\<lparr>lr_vstat := view_vstat_canon (lr_vstat v)\<rparr>)"

interpretation view_lookup_reply_c: xdr_codec xdr_view_lookup_reply_t ok_view_lookup_reply wire_view_lookup_reply view_lookup_reply_merge
  by unfold_locales (auto simp: xdr_view_lookup_reply_t_def ok_view_lookup_reply_def wire_view_lookup_reply_def view_lookup_reply_merge_def xdr_at_def
      xdr_rules split: if_splits)

record view_lookup_v8_reply_t =
  lr8_hdr :: view_hdr_reply_t
  lr8_name_state :: u64
  lr8_fhandle :: view_fhandle_t
  lr8_vstat :: view_vstat_v8_t
  lr8_residual_resolved :: u64
  lr8_bh_invariant :: u32
  lr8_lvut :: timeval

definition xdr_view_lookup_v8_reply_t :: "view_lookup_v8_reply_t xdrproc" where
  "xdr_view_lookup_v8_reply_t x obj = xdr_bind (xdr_all [xdr_at xdr_view_hdr_reply_t lr8_hdr lr8_hdr_update, xdr_at xdr_view_name_state_t lr8_name_state lr8_name_state_update] x obj) (\<lambda>obj x.
     if hr_status (lr8_hdr obj) \<noteq> 0 then XTrue obj x
     else xdr_all
       [xdr_at xdr_view_fhandle_t lr8_fhandle lr8_fhandle_update,
        xdr_at xdr_view_vstat_v8_t lr8_vstat lr8_vstat_update,
        xdr_at xdr_size_t lr8_residual_resolved lr8_residual_resolved_update,
        xdr_at xdr_bool lr8_bh_invariant lr8_bh_invariant_update,
        xdr_at xdr_timeval lr8_lvut lr8_lvut_update] x obj)"

definition ok_view_lookup_v8_reply :: "view_lookup_v8_reply_t \<Rightarrow> bool" where
  "ok_view_lookup_v8_reply v \<longleftrightarrow> ok_view_hdr_reply (lr8_hdr v) \<and> ok_u_long (lr8_name_state v) \<and> (hr_status (lr8_hdr v) = 0 \<longrightarrow>
     ok_view_fhandle (lr8_fhandle v) \<and> ok_view_vstat_v8 (lr8_vstat v) \<and>
     ok_u_long (lr8_residual_resolved v) \<and> ok_timeval (lr8_lvut v))"

definition wire_view_lookup_v8_reply :: "view_lookup_v8_reply_t \<Rightarrow> byte list" where
  "wire_view_lookup_v8_reply v = wire_view_hdr_reply (lr8_hdr v) @ wire_long (lr8_name_state v) @ (if hr_status (lr8_hdr v) \<noteq> 0 then [] else
     wire_view_fhandle (lr8_fhandle v) @ wire_view_vstat_v8 (lr8_vstat v) @
     wire_long (lr8_residual_resolved v) @ be32 (lr8_bh_invariant v) @
     wire_timeval (lr8_lvut v))"

definition view_lookup_v8_reply_merge :: "view_lookup_v8_reply_t \<Rightarrow> view_lookup_v8_reply_t \<Rightarrow> view_lookup_v8_reply_t" where
  "view_lookup_v8_reply_merge v v0 = (if hr_status (lr8_hdr v) \<noteq> 0 then v0\<lparr>lr8_hdr := lr8_hdr v, lr8_name_state := lr8_name_state v\<rparr>
     else v\<lparr>lr8_vstat := view_vstat_v8_canon (lr8_vstat v)\<rparr>)"

interpretation view_lookup_v8_reply_c: xdr_codec xdr_view_lookup_v8_reply_t ok_view_lookup_v8_reply wire_view_lookup_v8_reply view_lookup_v8_reply_merge
  by unfold_locales (auto simp: xdr_view_lookup_v8_reply_t_def ok_view_lookup_v8_reply_def wire_view_lookup_v8_reply_def view_lookup_v8_reply_merge_def xdr_at_def
      xdr_rules split: if_splits)

record view_getattr_v8_reply_t =
  gr8_hdr :: view_hdr_reply_t
  gr8_fhandle :: view_fhandle_t
  gr8_vstat :: view_vstat_v8_t
  gr8_bh_invariant :: u32
  gr8_lvut :: timeval

definition xdr_view_getattr_v8_reply_t :: "view_getattr_v8_reply_t xdrproc" where
  "xdr_view_getattr_v8_reply_t x obj = xdr_bind (xdr_at xdr_view_hdr_reply_t gr8_hdr gr8_hdr_update x obj) (\<lambda>obj x.
     if hr_status (gr8_hdr obj) \<noteq> 0 then XTrue obj x
     else xdr_all
       [xdr_at xdr_view_vstat_v8_t gr8_vstat gr8_vstat_update,
        xdr_at xdr_view_fhandle_t gr8_fhandle gr8_fhandle_update,
        xdr_at xdr_timeval gr8_lvut gr8_lvut_update,
        xdr_at xdr_bool gr8_bh_invariant gr8_bh_invariant_update] x obj)"

definition ok_view_getattr_v8_reply :: "view_getattr_v8_reply_t \<Rightarrow> bool" where
  "ok_view_getattr_v8_reply v \<longleftrightarrow> ok_view_hdr_reply (gr8_hdr v) \<and> (hr_status (gr8_hdr v) = 0 \<longrightarrow>
     ok_view_vstat_v8 (gr8_vstat v) \<and> ok_view_fhandle (gr8_fhandle v) \<and>
     ok_timeval (gr8_lvut v))"

definition wire_view_getattr_v8_reply :: "view_getattr_v8_reply_t \<Rightarrow> byte list" where
  "wire_view_getattr_v8_reply v = wire_view_hdr_reply (gr8_hdr v) @ (if hr_status (gr8_hdr v) \<noteq> 0 then [] else
     wire_view_vstat_v8 (gr8_vstat v) @ wire_view_fhandle (gr8_fhandle v) @
     wire_timeval (gr8_lvut v) @ be32 (gr8_bh_invariant v))"

definition view_getattr_v8_reply_merge :: "view_getattr_v8_reply_t \<Rightarrow> view_getattr_v8_reply_t \<Rightarrow> view_getattr_v8_reply_t" where
  "view_getattr_v8_reply_merge v v0 = (if hr_status (gr8_hdr v) \<noteq> 0 then v0\<lparr>gr8_hdr := gr8_hdr v\<rparr>
     else v\<lparr>gr8_vstat := view_vstat_v8_canon (gr8_vstat v)\<rparr>)"

interpretation view_getattr_v8_reply_c: xdr_codec xdr_view_getattr_v8_reply_t ok_view_getattr_v8_reply wire_view_getattr_v8_reply view_getattr_v8_reply_merge
  by unfold_locales (auto simp: xdr_view_getattr_v8_reply_t_def ok_view_getattr_v8_reply_def wire_view_getattr_v8_reply_def view_getattr_v8_reply_merge_def xdr_at_def
      xdr_rules split: if_splits)

record view_readlink_reply_t =
  rlr_hdr :: view_hdr_reply_t
  rlr_text_size :: u64
  rlr_text :: cstr

definition xdr_view_readlink_reply_t :: "view_readlink_reply_t xdrproc" where
  "xdr_view_readlink_reply_t x obj = xdr_bind (xdr_at xdr_view_hdr_reply_t rlr_hdr rlr_hdr_update x obj) (\<lambda>obj x.
     if hr_status (rlr_hdr obj) \<noteq> 0 then XTrue obj x
     else xdr_all
       [xdr_at xdr_size_t rlr_text_size rlr_text_size_update,
        xdr_at xdr_ks_canon_pname_p_t rlr_text rlr_text_update] x obj)"

definition ok_view_readlink_reply :: "view_readlink_reply_t \<Rightarrow> bool" where
  "ok_view_readlink_reply v \<longleftrightarrow> ok_view_hdr_reply (rlr_hdr v) \<and> (hr_status (rlr_hdr v) = 0 \<longrightarrow>
     ok_u_long (rlr_text_size v) \<and> ok_string TBS_MAX_PNAME_LEN (rlr_text v))"

definition wire_view_readlink_reply :: "view_readlink_reply_t \<Rightarrow> byte list" where
  "wire_view_readlink_reply v = wire_view_hdr_reply (rlr_hdr v) @ (if hr_status (rlr_hdr v) \<noteq> 0 then [] else
     wire_long (rlr_text_size v) @ wire_string (rlr_text v))"

definition view_readlink_reply_merge :: "view_readlink_reply_t \<Rightarrow> view_readlink_reply_t \<Rightarrow> view_readlink_reply_t" where
  "view_readlink_reply_merge v v0 = (if hr_status (rlr_hdr v) \<noteq> 0 then v0\<lparr>rlr_hdr := rlr_hdr v\<rparr>
     else v)"

interpretation view_readlink_reply_c: xdr_codec xdr_view_readlink_reply_t ok_view_readlink_reply wire_view_readlink_reply view_readlink_reply_merge
  by unfold_locales (auto simp: xdr_view_readlink_reply_t_def ok_view_readlink_reply_def wire_view_readlink_reply_def view_readlink_reply_merge_def xdr_at_def
      xdr_rules split: if_splits)

record view_create_reply_t =
  cr_hdr :: view_hdr_reply_t
  cr_fhandle :: view_fhandle_t
  cr_vstat :: view_vstat_t
  cr_dir_mod :: view_dir_mod_t
  cr_text_size :: u64
  cr_text :: cstr

definition xdr_view_create_reply_t :: "view_create_reply_t xdrproc" where
  "xdr_view_create_reply_t x obj = xdr_bind (xdr_at xdr_view_hdr_reply_t cr_hdr cr_hdr_update x obj) (\<lambda>obj x.
     if hr_status (cr_hdr obj) \<noteq> 0 then XTrue obj x
     else xdr_all
       [xdr_at xdr_view_fhandle_t cr_fhandle cr_fhandle_update,
        xdr_at xdr_view_vstat_t cr_vstat cr_vstat_update,
        xdr_at xdr_view_dir_mod_t cr_dir_mod cr_dir_mod_update,
        xdr_at xdr_size_t cr_text_size cr_text_size_update,
        xdr_at xdr_ks_canon_pname_p_t cr_text cr_text_update] x obj)"

definition ok_view_create_reply :: "view_create_reply_t \<Rightarrow> bool" where
  "ok_view_create_reply v \<longleftrightarrow> ok_view_hdr_reply (cr_hdr v) \<and> (hr_status (cr_hdr v) = 0 \<longrightarrow>
     ok_view_fhandle (cr_fhandle v) \<and> ok_view_vstat (cr_vstat v) \<and>
     ok_view_dir_mod (cr_dir_mod v) \<and> ok_u_long (cr_text_size v) \<and>
     ok_string TBS_MAX_PNAME_LEN (cr_text v))"

definition wire_view_create_reply :: "view_create_reply_t \<Rightarrow> byte list" where
  "wire_view_create_reply v = wire_view_hdr_reply (cr_hdr v) @ (if hr_status (cr_hdr v) \<noteq> 0 then [] else
     wire_view_fhandle (cr_fhandle v) @ wire_view_vstat (cr_vstat v) @
     wire_view_dir_mod (cr_dir_mod v) @ wire_long (cr_text_size v) @ wire_string (cr_text v))"

definition view_create_reply_merge :: "view_create_reply_t \<Rightarrow> view_create_reply_t \<Rightarrow> view_create_reply_t" where
  "view_create_reply_merge v v0 = (if hr_status (cr_hdr v) \<noteq> 0 then v0\<lparr>cr_hdr := cr_hdr v\<rparr>
     else v\<lparr>cr_vstat := view_vstat_canon (cr_vstat v), cr_dir_mod := view_dir_mod_canon (cr_dir_mod v)\<rparr>)"

interpretation view_create_reply_c: xdr_codec xdr_view_create_reply_t ok_view_create_reply wire_view_create_reply view_create_reply_merge
  by unfold_locales (auto simp: xdr_view_create_reply_t_def ok_view_create_reply_def wire_view_create_reply_def view_create_reply_merge_def xdr_at_def
      xdr_rules split: if_splits)

record view_create_v8_reply_t =
  cr8_hdr :: view_hdr_reply_t
  cr8_fhandle :: view_fhandle_t
  cr8_vstat :: view_vstat_v8_t
  cr8_dir_mod :: view_dir_mod_v8_t
  cr8_text_size :: u64
  cr8_text :: cstr

definition xdr_view_create_v8_reply_t :: "view_create_v8_reply_t xdrproc" where
  "xdr_view_create_v8_reply_t x obj = xdr_bind (xdr_at xdr_view_hdr_reply_t cr8_hdr cr8_hdr_update x obj) (\<lambda>obj x.
     if hr_status (cr8_hdr obj) \<noteq> 0 then XTrue obj x
     else xdr_all
       [xdr_at xdr_view_fhandle_t cr8_fhandle cr8_fhandle_update,
        xdr_at xdr_view_vstat_v8_t cr8_vstat cr8_vstat_update,
        xdr_at xdr_view_dir_mod_v8_t cr8_dir_mod cr8_dir_mod_update,
        xdr_at xdr_size_t cr8_text_size cr8_text_size_update,
        xdr_at xdr_ks_canon_pname_p_t cr8_text cr8_text_update] x obj)"

definition ok_view_create_v8_reply :: "view_create_v8_reply_t \<Rightarrow> bool" where
  "ok_view_create_v8_reply v \<longleftrightarrow> ok_view_hdr_reply (cr8_hdr v) \<and> (hr_status (cr8_hdr v) = 0 \<longrightarrow>
     ok_view_fhandle (cr8_fhandle v) \<and> ok_view_vstat_v8 (cr8_vstat v) \<and>
     ok_view_dir_mod_v8 (cr8_dir_mod v) \<and> ok_u_long (cr8_text_size v) \<and>
     ok_string TBS_MAX_PNAME_LEN (cr8_text v))"

definition wire_view_create_v8_reply :: "view_create_v8_reply_t \<Rightarrow> byte list" where
  "wire_view_create_v8_reply v = wire_view_hdr_reply (cr8_hdr v) @ (if hr_status (cr8_hdr v) \<noteq> 0 then [] else
     wire_view_fhandle (cr8_fhandle v) @ wire_view_vstat_v8 (cr8_vstat v) @
     wire_view_dir_mod_v8 (cr8_dir_mod v) @ wire_long (cr8_text_size v) @
     wire_string (cr8_text v))"

definition view_create_v8_reply_merge :: "view_create_v8_reply_t \<Rightarrow> view_create_v8_reply_t \<Rightarrow> view_create_v8_reply_t" where
  "view_create_v8_reply_merge v v0 = (if hr_status (cr8_hdr v) \<noteq> 0 then v0\<lparr>cr8_hdr := cr8_hdr v\<rparr>
     else v\<lparr>cr8_vstat := view_vstat_v8_canon (cr8_vstat v), cr8_dir_mod := view_dir_mod_v8_canon (cr8_dir_mod v)\<rparr>)"

interpretation view_create_v8_reply_c: xdr_codec xdr_view_create_v8_reply_t ok_view_create_v8_reply wire_view_create_v8_reply view_create_v8_reply_merge
  by unfold_locales (auto simp: xdr_view_create_v8_reply_t_def ok_view_create_v8_reply_def wire_view_create_v8_reply_def view_create_v8_reply_merge_def xdr_at_def
      xdr_rules split: if_splits)

record view_symlink_reply_t =
  slr_hdr :: view_hdr_reply_t
  slr_fhandle :: view_fhandle_t
  slr_vstat :: view_vstat_t
  slr_dir_mod :: view_dir_mod_t

definition xdr_view_symlink_reply_t :: "view_symlink_reply_t xdrproc" where
  "xdr_view_symlink_reply_t x obj = xdr_bind (xdr_at xdr_view_hdr_reply_t slr_hdr slr_hdr_update x obj) (\<lambda>obj x.
     if hr_status (slr_hdr obj) \<noteq> 0 then XTrue obj x
     else xdr_all
       [xdr_at xdr_view_fhandle_t slr_fhandle slr_fhandle_update,
        xdr_at xdr_view_vstat_t slr_vstat slr_vstat_update,
        xdr_at xdr_view_dir_mod_t slr_dir_mod slr_dir_mod_update] x obj)"

definition ok_view_symlink_reply :: "view_symlink_reply_t \<Rightarrow> bool" where
  "ok_view_symlink_reply v \<longleftrightarrow> ok_view_hdr_reply (slr_hdr v) \<and> (hr_status (slr_hdr v) = 0 \<longrightarrow>
     ok_view_fhandle (slr_fhandle v) \<and> ok_view_vstat (slr_vstat v) \<and>
     ok_view_dir_mod (slr_dir_mod v))"

definition wire_view_symlink_reply :: "view_symlink_reply_t \<Rightarrow> byte list" where
  "wire_view_symlink_reply v = wire_view_hdr_reply (slr_hdr v) @ (if hr_status (slr_hdr v) \<noteq> 0 then [] else
     wire_view_fhandle (slr_fhandle v) @ wire_view_vstat (slr_vstat v) @
     wire_view_dir_mod (slr_dir_mod v))"

definition view_symlink_reply_merge :: "view_symlink_reply_t \<Rightarrow> view_symlink_reply_t \<Rightarrow> view_symlink_reply_t" where
  "view_symlink_reply_merge v v0 = (if hr_status (slr_hdr v) \<noteq> 0 then v0\<lparr>slr_hdr := slr_hdr v\<rparr>
     else v\<lparr>slr_vstat := view_vstat_canon (slr_vstat v), slr_dir_mod := view_dir_mod_canon (slr_dir_mod v)\<rparr>)"

interpretation view_symlink_reply_c: xdr_codec xdr_view_symlink_reply_t ok_view_symlink_reply wire_view_symlink_reply view_symlink_reply_merge
  by unfold_locales (auto simp: xdr_view_symlink_reply_t_def ok_view_symlink_reply_def wire_view_symlink_reply_def view_symlink_reply_merge_def xdr_at_def
      xdr_rules split: if_splits)

record view_symlink_v8_reply_t =
  slr8_hdr :: view_hdr_reply_t
  slr8_fhandle :: view_fhandle_t
  slr8_vstat :: view_vstat_v8_t
  slr8_dir_mod :: view_dir_mod_v8_t

definition xdr_view_symlink_v8_reply_t :: "view_symlink_v8_reply_t xdrproc" where
  "xdr_view_symlink_v8_reply_t x obj = xdr_bind (xdr_at xdr_view_hdr_reply_t slr8_hdr slr8_hdr_update x obj) (\<lambda>obj x.
     if hr_status (slr8_hdr obj) \<noteq> 0 then XTrue obj x
     else xdr_all
       [xdr_at xdr_view_fhandle_t slr8_fhandle slr8_fhandle_update,
        xdr_at xdr_view_vstat_v8_t slr8_vstat slr8_vstat_update,
        xdr_at xdr_view_dir_mod_v8_t slr8_dir_mod slr8_dir_mod_update] x obj)"

definition ok_view_symlink_v8_reply :: "view_symlink_v8_reply_t \<Rightarrow> bool" where
  "ok_view_symlink_v8_reply v \<longleftrightarrow> ok_view_hdr_reply (slr8_hdr v) \<and> (hr_status (slr8_hdr v) = 0 \<longrightarrow>
     ok_view_fhandle (slr8_fhandle v) \<and> ok_view_vstat_v8 (slr8_vstat v) \<and>
     ok_view_dir_mod_v8 (slr8_dir_mod v))"

definition wire_view_symlink_v8_reply :: "view_symlink_v8_reply_t \<Rightarrow> byte list" where
  "wire_view_symlink_v8_reply v = wire_view_hdr_reply (slr8_hdr v) @ (if hr_status (slr8_hdr v) \<noteq> 0 then [] else
     wire_view_fhandle (slr8_fhandle v) @ wire_view_vstat_v8 (slr8_vstat v) @
     wire_view_dir_mod_v8 (slr8_dir_mod v))"

definition view_symlink_v8_reply_merge :: "view_symlink_v8_reply_t \<Rightarrow> view_symlink_v8_reply_t \<Rightarrow> view_symlink_v8_reply_t" where
  "view_symlink_v8_reply_merge v v0 = (if hr_status (slr8_hdr v) \<noteq> 0 then v0\<lparr>slr8_hdr := slr8_hdr v\<rparr>
     else v\<lparr>slr8_vstat := view_vstat_v8_canon (slr8_vstat v), slr8_dir_mod := view_dir_mod_v8_canon (slr8_dir_mod v)\<rparr>)"

interpretation view_symlink_v8_reply_c: xdr_codec xdr_view_symlink_v8_reply_t ok_view_symlink_v8_reply wire_view_symlink_v8_reply view_symlink_v8_reply_merge
  by unfold_locales (auto simp: xdr_view_symlink_v8_reply_t_def ok_view_symlink_v8_reply_def wire_view_symlink_v8_reply_def view_symlink_v8_reply_merge_def xdr_at_def
      xdr_rules split: if_splits)

record view_cltxt_reply_t =
  ctr_hdr :: view_hdr_reply_t
  ctr_text_size :: u64
  ctr_text :: cstr
  ctr_vob :: u32

definition xdr_view_cltxt_reply_t :: "view_cltxt_reply_t xdrproc" where
  "xdr_view_cltxt_reply_t x obj = xdr_bind (xdr_at xdr_view_hdr_reply_t ctr_hdr ctr_hdr_update x obj) (\<lambda>obj x.
     if hr_status (ctr_hdr obj) \<noteq> 0 then XTrue obj x
     else xdr_all
       [xdr_at xdr_size_t ctr_text_size ctr_text_size_update,
        xdr_at xdr_ks_canon_pname_p_t ctr_text ctr_text_update,
        xdr_at xdr_bool ctr_vob ctr_vob_update] x obj)"

definition ok_view_cltxt_reply :: "view_cltxt_reply_t \<Rightarrow> bool" where
  "ok_view_cltxt_reply v \<longleftrightarrow> ok_view_hdr_reply (ctr_hdr v) \<and> (hr_status (ctr_hdr v) = 0 \<longrightarrow>
     ok_u_long (ctr_text_size v) \<and> ok_string TBS_MAX_PNAME_LEN (ctr_text v))"

definition wire_view_cltxt_reply :: "view_cltxt_reply_t \<Rightarrow> byte list" where
  "wire_view_cltxt_reply v = wire_view_hdr_reply (ctr_hdr v) @ (if hr_status (ctr_hdr v) \<noteq> 0 then [] else
     wire_long (ctr_text_size v) @ wire_string (ctr_text v) @ be32 (ctr_vob v))"

definition view_cltxt_reply_merge :: "view_cltxt_reply_t \<Rightarrow> view_cltxt_reply_t \<Rightarrow> view_cltxt_reply_t" where
  "view_cltxt_reply_merge v v0 = (if hr_status (ctr_hdr v) \<noteq> 0 then v0\<lparr>ctr_hdr := ctr_hdr v\<rparr>
     else v)"

interpretation view_cltxt_reply_c: xdr_codec xdr_view_cltxt_reply_t ok_view_cltxt_reply wire_view_cltxt_reply view_cltxt_reply_merge
  by unfold_locales (auto simp: xdr_view_cltxt_reply_t_def ok_view_cltxt_reply_def wire_view_cltxt_reply_def view_cltxt_reply_merge_def xdr_at_def
      xdr_rules split: if_splits)

record view_gpath_reply_t =
  gpr_hdr :: view_hdr_reply_t
  gpr_path_size :: u64
  gpr_path :: cstr
  gpr_ext_path_size :: u64
  gpr_ext_path :: cstr

definition xdr_view_gpath_reply_t :: "view_gpath_reply_t xdrproc" where
  "xdr_view_gpath_reply_t x obj = xdr_bind (xdr_at xdr_view_hdr_reply_t gpr_hdr gpr_hdr_update x obj) (\<lambda>obj x.
     if hr_status (gpr_hdr obj) \<noteq> 0 then XTrue obj x
     else xdr_all
       [xdr_at xdr_size_t gpr_path_size gpr_path_size_update,
        xdr_at xdr_ks_canon_pname_p_t gpr_path gpr_path_update,
        xdr_at xdr_size_t gpr_ext_path_size gpr_ext_path_size_update,
        xdr_at xdr_ks_canon_pname_p_t gpr_ext_path gpr_ext_path_update] x obj)"

definition ok_view_gpath_reply :: "view_gpath_reply_t \<Rightarrow> bool" where
  "ok_view_gpath_reply v \<longleftrightarrow> ok_view_hdr_reply (gpr_hdr v) \<and> (hr_status (gpr_hdr v) = 0 \<longrightarrow>
     ok_u_long (gpr_path_size v) \<and> ok_string TBS_MAX_PNAME_LEN (gpr_path v) \<and>
     ok_u_long (gpr_ext_path_size v) \<and> ok_string TBS_MAX_PNAME_LEN (gpr_ext_path v))"

definition wire_view_gpath_reply :: "view_gpath_reply_t \<Rightarrow> byte list" where
  "wire_view_gpath_reply v = wire_view_hdr_reply (gpr_hdr v) @ (if hr_status (gpr_hdr v) \<noteq> 0 then [] else
     wire_long (gpr_path_size v) @ wire_string (gpr_path v) @
     wire_long (gpr_ext_path_size v) @ wire_string (gpr_ext_path v))"

definition view_gpath_reply_merge :: "view_gpath_reply_t \<Rightarrow> view_gpath_reply_t \<Rightarrow> view_gpath_reply_t" where
  "view_gpath_reply_merge v v0 = (if hr_status (gpr_hdr v) \<noteq> 0 then v0\<lparr>gpr_hdr := gpr_hdr v\<rparr>
     else v)"

interpretation view_gpath_reply_c: xdr_codec xdr_view_gpath_reply_t ok_view_gpath_reply wire_view_gpath_reply view_gpath_reply_merge
  by unfold_locales (auto simp: xdr_view_gpath_reply_t_def ok_view_gpath_reply_def wire_view_gpath_reply_def view_gpath_reply_merge_def xdr_at_def
      xdr_rules split: if_splits)

record view_getprop_reply_t =
  ppr_hdr :: view_hdr_reply_t
  ppr_pvalue :: u64

definition xdr_view_getprop_reply_t :: "view_getprop_reply_t xdrproc" where
  "xdr_view_getprop_reply_t = xdr_all
    [xdr_at xdr_view_hdr_reply_t ppr_hdr ppr_hdr_update,
     xdr_at xdr_u_long ppr_pvalue ppr_pvalue_update]"

definition ok_view_getprop_reply :: "view_getprop_reply_t \<Rightarrow> bool" where
  "ok_view_getprop_reply v \<longleftrightarrow>
     ok_view_hdr_reply (ppr_hdr v) \<and> ok_u_long (ppr_pvalue v)"

definition wire_view_getprop_reply :: "view_getprop_reply_t \<Rightarrow> byte list" where
  "wire_view_getprop_reply v =
     wire_view_hdr_reply (ppr_hdr v) @ wire_long (ppr_pvalue v)"

interpretation view_getprop_reply_c: xdr_codec xdr_view_getprop_reply_t ok_view_getprop_reply wire_view_getprop_reply "\<lambda>v v0. v"
  by unfold_locales (simp_all add: xdr_view_getprop_reply_t_def ok_view_getprop_reply_def wire_view_getprop_reply_def xdr_at_def
      xdr_rules)

lemmas [xdr_rules] = view_getprop_reply_c.encode view_getprop_reply_c.decode

section \<open>The attributes reply\<close>

record view_getattr_reply_t =
  gr_hdr :: view_hdr_reply_t
  gr_fhandle :: view_fhandle_t
  gr_vstat :: view_vstat_t
  gr_name_state :: u64
  gr_bh_invariant :: u32
  gr_lvut :: timeval

definition xdr_view_getattr_reply_t :: "view_getattr_reply_t xdrproc" where
  "xdr_view_getattr_reply_t x obj =
    xdr_bind (xdr_at xdr_view_hdr_reply_t gr_hdr gr_hdr_update x obj) (\<lambda>obj x.
     if sint (hr_status (gr_hdr obj)) = TBS_ST_OK then
       xdr_all [xdr_at xdr_view_vstat_t gr_vstat gr_vstat_update,
         xdr_at xdr_view_name_state_t gr_name_state gr_name_state_update,
         xdr_at xdr_view_fhandle_t gr_fhandle gr_fhandle_update,
         xdr_at xdr_timeval gr_lvut gr_lvut_update,
         xdr_at xdr_bool gr_bh_invariant gr_bh_invariant_update] x obj
     else if sint (hr_status (gr_hdr obj)) = TBS_ST_EACCES then
       xdr_at xdr_view_name_state_t gr_name_state gr_name_state_update x obj
     else XTrue obj x)"

definition ok_view_getattr_reply :: "view_getattr_reply_t \<Rightarrow> bool" where
  "ok_view_getattr_reply v \<longleftrightarrow> ok_view_hdr_reply (gr_hdr v) \<and>
     (sint (hr_status (gr_hdr v)) = TBS_ST_OK \<longrightarrow> ok_view_vstat (gr_vstat v) \<and>
        ok_u_long (gr_name_state v) \<and> ok_view_fhandle (gr_fhandle v) \<and> ok_timeval (gr_lvut v)) \<and>
     (sint (hr_status (gr_hdr v)) = TBS_ST_EACCES \<longrightarrow> ok_u_long (gr_name_state v))"

definition wire_view_getattr_reply :: "view_getattr_reply_t \<Rightarrow> byte list" where
  "wire_view_getattr_reply v = wire_view_hdr_reply (gr_hdr v) @
     (if sint (hr_status (gr_hdr v)) = TBS_ST_OK then
        wire_view_vstat (gr_vstat v) @ wire_long (gr_name_state v) @
        wire_view_fhandle (gr_fhandle v) @ wire_timeval (gr_lvut v) @ be32 (gr_bh_invariant v)
      else if sint (hr_status (gr_hdr v)) = TBS_ST_EACCES then wire_long (gr_name_state v)
      else [])"

definition view_getattr_reply_merge ::
  "view_getattr_reply_t \<Rightarrow> view_getattr_reply_t \<Rightarrow> view_getattr_reply_t" where
  "view_getattr_reply_merge v v0 =
     (if sint (hr_status (gr_hdr v)) = TBS_ST_OK then v\<lparr>gr_vstat := view_vstat_canon (gr_vstat v)\<rparr>
      else if sint (hr_status (gr_hdr v)) = TBS_ST_EACCES
      then v0\<lparr>gr_hdr := gr_hdr v, gr_name_state := gr_name_state v\<rparr>
      else v0\<lparr>gr_hdr := gr_hdr v\<rparr>)"

interpretation view_getattr_reply_c: xdr_codec xdr_view_getattr_reply_t ok_view_getattr_reply
  wire_view_getattr_reply view_getattr_reply_merge
  by unfold_locales (auto simp: xdr_view_getattr_reply_t_def ok_view_getattr_reply_def
      wire_view_getattr_reply_def view_getattr_reply_merge_def xdr_at_def xdr_rules
      split: if_splits)

section \<open>Replies of version 8 servers\<close>

text \<open>Servers of the previous protocol version do not know rolemaps: the current form of their
  answer has the null rolemap.\<close>
definition VIEW_VSTAT_V8_TO_VIEW_VSTAT :: "view_vstat_v8_t \<Rightarrow> view_vstat_t" where
  "VIEW_VSTAT_V8_TO_VIEW_VSTAT vs8 =
     \<lparr>vs_fstat = v8_fstat vs8, vs_mtype = v8_mtype vs8, vs_elem_oid = v8_elem_oid vs8,
      vs_obj_oid = v8_obj_oid vs8, vs_event_time = v8_event_time vs8,
      vs_rolemap_oid = TBS_UUID_NULL, vs_eacl_mtime = \<lparr>tv_sec = 0, tv_usec = 0\<rparr>\<rparr>"

definition VIEW_LOOKUP_V8_TO_VIEW_LOOKUP :: "view_lookup_v8_reply_t \<Rightarrow> view_lookup_reply_t" where
  "VIEW_LOOKUP_V8_TO_VIEW_LOOKUP vl8 =
     \<lparr>lr_hdr = lr8_hdr vl8, lr_name_state = lr8_name_state vl8, lr_fhandle = lr8_fhandle vl8,
      lr_vstat = VIEW_VSTAT_V8_TO_VIEW_VSTAT (lr8_vstat vl8),
      lr_residual_resolved = lr8_residual_resolved vl8, lr_bh_invariant = lr8_bh_invariant vl8,
      lr_lvut = lr8_lvut vl8\<rparr>"

definition VIEW_GETATTR_V8_TO_VIEW_GETATTR :: "view_getattr_v8_reply_t \<Rightarrow> view_getattr_reply_t" where
  "VIEW_GETATTR_V8_TO_VIEW_GETATTR vgr8 =
     \<lparr>gr_hdr = gr8_hdr vgr8, gr_fhandle = gr8_fhandle vgr8,
      gr_vstat = VIEW_VSTAT_V8_TO_VIEW_VSTAT (gr8_vstat vgr8), gr_name_state = 0,
      gr_bh_invariant = gr8_bh_invariant vgr8, gr_lvut = gr8_lvut vgr8\<rparr>"

lemma v8_vstat_ok: "ok_view_vstat_v8 v \<Longrightarrow> ok_view_vstat (VIEW_VSTAT_V8_TO_VIEW_VSTAT v)"
  by (simp add: ok_view_vstat_v8_def ok_view_vstat_def VIEW_VSTAT_V8_TO_VIEW_VSTAT_def
      wf_uuid_def TBS_UUID_NULL_def ok_timeval_def ok_long_def)

end
