(* ===== verification/Mvfs_Names.thy ===== *)
theory Mvfs_Names
  imports Mvfs_Dlist Xdr_View
begin

text \<open>The utilities of mvfs\_utils.c: string buffers of the user interface, the case-insensitive
  compare that knows about two byte characters, history mode names (\<open>foo@@\<close>), generated names, the
  conversion between file attributes and the structures of the view protocol, and the time
  arithmetic of the statistics; with them \<open>mfs_getleaf_ansi\<close> of mvfs\_clearops.c.  A C string
  is the list of its bytes in front of the NUL; reading one byte further gives the NUL.\<close>

section \<open>String buffers of the user interface\<close>

record mfs_strbuf =
  sb_s :: addr
  sb_l :: nat
  sb_m :: nat

text \<open>User memory, and the kernel's \<open>copy_from_user\<close> and \<open>copy_to_user\<close>, which are not part of the
  module: both return the number of bytes that could not be copied.\<close>
type_synonym umem = "addr \<Rightarrow> byte option"
type_synonym copy_from = "umem \<Rightarrow> addr \<Rightarrow> nat \<Rightarrow> nat \<times> byte list"
type_synonym copy_to = "umem \<Rightarrow> addr \<Rightarrow> byte list \<Rightarrow> nat \<times> umem"

definition mapped :: "umem \<Rightarrow> addr \<Rightarrow> nat \<Rightarrow> bool" where
  "mapped m a n \<longleftrightarrow> (\<forall>i<n. m (a + i) \<noteq> None)"

definition uread :: "umem \<Rightarrow> addr \<Rightarrow> nat \<Rightarrow> byte list" where
  "uread m a n = map (\<lambda>i. the (m (a + i))) [0..<n]"

definition uwrite :: "umem \<Rightarrow> addr \<Rightarrow> byte list \<Rightarrow> umem" where
  "uwrite m a bs = (\<lambda>x. if a \<le> x \<and> x < a + length bs then Some (bs ! (x - a)) else m x)"

text \<open>What the kernel documents of the two.\<close>
definition copy_from_ok :: "copy_from \<Rightarrow> bool" where
  "copy_from_ok cfu \<longleftrightarrow> (\<forall>m a n. fst (cfu m a n) \<le> n \<and> (fst (cfu m a n) = 0 \<longleftrightarrow> mapped m a n) \<and>
     (mapped m a n \<longrightarrow> snd (cfu m a n) = uread m a n))"

definition copy_to_ok :: "copy_to \<Rightarrow> bool" where
  "copy_to_ok ctu \<longleftrightarrow> (\<forall>m a bs. (if mapped m a (length bs) then ctu m a bs = (0, uwrite m a bs)
     else 0 < fst (ctu m a bs) \<and> fst (ctu m a bs) \<le> length bs))"

definition MAXPATHLEN :: nat where "MAXPATHLEN = 4096"

text \<open>\<open>l\<close> is unsigned, so it is never below 0.  \<open>strp\<close> is what the caller's pointer held before: when
  the allocation fails, this routine leaves it alone, and the next one clears it.\<close>
definition mfs_copyin_strbuf :: "copy_from \<Rightarrow> umem \<Rightarrow> bool \<Rightarrow> mfs_strbuf \<Rightarrow> byte list option
    \<Rightarrow> int \<times> byte list option" where
  "mfs_copyin_strbuf cfu um alloc strbuf strp =
    (if sb_l strbuf > MAXPATHLEN then (EINVAL, None)
     else if sb_s strbuf = NULL \<or> sb_l strbuf = 0 then (EINVAL, None)
     else if \<not> alloc then (ENOMEM, strp)
     else case cfu um (sb_s strbuf) (sb_l strbuf) of (error, str) \<Rightarrow>
       if error \<noteq> 0 then (int error, None) else (0, Some (str @ [0])))"

definition mfs_copyin_strbufpn :: "copy_from \<Rightarrow> umem \<Rightarrow> bool \<Rightarrow> mfs_strbuf \<Rightarrow> byte list option
    \<Rightarrow> int \<times> byte list option" where
  "mfs_copyin_strbufpn cfu um alloc strbufpn strp =
    (if sb_l strbufpn > MAXPATHLEN then (EINVAL, None)
     else if sb_s strbufpn = NULL \<or> sb_l strbufpn = 0 then (EINVAL, None)
     else if \<not> alloc then (ENOMEM, None)
     else case cfu um (sb_s strbufpn) (sb_l strbufpn) of (error, str) \<Rightarrow>
       if error \<noteq> 0 then (int error, None) else (0, Some (str @ [0])))"

text \<open>The structure is passed by value: the length the routines store in it is lost.\<close>
definition mfs_copyout_strbuf :: "copy_to \<Rightarrow> mfs_strbuf \<Rightarrow> cstr option \<Rightarrow> umem \<Rightarrow> int \<times> umem" where
  "mfs_copyout_strbuf ctu strbuf s um =
    (if sb_s strbuf = NULL \<or> sb_m strbuf = 0 then (0, um)
     else case s of
       Some s \<Rightarrow> if length s + 1 > sb_m strbuf then (EINVAL, um)
         else (case ctu um (sb_s strbuf) (s @ [0]) of (error, um) \<Rightarrow> (int error, um))
     | None \<Rightarrow> (case ctu um (sb_s strbuf) [0] of (error, um) \<Rightarrow> (int error, um)))"

definition mfs_copyout_strbufpn :: "copy_to \<Rightarrow> mfs_strbuf \<Rightarrow> cstr option \<Rightarrow> umem \<Rightarrow> int \<times> umem" where
  "mfs_copyout_strbufpn ctu strbufpn s um =
    (if sb_s strbufpn = NULL \<or> sb_m strbufpn = 0 then (0, um)
     else case s of
       Some s \<Rightarrow> if length s + 1 > sb_m strbufpn then (EINVAL, um)
         else (case ctu um (sb_s strbufpn) (s @ [0]) of (error, um) \<Rightarrow>
           if error \<noteq> 0 then (int error, um) else (0, um))
     | None \<Rightarrow> (case ctu um (sb_s strbufpn) [0] of (error, um) \<Rightarrow>
           if error \<noteq> 0 then (int error, um) else (0, um)))"

lemma uread_uwrite [simp]: "uread (uwrite m a bs) a (length bs) = bs"
  by (auto simp: uread_def uwrite_def intro: nth_equalityI)

lemma uread_prefix: "n \<le> k \<Longrightarrow> uread m a n = take n (uread m a k)"
  by (simp add: uread_def take_map)

lemma mapped_uwrite [simp]: "mapped m a n \<Longrightarrow> mapped (uwrite m a bs) a n"
  by (simp add: mapped_def uwrite_def)

lemma mapped_mono: "mapped m a n \<Longrightarrow> k \<le> n \<Longrightarrow> mapped m a k"
  by (simp add: mapped_def)

lemma copyin_after_copyout:
  assumes "copy_from_ok cfu" and "copy_to_ok ctu"
    and "sb_s sb \<noteq> NULL" and "mapped um (sb_s sb) (length s + 1)"
    and "length s + 1 \<le> sb_m sb" and "s \<noteq> []" and "length s \<le> MAXPATHLEN"
  shows "\<exists>um'. mfs_copyout_strbuf ctu sb (Some s) um = (0, um') \<and>
    mfs_copyin_strbuf cfu um' True (sb\<lparr>sb_l := length s\<rparr>) strp = (0, Some (s @ [0]))"
proof -
  let ?um = "uwrite um (sb_s sb) (s @ [0])"
  have m: "mapped ?um (sb_s sb) (length s)" by (intro mapped_uwrite mapped_mono [OF assms(4)]) simp
  have "uread ?um (sb_s sb) (length s) = take (length s) (uread ?um (sb_s sb) (length (s @ [0])))"
    by (rule uread_prefix) simp
  then have "uread ?um (sb_s sb) (length s) = s" by (simp only: uread_uwrite) simp
  moreover have "fst (cfu ?um (sb_s sb) (length s)) = 0"
    "snd (cfu ?um (sb_s sb) (length s)) = uread ?um (sb_s sb) (length s)"
    using m assms(1) by (simp_all add: copy_from_ok_def)
  ultimately have c: "cfu ?um (sb_s sb) (length s) = (0, s)" by (simp add: prod_eq_iff)
  have "ctu um (sb_s sb) (s @ [0]) = (0, ?um)" using assms(2,4) by (simp add: copy_to_ok_def)
  then have "mfs_copyout_strbuf ctu sb (Some s) um = (0, ?um)"
    using assms(3,5) by (auto simp: mfs_copyout_strbuf_def)
  moreover have "mfs_copyin_strbuf cfu ?um True (sb\<lparr>sb_l := length s\<rparr>) strp = (0, Some (s @ [0]))"
    using c assms(3,6,7) by (simp add: mfs_copyin_strbuf_def)
  ultimately show ?thesis by blast
qed

lemma copyin_fails:
  assumes "copy_from_ok cfu" and "sb_s sb \<noteq> NULL" and "s \<noteq> []" and "length s \<le> MAXPATHLEN"
    and "\<not> mapped um (sb_s sb) (length s)"
  shows "\<exists>n. 0 < n \<and> n \<le> length s \<and> fst (cfu um (sb_s sb) (length s)) = n \<and>
    mfs_copyin_strbuf cfu um True (sb\<lparr>sb_l := length s\<rparr>) strp = (int n, None)"
proof -
  have "0 < fst (cfu um (sb_s sb) (length s))" "fst (cfu um (sb_s sb) (length s)) \<le> length s"
    using assms(1,5) unfolding copy_from_ok_def by blast+
  moreover from this have "mfs_copyin_strbuf cfu um True (sb\<lparr>sb_l := length s\<rparr>) strp = (int (fst (cfu um (sb_s sb) (length s))), None)"
    using assms(2-4) by (cases "cfu um (sb_s sb) (length s)") (simp add: mfs_copyin_strbuf_def)
  ultimately show ?thesis by blast
qed

lemma copyout_fails:
  assumes "copy_to_ok ctu" and "sb_s sb \<noteq> NULL" and "length s + 1 \<le> sb_m sb" and "\<not> mapped um (sb_s sb) (length s + 1)"
  shows "\<exists>n um'. 0 < n \<and> n \<le> length s + 1 \<and> ctu um (sb_s sb) (s @ [0]) = (n, um') \<and>
    mfs_copyout_strbuf ctu sb (Some s) um = (int n, um')"
proof -
  obtain n um' where c: "ctu um (sb_s sb) (s @ [0]) = (n, um')" by force
  have "\<not> mapped um (sb_s sb) (length (s @ [0]))" using assms(4) by simp
  then have "0 < fst (ctu um (sb_s sb) (s @ [0])) \<and> fst (ctu um (sb_s sb) (s @ [0])) \<le> length (s @ [0])"
    using assms(1) unfolding copy_to_ok_def by meson
  then have "0 < n \<and> n \<le> length s + 1" using c by simp
  moreover have "mfs_copyout_strbuf ctu sb (Some s) um = (int n, um')"
    using assms(2,3) c by (simp add: mfs_copyout_strbuf_def)
  ultimately show ?thesis using c by blast
qed

text \<open>C36: a string handed to the user is read back unchanged, NUL included.  When part of the user's buffer
  is not accessible, both directions fail, but what they return as the error is the number of bytes
  that were left over, between one and the length asked for: \<open>COPYIN\<close> and \<open>COPYOUT\<close> hand through the
  count of the kernel's copy routines, and their callers take it for an errno.\<close>
theorem strbuf_copy:
  assumes "copy_from_ok cfu" and "copy_to_ok ctu"
    and "sb_s sb \<noteq> NULL" and "length s + 1 \<le> sb_m sb" and "s \<noteq> []" and "length s \<le> MAXPATHLEN"
  shows "(mapped um (sb_s sb) (length s + 1) \<longrightarrow>
      (\<exists>um'. mfs_copyout_strbuf ctu sb (Some s) um = (0, um') \<and>
        mfs_copyin_strbuf cfu um' True (sb\<lparr>sb_l := length s\<rparr>) strp = (0, Some (s @ [0]))))
    \<and> (\<not> mapped um (sb_s sb) (length s) \<longrightarrow>
      (\<exists>n. 0 < n \<and> n \<le> length s \<and> fst (cfu um (sb_s sb) (length s)) = n \<and>
        mfs_copyin_strbuf cfu um True (sb\<lparr>sb_l := length s\<rparr>) strp = (int n, None)))
    \<and> (\<not> mapped um (sb_s sb) (length s + 1) \<longrightarrow>
      (\<exists>n um'. 0 < n \<and> n \<le> length s + 1 \<and> ctu um (sb_s sb) (s @ [0]) = (n, um') \<and>
        mfs_copyout_strbuf ctu sb (Some s) um = (int n, um')))"
  using copyin_after_copyout [OF assms(1-3) _ assms(4-6)] copyin_fails [OF assms(1,3,5,6)] copyout_fails [OF assms(2-4)]
  by blast

text \<open>User memory with the bytes 10 to 12 accessible, and copy routines that stop at the first byte
  that is not.\<close>
definition umem_example :: umem where
  "umem_example = (\<lambda>a. if 10 \<le> a \<and> a < 13 then Some 120 else None)"

fun copy_from_example :: copy_from where
  "copy_from_example m a 0 = (0, [])"
| "copy_from_example m a (Suc n) = (case m a of None \<Rightarrow> (Suc n, [])
     | Some b \<Rightarrow> (case copy_from_example m (Suc a) n of (k, bs) \<Rightarrow> (k, b # bs)))"

definition copy_to_example :: copy_to where
  "copy_to_example m a bs = (if list_all (\<lambda>i. m (a + i) \<noteq> None) [0..<length bs] then (0, uwrite m a bs)
     else (length bs, m))"

lemma copy_from_example_ok: "copy_from_ok copy_from_example"
proof -
  have "fst (copy_from_example m a n) \<le> n \<and> (fst (copy_from_example m a n) = 0 \<longleftrightarrow> mapped m a n) \<and>
      (mapped m a n \<longrightarrow> snd (copy_from_example m a n) = uread m a n)" for m a n
  proof (induction m a n rule: copy_from_example.induct)
    case (2 m a n)
    have "mapped m a (Suc n) \<longleftrightarrow> m a \<noteq> None \<and> mapped m (Suc a) n"
      unfolding mapped_def All_less_Suc2 by simp
    moreover have "uread m a (Suc n) = the (m a) # uread m (Suc a) n"
      unfolding uread_def upt_conv_Cons [OF zero_less_Suc] by (simp add: map_Suc_upt [symmetric] del: upt_Suc)
    ultimately show ?case using 2 by (auto split: option.splits prod.splits)
  qed (simp add: mapped_def uread_def)
  then show ?thesis by (simp add: copy_from_ok_def)
qed

lemma copy_to_example_ok: "copy_to_ok copy_to_example"
proof -
  have "list_all (\<lambda>i. m (a + i) \<noteq> None) [0..<n] \<longleftrightarrow> mapped m a n" for m a n
    by (auto simp: mapped_def list_all_iff)
  moreover have "\<not> mapped m a (length bs) \<Longrightarrow> 0 < length bs" for m a and bs :: "byte list" by (cases bs) (simp_all add: mapped_def)
  ultimately show ?thesis by (simp add: copy_to_ok_def copy_to_example_def)
qed

text \<open>Of five bytes the first three are accessible: the copy in reports the two left over, which reads as
  ENOENT; the copy out of five characters and the NUL reports all six, since this routine does not start.\<close>
theorem strbuf_copy_witness:
  "mfs_copyin_strbuf copy_from_example umem_example True \<lparr>sb_s = 10, sb_l = 5, sb_m = 6\<rparr> None = (2, None) \<and>
   mfs_copyout_strbuf copy_to_example \<lparr>sb_s = 10, sb_l = 0, sb_m = 6\<rparr> (Some (replicate 5 1)) umem_example = (6, umem_example)"
proof -
  have "\<not> mapped umem_example 10 5" "\<not> mapped umem_example 10 6" by (auto simp: mapped_def umem_example_def)
  then have "mfs_copyin_strbuf copy_from_example umem_example True
        (\<lparr>sb_s = 10, sb_l = 0, sb_m = 6\<rparr>\<lparr>sb_l := 5\<rparr>) None = (int (fst (copy_from_example umem_example 10 5)), None)"
    and "\<exists>n um'. copy_to_example umem_example 10 (replicate 5 1 @ [0]) = (n, um') \<and>
        mfs_copyout_strbuf copy_to_example \<lparr>sb_s = 10, sb_l = 0, sb_m = 6\<rparr> (Some (replicate 5 1)) umem_example = (int n, um')"
    using strbuf_copy [of copy_from_example copy_to_example "\<lparr>sb_s = 10, sb_l = 0, sb_m = 6\<rparr>" "replicate 5 1"
      umem_example None, OF copy_from_example_ok copy_to_example_ok] by (auto simp add: MAXPATHLEN_def NULL_def)
  moreover have "fst (copy_from_example umem_example 10 5) = 2" by code_simp
  moreover have "copy_to_example umem_example 10 (replicate 5 1 @ [0]) = (6, umem_example)"
    by (simp add: copy_to_example_def umem_example_def upt_rec numeral_nat)
  ultimately show ?thesis by auto
qed

section \<open>Comparing without regard to case\<close>

text \<open>\<open>*s++\<close> into an int: the character sign-extended, the NUL behind the last one.\<close>
definition getc :: "cstr \<Rightarrow> int" where
  "getc s = (case s of [] \<Rightarrow> 0 | c # _ \<Rightarrow> sint c)"

definition downcase :: "bool \<Rightarrow> int \<Rightarrow> int" where
  "downcase mb_char c = (if 65 \<le> c \<and> c \<le> 90 \<and> \<not> mb_char then c + 32 else c)"

function strcasecmp_loop :: "bool \<Rightarrow> cstr \<Rightarrow> cstr \<Rightarrow> int" where
  "strcasecmp_loop mb_char s1 s2 =
    (let c1 = downcase mb_char (getc s1); c2 = downcase mb_char (getc s2) in
     if c1 \<noteq> 0 \<and> c1 = c2 then strcasecmp_loop (c1 AND 0x80 \<noteq> 0) (tl s1) (tl s2) else c1 - c2)"
  by pat_completeness auto
termination
  by (relation "measure (\<lambda>(_, s1, _). length s1)")
    (auto simp: getc_def downcase_def split: list.splits if_splits)

declare strcasecmp_loop.simps [simp del]

definition mvfs_ansi_strcasecmp :: "cstr \<Rightarrow> cstr \<Rightarrow> int" where
  "mvfs_ansi_strcasecmp s1 s2 = strcasecmp_loop False s1 s2"

text \<open>\<open>n\<close> counts down to 0; the caller of the loop has excluded 0.\<close>
fun strncasecmp_loop :: "bool \<Rightarrow> cstr \<Rightarrow> cstr \<Rightarrow> nat \<Rightarrow> int" where
  "strncasecmp_loop mb_char s1 s2 0 = 0"
| "strncasecmp_loop mb_char s1 s2 (Suc n) =
    (let c1 = downcase mb_char (getc s1); c2 = downcase mb_char (getc s2) in
     if c1 \<noteq> c2 then c1 - c2
     else if c1 = 0 then 0
     else strncasecmp_loop (c1 AND 0x80 \<noteq> 0) (tl s1) (tl s2) n)"

definition mvfs_ansi_strncasecmp :: "cstr \<Rightarrow> cstr \<Rightarrow> nat \<Rightarrow> int" where
  "mvfs_ansi_strncasecmp s1 s2 n = (if n \<noteq> 0 then strncasecmp_loop False s1 s2 n else 0)"

text \<open>\<open>None\<close>: the scan has stepped over the NUL at the end of the string and reads on behind it.\<close>
fun mvfs_ansi_str_islower :: "cstr \<Rightarrow> bool option" where
  "mvfs_ansi_str_islower [] = Some True"
| "mvfs_ansi_str_islower [c] =
    (if sint c AND 0x80 \<noteq> 0 then None
     else if 65 \<le> sint c \<and> sint c \<le> 90 then Some False else Some True)"
| "mvfs_ansi_str_islower (c # d # s) =
    (if sint c AND 0x80 \<noteq> 0 then mvfs_ansi_str_islower s
     else if 65 \<le> sint c \<and> sint c \<le> 90 then Some False else mvfs_ansi_str_islower (d # s))"

text \<open>The normal form the compare decides by: letters are lowered unless they follow a byte with the
  top bit, which may be the first half of a two byte character.\<close>
fun casefold :: "bool \<Rightarrow> cstr \<Rightarrow> int list" where
  "casefold mb [] = []"
| "casefold mb (c # s) = downcase mb (sint c) # casefold (sint c AND 0x80 \<noteq> 0) s"

text \<open>A string as C has it: no NUL in front of its end.\<close>
definition nulfree :: "cstr \<Rightarrow> bool" where "nulfree s \<longleftrightarrow> 0 \<notin> set s"

lemma nulfree_simps [simp]: "nulfree []" "nulfree (c # s) \<longleftrightarrow> c \<noteq> 0 \<and> nulfree s"
  by (auto simp: nulfree_def)

lemma getc_simps [simp]: "getc [] = 0" "getc (c # s) = sint c"
  by (simp_all add: getc_def)

lemma top_bit_iff: "sint (c :: byte) AND 0x80 \<noteq> 0 \<longleftrightarrow> sint c < 0"
proof -
  have "sint c AND 0x80 = 0 \<longleftrightarrow> \<not> bit (sint c) 7"
    using and_exp_eq_0_iff_not_bit [of "sint c" 7] by simp
  moreover have "bit (sint c) 7 \<longleftrightarrow> sint c < 0"
    by (simp add: sint_uint bit_signed_take_bit_iff)
  ultimately show ?thesis by simp
qed

lemma downcase_top_bit [simp]: "downcase mb (sint (c :: byte)) AND 0x80 \<noteq> 0 \<longleftrightarrow> sint c AND 0x80 \<noteq> 0"
proof (cases "65 \<le> sint c \<and> sint c \<le> 90 \<and> \<not> mb")
  case True
  then have "sint c \<in> {65..90}" by simp
  then have "sint c + 32 \<in> {97..122}" by simp
  have "\<forall>k\<in>{97..122::int}. k AND 0x80 = 0" by code_simp
  then have "(sint c + 32) AND 0x80 = 0" using \<open>sint c + 32 \<in> _\<close> by blast
  then show ?thesis using True top_bit_iff [of c] by (simp add: downcase_def)
qed (auto simp: downcase_def)

lemma downcase_0 [simp]: "downcase mb 0 = 0"
  by (simp add: downcase_def)

lemma downcase_0_iff: "downcase mb (sint (c :: byte)) = 0 \<longleftrightarrow> c = 0"
  using signed_eq_0_iff [of c, where 'a = int] by (auto simp: downcase_def simp del: signed_eq_0_iff)

lemma downcase_eq_top_bit:
  "downcase mb (sint (c :: byte)) = downcase mb (sint (a :: byte)) \<Longrightarrow>
    (sint c AND 0x80 = 0) = (sint a AND 0x80 = 0)"
  using downcase_top_bit [of mb c] downcase_top_bit [of mb a] by simp

lemma strcasecmp_loop_0_iff:
  "nulfree s1 \<Longrightarrow> nulfree s2 \<Longrightarrow> strcasecmp_loop mb s1 s2 = 0 \<longleftrightarrow> casefold mb s1 = casefold mb s2"
proof (induction s1 arbitrary: mb s2)
  case Nil
  then show ?case
    by (cases s2) (simp_all add: strcasecmp_loop.simps [of _ "[]"] downcase_0_iff)
next
  case (Cons c s1)
  then show ?case
    by (cases s2) (auto simp: strcasecmp_loop.simps [of mb "c # s1"] Let_def downcase_0_iff
        dest: downcase_eq_top_bit)
qed

lemma strcasecmp_loop_antisym:
  "nulfree s1 \<Longrightarrow> nulfree s2 \<Longrightarrow> strcasecmp_loop mb s2 s1 = - strcasecmp_loop mb s1 s2"
proof (induction s1 arbitrary: mb s2)
  case Nil
  then show ?case
    by (cases s2) (simp_all add: strcasecmp_loop.simps [of mb] Let_def downcase_def)
next
  case (Cons c s1)
  then show ?case
    by (cases s2) (auto simp: strcasecmp_loop.simps [of mb] Let_def downcase_0_iff)
qed

lemma strncasecmp_loop_0_iff:
  "nulfree s1 \<Longrightarrow> nulfree s2 \<Longrightarrow>
    strncasecmp_loop mb s1 s2 n = 0 \<longleftrightarrow> take n (casefold mb s1) = take n (casefold mb s2)"
proof (induction n arbitrary: mb s1 s2)
  case (Suc n)
  then show ?case
    by (cases s1; cases s2) (auto simp: Let_def downcase_0_iff dest: downcase_eq_top_bit)
qed simp

lemma casefold_fixed: "casefold False s = map sint s \<Longrightarrow> casefold b s = map sint s"
  by (cases b; cases s) (auto simp: downcase_def)

lemma islower_casefold:
  "mvfs_ansi_str_islower s = Some True \<Longrightarrow> casefold False s = map sint s"
proof (induction s rule: mvfs_ansi_str_islower.induct)
  case (3 c d s)
  show ?case
  proof (cases "sint c AND 0x80 = 0")
    case True
    then show ?thesis using 3 by (auto simp: downcase_def split: if_splits)
  next
    case False
    then have "\<not> 65 \<le> sint c" using top_bit_iff [of c] by simp
    then show ?thesis using 3 False casefold_fixed [of s] by (auto simp: downcase_def)
  qed
qed (auto simp: downcase_def split: if_splits)



section \<open>Path names and generated names\<close>

definition PN_IS_SEPCHAR :: "byte \<Rightarrow> bool" where "PN_IS_SEPCHAR c \<longleftrightarrow> c = 47"

text \<open>The loop walks back from the last of the \<open>pn_len\<close> characters.\<close>
fun trailing_seps_loop :: "cstr \<Rightarrow> nat \<Rightarrow> nat" where
  "trailing_seps_loop pn 0 = 0"
| "trailing_seps_loop pn (Suc pn_len) =
    (if PN_IS_SEPCHAR (pn ! pn_len) then Suc (trailing_seps_loop pn pn_len) else 0)"

definition mvfs_ansi_trailing_seps :: "cstr \<Rightarrow> nat \<Rightarrow> nat" where
  "mvfs_ansi_trailing_seps pn pn_len = trailing_seps_loop pn pn_len"

lemma trailing_seps_takeWhile:
  "n \<le> length pn \<Longrightarrow> mvfs_ansi_trailing_seps pn n = length (takeWhile PN_IS_SEPCHAR (rev (take n pn)))"
  unfolding mvfs_ansi_trailing_seps_def
  by (induction n) (auto simp: take_Suc_conv_app_nth)

text \<open>The loop over the path: \<open>i\<close> is the offset of \<open>s\<close>, the result the offset of the leaf.  A separator
  in front of a name moves the leaf and skips the first character of the name.\<close>
fun getleaf_loop :: "cstr \<Rightarrow> nat \<Rightarrow> nat \<Rightarrow> nat" where
  "getleaf_loop [] i leafp = leafp"
| "getleaf_loop [c] i leafp = leafp"
| "getleaf_loop (c # d # s) i leafp =
    (if PN_IS_SEPCHAR c \<and> \<not> PN_IS_SEPCHAR d then getleaf_loop s (i + 2) (i + 1)
     else getleaf_loop (d # s) (i + 1) leafp)"

definition mfs_getleaf_ansi :: "cstr \<Rightarrow> cstr" where
  "mfs_getleaf_ansi pname = drop (getleaf_loop pname 0 0) pname"

text \<open>\<open>mfs_uniq_name\<close> works on the global counter \<open>mfs_uid\<close>: the clock gives its first value, each call
  after that the next one.  The name is the prefix and the low 32 bits of the counter in
  hexadecimal.\<close>
definition mfs_tohex :: "byte list" where
  "mfs_tohex = [48, 49, 50, 51, 52, 53, 54, 55, 56, 57, 97, 98, 99, 100, 101, 102]"

fun uniq_digits :: "nat \<Rightarrow> u64 \<Rightarrow> byte list" where
  "uniq_digits 0 uid = []"
| "uniq_digits (Suc n) uid =
    mfs_tohex ! unat (drop_bit 28 uid AND 0xf) # uniq_digits n (push_bit 4 uid)"

definition mfs_uniq_name :: "bool \<Rightarrow> u64 \<Rightarrow> u64 \<Rightarrow> cstr option \<times> u64" where
  "mfs_uniq_name alloc ctime mfs_uid =
    (if \<not> alloc then (None, mfs_uid)
     else
       let mfs_uid = (if mfs_uid = 0 then ctime else mfs_uid + 1) in
       (Some ([46, 109, 118, 102, 115, 95] @ uniq_digits 8 mfs_uid), mfs_uid))"

lemma length_uniq_digits [simp]: "length (uniq_digits n uid) = n"
  by (induction n arbitrary: uid) simp_all

lemma tohex_inj: "i < 16 \<Longrightarrow> j < 16 \<Longrightarrow> mfs_tohex ! i = mfs_tohex ! j \<Longrightarrow> i = j"
proof -
  have d: "distinct mfs_tohex" and l: "length mfs_tohex = 16" by code_simp+
  assume "i < 16" "j < 16" "mfs_tohex ! i = mfs_tohex ! j"
  then show ?thesis using nth_eq_iff_index_eq [OF d] l by simp
qed

lemma nibble_less: "unat (w AND 0xf :: u64) < 16"
proof -
  have "w AND 0xf = take_bit 4 w" by (simp add: take_bit_eq_mask mask_eq_exp_minus_1)
  then show ?thesis using take_bit_nat_less_exp [of 4 "unat w"] by (simp add: unsigned_take_bit_eq)
qed

lemma uniq_digits_bits:
  "uniq_digits n u = uniq_digits n v \<Longrightarrow> k < 4 * n \<Longrightarrow> k < 32 \<Longrightarrow> bit u (31 - k) = bit v (31 - k)"
proof (induction n arbitrary: u v k)
  case (Suc n)
  have m: "(0xf :: u64) = mask 4" by (simp add: mask_eq_exp_minus_1)
  show ?case
  proof (cases "k < 4")
    case True
    have "drop_bit 28 u AND 0xf = drop_bit 28 v AND 0xf"
      using Suc.prems(1) tohex_inj [OF nibble_less nibble_less] by (auto simp: word_unat_eq_iff)
    then have "bit (drop_bit 28 u AND 0xf) (3 - k) = bit (drop_bit 28 v AND 0xf) (3 - k)" by simp
    moreover have "3 - k < 4" "3 - k < 64" by arith+
    ultimately show ?thesis using True unfolding m by (simp add: bit_simps)
  next
    case False
    have "bit (push_bit 4 u) (31 - (k - 4)) = bit (push_bit 4 v) (31 - (k - 4))"
      using Suc.prems False by (intro Suc.IH) simp_all
    moreover have "4 \<le> 35 - k" "35 - k < 64" using False Suc.prems by arith+
    ultimately show ?thesis using False Suc.prems by (simp add: bit_simps)
  qed
qed simp

lemma uniq_digits_inj: "uniq_digits 8 u = uniq_digits 8 v \<Longrightarrow> (ucast u :: u32) = ucast v"
proof (rule bit_word_eqI)
  fix n assume d: "uniq_digits 8 u = uniq_digits 8 v" and n: "n < LENGTH(32)"
  show "bit (ucast u :: u32) n = bit (ucast v :: u32) n"
    using uniq_digits_bits [OF d, of "31 - n"] n by (simp add: bit_simps)
qed

section \<open>History mode names\<close>

text \<open>The part of the view root's mount information the routines read; \<open>None\<close> when no view root is
  mounted.\<close>
record mfs_mntinfo =
  mmi_hmsuffix :: "cstr option"
  mmi_hmsuffixlen :: nat
  mmi_hmvers_nm :: "cstr option"

definition mfs_hmsuffix_len :: "mfs_mntinfo option \<Rightarrow> nat" where
  "mfs_hmsuffix_len vr = (case vr of None \<Rightarrow> 0 | Some mmi \<Rightarrow> mmi_hmsuffixlen mmi)"

text \<open>The answer with the stripped name, for a caller that wants it.\<close>
definition mfs_hmname :: "mfs_mntinfo option \<Rightarrow> cstr \<Rightarrow> bool \<times> cstr option" where
  "mfs_hmname vr nm = (case vr of None \<Rightarrow> (False, None)
   | Some mmi \<Rightarrow> (case mmi_hmsuffix mmi of None \<Rightarrow> (False, None)
     | Some hmsuffix \<Rightarrow>
       if mmi_hmsuffixlen mmi = 0 then (False, None)
       else if length nm < mmi_hmsuffixlen mmi then (False, None)
       else
         let strplen = length nm - mmi_hmsuffixlen mmi in
         if drop strplen nm = hmsuffix then
           (True, Some (if strplen = 0 then [46] else take strplen nm))
         else (False, None)))"

fun hmcmp_loop :: "cstr option \<Rightarrow> cstr \<Rightarrow> cstr \<Rightarrow> int" where
  "hmcmp_loop hmsuffix hmnm [] = (if hmnm = [] then 0 else if hmsuffix = Some hmnm then 0 else -1)"
| "hmcmp_loop hmsuffix [] (c # nm) = -1"
| "hmcmp_loop hmsuffix (d # hmnm) (c # nm) = (if c \<noteq> d then -1 else hmcmp_loop hmsuffix hmnm nm)"

definition mfs_hmcmp :: "mfs_mntinfo option \<Rightarrow> cstr \<Rightarrow> cstr \<Rightarrow> int" where
  "mfs_hmcmp vr hmnm nm =
    (let (hmsuffix, hmvers) = (case vr of None \<Rightarrow> (None, None)
       | Some mmi \<Rightarrow> if mmi_hmsuffixlen mmi \<noteq> 0 then (mmi_hmsuffix mmi, mmi_hmvers_nm mmi) else (None, None)) in
     if nm = [46] \<and> hmsuffix = Some hmnm then 0
     else if nm = [46] \<and> hmvers = Some hmnm then 0
     else hmcmp_loop hmsuffix hmnm nm)"

text \<open>The buffer after the call, and the length added.\<close>
definition mfs_hmstrcat :: "mfs_mntinfo option \<Rightarrow> cstr \<Rightarrow> cstr \<times> nat" where
  "mfs_hmstrcat vr s = (case vr of None \<Rightarrow> (s, 0)
   | Some mmi \<Rightarrow> (case mmi_hmsuffix mmi of None \<Rightarrow> (s, 0)
     | Some hmsuffix \<Rightarrow> if mmi_hmsuffixlen mmi = 0 then (s, 0)
         else (s @ take (mmi_hmsuffixlen mmi) hmsuffix, mmi_hmsuffixlen mmi)))"

definition mfs_strdup :: "bool \<Rightarrow> cstr \<Rightarrow> cstr option" where
  "mfs_strdup alloc str = (if alloc then Some str else None)"

definition mfs_hmappend :: "mfs_mntinfo option \<Rightarrow> bool \<Rightarrow> cstr \<Rightarrow> cstr option" where
  "mfs_hmappend vr alloc nm = (case vr of None \<Rightarrow> mfs_strdup alloc nm
   | Some mmi \<Rightarrow> (case mmi_hmsuffix mmi of None \<Rightarrow> mfs_strdup alloc nm
     | Some hmsuffix \<Rightarrow> if mmi_hmsuffixlen mmi = 0 then mfs_strdup alloc nm
         else if alloc then Some (nm @ take (mmi_hmsuffixlen mmi) hmsuffix) else None))"

text \<open>How the mount fills in the suffix: its length is computed from it (mvfs\_vfsops.c).\<close>
definition hm_ok :: "cstr \<Rightarrow> mfs_mntinfo \<Rightarrow> bool" where
  "hm_ok sfx mmi \<longleftrightarrow> sfx \<noteq> [] \<and> mmi_hmsuffix mmi = Some sfx \<and> mmi_hmsuffixlen mmi = length sfx"

lemma hmcmp_loop_0_iff:
  "hmcmp_loop sfx hmnm nm = 0 \<longleftrightarrow> hmnm = nm \<or> (\<exists>x. sfx = Some x \<and> hmnm = nm @ x)"
  by (induction sfx hmnm nm rule: hmcmp_loop.induct) auto

text \<open>C22: a name with the history mode suffix appended is recognised as one and stripped back to the
  name, and the naked suffix stands for the directory itself; a name is recognised exactly when it
  ends in the suffix; and the compare of a name with a plain one accepts the plain name, its history
  mode form and, for \<open>.\<close>, the naked suffix and the name of the history mode version, nothing else.\<close>
theorem hmname_roundtrip:
  assumes "hm_ok sfx mmi"
  shows "mfs_hmappend (Some mmi) True nm = Some (nm @ sfx)
    \<and> mfs_hmname (Some mmi) (nm @ sfx) = (True, Some (if nm = [] then [46] else nm))
    \<and> (fst (mfs_hmname (Some mmi) hmnm) \<longleftrightarrow> (\<exists>p. hmnm = p @ sfx))
    \<and> (mfs_hmcmp (Some mmi) hmnm nm = 0 \<longleftrightarrow> hmnm = nm \<or> hmnm = nm @ sfx
        \<or> nm = [46] \<and> (hmnm = sfx \<or> mmi_hmvers_nm mmi = Some hmnm))"
proof -
  have "drop (length hmnm - length sfx) hmnm = sfx \<longleftrightarrow> (\<exists>p. hmnm = p @ sfx)"
    if "length sfx \<le> length hmnm"
    by (metis append_take_drop_id append_eq_conv_conj diff_add_inverse2 length_append)
  then show ?thesis
    using assms by (auto simp: hm_ok_def mfs_hmappend_def mfs_hmname_def mfs_hmcmp_def hmcmp_loop_0_iff
        Let_def not_less)
qed

theorem hmname_roundtrip_witness:
  "mfs_hmname (Some \<lparr>mmi_hmsuffix = Some [64, 64], mmi_hmsuffixlen = 2, mmi_hmvers_nm = Some [94, 64, 64]\<rparr>)
     [102, 64, 64] = (True, Some [102])"
  using hmname_roundtrip [of "[64, 64]" "\<lparr>mmi_hmsuffix = Some [64, 64], mmi_hmsuffixlen = 2,
      mmi_hmvers_nm = Some [94, 64, 64]\<rparr>" "[102]"] by (simp add: hm_ok_def)

section \<open>Attributes\<close>

definition TBS_FTYPE_NULL :: u64 where "TBS_FTYPE_NULL = 0"
definition TBS_FTYPE_REG :: u64 where "TBS_FTYPE_REG = 1"
definition TBS_FTYPE_DIR :: u64 where "TBS_FTYPE_DIR = 2"
definition TBS_FTYPE_BLK :: u64 where "TBS_FTYPE_BLK = 3"
definition TBS_FTYPE_CHR :: u64 where "TBS_FTYPE_CHR = 4"
definition TBS_FTYPE_LNK :: u64 where "TBS_FTYPE_LNK = 5"
definition TBS_FTYPE_FIFO :: u64 where "TBS_FTYPE_FIFO = 6"

datatype vtype = VNON | VREG | VDIR | VBLK | VCHR | VLNK | VFIFO | VSOCK | VBAD

lemmas ftype_defs = TBS_FTYPE_NULL_def TBS_FTYPE_REG_def TBS_FTYPE_DIR_def TBS_FTYPE_BLK_def
  TBS_FTYPE_CHR_def TBS_FTYPE_LNK_def TBS_FTYPE_FIFO_def

definition mfs_ftype_to_vtype :: "u64 \<Rightarrow> vtype" where
  "mfs_ftype_to_vtype ftype =
    (if ftype = TBS_FTYPE_REG then VREG
     else if ftype = TBS_FTYPE_DIR then VDIR
     else if ftype = TBS_FTYPE_BLK then VBLK
     else if ftype = TBS_FTYPE_CHR then VCHR
     else if ftype = TBS_FTYPE_LNK then VLNK
     else if ftype = TBS_FTYPE_FIFO then VFIFO
     else VNON)"

record vattr =
  va_mask :: u32
  va_type :: vtype
  va_mode :: u32
  va_uid :: u32
  va_gid :: u32
  va_fsid :: u32
  va_rdev :: u32
  va_nodeid :: u64
  va_nlink :: u64
  va_size :: u64
  va_atime :: timeval
  va_mtime :: timeval
  va_ctime :: timeval
  va_blksize :: u64
  va_nblocks :: u64

definition S_IFMT :: u32 where "S_IFMT = 0xf000"
definition VRIGHTSMASK :: u32 where "VRIGHTSMASK = 0xfff"

definition VATTR_GET_MODE :: "vattr \<Rightarrow> u32" where
  "VATTR_GET_MODE vap = va_mode vap AND NOT S_IFMT"

definition VATTR_SET_MODE_RIGHTS :: "u32 \<Rightarrow> vattr \<Rightarrow> vattr" where
  "VATTR_SET_MODE_RIGHTS m vap =
    vap\<lparr>va_mode := (va_mode vap AND NOT VRIGHTSMASK) OR (m AND VRIGHTSMASK)\<rparr>"

definition VATTR_SET_MODE_TYPE :: "u32 \<Rightarrow> vattr \<Rightarrow> vattr" where
  "VATTR_SET_MODE_TYPE m vap =
    vap\<lparr>va_mode := (va_mode vap AND VRIGHTSMASK) OR (m AND NOT VRIGHTSMASK)\<rparr>"

text \<open>A right shift of the signed size.\<close>
definition VATTR_BTODB :: "u64 \<Rightarrow> u64" where
  "VATTR_BTODB n = signed_drop_bit 9 (n + 512 - 1)"

definition S_IFTYPE :: "vtype \<Rightarrow> u32" where
  "S_IFTYPE t = (case t of VREG \<Rightarrow> 0x8000 | VDIR \<Rightarrow> 0x4000 | VBLK \<Rightarrow> 0x6000 | VCHR \<Rightarrow> 0x2000
     | VLNK \<Rightarrow> 0xa000 | VFIFO \<Rightarrow> 0x1000 | _ \<Rightarrow> 0x8000)"

definition mfs_fsregblksize :: u64 where "mfs_fsregblksize = 8192"
definition mfs_fsdirblksize :: u64 where "mfs_fsdirblksize = 8192"

text \<open>The fields of a VOB mnode the conversion reads; \<open>va_realvp\<close> tells whether a cleartext file is
  attached and \<open>va_dev\<close> is the device number of the file system.\<close>
record attr_mnode =
  am_fstat :: tbs_fstat_db_t
  am_user_id :: u32
  am_group_id :: u32
  am_realvp :: bool
  am_rwerr :: int
  am_clear_dirty :: bool
  am_cleartext_va :: vattr
  am_dev :: u64

definition mfs_mn_to_vattr :: "attr_mnode \<Rightarrow> vattr \<Rightarrow> vattr" where
  "mfs_mn_to_vattr mn vap =
    (let fstat = am_fstat mn;
         vap = vap\<lparr>va_type := mfs_ftype_to_vtype (fs_type fstat)\<rparr>;
         vap = VATTR_SET_MODE_RIGHTS (ucast (fs_mode fstat)) vap;
         vap = VATTR_SET_MODE_TYPE (S_IFTYPE (va_type vap)) vap;
         vap = vap\<lparr>va_uid := am_user_id mn, va_gid := am_group_id mn, va_fsid := ucast (am_dev mn),
           va_nodeid := fs_nodeid fstat, va_nlink := fs_nlink fstat, va_atime := fs_atime fstat\<rparr>;
         vap = (if am_realvp mn \<and> am_rwerr mn = 0 then
             vap\<lparr>va_size := va_size (am_cleartext_va mn),
               va_mtime := if am_clear_dirty mn then va_mtime (am_cleartext_va mn) else fs_mtime fstat\<rparr>
           else vap\<lparr>va_size := fs_size fstat, va_atime := fs_atime fstat, va_mtime := fs_mtime fstat\<rparr>);
         vap = vap\<lparr>va_ctime := fs_ctime fstat, va_rdev := 0,
           va_blksize := if va_type vap = VDIR then mfs_fsdirblksize else mfs_fsregblksize\<rparr> in
     vap\<lparr>va_nblocks := VATTR_BTODB (va_size vap)\<rparr>)"

definition AT_TYPE :: u32 where "AT_TYPE = 0x1"
definition AT_MODE :: u32 where "AT_MODE = 0x2"
definition AT_UID :: u32 where "AT_UID = 0x4"
definition AT_GID :: u32 where "AT_GID = 0x8"
definition AT_SIZE :: u32 where "AT_SIZE = 0x80"
definition AT_ATIME :: u32 where "AT_ATIME = 0x100"
definition AT_MTIME :: u32 where "AT_MTIME = 0x200"
lemmas at_defs = AT_TYPE_def AT_MODE_def AT_UID_def AT_GID_def AT_SIZE_def AT_ATIME_def AT_MTIME_def

definition VIEW_ATTR_TYPE :: u64 where "VIEW_ATTR_TYPE = 0x1"
definition VIEW_ATTR_MODE :: u64 where "VIEW_ATTR_MODE = 0x2"
definition VIEW_ATTR_SIZE :: u64 where "VIEW_ATTR_SIZE = 0x80"
definition VIEW_ATTR_ATIME :: u64 where "VIEW_ATTR_ATIME = 0x100"
definition VIEW_ATTR_MTIME :: u64 where "VIEW_ATTR_MTIME = 0x200"
lemmas view_attr_defs = VIEW_ATTR_TYPE_def VIEW_ATTR_MODE_def VIEW_ATTR_USID_def VIEW_ATTR_GSID_def
  VIEW_ATTR_SIZE_def VIEW_ATTR_ATIME_def VIEW_ATTR_MTIME_def

definition VIEW_ATTR_FMODES_MASK :: u32 where "VIEW_ATTR_FMODES_MASK = 0xfff"

definition mfs_sattr_is_null :: "view_set_attr_t \<Rightarrow> bool" where
  "mfs_sattr_is_null sattr \<longleftrightarrow> sa_mask sattr = 0"

definition timeval_unset :: timeval where "timeval_unset = \<lparr>tv_sec = -1, tv_usec = -1\<rparr>"

definition mfs_sattr_null :: "view_set_attr_t \<Rightarrow> view_set_attr_t" where
  "mfs_sattr_null sattr = sattr\<lparr>sa_mask := 0, sa_type := TBS_FTYPE_NULL, sa_mode := 0xffff,
     sa_usid := (sa_usid sattr)\<lparr>sid_length := 0, sid_type := CREDUTL_SID_TYPE_NOBODY\<rparr>,
     sa_gsid := (sa_gsid sattr)\<lparr>sid_length := 0, sid_type := CREDUTL_SID_TYPE_NOBODY\<rparr>,
     sa_size := 0, sa_atime := timeval_unset, sa_mtime := timeval_unset\<rparr>"

definition vtype_to_ftype :: "vtype \<Rightarrow> u64" where
  "vtype_to_ftype t = (case t of VREG \<Rightarrow> TBS_FTYPE_REG | VDIR \<Rightarrow> TBS_FTYPE_DIR | VBLK \<Rightarrow> TBS_FTYPE_BLK
     | VCHR \<Rightarrow> TBS_FTYPE_CHR | VLNK \<Rightarrow> TBS_FTYPE_LNK | VFIFO \<Rightarrow> TBS_FTYPE_FIFO | _ \<Rightarrow> TBS_FTYPE_NULL)"

definition mask_bit :: "u32 \<Rightarrow> u32 \<Rightarrow> u64 \<Rightarrow> u64 \<Rightarrow> u64" where
  "mask_bit vm at va m = (if vm AND at \<noteq> 0 then m OR va else m)"

definition mfs_vattr_to_sattr :: "vattr \<Rightarrow> view_set_attr_t \<Rightarrow> view_set_attr_t" where
  "mfs_vattr_to_sattr vap sattr =
    (let vm = va_mask vap in
     sattr\<lparr>sa_type := vtype_to_ftype (va_type vap),
       sa_mode := if vm AND AT_MODE \<noteq> 0 then ucast (ucast (VATTR_GET_MODE vap AND VIEW_ATTR_FMODES_MASK) :: u16)
         else 0xffff,
       sa_usid := mvfs_credutl_unix_uid_to_sid (if vm AND AT_UID \<noteq> 0 then va_uid vap else KS_UID_NOBODY) (sa_usid sattr),
       sa_gsid := mvfs_credutl_unix_gid_to_sid (if vm AND AT_GID \<noteq> 0 then va_gid vap else KS_GID_NOBODY) (sa_gsid sattr),
       sa_size := if vm AND AT_SIZE \<noteq> 0 then va_size vap else 0,
       sa_atime := if vm AND AT_ATIME \<noteq> 0 then va_atime vap else timeval_unset,
       sa_mtime := if vm AND AT_MTIME \<noteq> 0 then va_mtime vap else timeval_unset,
       sa_mask := mask_bit vm AT_MTIME VIEW_ATTR_MTIME (mask_bit vm AT_ATIME VIEW_ATTR_ATIME
         (mask_bit vm AT_SIZE VIEW_ATTR_SIZE (mask_bit vm AT_GID VIEW_ATTR_GSID
         (mask_bit vm AT_UID VIEW_ATTR_USID (mask_bit vm AT_MODE VIEW_ATTR_MODE
         (mask_bit vm AT_TYPE VIEW_ATTR_TYPE 0))))))\<rparr>)"

lemma and_single_bit: "(m :: u32) AND push_bit k 1 = (if bit m k then push_bit k 1 else 0)"
  by (rule bit_word_eqI) (auto simp: bit_simps dest: bit_imp_le_length)

lemma mask_bit_ucast:
  "k < 32 \<Longrightarrow> mask_bit m (push_bit k 1) (push_bit k 1) x = x OR ucast (m AND push_bit k 1)"
  unfolding mask_bit_def and_single_bit
  by (auto simp: push_bit_eq_0_iff intro!: bit_word_eqI) (auto simp: bit_simps)

lemma mask_bit_steps:
  "mask_bit m AT_TYPE VIEW_ATTR_TYPE x = x OR ucast (m AND 1)"
  "mask_bit m AT_MODE VIEW_ATTR_MODE x = x OR ucast (m AND 2)"
  "mask_bit m AT_UID VIEW_ATTR_USID x = x OR ucast (m AND 4)"
  "mask_bit m AT_GID VIEW_ATTR_GSID x = x OR ucast (m AND 8)"
  "mask_bit m AT_SIZE VIEW_ATTR_SIZE x = x OR ucast (m AND 0x80)"
  "mask_bit m AT_ATIME VIEW_ATTR_ATIME x = x OR ucast (m AND 0x100)"
  "mask_bit m AT_MTIME VIEW_ATTR_MTIME x = x OR ucast (m AND 0x200)"
  using mask_bit_ucast [of 0 m x] mask_bit_ucast [of 1 m x] mask_bit_ucast [of 2 m x]
    mask_bit_ucast [of 3 m x] mask_bit_ucast [of 7 m x] mask_bit_ucast [of 8 m x] mask_bit_ucast [of 9 m x]
  by (simp_all add: at_defs view_attr_defs push_bit_eq_mult)

lemma sattr_mask: "sa_mask (mfs_vattr_to_sattr vap s) = ucast (va_mask vap AND 0x38f)"
proof -
  have "(0x38f :: u32) = 1 OR (2 OR (4 OR (8 OR (0x80 OR (0x100 OR 0x200)))))" by simp
  then have "va_mask vap AND 0x38f = va_mask vap AND 1 OR (va_mask vap AND 2 OR (va_mask vap AND 4
      OR (va_mask vap AND 8 OR (va_mask vap AND 0x80 OR (va_mask vap AND 0x100 OR va_mask vap AND 0x200)))))"
    by (simp only: bit.conj_disj_distrib)
  then show ?thesis
    by (simp add: mfs_vattr_to_sattr_def Let_def mask_bit_steps unsigned_or_eq or.assoc)
qed

lemma mode_rights:
  "((((w AND NOT VRIGHTSMASK) OR (m AND VRIGHTSMASK)) AND VRIGHTSMASK) OR (t AND NOT VRIGHTSMASK))
     AND NOT S_IFMT AND VIEW_ATTR_FMODES_MASK = m AND 0xfff"
proof -
  have m: "(0xfff :: u32) = mask 12" and t: "(0xf000 :: u32) = push_bit 12 (mask 4)"
    by (simp_all add: mask_eq_exp_minus_1 push_bit_eq_mult)
  show ?thesis
    unfolding VRIGHTSMASK_def S_IFMT_def VIEW_ATTR_FMODES_MASK_def m t
    by (rule bit_word_eqI) (auto simp: bit_simps)
qed

lemma mn_to_vattr_fields [simp]:
  "va_type (mfs_mn_to_vattr mn va) = mfs_ftype_to_vtype (fs_type (am_fstat mn))"
  "va_uid (mfs_mn_to_vattr mn va) = am_user_id mn"
  "va_gid (mfs_mn_to_vattr mn va) = am_group_id mn"
  "va_atime (mfs_mn_to_vattr mn va) = fs_atime (am_fstat mn)"
  "va_size (mfs_mn_to_vattr mn va) =
    (if am_realvp mn \<and> am_rwerr mn = 0 then va_size (am_cleartext_va mn) else fs_size (am_fstat mn))"
  "va_mtime (mfs_mn_to_vattr mn va) =
    (if am_realvp mn \<and> am_rwerr mn = 0 \<and> am_clear_dirty mn then va_mtime (am_cleartext_va mn)
     else fs_mtime (am_fstat mn))"
  "va_mode (mfs_mn_to_vattr mn va) =
    (((va_mode va AND NOT VRIGHTSMASK) OR (ucast (fs_mode (am_fstat mn)) AND VRIGHTSMASK)) AND VRIGHTSMASK)
      OR (S_IFTYPE (mfs_ftype_to_vtype (fs_type (am_fstat mn))) AND NOT VRIGHTSMASK)"
  by (simp_all add: mfs_mn_to_vattr_def Let_def VATTR_SET_MODE_TYPE_def VATTR_SET_MODE_RIGHTS_def)

lemma mode_rights_u64: "(ucast (ucast (ucast (w :: u64) AND 0xfff :: u32) :: u16) :: u64) = w AND 0xfff"
proof -
  have m: "(0xfff :: u32) = mask 12" "(0xfff :: u64) = mask 12"
    by (simp_all add: mask_eq_exp_minus_1)
  show ?thesis unfolding m by (rule bit_word_eqI) (auto simp: bit_simps)
qed

lemma le_6_cases: "(x :: u64) \<le> 6 \<Longrightarrow> x \<in> {0, 1, 2, 3, 4, 5, 6}"
proof -
  assume "x \<le> 6"
  then have "unat x \<le> 6" by (simp add: word_le_nat_alt)
  then have "unat x \<in> {0, 1, 2, 3, 4, 5, 6}" by auto
  then have "of_nat (unat x) \<in> (of_nat ` {0, 1, 2, 3, 4, 5, 6} :: u64 set)" by (rule imageI)
  then show ?thesis by simp
qed

lemma vtype_ftype: "t \<le> TBS_FTYPE_FIFO \<Longrightarrow> vtype_to_ftype (mfs_ftype_to_vtype t) = t"
  by (drule le_6_cases [of t, folded TBS_FTYPE_FIFO_def])
    (auto simp: vtype_to_ftype_def mfs_ftype_to_vtype_def ftype_defs)

text \<open>C23: a request to set attributes, made from the attributes an object without cleartext reports,
  carries exactly the attributes the mask asks for, with the values the server gave for the object:
  the mode rights, the owner, the size and the times.\<close>
theorem set_attr_carries_attributes:
  assumes "\<not> am_realvp mn" and "wf_sid (sa_usid s)" and "wf_sid (sa_gsid s)"
    and "sa = mfs_vattr_to_sattr ((mfs_mn_to_vattr mn va)\<lparr>va_mask := m\<rparr>) s"
  shows "sa_mask sa = ucast (m AND 0x38f)
    \<and> (fs_type (am_fstat mn) \<le> TBS_FTYPE_FIFO \<longrightarrow> sa_type sa = fs_type (am_fstat mn))
    \<and> (m AND AT_MODE \<noteq> 0 \<longrightarrow> sa_mode sa = fs_mode (am_fstat mn) AND 0xfff)
    \<and> (m AND AT_UID \<noteq> 0 \<longrightarrow> m AND AT_GID \<noteq> 0 \<longrightarrow>
         sids_to_native_ids (sa_usid sa) (sa_gsid sa) = (am_user_id mn, am_group_id mn))
    \<and> (m AND AT_SIZE \<noteq> 0 \<longrightarrow> sa_size sa = fs_size (am_fstat mn))
    \<and> (m AND AT_ATIME \<noteq> 0 \<longrightarrow> sa_atime sa = fs_atime (am_fstat mn))
    \<and> (m AND AT_MTIME \<noteq> 0 \<longrightarrow> sa_mtime sa = fs_mtime (am_fstat mn))"
proof -
  let ?v = "(mfs_mn_to_vattr mn va)\<lparr>va_mask := m\<rparr>"
  have "sa_mask sa = ucast (m AND 0x38f)" using assms(4) sattr_mask [of ?v s] by simp
  moreover have "sa_type sa = vtype_to_ftype (mfs_ftype_to_vtype (fs_type (am_fstat mn)))"
    "m AND AT_MODE \<noteq> 0 \<Longrightarrow> sa_mode sa =
       ucast (ucast (va_mode (mfs_mn_to_vattr mn va) AND NOT S_IFMT AND VIEW_ATTR_FMODES_MASK) :: u16)"
    "m AND AT_UID \<noteq> 0 \<Longrightarrow> sa_usid sa = mvfs_credutl_unix_uid_to_sid (am_user_id mn) (sa_usid s)"
    "m AND AT_GID \<noteq> 0 \<Longrightarrow> sa_gsid sa = mvfs_credutl_unix_gid_to_sid (am_group_id mn) (sa_gsid s)"
    "m AND AT_SIZE \<noteq> 0 \<Longrightarrow> sa_size sa = fs_size (am_fstat mn)"
    "m AND AT_ATIME \<noteq> 0 \<Longrightarrow> sa_atime sa = fs_atime (am_fstat mn)"
    "m AND AT_MTIME \<noteq> 0 \<Longrightarrow> sa_mtime sa = fs_mtime (am_fstat mn)"
    unfolding assms(4) mfs_vattr_to_sattr_def Let_def VATTR_GET_MODE_def using assms(1) by (simp_all add: and.assoc)
  ultimately show ?thesis
    using vtype_ftype [of "fs_type (am_fstat mn)"] native_ids_inverse [OF assms(2,3)]
    by (auto simp: mode_rights mode_rights_u64)
qed

definition vattr_example :: vattr where
  "vattr_example = \<lparr>va_mask = 0, va_type = VNON, va_mode = 0, va_uid = 0, va_gid = 0, va_fsid = 0, va_rdev = 0,
     va_nodeid = 0, va_nlink = 0, va_size = 0, va_atime = timeval_unset, va_mtime = timeval_unset,
     va_ctime = timeval_unset, va_blksize = 0, va_nblocks = 0\<rparr>"

definition attr_mnode_example :: attr_mnode where
  "attr_mnode_example = \<lparr>am_fstat = \<lparr>fs_type = 2, fs_mode = 0x41ed, fs_nlink = 3, fs_flags = 0,
       fs_usid = CREDUTL_SID_NOBODY, fs_gsid = CREDUTL_SID_NOBODY, fs_size = 77, fs_nodeid = 5,
       fs_xtime = timeval_unset, fs_atime = timeval_unset, fs_mtime = timeval_unset, fs_ctime = timeval_unset\<rparr>,
     am_user_id = 10, am_group_id = 20, am_realvp = False, am_rwerr = 0, am_clear_dirty = False,
     am_cleartext_va = vattr_example, am_dev = 1\<rparr>"

definition sattr_example :: view_set_attr_t where
  "sattr_example = \<lparr>sa_mask = 0, sa_type = 0, sa_mode = 0, sa_usid = CREDUTL_SID_NOBODY, sa_gsid = CREDUTL_SID_NOBODY,
     sa_size = 0, sa_atime = timeval_unset, sa_mtime = timeval_unset\<rparr>"

theorem set_attr_carries_attributes_witness:
  "sa_mask (mfs_vattr_to_sattr ((mfs_mn_to_vattr attr_mnode_example vattr_example)\<lparr>va_mask := 0xFFFF\<rparr>) sattr_example) = 0x38f
    \<and> sa_mode (mfs_vattr_to_sattr ((mfs_mn_to_vattr attr_mnode_example vattr_example)\<lparr>va_mask := 0xFFFF\<rparr>) sattr_example) = 0x1ed"
  using set_attr_carries_attributes [where mn = attr_mnode_example and s = sattr_example and va = vattr_example
    and m = "0xFFFF", OF _ _ _ refl]
  by (simp add: attr_mnode_example_def sattr_example_def wf_sid_def CREDUTL_SID_NOBODY_def AT_MODE_def)

section \<open>Sizes and times\<close>

text \<open>The loop halves \<open>n\<close> (towards 0) and doubles the size.\<close>
function power2_loop :: "int \<Rightarrow> int \<Rightarrow> int" where
  "power2_loop n sz = (let n = (if n < 0 then - (- n div 2) else n div 2) in
     if n \<noteq> 0 then power2_loop n (sz * 2) else sz)"
  by pat_completeness auto
termination
  by (relation "measure (\<lambda>(n, _). nat \<bar>n\<bar>)") auto

declare power2_loop.simps [simp del]

definition mvfs_ensure_power2 :: "int \<Rightarrow> int" where
  "mvfs_ensure_power2 n = power2_loop n 1"

lemma power2_loop_bounds:
  "0 < n \<Longrightarrow> 0 < s \<Longrightarrow> \<exists>k. power2_loop n s = s * 2 ^ k \<and> 2 ^ k \<le> n \<and> n < 2 * 2 ^ k"
proof (induction n s rule: power2_loop.induct)
  case (1 n s)
  show ?case
  proof (cases "n div 2 = 0")
    case True
    then have "n = 1" using 1(2) by auto
    then show ?thesis by (intro exI [of _ 0]) (simp add: power2_loop.simps)
  next
    case False
    then have "0 < n div 2" using 1(2) by linarith
    with 1 obtain k where k: "power2_loop (n div 2) (s * 2) = s * 2 * 2 ^ k" "2 ^ k \<le> n div 2" "n div 2 < 2 * 2 ^ k"
      by auto
    then have "2 * 2 ^ k \<le> n" "n < 4 * 2 ^ k" by linarith+
    with k show ?thesis
      using False 1(2) by (intro exI [of _ "Suc k"]) (simp add: power2_loop.simps [of n])
  qed
qed

lemma ensure_power2: "0 < n \<Longrightarrow> \<exists>k. mvfs_ensure_power2 n = 2 ^ k \<and> 2 ^ k \<le> n \<and> n < 2 * 2 ^ k"
  using power2_loop_bounds [of n 1] by (simp add: mvfs_ensure_power2_def)

record timestruc =
  ts_sec :: int
  ts_nsec :: int

text \<open>The running total after the call and the time since \<open>stp\<close>; \<open>now\<close> is what the clock reads.  The
  seconds are far from the bounds of their type.\<close>
definition mvfs_bumptime :: "timestruc \<Rightarrow> timestruc \<Rightarrow> timestruc \<Rightarrow> timestruc \<times> timestruc" where
  "mvfs_bumptime now stp tvp =
    (let d = now\<lparr>ts_nsec := ts_nsec now - ts_nsec stp\<rparr>;
         d = (if ts_nsec d < 0 then d\<lparr>ts_nsec := ts_nsec d + 1000000000, ts_sec := ts_sec d - 1\<rparr> else d);
         d = d\<lparr>ts_sec := ts_sec d - ts_sec stp\<rparr>;
         tvp = tvp\<lparr>ts_nsec := ts_nsec tvp + ts_nsec d\<rparr>;
         tvp = (if ts_nsec tvp \<ge> 1000000000 then tvp\<lparr>ts_nsec := ts_nsec tvp - 1000000000, ts_sec := ts_sec tvp + 1\<rparr>
           else tvp) in
     (d, tvp\<lparr>ts_sec := ts_sec tvp + ts_sec d\<rparr>))"

definition ts_total :: "timestruc \<Rightarrow> int" where "ts_total t = ts_sec t * 1000000000 + ts_nsec t"
definition ts_canonical :: "timestruc \<Rightarrow> bool" where "ts_canonical t \<longleftrightarrow> 0 \<le> ts_nsec t \<and> ts_nsec t < 1000000000"

text \<open>Canonical times stay canonical, and the sums are right.\<close>
lemma bumptime_sum:
  assumes "ts_canonical now" and "ts_canonical stp" and "ts_canonical tvp"
    and "(d, t) = mvfs_bumptime now stp tvp"
  shows "ts_canonical d \<and> ts_canonical t \<and> ts_total d = ts_total now - ts_total stp
    \<and> ts_total t = ts_total tvp + ts_total d"
  using assms by (auto simp: mvfs_bumptime_def Let_def ts_total_def ts_canonical_def)

end
