(* ===== verification/Mvfs_Dnc.thy ===== *)
theory Mvfs_Dnc
  imports Mvfs_Names Mvfs_Eacl Mvfs_Rdc
begin

text \<open>The directory name cache (mvfs\_dncops.c, mvfs\_dnc.h): translations of names in VOB directories,
  \<open>name not found\<close> included, and the root version cache that shares it.  An entry is named by its
  index in the array \<open>mfs_dnc\<close>; the rings that link the entries are the lists of their indices (the ring
  macros keep such lists: theory Mvfs\_Dlist).  Each routine is one step: the locks and what happens
  only when several threads race for an entry (the transit count of a replaced cache) are left out.
  Vnodes and credentials are named by their addresses; the state counts the holds the cache has on
  them.  The statistics per view are left out, the global ones are kept.\<close>

section \<open>The size of the hash table\<close>

definition MFS_DNCHASHMAX :: nat where "MFS_DNCHASHMAX = 18181"
definition MFS_DNCHASHMIN :: nat where "MFS_DNCHASHMIN = 509"
definition MFS_DNC_AVECHAIN :: nat where "MFS_DNC_AVECHAIN = 10"

text \<open>The trial divisions of the loop body.\<close>
definition hash_isprime :: "nat \<Rightarrow> bool" where
  "hash_isprime num = list_all (\<lambda>i. num mod i \<noteq> 0) [2..<num div 2 + 1]"

lemma hash_isprime_iff: "hash_isprime n \<longleftrightarrow> (\<forall>i. 2 \<le> i \<and> i \<le> n div 2 \<longrightarrow> \<not> i dvd n)"
  by (auto simp: hash_isprime_def list_all_iff dvd_eq_mod_eq_0)

lemma hash_isprime_divisors: "2 \<le> n \<Longrightarrow> hash_isprime n \<longleftrightarrow> (\<forall>i. i dvd n \<longrightarrow> i = 1 \<or> i = n)"
proof
  assume n: "2 \<le> n" and p: "hash_isprime n"
  show "\<forall>i. i dvd n \<longrightarrow> i = 1 \<or> i = n"
  proof (intro allI impI)
    fix i assume d: "i dvd n"
    then obtain k where k: "n = i * k" by (elim dvdE)
    show "i = 1 \<or> i = n"
    proof (cases "k = 1")
      case False
      then have "2 \<le> k" using n k by (cases k; cases "k - 1") auto
      then have "i * 2 \<le> i * k" by (rule mult_le_mono2)
      then have "i * 2 \<le> n" using k by simp
      then have "i \<le> n div 2" by linarith
      then show ?thesis using p d n k by (cases i; cases "i - 1") (auto simp: hash_isprime_iff)
    qed (use k in simp)
  qed
next
  assume n: "2 \<le> n" and d: "\<forall>i. i dvd n \<longrightarrow> i = 1 \<or> i = n"
  then show "hash_isprime n" by (auto simp: hash_isprime_iff)
qed

text \<open>There is always a next prime, so the search ends.\<close>
lemma hash_prime_above: "\<exists>p\<ge>n. hash_isprime p"
proof -
  let ?m = "fact n + 1 :: nat"
  define d where "d = (LEAST d. 2 \<le> d \<and> d dvd ?m)"
  have "2 \<le> ?m" using fact_ge_1 [of n, where 'a = nat] by simp
  then have "2 \<le> ?m \<and> ?m dvd ?m" by simp
  then have d: "2 \<le> d \<and> d dvd ?m" unfolding d_def by (rule LeastI)
  have least: "d \<le> k" if "2 \<le> k" "k dvd ?m" for k unfolding d_def by (rule Least_le) (use that in simp)
  have "\<not> d \<le> n"
  proof
    assume "d \<le> n"
    then have "d dvd fact n" using d by (simp add: dvd_fact)
    then have "d dvd 1" using d dvd_diff_nat [of d ?m "fact n"] by simp
    then show False using d by simp
  qed
  moreover have "hash_isprime d"
    unfolding hash_isprime_iff
  proof (intro allI impI notI)
    fix i assume i: "2 \<le> i \<and> i \<le> d div 2" and "i dvd d"
    then have "d \<le> i" using least d by (meson dvd_trans)
    then show False using i by linarith
  qed
  ultimately show ?thesis by (intro exI [of _ d]) simp
qed

function hash_search :: "nat \<Rightarrow> nat" where
  "hash_search num = (if hash_isprime num then num else hash_search (num + 1))"
  by pat_completeness auto
termination
proof (relation "measure (\<lambda>n. (LEAST p. n \<le> p \<and> hash_isprime p) - n)")
  fix num assume n: "\<not> hash_isprime num"
  let ?P = "\<lambda>n p. n \<le> p \<and> hash_isprime p"
  define p where "p = (LEAST p. ?P num p)"
  have p: "?P num p" unfolding p_def using hash_prime_above [of num] by (metis (mono_tags, lifting) LeastI)
  then have "num < p" using n by (metis le_neq_implies_less)
  then have "?P (num + 1) p" using p by simp
  then have "(LEAST p. ?P (num + 1) p) \<le> p" by (rule Least_le)
  then show "(num + 1, num) \<in> measure (\<lambda>n. (LEAST p. ?P n p) - n)"
    using \<open>num < p\<close> by (simp add: p_def [symmetric])
qed simp

declare hash_search.simps [simp del]

definition mvfs_find_dnchashsize :: "nat \<Rightarrow> nat" where
  "mvfs_find_dnchashsize maxentry =
    (let num = maxentry div MFS_DNC_AVECHAIN in
     if num \<le> MFS_DNCHASHMIN then MFS_DNCHASHMIN
     else if num \<ge> MFS_DNCHASHMAX then MFS_DNCHASHMAX
     else hash_search num)"

lemma hash_search_least:
  "hash_isprime (hash_search n) \<and> n \<le> hash_search n \<and> (\<forall>p. n \<le> p \<longrightarrow> hash_isprime p \<longrightarrow> hash_search n \<le> p)"
proof (induction n rule: hash_search.induct)
  case (1 n)
  show ?case
  proof (cases "hash_isprime n")
    case True
    then show ?thesis by (simp add: hash_search.simps [of n])
  next
    case False
    then have "n + 1 \<le> p" if "n \<le> p" "hash_isprime p" for p using that by (metis Suc_eq_plus1 Suc_leI le_neq_implies_less)
    then show ?thesis using 1 [OF False] False by (simp add: hash_search.simps [of n])
  qed
qed

text \<open>Trial divisors up to the square root are enough.\<close>
lemma hash_isprime_sqrt:
  assumes "2 \<le> n" and "n < r * r" and ints: "list_all (\<lambda>i. int n mod i \<noteq> 0) [2..int r - 1]"
  shows "hash_isprime n"
  unfolding hash_isprime_iff
proof (intro allI impI notI)
  fix i assume i: "2 \<le> i \<and> i \<le> n div 2" and "i dvd n"
  then obtain k where k: "n = i * k" by (elim dvdE)
  have nat: "n mod j \<noteq> 0" if "2 \<le> j" "j < r" for j
  proof -
    have "int j \<in> set [2..int r - 1]" using that by simp
    then have "int n mod int j \<noteq> 0" using ints by (auto simp: list_all_iff)
    then have "int (n mod j) \<noteq> 0" by (simp add: zmod_int)
    then show ?thesis by simp
  qed
  have k2: "2 \<le> k" using i k by (cases k; cases "k - 1") auto
  have "i < r \<or> k < r" using assms(2) k by (metis mult_le_mono not_le)
  then show False
  proof
    assume "i < r"
    then show False using nat [of i] i \<open>i dvd n\<close> by (simp add: dvd_eq_mod_eq_0)
  next
    assume "k < r"
    moreover have "n mod k = 0" using k by simp
    ultimately show False using nat [of k] k2 by simp
  qed
qed

lemma hash_bounds_prime: "hash_isprime MFS_DNCHASHMIN" "hash_isprime MFS_DNCHASHMAX"
proof -
  have "list_all (\<lambda>i. (509 :: int) mod i \<noteq> 0) [2..22]" "list_all (\<lambda>i. (18181 :: int) mod i \<noteq> 0) [2..134]"
    by code_simp+
  then show "hash_isprime MFS_DNCHASHMIN" "hash_isprime MFS_DNCHASHMAX"
    using hash_isprime_sqrt [of 509 23] hash_isprime_sqrt [of 18181 135]
    by (simp_all add: MFS_DNCHASHMIN_def MFS_DNCHASHMAX_def)
qed

lemma hash_search_bounds:
  "n \<le> hash_search n" "hash_isprime (hash_search n)" "n \<le> MFS_DNCHASHMAX \<Longrightarrow> hash_search n \<le> MFS_DNCHASHMAX"
  "n \<le> p \<Longrightarrow> p < hash_search n \<Longrightarrow> \<not> hash_isprime p"
  using hash_search_least [of n] hash_bounds_prime(2) by (blast, blast, blast, meson not_le)

lemma dnchash_min_max: "MFS_DNCHASHMIN \<le> MFS_DNCHASHMAX"
  by (simp add: MFS_DNCHASHMIN_def MFS_DNCHASHMAX_def)

lemma dnchashsize_range:
  "MFS_DNCHASHMIN \<le> mvfs_find_dnchashsize m" "mvfs_find_dnchashsize m \<le> MFS_DNCHASHMAX"
  "hash_isprime (mvfs_find_dnchashsize m)"
proof -
  let ?n = "m div MFS_DNC_AVECHAIN"
  show "MFS_DNCHASHMIN \<le> mvfs_find_dnchashsize m"
    using hash_search_bounds(1) [of ?n] dnchash_min_max by (simp add: mvfs_find_dnchashsize_def Let_def)
  show "mvfs_find_dnchashsize m \<le> MFS_DNCHASHMAX"
    using hash_search_bounds(3) [of ?n] dnchash_min_max by (simp add: mvfs_find_dnchashsize_def Let_def)
  show "hash_isprime (mvfs_find_dnchashsize m)"
    using hash_search_bounds(2) [of ?n] hash_bounds_prime by (simp add: mvfs_find_dnchashsize_def Let_def)
qed

lemma dnchashsize_between:
  assumes "MFS_DNCHASHMIN \<le> m div MFS_DNC_AVECHAIN" and "m div MFS_DNC_AVECHAIN \<le> MFS_DNCHASHMAX"
  shows "mvfs_find_dnchashsize m = hash_search (m div MFS_DNC_AVECHAIN)"
proof -
  have "hash_search k = k" if "hash_isprime k" for k using that by (simp add: hash_search.simps [of k])
  then show ?thesis
    using assms hash_bounds_prime dnchash_min_max by (auto simp: mvfs_find_dnchashsize_def Let_def)
qed

text \<open>C21: the search for the size of the hash table ends for every number of entries, with a prime between
  the two bounds; where the bounds allow it, that is the first prime from a tenth of the number of
  entries on.\<close>
theorem dnchashsize_prime:
  "(\<forall>i. i dvd mvfs_find_dnchashsize m \<longrightarrow> i = 1 \<or> i = mvfs_find_dnchashsize m)
    \<and> 509 \<le> mvfs_find_dnchashsize m \<and> mvfs_find_dnchashsize m \<le> 18181
    \<and> (509 \<le> m div 10 \<and> m div 10 \<le> 18181 \<longrightarrow> m div 10 \<le> mvfs_find_dnchashsize m \<and>
        (\<forall>p. m div 10 \<le> p \<and> p < mvfs_find_dnchashsize m \<longrightarrow> (\<exists>i. i dvd p \<and> i \<noteq> 1 \<and> i \<noteq> p)))"
proof -
  let ?s = "mvfs_find_dnchashsize m"
  have r: "509 \<le> ?s" "?s \<le> 18181" and p: "hash_isprime ?s"
    using dnchashsize_range [of m] by (simp_all add: MFS_DNCHASHMIN_def MFS_DNCHASHMAX_def)
  have "m div 10 \<le> ?s \<and> (\<forall>p. m div 10 \<le> p \<and> p < ?s \<longrightarrow> \<not> hash_isprime p)"
    if "509 \<le> m div 10" "m div 10 \<le> 18181"
    using that dnchashsize_between [of m] hash_search_bounds(1,4) [of "m div 10"]
    by (auto simp: MFS_DNCHASHMIN_def MFS_DNCHASHMAX_def MFS_DNC_AVECHAIN_def)
  moreover have "\<exists>i. i dvd q \<and> i \<noteq> 1 \<and> i \<noteq> q" if "\<not> hash_isprime q" "509 \<le> q" for q
    using that hash_isprime_divisors [of q] by auto
  moreover have "\<forall>i. i dvd ?s \<longrightarrow> i = 1 \<or> i = ?s" using p r hash_isprime_divisors [of ?s] by simp
  ultimately show ?thesis using r by (meson le_trans)
qed

theorem dnchashsize_prime_witness:
  "600 \<le> mvfs_find_dnchashsize 6000 \<and> mvfs_find_dnchashsize 6000 \<le> 18181"
  using dnchashsize_prime [of 6000] by simp

section \<open>Entries and the state of the cache\<close>

record mfs_fid =
  mf_dbid :: u64
  mf_gen :: u32

definition MFS_FIDEQ :: "mfs_fid \<Rightarrow> mfs_fid \<Rightarrow> bool" where
  "MFS_FIDEQ a b \<longleftrightarrow> mf_dbid a = mf_dbid b \<and> mf_gen a = mf_gen b"

definition MFS_FIDNULL :: "mfs_fid \<Rightarrow> bool" where
  "MFS_FIDNULL a \<longleftrightarrow> mf_dbid a = 0 \<and> mf_gen a = 0"

definition MFS_TVEQ :: "timeval \<Rightarrow> timeval \<Rightarrow> bool" where
  "MFS_TVEQ a b \<longleftrightarrow> tv_sec a = tv_sec b \<and> tv_usec a = tv_usec b"

definition MFS_BHNULL :: "view_bhandle_t \<Rightarrow> bool" where
  "MFS_BHNULL b \<longleftrightarrow> bh_build_session b = 0 \<and> bh_target_id b = 0"

definition MFS_BH_SAMECONFIG :: "view_bhandle_t \<Rightarrow> view_bhandle_t \<Rightarrow> bool" where
  "MFS_BH_SAMECONFIG a b \<longleftrightarrow> bh_build_session a = bh_build_session b"

lemma FIDEQ_iff [simp]: "MFS_FIDEQ a b \<longleftrightarrow> a = b"
  by (auto simp: MFS_FIDEQ_def)

lemma TVEQ_iff [simp]: "MFS_TVEQ a b \<longleftrightarrow> a = b"
  by (auto simp: MFS_TVEQ_def)

definition MFS_DNC_BHINVARIANT :: u32 where "MFS_DNC_BHINVARIANT = 1"
definition MFS_DNC_NOTINDIR :: u32 where "MFS_DNC_NOTINDIR = 2"
definition MFS_DNC_CASE_INSENSITIVE :: u32 where "MFS_DNC_CASE_INSENSITIVE = 4"
definition MVFS_DNC_RVC_ENT :: u32 where "MVFS_DNC_RVC_ENT = 8"
lemmas dnc_flag_defs = MFS_DNC_BHINVARIANT_def MFS_DNC_NOTINDIR_def MFS_DNC_CASE_INSENSITIVE_def
  MVFS_DNC_RVC_ENT_def

definition MVFS_FLAGON :: "u32 \<Rightarrow> u32 \<Rightarrow> bool" where "MVFS_FLAGON f m \<longleftrightarrow> f AND m \<noteq> 0"

definition MFS_DNCBHMAX :: nat where "MFS_DNCBHMAX = 3"
definition MFS_DNMAXSHORTNAME :: nat where "MFS_DNMAXSHORTNAME = 24"

text \<open>Which of the three LRU lists an entry belongs to: the value of \<open>dn_lruhead\<close>.\<close>
datatype dnclru = Dirlru | Reglru | Noentlru

text \<open>\<open>dn_flags\<close> is a 16 bit field; the flags fit.  \<open>dn_nm_p\<close> is \<open>None\<close> when it is NULL.\<close>
record mfs_dncent =
  dn_addtime :: u64
  dn_lruhead :: dnclru
  dn_in_trans :: bool
  dn_nullbh :: bool
  dn_invalid :: bool
  dn_bhx :: nat
  dn_flags :: u16
  dn_dvw :: addr
  dn_vfsp :: addr
  dn_dfid :: mfs_fid
  dn_dncgen :: u64
  dn_bh :: "view_bhandle_t list"
  dn_len :: nat
  dn_nm_p :: "cstr option"
  dn_nm_inline :: cstr
  dn_vvw :: addr
  dn_vfid :: mfs_fid
  dn_vevtime :: timeval
  dn_cred :: addr
  dnc_hash :: int

definition ent_flag :: "mfs_dncent \<Rightarrow> u32 \<Rightarrow> bool" where
  "ent_flag e m \<longleftrightarrow> MVFS_FLAGON (ucast (dn_flags e)) m"

definition UNUSED :: "mfs_dncent \<Rightarrow> bool" where
  "UNUSED e \<longleftrightarrow> dn_dvw e = NULL \<and> \<not> ent_flag e MVFS_DNC_RVC_ENT"

datatype dnc_stat = Dnc_hits | Dnc_hitdot | Dnc_hitdir | Dnc_hitreg | Dnc_hitnoent | Dnc_hitbhfromnull
  | Dnc_misses | Dnc_missinvalid | Dnc_missbh | Dnc_missdncgen | Dnc_missnoenttimedout | Dnc_missnovp
  | Dnc_missevtime | Dnc_add | Dnc_adddir | Dnc_addreg | Dnc_addnoent | Dnc_addbhinvariant | Dnc_addnoop
  | Dnc_addbh | Dnc_addlong | Dnc_change | Dnc_invalhits | Dnc_invalvp | Dnc_invalnf | Dnc_invalvw
  | Dnc_flush | Dnc_flushvw | Dnc_flushvfs | Rvc_hits | Rvc_misses | Rvc_misstimo | Rvc_purge

text \<open>\<open>mvfs_dnlc_data_t\<close>, the fields of the common data the module reads, its statistics, and the holds
  on vnodes and credentials.  \<open>mfs_dnchash\<close> has the chain of every slot, \<open>dnc_lru\<close> the three rings, from the
  head on.\<close>
record mvfs_dnlc_data =
  mfs_dnc_null :: bool
  mfs_dnc :: "mfs_dncent list"
  mvfs_dnchashsize :: nat
  mfs_dnchash :: "nat list list"
  dnc_lru :: "dnclru \<Rightarrow> nat list"
  mfs_dncmax :: nat
  mfs_dnc_enoent_start :: nat
  mvfs_dnc_noent_other :: int
  mvfs_dncdirmax :: nat
  mvfs_dncregmax :: nat
  mvfs_dncnoentmax :: nat
  mvfs_dncenabled :: bool
  mvfs_dncnoentenabled :: bool
  mvfs_rvcenabled :: bool
  dncstat :: "dnc_stat \<Rightarrow> nat"
  vn_holds :: "addr \<Rightarrow> int"
  cr_holds :: "addr \<Rightarrow> int"

definition DNC_BUMP :: "dnc_stat \<Rightarrow> mvfs_dnlc_data \<Rightarrow> mvfs_dnlc_data" where
  "DNC_BUMP s st = st\<lparr>dncstat := (dncstat st)(s := dncstat st s + 1)\<rparr>"

definition DNC_BUMP_VAL :: "dnc_stat \<Rightarrow> nat \<Rightarrow> mvfs_dnlc_data \<Rightarrow> mvfs_dnlc_data" where
  "DNC_BUMP_VAL s n st = st\<lparr>dncstat := (dncstat st)(s := dncstat st s + n)\<rparr>"

definition VN_HOLD :: "addr \<Rightarrow> mvfs_dnlc_data \<Rightarrow> mvfs_dnlc_data" where
  "VN_HOLD v st = st\<lparr>vn_holds := (vn_holds st)(v := vn_holds st v + 1)\<rparr>"

definition ATRIA_VN_RELE :: "addr \<Rightarrow> mvfs_dnlc_data \<Rightarrow> mvfs_dnlc_data" where
  "ATRIA_VN_RELE v st = st\<lparr>vn_holds := (vn_holds st)(v := vn_holds st v - 1)\<rparr>"

definition MDKI_CRHOLD :: "addr \<Rightarrow> mvfs_dnlc_data \<Rightarrow> mvfs_dnlc_data" where
  "MDKI_CRHOLD c st = st\<lparr>cr_holds := (cr_holds st)(c := cr_holds st c + 1)\<rparr>"

definition MDKI_CRFREE :: "addr \<Rightarrow> mvfs_dnlc_data \<Rightarrow> mvfs_dnlc_data" where
  "MDKI_CRFREE c st = st\<lparr>cr_holds := (cr_holds st)(c := cr_holds st c - 1)\<rparr>"

definition set_ent :: "nat \<Rightarrow> mfs_dncent \<Rightarrow> mvfs_dnlc_data \<Rightarrow> mvfs_dnlc_data" where
  "set_ent i e st = st\<lparr>mfs_dnc := (mfs_dnc st)[i := e]\<rparr>"

section \<open>Hashing and finding\<close>

text \<open>The characters are signed and promoted: one with the top bit makes the sum wrap.\<close>
fun namehash_loop :: "cstr \<Rightarrow> u64 \<Rightarrow> u64" where
  "namehash_loop [] hash = hash"
| "namehash_loop (c # nm) hash = namehash_loop nm
    ((drop_bit 16 hash AND 0xffff) + (push_bit 3 hash AND 0x7ffff) + (scast c AND NOT 0x20))"

definition mfs_namehash :: "cstr \<Rightarrow> u64 \<times> nat" where
  "mfs_namehash nm = (namehash_loop nm 0, length nm)"

text \<open>The name hash goes through an \<open>int\<close>, then the sum is unsigned.\<close>
definition MFS_DNCHASH :: "nat \<Rightarrow> mfs_fid \<Rightarrow> u64 \<Rightarrow> nat \<Rightarrow> nat" where
  "MFS_DNCHASH sz fid nmhash n =
    unat (scast (ucast nmhash :: u32) + of_nat n + mf_dbid fid + ucast (mf_gen fid) :: u64) mod sz"

definition MVFS_RVCHASH :: "nat \<Rightarrow> tbs_uuid_t \<Rightarrow> tbs_uuid_t \<Rightarrow> nat" where
  "MVFS_RVCHASH sz vw_uuid vob_uuid = unat (mfs_uuid_to_hash32 vw_uuid + mfs_uuid_to_hash32 vob_uuid) mod sz"

definition names_match :: "mfs_dncent \<Rightarrow> cstr \<Rightarrow> nat \<Rightarrow> bool" where
  "names_match e nm n \<longleftrightarrow> (case dn_nm_p e of None \<Rightarrow> False
     | Some s \<Rightarrow> s ! 0 = nm ! 0 \<and> s ! (n - 1) = nm ! (n - 1) \<and> take n s = take n nm)"

text \<open>The tests of one entry in the loop of \<open>mfs_dncfind\<close>.\<close>
definition dnc_matches :: "mfs_fid \<Rightarrow> addr \<Rightarrow> addr \<Rightarrow> cstr \<Rightarrow> nat \<Rightarrow> bool \<Rightarrow> mfs_dncent \<Rightarrow> bool" where
  "dnc_matches dvfid dvfsp vw nm n case_insensitive e \<longleftrightarrow>
    dn_len e = n \<and> MFS_FIDEQ (dn_dfid e) dvfid \<and>
    (if ent_flag e MVFS_DNC_RVC_ENT \<and> dn_vfsp e = dvfsp \<and> dn_vvw e = vw then True
     else if dn_dvw e \<noteq> vw \<or> ent_flag e MVFS_DNC_RVC_ENT then False
     else dn_vfsp e = dvfsp) \<and>
    (if case_insensitive then
       if ent_flag e MFS_DNC_CASE_INSENSITIVE then
         (case dn_nm_p e of None \<Rightarrow> False | Some s \<Rightarrow> mvfs_ansi_strcasecmp s nm = 0)
       else \<not> MFS_FIDNULL (dn_vfid e) \<and> names_match e nm n
     else names_match e nm n)"

definition mfs_dncfind :: "mfs_fid \<Rightarrow> addr \<Rightarrow> addr \<Rightarrow> cstr \<Rightarrow> nat \<Rightarrow> bool \<Rightarrow> nat \<Rightarrow> mvfs_dnlc_data \<Rightarrow> nat option" where
  "mfs_dncfind dvfid dvfsp vw nm n case_insensitive hash st =
    List.find (\<lambda>i. dnc_matches dvfid dvfsp vw nm n case_insensitive (mfs_dnc st ! i)) (mfs_dnchash st ! hash)"

section \<open>Build handles\<close>

record dnc_thread =
  thr_bh :: view_bhandle_t
  thr_usereftime :: bool
  thr_bh_ref_time :: timeval

definition bh_none :: view_bhandle_t where
  "bh_none = \<lparr>bh_build_session = 0xffffffff, bh_target_id = 0xffffffff\<rparr>"

definition mfs_dncbhadd :: "view_bhandle_t \<Rightarrow> mfs_dncent \<Rightarrow> mfs_dncent" where
  "mfs_dncbhadd b e =
    (if MFS_BHNULL b then e\<lparr>dn_nullbh := True\<rparr>
     else
       let e = e\<lparr>dn_bh := (dn_bh e)[dn_bhx e := b], dn_bhx := dn_bhx e + 1\<rparr> in
       if dn_bhx e \<ge> MFS_DNCBHMAX then e\<lparr>dn_bhx := 0\<rparr> else e)"

definition mfs_dncbhset :: "view_bhandle_t \<Rightarrow> mfs_dncent \<Rightarrow> mfs_dncent" where
  "mfs_dncbhset b e =
    (let e = e\<lparr>dn_bhx := 0, dn_nullbh := False, dn_bh := replicate MFS_DNCBHMAX bh_none\<rparr> in
     if MFS_BHNULL b then e\<lparr>dn_nullbh := True\<rparr> else e\<lparr>dn_bhx := 1, dn_bh := (dn_bh e)[0 := b]\<rparr>)"

definition mfs_dnc_nullbhcheck :: "dnc_thread \<Rightarrow> mfs_dncent \<Rightarrow> bool" where
  "mfs_dnc_nullbhcheck mth e \<longleftrightarrow> dn_nullbh e \<and> thr_usereftime mth \<and>
    (sint (tv_sec (dn_vevtime e)) < sint (tv_sec (thr_bh_ref_time mth)) \<or>
     tv_sec (dn_vevtime e) = tv_sec (thr_bh_ref_time mth) \<and>
       sint (tv_usec (dn_vevtime e)) \<le> sint (tv_usec (thr_bh_ref_time mth)))"

definition mfs_dncbhcheck :: "dnc_thread \<Rightarrow> mfs_dncent \<Rightarrow> bool" where
  "mfs_dncbhcheck mth e \<longleftrightarrow>
    (if MFS_BHNULL (thr_bh mth) then dn_nullbh e
     else list_ex (\<lambda>b. MFS_BH_SAMECONFIG b (thr_bh mth)) (dn_bh e))"

section \<open>Linking and releasing entries\<close>

text \<open>The ring macros on the lists of the rings: an element is taken out of the ring it is on, and
  inserted behind the head or in front of it.\<close>
definition dnc_rmhash :: "nat \<Rightarrow> mvfs_dnlc_data \<Rightarrow> mvfs_dnlc_data" where
  "dnc_rmhash i st = (set_ent i ((mfs_dnc st ! i)\<lparr>dnc_hash := -1\<rparr>) st)
     \<lparr>mfs_dnchash := map (remove1 i) (mfs_dnchash st)\<rparr>"

definition dnc_inshash :: "nat \<Rightarrow> nat \<Rightarrow> mvfs_dnlc_data \<Rightarrow> mvfs_dnlc_data" where
  "dnc_inshash hash i st = st\<lparr>mfs_dnchash := (mfs_dnchash st)[hash := i # mfs_dnchash st ! hash]\<rparr>"

definition dnc_rmlru :: "nat \<Rightarrow> mvfs_dnlc_data \<Rightarrow> mvfs_dnlc_data" where
  "dnc_rmlru i st = st\<lparr>dnc_lru := \<lambda>l. remove1 i (dnc_lru st l)\<rparr>"

definition dnc_inslru_head :: "nat \<Rightarrow> mvfs_dnlc_data \<Rightarrow> mvfs_dnlc_data" where
  "dnc_inslru_head i st = (let l = dn_lruhead (mfs_dnc st ! i) in
     st\<lparr>dnc_lru := (dnc_lru st)(l := i # dnc_lru st l)\<rparr>)"

definition dnc_inslru_tail :: "nat \<Rightarrow> mvfs_dnlc_data \<Rightarrow> mvfs_dnlc_data" where
  "dnc_inslru_tail i st = (let l = dn_lruhead (mfs_dnc st ! i) in
     st\<lparr>dnc_lru := (dnc_lru st)(l := dnc_lru st l @ [i])\<rparr>)"

text \<open>\<open>dnp->next\<close> is not NULL.\<close>
definition dnc_on_chain :: "nat \<Rightarrow> mvfs_dnlc_data \<Rightarrow> bool" where
  "dnc_on_chain i st \<longleftrightarrow> list_ex (\<lambda>c. i \<in> set c) (mfs_dnchash st)"

definition set_in_trans :: "bool \<Rightarrow> nat \<Rightarrow> mvfs_dnlc_data \<Rightarrow> mvfs_dnlc_data" where
  "set_in_trans b i st = set_ent i ((mfs_dnc st ! i)\<lparr>dn_in_trans := b\<rparr>) st"

text \<open>Off the hash chain, with the count of the names not found that are not known to be missing from
  the directory.\<close>
definition noent_other_ent :: "mfs_dncent \<Rightarrow> bool" where
  "noent_other_ent e \<longleftrightarrow> MFS_FIDNULL (dn_vfid e) \<and> \<not> ent_flag e MFS_DNC_NOTINDIR"

definition dnc_unhash :: "nat \<Rightarrow> mvfs_dnlc_data \<Rightarrow> mvfs_dnlc_data" where
  "dnc_unhash i st =
    (let st = dnc_rmhash i st in
     if noent_other_ent (mfs_dnc st ! i)
     then st\<lparr>mvfs_dnc_noent_other := mvfs_dnc_noent_other st - 1\<rparr> else st)"

definition mfs_dncrele :: "nat \<Rightarrow> mvfs_dnlc_data \<Rightarrow> mvfs_dnlc_data" where
  "mfs_dncrele i st =
    (let e = mfs_dnc st ! i;
         st = (if dn_dvw e \<noteq> NULL then ATRIA_VN_RELE (dn_dvw e) st else st);
         st = (if dn_vvw e \<noteq> NULL then ATRIA_VN_RELE (dn_vvw e) st else st);
         st = (if dn_cred e \<noteq> NULL then MDKI_CRFREE (dn_cred e) st else st) in
     set_ent i (e\<lparr>dn_dvw := NULL, dn_vvw := NULL, dn_cred := NULL, dn_nm_p := None, dn_flags := 0\<rparr>) st)"

text \<open>Off the LRU list, in transit while its resources are released, and back to the head of the list
  for the next add.\<close>
definition dnc_recycle :: "nat \<Rightarrow> mvfs_dnlc_data \<Rightarrow> mvfs_dnlc_data" where
  "dnc_recycle i st =
    dnc_inslru_head i (set_in_trans False i (mfs_dncrele i (set_in_trans True i (dnc_rmlru i st))))"

text \<open>One entry of a flush.\<close>
definition dnc_flush_ent :: "nat \<Rightarrow> mvfs_dnlc_data \<Rightarrow> mvfs_dnlc_data" where
  "dnc_flush_ent i st = dnc_recycle i (if dnc_on_chain i st then dnc_unhash i st else st)"

section \<open>Adding\<close>

text \<open>What the routines read of vnodes, mounts and views.\<close>
record dnc_vnode =
  vn_addr :: addr
  vn_isvob :: bool
  vn_fid :: mfs_fid
  vn_dncgen :: u64
  vn_view :: addr
  vn_vfsp :: addr
  vn_type :: vtype
  vn_evtime :: timeval
  vn_mtime :: timeval
  vn_attrvalid :: bool

record dnc_mmi =
  mmi_nodnlc :: bool
  mmi_ac_regmax :: u64
  mmi_ac_dirmax :: u64
  mmi_svr_uuid :: tbs_uuid_t
  mmi_rootvp :: dnc_vnode

record dnc_env =
  env_mmi :: "addr \<Rightarrow> dnc_mmi"
  env_view_uuid :: "addr \<Rightarrow> tbs_uuid_t"
  env_view_nullvid :: "addr \<Rightarrow> bool"
  env_viewroot :: "mfs_mntinfo option"

record call_data =
  cd_cred :: addr
  cd_thread :: dnc_thread
  cd_ctime :: u64

definition mfs_dnc_inval_case_synonyms :: "mfs_fid \<Rightarrow> addr \<Rightarrow> cstr \<Rightarrow> nat \<Rightarrow> nat \<Rightarrow> mvfs_dnlc_data \<Rightarrow> mvfs_dnlc_data" where
  "mfs_dnc_inval_case_synonyms dvfid vw nm n hash st =
    (let is_syn = (\<lambda>i. let e = mfs_dnc st ! i in
           dn_dvw e = vw \<and> dn_len e = n \<and> MFS_FIDEQ (dn_dfid e) dvfid \<and>
           ent_flag e MFS_DNC_CASE_INSENSITIVE \<and>
           (case dn_nm_p e of None \<Rightarrow> False | Some s \<Rightarrow> mvfs_ansi_strcasecmp s nm = 0));
         syns = filter is_syn (mfs_dnchash st ! hash) in
     DNC_BUMP_VAL Dnc_invalhits (length syns)
       (fold (\<lambda>i st. set_ent i ((mfs_dnc st ! i)\<lparr>dn_invalid := True\<rparr>) st) syns st))"

definition lru_of_type :: "vtype \<Rightarrow> dnclru" where
  "lru_of_type t = (case t of VDIR \<Rightarrow> Dirlru | VNON \<Rightarrow> Noentlru | _ \<Rightarrow> Reglru)"

definition bump_type :: "vtype \<Rightarrow> mvfs_dnlc_data \<Rightarrow> mvfs_dnlc_data" where
  "bump_type t = DNC_BUMP (case t of VDIR \<Rightarrow> Dnc_adddir | VNON \<Rightarrow> Dnc_addnoent | _ \<Rightarrow> Dnc_addreg)"

text \<open>An entry for the name with the same translation exists: it is revalidated, gets the new flags and,
  if needed, the build handle.\<close>
definition dncadd_refresh :: "dnc_vnode \<Rightarrow> u32 \<Rightarrow> dnc_thread \<Rightarrow> mfs_dncent \<Rightarrow> mfs_dncent" where
  "dncadd_refresh dvp dnc_flags mth e =
    (let e = (if dn_invalid e then (mfs_dncbhset (thr_bh mth) e)\<lparr>dn_dncgen := vn_dncgen dvp\<rparr> else e);
         e = e\<lparr>dn_invalid := False\<rparr>;
         e = (if MVFS_FLAGON dnc_flags MFS_DNC_BHINVARIANT then e\<lparr>dn_nullbh := True\<rparr> else e) in
     e\<lparr>dn_flags := ucast dnc_flags\<rparr>)"

definition dncadd_match :: "dnc_vnode \<Rightarrow> u32 \<Rightarrow> vtype \<Rightarrow> dnc_thread \<Rightarrow> nat \<Rightarrow> mvfs_dnlc_data \<Rightarrow> mvfs_dnlc_data" where
  "dncadd_match dvp dnc_flags type mth i st =
    (let e = dncadd_refresh dvp dnc_flags mth (mfs_dnc st ! i);
         noop = (mfs_dnc_nullbhcheck mth e \<or> mfs_dncbhcheck mth e);
         st = set_ent i (if noop then e else mfs_dncbhadd (thr_bh mth) e) st;
         st = bump_type type st;
         st = (if MVFS_FLAGON dnc_flags MFS_DNC_BHINVARIANT then DNC_BUMP Dnc_addbhinvariant st else st) in
     if noop then DNC_BUMP Dnc_addnoop st
     else if \<not> MFS_BHNULL (thr_bh mth) then DNC_BUMP Dnc_addbh st else st)"

text \<open>The entry for the name has another translation: it is given up.\<close>
definition dncadd_displace :: "nat \<Rightarrow> mvfs_dnlc_data \<Rightarrow> mvfs_dnlc_data" where
  "dncadd_displace i st =
    (let st = dnc_unhash i st;
         st = (if \<not> dn_in_trans (mfs_dnc st ! i) then dnc_recycle i st else st) in
     DNC_BUMP Dnc_change st)"

text \<open>The fields of the entry that is used for the new translation.  The allocation of a name that does not fit
  in the entry is taken to succeed.\<close>
definition dncadd_fill :: "dnc_vnode \<Rightarrow> addr \<Rightarrow> u32 \<Rightarrow> cstr \<Rightarrow> nat \<Rightarrow> mfs_fid \<Rightarrow> timeval \<Rightarrow> nat \<Rightarrow> call_data
    \<Rightarrow> mfs_dncent \<Rightarrow> mfs_dncent" where
  "dncadd_fill dvp tvw dnc_flags nm n vfid evt hash cd e =
    (let e = e\<lparr>dn_addtime := cd_ctime cd, dn_invalid := False, dn_flags := ucast dnc_flags, dn_dvw := vn_view dvp,
           dn_vfsp := vn_vfsp dvp, dn_dfid := vn_fid dvp, dn_dncgen := vn_dncgen dvp, dnc_hash := int hash\<rparr>;
         e = mfs_dncbhset (thr_bh (cd_thread cd)) e;
         e = (if MVFS_FLAGON dnc_flags MFS_DNC_BHINVARIANT then e\<lparr>dn_nullbh := True\<rparr> else e) in
     e\<lparr>dn_vfid := vfid, dn_vevtime := evt, dn_vvw := tvw, dn_len := n, dn_nm_p := Some nm,
       dn_nm_inline := (if n < MFS_DNMAXSHORTNAME then take n nm else take (MFS_DNMAXSHORTNAME - 1) nm),
       dn_cred := cd_cred cd\<rparr>)"

text \<open>The least recently used entry of the list for the type is taken for the translation.  The head
  of the list is taken in one step, so the retry of the code does not occur.\<close>
definition dncadd_new :: "dnc_vnode \<Rightarrow> addr \<Rightarrow> u32 \<Rightarrow> cstr \<Rightarrow> nat \<Rightarrow> mfs_fid \<Rightarrow> vtype \<Rightarrow> timeval \<Rightarrow> nat \<Rightarrow> call_data
    \<Rightarrow> mvfs_dnlc_data \<Rightarrow> mvfs_dnlc_data" where
  "dncadd_new dvp tvw dnc_flags nm n vfid type evt hash cd st =
    (case dnc_lru st (lru_of_type type) of [] \<Rightarrow> st
     | i # _ \<Rightarrow>
       let st = (if dnc_on_chain i st then dnc_unhash i st else st);
           st = set_in_trans True i (dnc_rmlru i st);
           st = mfs_dnc_inval_case_synonyms (vn_fid dvp) (vn_view dvp) nm n hash st;
           st = mfs_dncrele i st;
           st = set_ent i (dncadd_fill dvp tvw dnc_flags nm n vfid evt hash cd (mfs_dnc st ! i)) st;
           st = (if vn_view dvp \<noteq> NULL then VN_HOLD (vn_view dvp) st else st);
           st = (if tvw \<noteq> NULL then VN_HOLD tvw st else st);
           st = (if cd_cred cd \<noteq> NULL then MDKI_CRHOLD (cd_cred cd) st else st);
           st = dnc_inshash hash i (dnc_inslru_tail i (set_in_trans False i st));
           st = (if type = VNON \<and> \<not> ent_flag (mfs_dnc st ! i) MFS_DNC_NOTINDIR
                 then st\<lparr>mvfs_dnc_noent_other := mvfs_dnc_noent_other st + 1\<rparr> else st);
           st = bump_type type st;
           st = (if n \<ge> MFS_DNMAXSHORTNAME then DNC_BUMP Dnc_addlong st else st) in
       if MVFS_FLAGON dnc_flags MFS_DNC_BHINVARIANT then DNC_BUMP Dnc_addbhinvariant st else st)"

definition mvfs_dncadd_subr :: "dnc_env \<Rightarrow> dnc_vnode \<Rightarrow> addr \<Rightarrow> u32 \<Rightarrow> cstr \<Rightarrow> nat \<Rightarrow> mfs_fid \<Rightarrow> vtype \<Rightarrow> timeval
    \<Rightarrow> nat \<Rightarrow> call_data \<Rightarrow> mvfs_dnlc_data \<Rightarrow> mvfs_dnlc_data" where
  "mvfs_dncadd_subr env dvp tvw dnc_flags nm n vfid type evt hash cd st =
    (if mfs_dnc_null st then st
     else if \<not> mvfs_dncenabled st then st
     else if \<not> mvfs_dncnoentenabled st \<and> MFS_FIDNULL vfid then st
     else if mmi_nodnlc (env_mmi env (vn_vfsp dvp)) then st
     else
       let st = DNC_BUMP Dnc_add st;
           stvw = (if MVFS_FLAGON dnc_flags MVFS_DNC_RVC_ENT then tvw else vn_view dvp) in
       case mfs_dncfind (vn_fid dvp) (vn_vfsp dvp) stvw nm n False hash st of
         Some i \<Rightarrow>
           if MFS_FIDEQ vfid (dn_vfid (mfs_dnc st ! i)) \<and> MFS_TVEQ evt (dn_vevtime (mfs_dnc st ! i))
           then dncadd_match dvp dnc_flags type (cd_thread cd) i st
           else dncadd_new dvp tvw dnc_flags nm n vfid type evt hash cd (dncadd_displace i st)
       | None \<Rightarrow> dncadd_new dvp tvw dnc_flags nm n vfid type evt hash cd st)"

definition MFS_FID_NULL :: mfs_fid where "MFS_FID_NULL = \<lparr>mf_dbid = 0, mf_gen = 0\<rparr>"

definition dnchash_of :: "mvfs_dnlc_data \<Rightarrow> mfs_fid \<Rightarrow> cstr \<Rightarrow> nat" where
  "dnchash_of st fid nm = MFS_DNCHASH (mvfs_dnchashsize st) fid (fst (mfs_namehash nm)) (snd (mfs_namehash nm))"

definition rvchash_of :: "dnc_env \<Rightarrow> mvfs_dnlc_data \<Rightarrow> addr \<Rightarrow> addr \<Rightarrow> nat" where
  "rvchash_of env st vw vfs =
    MVFS_RVCHASH (mvfs_dnchashsize st) (env_view_uuid env vw) (mmi_svr_uuid (env_mmi env vfs))"

text \<open>\<open>None\<close>: the panic on a name with capitals for a case-insensitive entry, or a scan of the name that
  has left it.\<close>
definition mfs_dncadd :: "dnc_env \<Rightarrow> dnc_vnode \<Rightarrow> u32 \<Rightarrow> cstr \<Rightarrow> dnc_vnode option \<Rightarrow> call_data \<Rightarrow> mvfs_dnlc_data
    \<Rightarrow> mvfs_dnlc_data option" where
  "mfs_dncadd env dvp dnc_flags nm vp cd st =
    (let (vfid, vevtime) = (case vp of Some v \<Rightarrow> (vn_fid v, vn_evtime v) | None \<Rightarrow> (MFS_FID_NULL, timeval_zero)) in
     if MVFS_FLAGON dnc_flags MFS_DNC_CASE_INSENSITIVE \<and> mvfs_ansi_str_islower nm \<noteq> Some True then None
     else if nm = [] then Some st
     else Some (mvfs_dncadd_subr env dvp (case vp of Some v \<Rightarrow> vn_view v | None \<Rightarrow> NULL) dnc_flags nm
       (snd (mfs_namehash nm)) vfid (case vp of Some v \<Rightarrow> vn_type v | None \<Rightarrow> VNON) vevtime
       (dnchash_of st (vn_fid dvp) nm) cd st))"

definition mfs_dnc_add_flag :: "dnc_env \<Rightarrow> dnc_vnode \<Rightarrow> cstr \<Rightarrow> timeval \<Rightarrow> u32 \<Rightarrow> mvfs_dnlc_data \<Rightarrow> mvfs_dnlc_data" where
  "mfs_dnc_add_flag env dvp nm dtm dnc_flags st =
    (if mfs_dnc_null st then st
     else if \<not> mvfs_dncenabled st then st
     else if mmi_nodnlc (env_mmi env (vn_vfsp dvp)) then st
     else if \<not> vn_isvob dvp then st
     else if \<not> vn_attrvalid dvp \<or> \<not> MFS_TVEQ dtm (vn_mtime dvp) then st
     else if nm = [] then st
     else case mfs_dncfind (vn_fid dvp) (vn_vfsp dvp) (vn_view dvp) nm (length nm) False
         (dnchash_of st (vn_fid dvp) nm) st of
       None \<Rightarrow> st
     | Some i \<Rightarrow>
         let e = (mfs_dnc st ! i)\<lparr>dn_flags := dn_flags (mfs_dnc st ! i) OR ucast dnc_flags\<rparr> in
         set_ent i (if MVFS_FLAGON dnc_flags MFS_DNC_BHINVARIANT then e\<lparr>dn_nullbh := True\<rparr> else e) st)"

section \<open>Removing, flushing, invalidating\<close>

definition set_invalid :: "mfs_dncent \<Rightarrow> mfs_dncent" where
  "set_invalid e = e\<lparr>dn_invalid := True, dn_nullbh := False\<rparr>"

definition mfs_dncremove_one :: "dnc_env \<Rightarrow> dnc_vnode \<Rightarrow> cstr \<Rightarrow> mvfs_dnlc_data \<Rightarrow> int \<times> mvfs_dnlc_data" where
  "mfs_dncremove_one env dvp nm st =
    (if mfs_dnc_null st then (1, st)
     else if \<not> mvfs_dncenabled st then (1, st)
     else if mmi_nodnlc (env_mmi env (vn_vfsp dvp)) then (1, st)
     else if nm = [] then (0, st)
     else
       let hash = dnchash_of st (vn_fid dvp) nm; n = length nm;
           vw = vn_view dvp; rvchash = rvchash_of env st vw (vn_vfsp dvp);
           vobrtfid = vn_fid (mmi_rootvp (env_mmi env (vn_vfsp dvp))) in
       case mfs_dncfind (vn_fid dvp) (vn_vfsp dvp) vw nm n False hash st of
         None \<Rightarrow> (0, mfs_dnc_inval_case_synonyms (vn_fid dvp) vw nm n hash st)
       | Some i \<Rightarrow>
           let st = dnc_unhash i st in
           if dn_in_trans (mfs_dnc st ! i) then (0, st)
           else
             let st = set_in_trans True i (dnc_rmlru i st);
                 st = mfs_dnc_inval_case_synonyms (vn_fid dvp) vw nm n hash st;
                 namefid = dn_vfid (mfs_dnc st ! i);
                 rvc = (if dn_lruhead (mfs_dnc st ! i) = Dirlru
                   then mfs_dncfind vobrtfid (vn_vfsp dvp) vw [46] 1 False rvchash st else None);
                 inval_rvc = (case rvc of None \<Rightarrow> False | Some r \<Rightarrow> MFS_FIDEQ (dn_vfid (mfs_dnc st ! r)) namefid);
                 st = (if inval_rvc then set_ent (the rvc) (set_invalid (mfs_dnc st ! the rvc)) st else st);
                 st = dnc_inslru_head i (set_in_trans False i (mfs_dncrele i st)) in
             (1, if inval_rvc then DNC_BUMP Dnc_invalhits st else st))"

text \<open>Both the name and its history mode form; the result is that for the plain name.\<close>
definition mfs_dncremove :: "dnc_env \<Rightarrow> bool \<Rightarrow> dnc_vnode \<Rightarrow> cstr \<Rightarrow> mvfs_dnlc_data \<Rightarrow> int \<times> mvfs_dnlc_data" where
  "mfs_dncremove env alloc dvp nm st =
    (case mfs_hmname (env_viewroot env) nm of
       (True, Some xnm) \<Rightarrow>
         (case mfs_dncremove_one env dvp xnm st of (rval, st) \<Rightarrow> (rval, snd (mfs_dncremove_one env dvp nm st)))
     | _ \<Rightarrow>
         (case mfs_dncremove_one env dvp nm st of (rval, st) \<Rightarrow>
           (rval, case mfs_hmappend (env_viewroot env) alloc nm of None \<Rightarrow> st
              | Some xnm \<Rightarrow> snd (mfs_dncremove_one env dvp xnm st))))"

text \<open>One entry of the loop of \<open>mvfs_dncflush_subr\<close>; \<open>dropped\<close> is its count of entries in transit, or -1
  once an entry was flushed.\<close>
definition flush_step :: "addr \<Rightarrow> nat \<Rightarrow> int \<times> mvfs_dnlc_data \<Rightarrow> int \<times> mvfs_dnlc_data" where
  "flush_step vfs i ds = (case ds of (dropped, st) \<Rightarrow>
    (let e = mfs_dnc st ! i in
     if dn_in_trans e then (if dropped \<noteq> -1 then dropped + 1 else dropped, st)
     else if UNUSED e then (dropped, st)
     else if vfs \<noteq> NULL \<and> dn_vfsp e \<noteq> vfs then (dropped, st)
     else (-1, dnc_flush_ent i st)))"

definition mvfs_dncflush_subr :: "addr \<Rightarrow> mvfs_dnlc_data \<Rightarrow> int \<times> mvfs_dnlc_data" where
  "mvfs_dncflush_subr vfs st =
    (if mfs_dnc_null st then (0, st)
     else case fold (flush_step vfs) [0..<mfs_dncmax st] (0, st) of (dropped, st) \<Rightarrow>
       (dropped, if vfs = NULL then DNC_BUMP Dnc_flush st else st))"

definition mfs_dncflush :: "mvfs_dnlc_data \<Rightarrow> mvfs_dnlc_data" where
  "mfs_dncflush st = (if mfs_dnc_null st then st else snd (mvfs_dncflush_subr NULL st))"

definition flushvw_step :: "addr \<Rightarrow> nat \<Rightarrow> mvfs_dnlc_data \<Rightarrow> mvfs_dnlc_data" where
  "flushvw_step vw i st =
    (let e = mfs_dnc st ! i in
     if dn_in_trans e then st
     else if UNUSED e then st
     else if dn_dvw e \<noteq> vw \<and> dn_vvw e \<noteq> vw then st
     else dnc_flush_ent i st)"

definition mfs_dnc_flushvw :: "addr \<Rightarrow> mvfs_dnlc_data \<Rightarrow> mvfs_dnlc_data" where
  "mfs_dnc_flushvw vw st =
    (if mfs_dnc_null st then st
     else DNC_BUMP Dnc_flushvw (fold (flushvw_step vw) [0..<mfs_dncmax st] st))"

definition mvfs_dnc_flushvfs :: "addr \<Rightarrow> mvfs_dnlc_data \<Rightarrow> mvfs_dnlc_data" where
  "mvfs_dnc_flushvfs vfs st =
    (if mfs_dnc_null st then st else DNC_BUMP Dnc_flushvfs (snd (mvfs_dncflush_subr vfs st)))"

text \<open>The loops that invalidate: entries in transit and unused ones are skipped, \<open>j\<close> counts the hits.\<close>
definition inval_hits :: "(mfs_dncent \<Rightarrow> bool) \<Rightarrow> nat \<Rightarrow> nat \<Rightarrow> mvfs_dnlc_data \<Rightarrow> nat list" where
  "inval_hits P lo hi st = filter (\<lambda>i. \<not> dn_in_trans (mfs_dnc st ! i) \<and> \<not> UNUSED (mfs_dnc st ! i) \<and> P (mfs_dnc st ! i)) [lo..<hi]"

definition inval_loop :: "(mfs_dncent \<Rightarrow> bool) \<Rightarrow> nat \<Rightarrow> nat \<Rightarrow> mvfs_dnlc_data \<Rightarrow> nat \<times> mvfs_dnlc_data" where
  "inval_loop P lo hi st =
    (let hits = inval_hits P lo hi st in
     (length hits, fold (\<lambda>i st. set_ent i (set_invalid (mfs_dnc st ! i)) st) hits st))"

definition mfs_dnc_invalvp :: "dnc_vnode \<Rightarrow> mvfs_dnlc_data \<Rightarrow> mvfs_dnlc_data" where
  "mfs_dnc_invalvp vp st =
    (if mfs_dnc_null st then st
     else if \<not> vn_isvob vp then st
     else case inval_loop (\<lambda>e. dn_vfsp e = vn_vfsp vp \<and>
           (dn_dvw e = vn_view vp \<and> MFS_FIDEQ (dn_dfid e) (vn_fid vp) \<or>
            dn_vvw e = vn_view vp \<and> MFS_FIDEQ (dn_vfid e) (vn_fid vp))) 0 (mfs_dncmax st) st of
       (j, st) \<Rightarrow> DNC_BUMP_VAL Dnc_invalhits j (DNC_BUMP Dnc_invalvp st))"

definition mfs_dnc_inval_obj_not_found :: "mvfs_dnlc_data \<Rightarrow> mvfs_dnlc_data" where
  "mfs_dnc_inval_obj_not_found st =
    (if mfs_dnc_null st then st
     else if mvfs_dnc_noent_other st = 0 then st
     else case inval_loop (\<lambda>e. \<not> ent_flag e MFS_DNC_NOTINDIR) (mfs_dnc_enoent_start st) (mfs_dncmax st) st of
       (j, st) \<Rightarrow> DNC_BUMP_VAL Dnc_invalhits j (DNC_BUMP Dnc_invalnf st))"

definition mfs_dnc_invalvw :: "addr \<Rightarrow> mvfs_dnlc_data \<Rightarrow> mvfs_dnlc_data" where
  "mfs_dnc_invalvw vw st =
    (if mfs_dnc_null st then st
     else case inval_loop (\<lambda>e. dn_dvw e = vw \<or> dn_vvw e = vw) 0 (mfs_dncmax st) st of
       (j, st) \<Rightarrow> DNC_BUMP_VAL Dnc_invalhits j (DNC_BUMP Dnc_invalvw st))"

text \<open>Only the entries for directories are searched.\<close>
definition mvfs_rvcflush :: "addr \<Rightarrow> addr \<Rightarrow> mvfs_dnlc_data \<Rightarrow> mvfs_dnlc_data" where
  "mvfs_rvcflush vw vfs st =
    (if mfs_dnc_null st then st
     else case inval_loop (\<lambda>e. dn_vvw e = vw \<and> ent_flag e MVFS_DNC_RVC_ENT \<and> (vfs = NULL \<or> vfs = dn_vfsp e))
         0 (mvfs_dncdirmax st) st of
       (j, st) \<Rightarrow> DNC_BUMP_VAL Dnc_invalhits j (DNC_BUMP_VAL Rvc_purge j st))"

section \<open>Looking up\<close>

text \<open>What a lookup needs of the rest of the module: the vnode of a file identifier (held; theory of
  mnodes), whether cached attributes have timed out, and a fetch of fresh ones, which returns an error
  or the new event time and may invalidate names.\<close>
record dnc_ops =
  op_getvnode :: "addr \<Rightarrow> addr \<Rightarrow> mfs_fid \<Rightarrow> int \<times> dnc_vnode"
  op_ac_timedout :: "dnc_vnode \<Rightarrow> bool"
  op_clnt_getattr :: "dnc_vnode \<Rightarrow> mvfs_dnlc_data \<Rightarrow> int \<times> timeval \<times> mvfs_dnlc_data"

definition mfs_evtime_valid :: "dnc_ops \<Rightarrow> dnc_vnode \<Rightarrow> timeval \<Rightarrow> mvfs_dnlc_data \<Rightarrow> bool \<times> mvfs_dnlc_data" where
  "mfs_evtime_valid ops vp tv st =
    (let vobmod = (tv_sec tv \<noteq> tv_sec (vn_evtime vp) \<or> tv_usec tv \<noteq> tv_usec (vn_evtime vp)) in
     if \<not> vobmod \<and> op_ac_timedout ops vp then
       (case op_clnt_getattr ops vp st of (error, evtime, st) \<Rightarrow>
          if error \<noteq> 0 then (False, st)
          else (\<not> (tv_sec tv \<noteq> tv_sec evtime \<or> tv_usec tv \<noteq> tv_usec evtime), st))
     else (\<not> vobmod, st))"

text \<open>The view of the result is held for the caller when it asks for it.\<close>
definition mvfs_dnclookup_subr :: "nat \<Rightarrow> bool \<Rightarrow> dnc_thread \<Rightarrow> mvfs_dnlc_data \<Rightarrow> (int \<times> addr) \<times> mvfs_dnlc_data" where
  "mvfs_dnclookup_subr i want_view mth st =
    (let e = mfs_dnc st ! i in
     if dn_invalid e then ((1, NULL), DNC_BUMP Dnc_missinvalid (DNC_BUMP Dnc_misses st))
     else if \<not> mfs_dnc_nullbhcheck mth e \<and> \<not> mfs_dncbhcheck mth e
       then ((1, NULL), DNC_BUMP Dnc_missbh (DNC_BUMP Dnc_misses st))
     else
       let st = (if mfs_dnc_nullbhcheck mth e then DNC_BUMP Dnc_hitbhfromnull st else st) in
       if \<not> dn_in_trans e then
         let st = dnc_inslru_tail i (dnc_rmlru i st) in
         if want_view then ((0, dn_vvw e), if dn_vvw e \<noteq> NULL then VN_HOLD (dn_vvw e) st else st)
         else ((0, NULL), st)
       else ((1, NULL), st))"

datatype dnc_result = DncMiss | DncEnoent | DncVp dnc_vnode

text \<open>The case-sensitive lookup; with \<open>MVFS_PN_CI_LOOKUP\<close> the code searches without regard to case and reports the
  name it has found.\<close>
definition mfs_dnclookup :: "dnc_env \<Rightarrow> dnc_ops \<Rightarrow> bool \<Rightarrow> dnc_vnode \<Rightarrow> cstr \<Rightarrow> call_data \<Rightarrow> mvfs_dnlc_data
    \<Rightarrow> dnc_result \<times> mvfs_dnlc_data" where
  "mfs_dnclookup env ops alloc dvp nm cd st =
    (if mfs_dnc_null st then (DncMiss, st)
     else if \<not> mvfs_dncenabled st then (DncMiss, st)
     else if mmi_nodnlc (env_mmi env (vn_vfsp dvp)) then (DncMiss, st)
     else if nm = [46] then
       (DncVp dvp, VN_HOLD (vn_addr dvp) (DNC_BUMP Dnc_hitdot (DNC_BUMP Dnc_hits st)))
     else
       let miss = (\<lambda>why st. (DncMiss, DNC_BUMP why (DNC_BUMP Dnc_misses st))) in
       case mfs_dncfind (vn_fid dvp) (vn_vfsp dvp) (vn_view dvp) nm (length nm) False
           (dnchash_of st (vn_fid dvp) nm) st of
         None \<Rightarrow> (DncMiss, DNC_BUMP Dnc_misses st)
       | Some i \<Rightarrow> (case mvfs_dnclookup_subr i True (cd_thread cd) st of ((error, vvw), st) \<Rightarrow>
           let e = mfs_dnc st ! i in
           if error \<noteq> 0 then (DncMiss, st)
           else if vn_dncgen dvp \<noteq> dn_dncgen e then
             let st = mfs_dnc_invalvp dvp st in
             miss Dnc_missdncgen (if vvw \<noteq> NULL then ATRIA_VN_RELE vvw st else st)
           else if MFS_FIDNULL (dn_vfid e) then
             if \<not> mvfs_dncnoentenabled st then (DncMiss, DNC_BUMP Dnc_misses st)
             else if ent_flag e MFS_DNC_NOTINDIR \<or>
               sint (cd_ctime cd) \<le> sint (dn_addtime e + mmi_ac_regmax (env_mmi env (vn_vfsp dvp)))
             then (DncEnoent, DNC_BUMP Dnc_hitnoent (DNC_BUMP Dnc_hits st))
             else miss Dnc_missnoenttimedout (snd (mfs_dncremove env alloc dvp nm st))
           else
             (case op_getvnode ops (vn_vfsp dvp) vvw (dn_vfid e) of (error, vp) \<Rightarrow>
               let st = (if vvw \<noteq> NULL then ATRIA_VN_RELE vvw st else st) in
               if error \<noteq> 0 then miss Dnc_missnovp (snd (mfs_dncremove env alloc dvp nm st))
               else
                 let st = VN_HOLD (vn_addr vp) st in
                 (case mfs_evtime_valid ops vp (dn_vevtime e) st of (valid, st) \<Rightarrow>
                   if \<not> valid then
                     miss Dnc_missevtime (snd (mfs_dncremove env alloc dvp nm (ATRIA_VN_RELE (vn_addr vp) st)))
                   else (DncVp vp, DNC_BUMP (if vn_type vp = VDIR then Dnc_hitdir else Dnc_hitreg)
                     (DNC_BUMP Dnc_hits st))))))"

text \<open>The version of the VOB root that a view selects; the result is the error with the identifier.\<close>
definition mvfs_rvclookup :: "dnc_env \<Rightarrow> addr \<Rightarrow> dnc_vnode \<Rightarrow> mfs_fid \<Rightarrow> call_data \<Rightarrow> mvfs_dnlc_data
    \<Rightarrow> (int \<times> mfs_fid) \<times> mvfs_dnlc_data" where
  "mvfs_rvclookup env vw vobrtvp fid cd st =
    (if mfs_dnc_null st then ((ENOENT, fid), st)
     else if \<not> mvfs_dncenabled st then ((ENOENT, fid), st)
     else if mmi_nodnlc (env_mmi env (vn_vfsp vobrtvp)) then ((ENOENT, fid), st)
     else if \<not> mvfs_rvcenabled st then ((ENOENT, fid), DNC_BUMP Rvc_misses st)
     else if env_view_nullvid env vw then ((ESTALE, fid), st)
     else case mfs_dncfind (vn_fid vobrtvp) (vn_vfsp vobrtvp) vw [46] 1 False
         (rvchash_of env st vw (vn_vfsp vobrtvp)) st of
       None \<Rightarrow> ((ENOENT, fid), DNC_BUMP Rvc_misses st)
     | Some i \<Rightarrow> (case mvfs_dnclookup_subr i False (cd_thread cd) st of ((error, _), st) \<Rightarrow>
         let e = mfs_dnc st ! i; fid = dn_vfid e;
             error = (if \<not> ent_flag e MVFS_DNC_RVC_ENT then ENOENT else error) in
         if error \<noteq> 0 \<or> MFS_FIDNULL fid then ((ENOENT, fid), DNC_BUMP Rvc_misses st)
         else if tv_sec (dn_vevtime e) + mmi_ac_dirmax (env_mmi env (vn_vfsp vobrtvp)) < cd_ctime cd
         then ((ENOENT, fid), DNC_BUMP Rvc_misstimo (DNC_BUMP Rvc_misses st))
         else ((0, fid), DNC_BUMP Rvc_hits st)))"

definition mvfs_rvcenter :: "dnc_env \<Rightarrow> addr \<Rightarrow> dnc_vnode \<Rightarrow> mfs_fid \<Rightarrow> call_data \<Rightarrow> mvfs_dnlc_data \<Rightarrow> mvfs_dnlc_data" where
  "mvfs_rvcenter env vw vobrtvp fid cd st =
    mvfs_dncadd_subr env (mmi_rootvp (env_mmi env (vn_vfsp vobrtvp))) vw MVFS_DNC_RVC_ENT [46] 1 fid VDIR
      \<lparr>tv_sec = cd_ctime cd, tv_usec = 0\<rparr> (rvchash_of env st vw (vn_vfsp vobrtvp)) cd st"

section \<open>Setting up and resizing\<close>

text \<open>An entry of a zeroed array.\<close>
definition dnc_zero :: mfs_dncent where
  "dnc_zero = \<lparr>dn_addtime = 0, dn_lruhead = Dirlru, dn_in_trans = False, dn_nullbh = False, dn_invalid = False, dn_bhx = 0,
     dn_flags = 0, dn_dvw = NULL, dn_vfsp = NULL, dn_dfid = MFS_FID_NULL, dn_dncgen = 0,
     dn_bh = replicate MFS_DNCBHMAX \<lparr>bh_build_session = 0, bh_target_id = 0\<rparr>, dn_len = 0, dn_nm_p = None,
     dn_nm_inline = [], dn_vvw = NULL, dn_vfid = MFS_FID_NULL, dn_vevtime = timeval_zero, dn_cred = NULL, dnc_hash = 0\<rparr>"

definition lru_of_index :: "mvfs_dnlc_data \<Rightarrow> nat \<Rightarrow> dnclru" where
  "lru_of_index st i = (if i < mvfs_dncdirmax st then Dirlru
     else if i < mvfs_dncdirmax st + mvfs_dncregmax st then Reglru else Noentlru)"

text \<open>The allocations of the hash table: of the size computed, then of the least size.  Every entry is
  put at the head of its list, so a list starts with its last entry.\<close>
definition mvfs_dnclist_init :: "bool \<Rightarrow> bool \<Rightarrow> mvfs_dnlc_data \<Rightarrow> int \<times> mvfs_dnlc_data" where
  "mvfs_dnclist_init alloc alloc_min st =
    (let st = st\<lparr>mfs_dncmax := mvfs_dncdirmax st + mvfs_dncregmax st + mvfs_dncnoentmax st,
           mfs_dnc_enoent_start := mvfs_dncdirmax st + mvfs_dncregmax st\<rparr>;
         st = st\<lparr>mvfs_dnchashsize := mvfs_find_dnchashsize (mfs_dncmax st)\<rparr>;
         st = (if alloc then st else st\<lparr>mvfs_dnchashsize := MFS_DNCHASHMIN\<rparr>) in
     if \<not> alloc \<and> \<not> alloc_min then (ENOMEM, st)
     else
       let ids = [0..<mfs_dncmax st] in
       (0, st\<lparr>mfs_dnchash := replicate (mvfs_dnchashsize st) [],
         dnc_lru := \<lambda>l. rev (filter (\<lambda>i. lru_of_index st i = l) ids),
         mfs_dnc := map (\<lambda>i. (mfs_dnc st ! i)\<lparr>dn_lruhead := lru_of_index st i, dn_nm_p := Some [], dnc_hash := -1\<rparr>) ids\<rparr>))"

definition DIRMAX_FORMULA :: "int \<Rightarrow> int" where "DIRMAX_FORMULA scale = 200 * (scale + 1)"
definition REGMAX_FORMULA :: "int \<Rightarrow> int" where "REGMAX_FORMULA scale = 800 * (scale + 1)"
definition NOENTMAX_FORMULA :: "int \<Rightarrow> int" where "NOENTMAX_FORMULA scale = 800 * (scale + 1)"

text \<open>Sizes that are not configured follow the scale.\<close>
definition dncinit_sizes :: "int \<Rightarrow> mvfs_dnlc_data \<Rightarrow> mvfs_dnlc_data" where
  "dncinit_sizes largeinit st =
    (let st = (if mvfs_dncdirmax st = 0 then st\<lparr>mvfs_dncdirmax := nat (DIRMAX_FORMULA largeinit)\<rparr> else st);
         st = (if mvfs_dncregmax st = 0 then st\<lparr>mvfs_dncregmax := nat (REGMAX_FORMULA largeinit)\<rparr> else st);
         st = (if mvfs_dncnoentmax st = 0 then st\<lparr>mvfs_dncnoentmax := nat (NOENTMAX_FORMULA largeinit)\<rparr> else st) in
     st\<lparr>mfs_dncmax := mvfs_dncdirmax st + mvfs_dncregmax st + mvfs_dncnoentmax st\<rparr>)"

text \<open>The part from \<open>retry\<close> on.  \<open>alloc n\<close> tells whether an array of \<open>n\<close> entries can be had.  The result has
  the scale that was used.\<close>
function dncinit_retry :: "(nat \<Rightarrow> bool) \<Rightarrow> bool \<Rightarrow> bool \<Rightarrow> int \<Rightarrow> mvfs_dnlc_data \<Rightarrow> int \<times> int \<times> mvfs_dnlc_data" where
  "dncinit_retry alloc halloc halloc_min largeinit st =
    (let st = dncinit_sizes largeinit st;
         st0 = st\<lparr>mvfs_dncdirmax := 0, mvfs_dncregmax := 0, mvfs_dncnoentmax := 0\<rparr> in
     if mfs_dncmax st = 0 then (0, largeinit, st)
     else if \<not> alloc (mfs_dncmax st) then
       if largeinit > 1 then dncinit_retry alloc halloc halloc_min 1 st0
       else if largeinit \<noteq> 0 then dncinit_retry alloc halloc halloc_min 0 st0
       else (ENOMEM, largeinit, st\<lparr>mfs_dncmax := 0\<rparr>)
     else
       let st = st\<lparr>mfs_dnc := replicate (mfs_dncmax st) dnc_zero, mfs_dnc_null := False\<rparr> in
       case mvfs_dnclist_init halloc halloc_min st of (err, st) \<Rightarrow>
         (err, largeinit, st))"
  by pat_completeness auto
termination
  by (relation "measure (\<lambda>(_, _, _, largeinit, _). if largeinit > 1 then 2 else if largeinit \<noteq> 0 then 1 else 0)") auto

definition MVFS_SETCACHE_DNCDIRMAX :: nat where "MVFS_SETCACHE_DNCDIRMAX = 1"
definition MVFS_SETCACHE_DNCREGMAX :: nat where "MVFS_SETCACHE_DNCREGMAX = 2"
definition MVFS_SETCACHE_DNCNOENTMAX :: nat where "MVFS_SETCACHE_DNCNOENTMAX = 3"
definition MVFS_SETCACHE_DNCHASHTAB_SZ :: nat where "MVFS_SETCACHE_DNCHASHTAB_SZ = 13"

definition MVFS_SIZE_DEFLOAD :: "mvfs_cache_sizes_t \<Rightarrow> nat \<Rightarrow> nat \<Rightarrow> nat" where
  "MVFS_SIZE_DEFLOAD sz b def = (if MVFS_SIZE_VALID sz b then unat (sz_size sz ! b) else def)"

text \<open>The sizes in force before are restored when no memory is found.\<close>
definition mvfs_dncinit :: "(nat \<Rightarrow> bool) \<Rightarrow> bool \<Rightarrow> bool \<Rightarrow> int \<Rightarrow> mvfs_cache_sizes_t \<Rightarrow> mvfs_dnlc_data
    \<Rightarrow> int \<times> int \<times> mvfs_dnlc_data" where
  "mvfs_dncinit alloc halloc halloc_min largeinit sizes st =
    (let st1 = st\<lparr>mfs_dnc_null := True, mvfs_dnchashsize := MFS_DNCHASHMIN, mfs_dnchash := [], mfs_dncmax := 0,
           mfs_dnc_enoent_start := 0, mvfs_dnc_noent_other := 0,
           mvfs_dncdirmax := MVFS_SIZE_DEFLOAD sizes MVFS_SETCACHE_DNCDIRMAX 0,
           mvfs_dncregmax := MVFS_SIZE_DEFLOAD sizes MVFS_SETCACHE_DNCREGMAX 0,
           mvfs_dncnoentmax := MVFS_SIZE_DEFLOAD sizes MVFS_SETCACHE_DNCNOENTMAX 0\<rparr> in
     case dncinit_retry alloc halloc halloc_min largeinit st1 of (err, largeinit, st') \<Rightarrow>
       (err, largeinit,
        if err = ENOMEM \<and> mfs_dncmax st' = 0
        then st'\<lparr>mvfs_dncdirmax := mvfs_dncdirmax st, mvfs_dncregmax := mvfs_dncregmax st,
          mvfs_dncnoentmax := mvfs_dncnoentmax st\<rparr>
        else st'))"

definition MVFS_SIZE_RUNTIME_SET :: "mvfs_cache_sizes_t \<Rightarrow> nat \<Rightarrow> nat \<Rightarrow> nat" where
  "MVFS_SIZE_RUNTIME_SET sz b cur = (if MVFS_SIZE_VALID sz b then unat (sz_size sz ! b) else cur)"

definition size_report :: "nat \<Rightarrow> nat \<Rightarrow> mvfs_cache_sizes_t \<Rightarrow> mvfs_cache_sizes_t" where
  "size_report b v sz = (if MVFS_SIZE_PRESENT sz b then sz\<lparr>sz_size := (sz_size sz)[b := of_nat v]\<rparr> else sz)"

text \<open>Without entries in transit the old array is freed at once.  The error of the list setup is
  ignored.\<close>
definition mvfs_dnc_setcaches :: "bool \<Rightarrow> bool \<Rightarrow> bool \<Rightarrow> mvfs_cache_sizes_t \<Rightarrow> mvfs_dnlc_data
    \<Rightarrow> int \<times> mvfs_cache_sizes_t \<times> mvfs_dnlc_data" where
  "mvfs_dnc_setcaches alloc halloc halloc_min szp st =
    (let same = (\<lambda>b cur. \<not> MVFS_SIZE_VALID szp b \<or> unat (sz_size szp ! b) = cur) in
     if same MVFS_SETCACHE_DNCDIRMAX (mvfs_dncdirmax st) \<and> same MVFS_SETCACHE_DNCREGMAX (mvfs_dncregmax st) \<and>
       same MVFS_SETCACHE_DNCNOENTMAX (mvfs_dncnoentmax st) then (0, szp, st)
     else
       let dirmax = MVFS_SIZE_RUNTIME_SET szp MVFS_SETCACHE_DNCDIRMAX (mvfs_dncdirmax st);
           regmax = MVFS_SIZE_RUNTIME_SET szp MVFS_SETCACHE_DNCREGMAX (mvfs_dncregmax st);
           noentmax = MVFS_SIZE_RUNTIME_SET szp MVFS_SETCACHE_DNCNOENTMAX (mvfs_dncnoentmax st) in
       if \<not> alloc then (ENOMEM, szp, st)
       else case mvfs_dncflush_subr NULL st of (rval, st) \<Rightarrow>
         if rval = -1 then (EBUSY, szp, st)
         else
           let st = st\<lparr>mfs_dnc := replicate (dirmax + regmax + noentmax) dnc_zero, mfs_dnc_null := False,
                 mvfs_dncdirmax := dirmax, mvfs_dncregmax := regmax, mvfs_dncnoentmax := noentmax\<rparr>;
               st = snd (mvfs_dnclist_init halloc halloc_min st) in
           (0, size_report MVFS_SETCACHE_DNCNOENTMAX noentmax (size_report MVFS_SETCACHE_DNCREGMAX regmax
             (size_report MVFS_SETCACHE_DNCDIRMAX dirmax szp)), st))"

definition mvfs_dnc_getcaches :: "mvfs_cache_sizes_t \<Rightarrow> mvfs_dnlc_data \<Rightarrow> mvfs_cache_sizes_t" where
  "mvfs_dnc_getcaches szp st = szp\<lparr>sz_size := (sz_size szp)
     [MVFS_SETCACHE_DNCDIRMAX := of_nat (mvfs_dncdirmax st), MVFS_SETCACHE_DNCREGMAX := of_nat (mvfs_dncregmax st),
      MVFS_SETCACHE_DNCNOENTMAX := of_nat (mvfs_dncnoentmax st), MVFS_SETCACHE_DNCHASHTAB_SZ := of_nat (mvfs_dnchashsize st)]\<rparr>"

definition size_fill_in :: "nat \<Rightarrow> (mvfs_cache_sizes_t \<Rightarrow> u32) \<Rightarrow> mvfs_cache_sizes_t \<Rightarrow> mvfs_cache_sizes_t" where
  "size_fill_in b formula szp =
    (if sz_mask szp AND push_bit b 1 = 0
     then szp\<lparr>sz_size := (sz_size szp)[b := formula szp], sz_mask := sz_mask szp OR push_bit b 1\<rparr> else szp)"

definition mvfs_dnc_compute_caches :: "int \<Rightarrow> mvfs_cache_sizes_t \<Rightarrow> mvfs_cache_sizes_t" where
  "mvfs_dnc_compute_caches scale szp =
    size_fill_in MVFS_SETCACHE_DNCHASHTAB_SZ (\<lambda>szp. of_nat (mvfs_find_dnchashsize (unat
        (sz_size szp ! MVFS_SETCACHE_DNCDIRMAX + sz_size szp ! MVFS_SETCACHE_DNCREGMAX
          + sz_size szp ! MVFS_SETCACHE_DNCNOENTMAX))))
      (size_fill_in MVFS_SETCACHE_DNCNOENTMAX (\<lambda>_. word_of_int (NOENTMAX_FORMULA scale))
        (size_fill_in MVFS_SETCACHE_DNCREGMAX (\<lambda>_. word_of_int (REGMAX_FORMULA scale))
          (size_fill_in MVFS_SETCACHE_DNCDIRMAX (\<lambda>_. word_of_int (DIRMAX_FORMULA scale)) szp)))"

text \<open>The entries in use: directories, other files, names not found.\<close>
definition dnc_counted :: "mfs_dncent \<Rightarrow> bool" where
  "dnc_counted e \<longleftrightarrow> \<not> dn_in_trans e \<and> \<not> dn_invalid e \<and> \<not> UNUSED e"

definition mvfs_dnc_count :: "mvfs_dnlc_data \<Rightarrow> nat \<times> nat \<times> nat" where
  "mvfs_dnc_count st =
    (let used = filter (\<lambda>i. dnc_counted (mfs_dnc st ! i)) [0..<mfs_dncmax st];
         noents = filter (\<lambda>i. MFS_FIDNULL (dn_vfid (mfs_dnc st ! i))) used;
         found = filter (\<lambda>i. \<not> MFS_FIDNULL (dn_vfid (mfs_dnc st ! i))) used in
     (length (filter (\<lambda>i. i < mvfs_dncdirmax st) found), length (filter (\<lambda>i. \<not> i < mvfs_dncdirmax st) found),
      length noents))"

end
