(* ===== verification/Mvfs_Dnc_Inv.thy ===== *)
theory Mvfs_Dnc_Inv
  imports Mvfs_Dnc
begin

text \<open>The invariant of the name cache and its preservation: the rings hold exactly the entries they
  should, every entry on a chain is on the chain of its key and has room for its build handles, keys are unique,
  free entries hold nothing,
  and the holds on vnodes and credentials are those of the entries.  The operations are brought to two
  net effects, giving an entry up and filling one, and to changes of the fields the invariant does not
  look at.\<close>

section \<open>The invariant\<close>

text \<open>The key an entry is found by; the first component tells the root version entries apart.\<close>
type_synonym dnc_key = "bool \<times> addr \<times> addr \<times> mfs_fid \<times> cstr"

definition ent_key :: "mfs_dncent \<Rightarrow> dnc_key" where
  "ent_key e = (ent_flag e MVFS_DNC_RVC_ENT, if ent_flag e MVFS_DNC_RVC_ENT then dn_vvw e else dn_dvw e,
     dn_vfsp e, dn_dfid e, the (dn_nm_p e))"

definition linked :: "mfs_dncent \<Rightarrow> bool" where "linked e \<longleftrightarrow> dnc_hash e \<noteq> -1"

definition released :: "mfs_dncent \<Rightarrow> bool" where
  "released e \<longleftrightarrow> dn_dvw e = NULL \<and> dn_vvw e = NULL \<and> dn_cred e = NULL \<and> dn_flags e = 0"

text \<open>The build handles of an entry fill their array, and the next one to be replaced is within it.\<close>
definition bh_slots_ok :: "mfs_dncent \<Rightarrow> bool" where
  "bh_slots_ok e \<longleftrightarrow> length (dn_bh e) = MFS_DNCBHMAX \<and> dn_bhx e < MFS_DNCBHMAX"

text \<open>An entry on a chain: its build handles, its name, and the kind of entry it is.\<close>
definition used_ok :: "dnc_env \<Rightarrow> nat \<Rightarrow> mfs_dncent \<Rightarrow> bool" where
  "used_ok env sz e \<longleftrightarrow> bh_slots_ok e \<and> (case dn_nm_p e of None \<Rightarrow> False
    | Some nm \<Rightarrow> nm \<noteq> [] \<and> dn_len e = length nm \<and>
       (if ent_flag e MVFS_DNC_RVC_ENT
        then nm = [46] \<and> dn_dvw e = NULL \<and> dn_vvw e \<noteq> NULL \<and> dn_lruhead e = Dirlru \<and>
          dnc_hash e = int (MVFS_RVCHASH sz (env_view_uuid env (dn_vvw e)) (mmi_svr_uuid (env_mmi env (dn_vfsp e))))
        else nm \<noteq> [46] \<and> dn_dvw e \<noteq> NULL \<and> (MFS_FIDNULL (dn_vfid e) \<longrightarrow> dn_vvw e = NULL) \<and>
          dnc_hash e = int (MFS_DNCHASH sz (dn_dfid e) (fst (mfs_namehash nm)) (length nm))))"

definition ent_ok :: "dnc_env \<Rightarrow> nat \<Rightarrow> mfs_dncent \<Rightarrow> bool" where
  "ent_ok env sz e \<longleftrightarrow> (if linked e then used_ok env sz e else released e)"

definition rings_ok :: "nat \<Rightarrow> mfs_dncent list \<Rightarrow> nat list list \<Rightarrow> (dnclru \<Rightarrow> nat list) \<Rightarrow> bool" where
  "rings_ok sz es chs lru \<longleftrightarrow> length chs = sz \<and>
    (\<forall>h < sz. distinct (chs ! h) \<and> set (chs ! h) = {i. i < length es \<and> dnc_hash (es ! i) = int h}) \<and>
    (\<forall>i<length es. dnc_hash (es ! i) = -1 \<or> 0 \<le> dnc_hash (es ! i) \<and> dnc_hash (es ! i) < int sz) \<and>
    (\<forall>l. distinct (lru l) \<and> set (lru l) = {i. i < length es \<and> dn_lruhead (es ! i) = l}) \<and>
    (\<forall>i<length es. \<not> dn_in_trans (es ! i))"

definition dnc_keys_ok :: "mfs_dncent list \<Rightarrow> bool" where
  "dnc_keys_ok es \<longleftrightarrow> (\<forall>i<length es. \<forall>j<length es. linked (es ! i) \<longrightarrow> linked (es ! j) \<longrightarrow>
     ent_key (es ! i) = ent_key (es ! j) \<longrightarrow> i = j)"

definition ent_vholds :: "addr \<Rightarrow> mfs_dncent \<Rightarrow> int" where
  "ent_vholds v e = (if dn_dvw e = v then 1 else 0) + (if dn_vvw e = v then 1 else 0)"

definition ent_choldsc :: "addr \<Rightarrow> mfs_dncent \<Rightarrow> int" where
  "ent_choldsc c e = (if dn_cred e = c then 1 else 0)"

text \<open>\<open>vb\<close> and \<open>cb\<close> are the holds others have.\<close>
definition holds_ok :: "(addr \<Rightarrow> int) \<Rightarrow> (addr \<Rightarrow> int) \<Rightarrow> mfs_dncent list \<Rightarrow> (addr \<Rightarrow> int) \<Rightarrow> (addr \<Rightarrow> int) \<Rightarrow> bool" where
  "holds_ok vb cb es vh ch \<longleftrightarrow> (\<forall>v. v \<noteq> NULL \<longrightarrow>
     vh v = vb v + sum_list (map (ent_vholds v) es) \<and> ch v = cb v + sum_list (map (ent_choldsc v) es))"

definition dnc_inv :: "dnc_env \<Rightarrow> (addr \<Rightarrow> int) \<Rightarrow> (addr \<Rightarrow> int) \<Rightarrow> mvfs_dnlc_data \<Rightarrow> bool" where
  "dnc_inv env vb cb st \<longleftrightarrow> \<not> mfs_dnc_null st \<and> 0 < mvfs_dnchashsize st \<and> length (mfs_dnc st) = mfs_dncmax st \<and>
    mfs_dncmax st = mvfs_dncdirmax st + mvfs_dncregmax st + mvfs_dncnoentmax st \<and>
    mfs_dnc_enoent_start st = mvfs_dncdirmax st + mvfs_dncregmax st \<and>
    (\<forall>i<mfs_dncmax st. dn_lruhead (mfs_dnc st ! i) = lru_of_index st i) \<and>
    rings_ok (mvfs_dnchashsize st) (mfs_dnc st) (mfs_dnchash st) (dnc_lru st) \<and>
    (\<forall>i<mfs_dncmax st. ent_ok env (mvfs_dnchashsize st) (mfs_dnc st ! i)) \<and>
    dnc_keys_ok (mfs_dnc st) \<and> holds_ok vb cb (mfs_dnc st) (vn_holds st) (cr_holds st)"

section \<open>Changes of rings\<close>

lemma rings_give_up:
  assumes "rings_ok sz es chs lru" and "i < length es" and "dnc_hash e = -1"
    and "dn_lruhead e = dn_lruhead (es ! i)" and "\<not> dn_in_trans e"
  shows "rings_ok sz (es[i := e]) (map (remove1 i) chs)
    (\<lambda>l. if l = dn_lruhead e then i # remove1 i (lru l) else remove1 i (lru l))"
  using assms by (auto simp: rings_ok_def nth_list_update)

lemma rings_fill:
  assumes "rings_ok sz es chs lru" and "i < length es" and "h < sz" and "dnc_hash e = int h"
    and "dn_lruhead e = dn_lruhead (es ! i)" and "\<not> dn_in_trans e"
  shows "rings_ok sz (es[i := e]) ((map (remove1 i) chs)[h := i # remove1 i (chs ! h)])
    (\<lambda>l. if l = dn_lruhead e then remove1 i (lru l) @ [i] else remove1 i (lru l))"
  using assms by (auto simp: rings_ok_def nth_list_update)

lemma rings_touch:
  assumes "rings_ok sz es chs lru" and "i < length es" and "l = dn_lruhead (es ! i)"
  shows "rings_ok sz es chs (\<lambda>k. if k = l then remove1 i (lru k) @ [i] else remove1 i (lru k))"
  using assms by (auto simp: rings_ok_def)

lemma rings_chain_mem:
  assumes "rings_ok sz es chs lru" and "h < sz" and "i \<in> set (chs ! h)"
  shows "i < length es" and "dnc_hash (es ! i) = int h" and "linked (es ! i)"
  using assms by (auto simp: rings_ok_def linked_def)

lemma rings_on_chain:
  assumes "rings_ok sz es chs lru" and "i < length es"
  shows "list_ex (\<lambda>c. i \<in> set c) chs \<longleftrightarrow> linked (es ! i)"
proof
  assume "list_ex (\<lambda>c. i \<in> set c) chs"
  then obtain c where "c \<in> set chs" and i: "i \<in> set c" by (auto simp: list_ex_iff)
  then obtain h where "h < length chs" "chs ! h = c" by (auto simp: in_set_conv_nth)
  then have "h < sz" "i \<in> set (chs ! h)" using i assms(1) by (auto simp: rings_ok_def)
  then show "linked (es ! i)" using rings_chain_mem [OF assms(1)] by blast
next
  assume "linked (es ! i)"
  then have r: "0 \<le> dnc_hash (es ! i)" "dnc_hash (es ! i) < int sz"
    using assms unfolding linked_def rings_ok_def by blast+
  define h where "h = nat (dnc_hash (es ! i))"
  have "h < sz" "dnc_hash (es ! i) = int h" using r by (simp_all add: h_def)
  then have "i \<in> set (chs ! h)" "h < length chs" using assms by (auto simp: rings_ok_def)
  then show "list_ex (\<lambda>c. i \<in> set c) chs" by (auto simp: list_ex_iff)
qed

section \<open>Changes of entries\<close>

text \<open>What the invariant sees of an entry.\<close>
definition ent_core where
  "ent_core e = (dn_lruhead e, dn_in_trans e, dn_dvw e, dn_vfsp e, dn_dfid e, dn_len e, dn_nm_p e, dn_vvw e,
     dn_vfid e, dn_cred e, dnc_hash e, ent_flag e MVFS_DNC_RVC_ENT, bh_slots_ok e)"

lemma ent_core_facts:
  assumes "ent_core e = ent_core e'"
  shows "linked e \<longleftrightarrow> linked e'" and "ent_key e = ent_key e'" and "used_ok env sz e \<longleftrightarrow> used_ok env sz e'"
    and "ent_vholds v e = ent_vholds v e'" and "ent_choldsc v e = ent_choldsc v e'"
    and "dnc_hash e = dnc_hash e'" and "dn_lruhead e = dn_lruhead e'" and "dn_in_trans e = dn_in_trans e'"
    and "dn_vvw e = dn_vvw e'" and "dn_vfid e = dn_vfid e'"
  using assms by (auto simp: ent_core_def linked_def ent_key_def used_ok_def ent_vholds_def ent_choldsc_def
      split: option.splits)

lemma inv_core:
  assumes inv: "dnc_inv env vb cb st" and len: "length es = length (mfs_dnc st)"
    and core: "\<And>i. i < length es \<Longrightarrow> ent_core (es ! i) = ent_core (mfs_dnc st ! i)"
    and rel: "\<And>i. i < length es \<Longrightarrow> \<not> linked (mfs_dnc st ! i) \<Longrightarrow> dn_flags (es ! i) = dn_flags (mfs_dnc st ! i)"
  shows "dnc_inv env vb cb (st\<lparr>mfs_dnc := es\<rparr>)"
proof -
  note facts = ent_core_facts [OF core]
  have len': "length es = mfs_dncmax st" using inv len by (simp add: dnc_inv_def)
  have "ent_ok env (mvfs_dnchashsize st) (es ! i)" if "i < mfs_dncmax st" for i
  proof -
    have i: "i < length es" using that len' by simp
    have "ent_ok env (mvfs_dnchashsize st) (mfs_dnc st ! i)" using inv that by (simp add: dnc_inv_def)
    then show ?thesis
      using facts(1,3) [OF i] rel [OF i] core [OF i] by (auto simp: ent_ok_def released_def ent_core_def)
  qed
  moreover have "rings_ok (mvfs_dnchashsize st) es (mfs_dnchash st) (dnc_lru st)"
  proof -
    have "{i. i < length es \<and> dnc_hash (es ! i) = int h} = {i. i < length (mfs_dnc st) \<and> dnc_hash (mfs_dnc st ! i) = int h}" for h
      using len facts(6) by auto
    moreover have "{i. i < length es \<and> dn_lruhead (es ! i) = l} = {i. i < length (mfs_dnc st) \<and> dn_lruhead (mfs_dnc st ! i) = l}" for l
      using len facts(7) by auto
    ultimately show ?thesis using inv len facts(6,8) by (simp add: dnc_inv_def rings_ok_def)
  qed
  moreover have "dnc_keys_ok es"
    using inv len facts(1,2) by (simp add: dnc_inv_def dnc_keys_ok_def)
  moreover have "map (ent_vholds v) es = map (ent_vholds v) (mfs_dnc st)"
    "map (ent_choldsc v) es = map (ent_choldsc v) (mfs_dnc st)" for v
    using len facts(4,5) by (auto intro: nth_equalityI)
  ultimately show ?thesis
    using inv len' facts(7) by (simp add: dnc_inv_def holds_ok_def lru_of_index_def)
qed

lemma keys_give_up: "dnc_keys_ok es \<Longrightarrow> \<not> linked e \<Longrightarrow> dnc_keys_ok (es[i := e])"
  by (cases "i < length es") (auto simp: dnc_keys_ok_def nth_list_update)

lemma keys_fill:
  assumes "dnc_keys_ok es" and "\<And>j. j < length es \<Longrightarrow> j \<noteq> i \<Longrightarrow> linked (es ! j) \<Longrightarrow> ent_key (es ! j) \<noteq> ent_key e"
  shows "dnc_keys_ok (es[i := e])"
proof (cases "i < length es")
  case True
  then show ?thesis
    unfolding dnc_keys_ok_def length_list_update
  proof (intro allI impI)
    fix j k
    assume "j < length es" "k < length es" "linked (es[i := e] ! j)" "linked (es[i := e] ! k)"
      "ent_key (es[i := e] ! j) = ent_key (es[i := e] ! k)"
    then show "j = k"
      using assms(1) assms(2) [of j] assms(2) [of k]
      by (cases "j = i"; cases "k = i") (auto simp: dnc_keys_ok_def dest: sym)
  qed
next
  case False
  then show ?thesis using assms(1) by (simp add: not_less list_update_beyond)
qed

lemma sum_list_map_update:
  fixes f :: "'a \<Rightarrow> int"
  shows "i < length xs \<Longrightarrow> sum_list (map f (xs[i := x])) = sum_list (map f xs) + f x - f (xs ! i)"
  by (induction xs arbitrary: i) (auto split: nat.splits)

lemma holds_update:
  assumes "holds_ok vb cb es vh ch" and "i < length es"
    and "\<And>v. v \<noteq> NULL \<Longrightarrow> vh' v = vh v + ent_vholds v e - ent_vholds v (es ! i)"
    and "\<And>v. v \<noteq> NULL \<Longrightarrow> ch' v = ch v + ent_choldsc v e - ent_choldsc v (es ! i)"
  shows "holds_ok vb cb (es[i := e]) vh' ch'"
  using assms by (simp add: holds_ok_def sum_list_map_update)

section \<open>Finding\<close>

lemma matches_iff:
  assumes "used_ok env sz e" and "nm \<noteq> []"
  shows "dnc_matches fid vfs vw nm (length nm) False e \<longleftrightarrow>
    ent_key e = (ent_flag e MVFS_DNC_RVC_ENT, vw, vfs, fid, nm)"
proof -
  obtain s where s: "dn_nm_p e = Some s" "dn_len e = length s" using assms(1) by (auto simp: used_ok_def split: option.splits)
  then have "names_match e nm (length nm) \<longleftrightarrow> s = nm" if "length s = length nm" using that by (auto simp: names_match_def)
  then show ?thesis using s by (auto simp: dnc_matches_def ent_key_def)
qed

lemma key_nm: "used_ok env sz e \<Longrightarrow> ent_key e = (r, vw, vfs, fid, nm) \<Longrightarrow>
    r = ent_flag e MVFS_DNC_RVC_ENT \<and> (r \<longleftrightarrow> nm = [46]) \<and> dn_nm_p e = Some nm \<and> dn_dfid e = fid \<and> dn_vfsp e = vfs \<and> vw \<noteq> NULL"
  by (auto simp: used_ok_def ent_key_def split: option.splits if_splits)

lemma inv_used: "dnc_inv env vb cb st \<Longrightarrow> i < mfs_dncmax st \<Longrightarrow> linked (mfs_dnc st ! i) \<Longrightarrow>
    used_ok env (mvfs_dnchashsize st) (mfs_dnc st ! i)"
  by (auto simp: dnc_inv_def ent_ok_def)

lemma inv_rings: "dnc_inv env vb cb st \<Longrightarrow>
    rings_ok (mvfs_dnchashsize st) (mfs_dnc st) (mfs_dnchash st) (dnc_lru st)"
  by (simp add: dnc_inv_def)

lemma inv_len: "dnc_inv env vb cb st \<Longrightarrow> length (mfs_dnc st) = mfs_dncmax st"
  by (simp add: dnc_inv_def)

lemma inv_bh_slots: "dnc_inv env vb cb st \<Longrightarrow> i < mfs_dncmax st \<Longrightarrow> linked (mfs_dnc st ! i) \<Longrightarrow> bh_slots_ok (mfs_dnc st ! i)"
  using inv_used by (auto simp: used_ok_def)

lemma inv_unused_iff: "dnc_inv env vb cb st \<Longrightarrow> i < mfs_dncmax st \<Longrightarrow> UNUSED (mfs_dnc st ! i) \<longleftrightarrow> \<not> linked (mfs_dnc st ! i)"
proof -
  assume "dnc_inv env vb cb st" "i < mfs_dncmax st"
  then have "ent_ok env (mvfs_dnchashsize st) (mfs_dnc st ! i)" by (simp add: dnc_inv_def)
  then show ?thesis
    by (auto simp: ent_ok_def used_ok_def released_def UNUSED_def ent_flag_def MVFS_FLAGON_def split: option.splits if_splits)
qed

lemma inv_on_chain:
  "dnc_inv env vb cb st \<Longrightarrow> i < mfs_dncmax st \<Longrightarrow> dnc_on_chain i st \<longleftrightarrow> linked (mfs_dnc st ! i)"
  unfolding dnc_on_chain_def by (rule rings_on_chain [OF inv_rings]) (simp_all add: inv_len)

lemma inv_not_in_trans: "dnc_inv env vb cb st \<Longrightarrow> i < mfs_dncmax st \<Longrightarrow> \<not> dn_in_trans (mfs_dnc st ! i)"
  by (simp add: dnc_inv_def rings_ok_def)

lemma find_SomeD:
  assumes inv: "dnc_inv env vb cb st" and "h < mvfs_dnchashsize st" and "nm \<noteq> []"
    and "mfs_dncfind fid vfs vw nm (length nm) False h st = Some i"
  shows "i < mfs_dncmax st" and "linked (mfs_dnc st ! i)" and "dnc_hash (mfs_dnc st ! i) = int h"
    and "ent_key (mfs_dnc st ! i) = (nm = [46], vw, vfs, fid, nm)"
proof -
  have m: "i \<in> set (mfs_dnchash st ! h)" "dnc_matches fid vfs vw nm (length nm) False (mfs_dnc st ! i)"
    using assms(4) by (auto simp: mfs_dncfind_def find_Some_iff in_set_conv_nth)
  show *: "i < mfs_dncmax st" "linked (mfs_dnc st ! i)" "dnc_hash (mfs_dnc st ! i) = int h"
    using rings_chain_mem [OF inv_rings [OF inv] assms(2) m(1)] inv by (simp_all add: dnc_inv_def)
  note u = inv_used [OF inv *(1,2)]
  then have "ent_key (mfs_dnc st ! i) = (ent_flag (mfs_dnc st ! i) MVFS_DNC_RVC_ENT, vw, vfs, fid, nm)"
    using m(2) matches_iff [OF u assms(3)] by simp
  then show "ent_key (mfs_dnc st ! i) = (nm = [46], vw, vfs, fid, nm)" using key_nm [OF u] by simp
qed

lemma find_NoneD:
  assumes inv: "dnc_inv env vb cb st" and "h < mvfs_dnchashsize st" and "nm \<noteq> []"
    and "mfs_dncfind fid vfs vw nm (length nm) False h st = None"
    and "j < mfs_dncmax st" and "dnc_hash (mfs_dnc st ! j) = int h"
  shows "ent_key (mfs_dnc st ! j) \<noteq> (r, vw, vfs, fid, nm)"
proof
  assume k: "ent_key (mfs_dnc st ! j) = (r, vw, vfs, fid, nm)"
  have l: "linked (mfs_dnc st ! j)" using assms(6) by (simp add: linked_def)
  have "j \<in> set (mfs_dnchash st ! h)" using inv_rings [OF inv] assms(2,5,6) inv by (simp add: rings_ok_def dnc_inv_def)
  moreover have "dnc_matches fid vfs vw nm (length nm) False (mfs_dnc st ! j)"
    using matches_iff [OF inv_used [OF inv assms(5) l] assms(3)] k key_nm [OF inv_used [OF inv assms(5) l] k] by simp
  ultimately show False using assms(4) by (auto simp: mfs_dncfind_def find_None_iff)
qed

section \<open>Net effects\<close>

text \<open>The parts of the state that no operation on entries changes.\<close>
definition dnc_consts where
  "dnc_consts st = (mfs_dnc_null st, mvfs_dnchashsize st, mfs_dncmax st, mfs_dnc_enoent_start st, mvfs_dncdirmax st,
     mvfs_dncregmax st, mvfs_dncnoentmax st, mvfs_dncenabled st, mvfs_dncnoentenabled st, mvfs_rvcenabled st)"

definition freed_ent :: "mfs_dncent \<Rightarrow> mfs_dncent" where
  "freed_ent e = e\<lparr>dnc_hash := -1, dn_dvw := NULL, dn_vvw := NULL, dn_cred := NULL, dn_nm_p := None,
     dn_flags := 0, dn_in_trans := False\<rparr>"

definition given_up :: "nat \<Rightarrow> mvfs_dnlc_data \<Rightarrow> mvfs_dnlc_data \<Rightarrow> bool" where
  "given_up i st st' \<longleftrightarrow> dnc_consts st' = dnc_consts st \<and>
    mfs_dnc st' = (mfs_dnc st)[i := freed_ent (mfs_dnc st ! i)] \<and>
    mfs_dnchash st' = map (remove1 i) (mfs_dnchash st) \<and>
    dnc_lru st' = (\<lambda>l. if l = dn_lruhead (mfs_dnc st ! i) then i # remove1 i (dnc_lru st l) else remove1 i (dnc_lru st l)) \<and>
    (\<forall>v. v \<noteq> NULL \<longrightarrow> vn_holds st' v = vn_holds st v - ent_vholds v (mfs_dnc st ! i) \<and>
       cr_holds st' v = cr_holds st v - ent_choldsc v (mfs_dnc st ! i))"

definition filled :: "nat \<Rightarrow> nat \<Rightarrow> mfs_dncent \<Rightarrow> mvfs_dnlc_data \<Rightarrow> mvfs_dnlc_data \<Rightarrow> bool" where
  "filled i h e st st' \<longleftrightarrow> dnc_consts st' = dnc_consts st \<and>
    mfs_dnc st' = (mfs_dnc st)[i := e] \<and>
    mfs_dnchash st' = (map (remove1 i) (mfs_dnchash st))[h := i # remove1 i (mfs_dnchash st ! h)] \<and>
    dnc_lru st' = (\<lambda>l. if l = dn_lruhead e then remove1 i (dnc_lru st l) @ [i] else remove1 i (dnc_lru st l)) \<and>
    (\<forall>v. v \<noteq> NULL \<longrightarrow> vn_holds st' v = vn_holds st v + ent_vholds v e - ent_vholds v (mfs_dnc st ! i) \<and>
       cr_holds st' v = cr_holds st v + ent_choldsc v e - ent_choldsc v (mfs_dnc st ! i))"

lemma freed_facts [simp]:
  "\<not> linked (freed_ent e)" "released (freed_ent e)" "dnc_hash (freed_ent e) = -1"
  "dn_lruhead (freed_ent e) = dn_lruhead e" "\<not> dn_in_trans (freed_ent e)"
  "v \<noteq> NULL \<Longrightarrow> ent_vholds v (freed_ent e) = 0" "v \<noteq> NULL \<Longrightarrow> ent_choldsc v (freed_ent e) = 0"
  by (simp_all add: freed_ent_def linked_def released_def ent_vholds_def ent_choldsc_def)

lemma inv_given_up:
  assumes "dnc_inv env vb cb st" and "i < mfs_dncmax st" and "given_up i st st'"
  shows "dnc_inv env vb cb st'"
proof -
  let ?es = "mfs_dnc st" and ?e = "freed_ent (mfs_dnc st ! i)"
  have len: "length ?es = mfs_dncmax st" using assms(1) by (simp add: dnc_inv_def)
  have c: "mfs_dnc st' = ?es[i := ?e]" "dnc_consts st' = dnc_consts st" using assms(3) by (simp_all add: given_up_def)
  have "rings_ok (mvfs_dnchashsize st) (?es[i := ?e]) (mfs_dnchash st') (dnc_lru st')"
    using rings_give_up [OF inv_rings [OF assms(1)], of i ?e] assms(2,3) len by (simp add: given_up_def)
  moreover have "dnc_keys_ok (?es[i := ?e])"
    using assms(1) by (intro keys_give_up) (simp_all add: dnc_inv_def)
  moreover have "holds_ok vb cb (?es[i := ?e]) (vn_holds st') (cr_holds st')"
    using assms len by (intro holds_update [of vb cb ?es "vn_holds st" "cr_holds st"]) (simp_all add: dnc_inv_def given_up_def)
  ultimately show ?thesis
    using assms(1,2) c len
    by (simp add: dnc_inv_def dnc_consts_def nth_list_update ent_ok_def lru_of_index_def)
qed

lemma inv_filled:
  assumes inv: "dnc_inv env vb cb st" and "i < mfs_dncmax st" and "filled i h e st st'"
    and "h < mvfs_dnchashsize st" and "dnc_hash e = int h" and "dn_lruhead e = dn_lruhead (mfs_dnc st ! i)"
    and "\<not> dn_in_trans e" and "used_ok env (mvfs_dnchashsize st) e"
    and "\<And>j. j < mfs_dncmax st \<Longrightarrow> j \<noteq> i \<Longrightarrow> linked (mfs_dnc st ! j) \<Longrightarrow> ent_key (mfs_dnc st ! j) \<noteq> ent_key e"
  shows "dnc_inv env vb cb st'"
proof -
  let ?es = "mfs_dnc st"
  have len: "length ?es = mfs_dncmax st" using inv by (simp add: dnc_inv_def)
  have c: "mfs_dnc st' = ?es[i := e]" "dnc_consts st' = dnc_consts st" using assms(3) by (simp_all add: filled_def)
  have "rings_ok (mvfs_dnchashsize st) (?es[i := e]) (mfs_dnchash st') (dnc_lru st')"
    using rings_fill [OF inv_rings [OF inv], of i h e] assms(2-7) len by (simp add: filled_def)
  moreover have "dnc_keys_ok (?es[i := e])"
    using inv assms(9) len by (intro keys_fill) (simp_all add: dnc_inv_def)
  moreover have "holds_ok vb cb (?es[i := e]) (vn_holds st') (cr_holds st')"
    using inv assms(2,3) len
    by (intro holds_update [of vb cb ?es "vn_holds st" "cr_holds st"]) (simp_all add: dnc_inv_def filled_def)
  moreover have "linked e" using assms(5) by (simp add: linked_def)
  ultimately show ?thesis
    using inv assms(2,6,8) c len
    by (simp add: dnc_inv_def dnc_consts_def nth_list_update ent_ok_def lru_of_index_def)
qed

section \<open>The operations\<close>

lemmas dnc_prims = set_ent_def set_in_trans_def dnc_rmhash_def dnc_inshash_def dnc_rmlru_def dnc_inslru_head_def
  dnc_inslru_tail_def VN_HOLD_def ATRIA_VN_RELE_def MDKI_CRHOLD_def MDKI_CRFREE_def DNC_BUMP_def DNC_BUMP_VAL_def
  bump_type_def

text \<open>Counters are not part of the invariant.\<close>
lemma inv_counters [simp]:
  "dnc_inv env vb cb (DNC_BUMP s st) = dnc_inv env vb cb st"
  "dnc_inv env vb cb (DNC_BUMP_VAL s n st) = dnc_inv env vb cb st"
  "dnc_inv env vb cb (bump_type t st) = dnc_inv env vb cb st"
  "dnc_inv env vb cb (st\<lparr>mvfs_dnc_noent_other := k\<rparr>) = dnc_inv env vb cb st"
  by (simp_all add: dnc_inv_def DNC_BUMP_def DNC_BUMP_VAL_def bump_type_def lru_of_index_def)

lemma consts_updates [simp]:
  "dnc_consts (st\<lparr>mfs_dnc := es\<rparr>) = dnc_consts st" "dnc_consts (st\<lparr>mfs_dnchash := c\<rparr>) = dnc_consts st"
  "dnc_consts (st\<lparr>dnc_lru := l\<rparr>) = dnc_consts st" "dnc_consts (st\<lparr>dncstat := d\<rparr>) = dnc_consts st"
  "dnc_consts (st\<lparr>vn_holds := h\<rparr>) = dnc_consts st" "dnc_consts (st\<lparr>cr_holds := h\<rparr>) = dnc_consts st"
  by (simp_all add: dnc_consts_def)

lemma consts_counters [simp]:
  "dnc_consts (DNC_BUMP s st) = dnc_consts st" "dnc_consts (DNC_BUMP_VAL s n st) = dnc_consts st"
  "dnc_consts (bump_type t st) = dnc_consts st" "dnc_consts (st\<lparr>mvfs_dnc_noent_other := k\<rparr>) = dnc_consts st"
  "dnc_consts (VN_HOLD v st) = dnc_consts st" "dnc_consts (ATRIA_VN_RELE v st) = dnc_consts st"
  "dnc_consts (set_ent i e st) = dnc_consts st"
  by (simp_all add: dnc_consts_def dnc_prims)

lemma entries_counters [simp]:
  "mfs_dnc (DNC_BUMP s st) = mfs_dnc st" "mfs_dnc (DNC_BUMP_VAL s n st) = mfs_dnc st"
  "mfs_dnc (bump_type t st) = mfs_dnc st" "mfs_dnc (VN_HOLD v st) = mfs_dnc st" "mfs_dnc (ATRIA_VN_RELE v st) = mfs_dnc st"
  by (simp_all add: dnc_prims)

lemma dncrele_effect:
  assumes "i < length (mfs_dnc st)"
  shows "mfs_dnc (mfs_dncrele i st) = (mfs_dnc st)[i := (mfs_dnc st ! i)\<lparr>dn_dvw := NULL, dn_vvw := NULL, dn_cred := NULL,
      dn_nm_p := None, dn_flags := 0\<rparr>]"
    and "mfs_dnchash (mfs_dncrele i st) = mfs_dnchash st" and "dnc_lru (mfs_dncrele i st) = dnc_lru st"
    and "dnc_consts (mfs_dncrele i st) = dnc_consts st"
    and "v \<noteq> NULL \<Longrightarrow> vn_holds (mfs_dncrele i st) v = vn_holds st v - ent_vholds v (mfs_dnc st ! i)"
    and "v \<noteq> NULL \<Longrightarrow> cr_holds (mfs_dncrele i st) v = cr_holds st v - ent_choldsc v (mfs_dnc st ! i)"
  by (auto simp: mfs_dncrele_def Let_def dnc_prims dnc_consts_def ent_vholds_def ent_choldsc_def)

lemma unhash_effect [simp]:
  "mfs_dnc (dnc_unhash i st) = (mfs_dnc st)[i := (mfs_dnc st ! i)\<lparr>dnc_hash := -1\<rparr>]"
  "mfs_dnchash (dnc_unhash i st) = map (remove1 i) (mfs_dnchash st)"
  "dnc_lru (dnc_unhash i st) = dnc_lru st" "dnc_consts (dnc_unhash i st) = dnc_consts st"
  "vn_holds (dnc_unhash i st) = vn_holds st" "cr_holds (dnc_unhash i st) = cr_holds st"
  by (simp_all add: dnc_unhash_def Let_def dnc_prims dnc_consts_def)

lemma recycle_given_up:
  assumes "i < length (mfs_dnc st)"
  shows "given_up i st (dnc_recycle i (dnc_unhash i st))"
  using assms unfolding given_up_def dnc_recycle_def
  by (auto simp: dncrele_effect dnc_prims Let_def freed_ent_def fun_eq_iff ent_vholds_def ent_choldsc_def)

lemma inv_flush_ent:
  assumes "dnc_inv env vb cb st" and "i < mfs_dncmax st" and "linked (mfs_dnc st ! i)"
  shows "given_up i st (dnc_flush_ent i st)" and "dnc_inv env vb cb (dnc_flush_ent i st)"
proof -
  show g: "given_up i st (dnc_flush_ent i st)"
    using recycle_given_up [of i st] assms inv_on_chain [OF assms(1,2)] inv_len [OF assms(1)]
    by (simp add: dnc_flush_ent_def)
  show "dnc_inv env vb cb (dnc_flush_ent i st)" by (rule inv_given_up [OF assms(1,2) g])
qed

text \<open>The loops that change a field of several entries.\<close>
lemma fold_set_ent:
  assumes "distinct ks" and "set ks \<subseteq> {..<length (mfs_dnc st)}"
  shows "fold (\<lambda>i st. set_ent i (f (mfs_dnc st ! i)) st) ks st =
    st\<lparr>mfs_dnc := map (\<lambda>j. if j \<in> set ks then f (mfs_dnc st ! j) else mfs_dnc st ! j) [0..<length (mfs_dnc st)]\<rparr>"
  using assms
proof (induction ks arbitrary: st)
  case Nil
  then show ?case by (simp add: map_nth)
next
  case (Cons i ks)
  let ?st = "set_ent i (f (mfs_dnc st ! i)) st"
  have "fold (\<lambda>i st. set_ent i (f (mfs_dnc st ! i)) st) ks ?st =
      ?st\<lparr>mfs_dnc := map (\<lambda>j. if j \<in> set ks then f (mfs_dnc ?st ! j) else mfs_dnc ?st ! j) [0..<length (mfs_dnc ?st)]\<rparr>"
    using Cons.prems by (intro Cons.IH) (simp_all add: set_ent_def)
  then show ?case
    using Cons.prems by (auto simp: set_ent_def nth_list_update)
qed

definition inval_at :: "(mfs_dncent \<Rightarrow> mfs_dncent) \<Rightarrow> nat set \<Rightarrow> mvfs_dnlc_data \<Rightarrow> mvfs_dnlc_data" where
  "inval_at f I st = st\<lparr>mfs_dnc := map (\<lambda>j. if j \<in> I then f (mfs_dnc st ! j) else mfs_dnc st ! j) [0..<length (mfs_dnc st)]\<rparr>"

lemma inval_at_nth [simp]:
  "length (mfs_dnc (inval_at f I st)) = length (mfs_dnc st)"
  "j < length (mfs_dnc st) \<Longrightarrow> mfs_dnc (inval_at f I st) ! j = (if j \<in> I then f (mfs_dnc st ! j) else mfs_dnc st ! j)"
  "mfs_dnchash (inval_at f I st) = mfs_dnchash st" "dnc_lru (inval_at f I st) = dnc_lru st"
  "dnc_consts (inval_at f I st) = dnc_consts st"
  "vn_holds (inval_at f I st) = vn_holds st" "cr_holds (inval_at f I st) = cr_holds st"
  by (simp_all add: inval_at_def)

text \<open>Invalidating is outside of the core.\<close>
definition soft :: "(mfs_dncent \<Rightarrow> mfs_dncent) \<Rightarrow> bool" where
  "soft f \<longleftrightarrow> (\<forall>e. ent_core (f e) = ent_core e \<and> dn_flags (f e) = dn_flags e)"

lemma soft_set_invalid: "soft set_invalid" and soft_invalid: "soft (dn_invalid_update (\<lambda>_. b))"
  by (simp_all add: soft_def ent_core_def set_invalid_def ent_flag_def bh_slots_ok_def)

lemma inv_inval_at: "dnc_inv env vb cb st \<Longrightarrow> soft f \<Longrightarrow> dnc_inv env vb cb (inval_at f I st)"
  unfolding inval_at_def by (rule inv_core) (simp_all add: soft_def)

lemma inval_loop_eq:
  assumes "hi \<le> length (mfs_dnc st)"
  shows "snd (inval_loop P lo hi st) = inval_at set_invalid (set (inval_hits P lo hi st)) st"
proof -
  have "distinct (inval_hits P lo hi st)" "set (inval_hits P lo hi st) \<subseteq> {..<length (mfs_dnc st)}"
    using assms by (auto simp: inval_hits_def)
  from fold_set_ent [OF this] show ?thesis by (simp add: inval_loop_def Let_def inval_at_def)
qed

lemma inv_inval_loop:
  "dnc_inv env vb cb st \<Longrightarrow> hi \<le> mfs_dncmax st \<Longrightarrow> dnc_inv env vb cb (snd (inval_loop P lo hi st))"
  by (simp add: inval_loop_eq inv_len inv_inval_at soft_set_invalid)

definition invalidate :: "mfs_dncent \<Rightarrow> mfs_dncent" where "invalidate e = e\<lparr>dn_invalid := True\<rparr>"

lemma soft_invalidate: "soft invalidate"
  by (simp add: soft_def ent_core_def invalidate_def ent_flag_def bh_slots_ok_def)

text \<open>Synonyms are entries of the chain.\<close>
lemma synonyms_effect:
  assumes "distinct (mfs_dnchash st ! h)" and "set (mfs_dnchash st ! h) \<subseteq> {..<length (mfs_dnc st)}"
  obtains I k where "I \<subseteq> set (mfs_dnchash st ! h)"
    and "mfs_dnc_inval_case_synonyms fid vw nm n h st = DNC_BUMP_VAL Dnc_invalhits k (inval_at invalidate I st)"
proof -
  define P where "P = (\<lambda>i. let e = mfs_dnc st ! i in
           dn_dvw e = vw \<and> dn_len e = n \<and> MFS_FIDEQ (dn_dfid e) fid \<and> ent_flag e MFS_DNC_CASE_INSENSITIVE \<and>
           (case dn_nm_p e of None \<Rightarrow> False | Some s \<Rightarrow> mvfs_ansi_strcasecmp s nm = 0))"
  let ?ks = "filter P (mfs_dnchash st ! h)"
  have "distinct ?ks" "set ?ks \<subseteq> {..<length (mfs_dnc st)}" using assms by auto
  from fold_set_ent [OF this, of invalidate]
  have "fold (\<lambda>i st. set_ent i (invalidate (mfs_dnc st ! i)) st) ?ks st = inval_at invalidate (set ?ks) st"
    by (simp add: inval_at_def)
  then have "mfs_dnc_inval_case_synonyms fid vw nm n h st
      = DNC_BUMP_VAL Dnc_invalhits (length ?ks) (inval_at invalidate (set ?ks) st)"
    unfolding mfs_dnc_inval_case_synonyms_def P_def [symmetric] invalidate_def by (simp add: Let_def)
  then show thesis by (rule that [rotated]) auto
qed

lemma unhash_maybe:
  assumes "dnc_inv env vb cb st" and "i < mfs_dncmax st" and "st' = (if dnc_on_chain i st then dnc_unhash i st else st)"
  shows "mfs_dnc st' = (mfs_dnc st)[i := (mfs_dnc st ! i)\<lparr>dnc_hash := -1\<rparr>]"
    and "mfs_dnchash st' = map (remove1 i) (mfs_dnchash st)" and "dnc_lru st' = dnc_lru st"
    and "dnc_consts st' = dnc_consts st" and "vn_holds st' = vn_holds st" and "cr_holds st' = cr_holds st"
proof -
  have "(mfs_dnc st ! i)\<lparr>dnc_hash := -1\<rparr> = mfs_dnc st ! i" and "map (remove1 i) (mfs_dnchash st) = mfs_dnchash st"
    if "\<not> dnc_on_chain i st"
  proof -
    have "dnc_hash (mfs_dnc st ! i) = -1" using that inv_on_chain [OF assms(1,2)] by (simp add: linked_def)
    then show "(mfs_dnc st ! i)\<lparr>dnc_hash := -1\<rparr> = mfs_dnc st ! i" by simp
    show "map (remove1 i) (mfs_dnchash st) = mfs_dnchash st"
      using that by (auto simp: dnc_on_chain_def list_ex_iff remove1_idem intro: map_idI)
  qed
  then show "mfs_dnc st' = (mfs_dnc st)[i := (mfs_dnc st ! i)\<lparr>dnc_hash := -1\<rparr>]"
    "mfs_dnchash st' = map (remove1 i) (mfs_dnchash st)" "dnc_lru st' = dnc_lru st"
    "dnc_consts st' = dnc_consts st" "vn_holds st' = vn_holds st" "cr_holds st' = cr_holds st"
    using assms(3) by auto
qed

text \<open>An entry on its way: unlinked and in transit.\<close>
definition in_transit :: "nat \<Rightarrow> mvfs_dnlc_data \<Rightarrow> mvfs_dnlc_data \<Rightarrow> bool" where
  "in_transit i st st' \<longleftrightarrow> mfs_dnc st' = (mfs_dnc st)[i := (mfs_dnc st ! i)\<lparr>dnc_hash := -1, dn_in_trans := True\<rparr>] \<and>
    mfs_dnchash st' = map (remove1 i) (mfs_dnchash st) \<and> dnc_lru st' = (\<lambda>l. remove1 i (dnc_lru st l)) \<and>
    dnc_consts st' = dnc_consts st \<and> vn_holds st' = vn_holds st \<and> cr_holds st' = cr_holds st"

lemma take_in_transit:
  assumes "dnc_inv env vb cb st" and "i < mfs_dncmax st"
  shows "in_transit i st (set_in_trans True i (dnc_rmlru i (if dnc_on_chain i st then dnc_unhash i st else st)))"
  using unhash_maybe [OF assms refl] assms inv_len [OF assms(1)]
  by (simp add: in_transit_def set_in_trans_def set_ent_def dnc_rmlru_def)

text \<open>Synonyms invalidated while an entry is in transit: as if before.\<close>
lemma in_transit_synonyms:
  assumes inv: "dnc_inv env vb cb st" and "i < mfs_dncmax st" and t: "in_transit i st st'" and h: "h < mvfs_dnchashsize st"
  obtains I k where "i \<notin> I" and "I \<subseteq> set (mfs_dnchash st ! h)"
    and "in_transit i (inval_at invalidate I st) (mfs_dnc_inval_case_synonyms fid vw nm n h st')"
proof -
  note r = inv_rings [OF inv]
  have len: "h < length (mfs_dnchash st)" "length (mfs_dnc st') = length (mfs_dnc st)"
    using r h t by (simp_all add: rings_ok_def in_transit_def)
  have chain: "mfs_dnchash st' ! h = remove1 i (mfs_dnchash st ! h)" using t len by (simp add: in_transit_def)
  have d: "distinct (mfs_dnchash st ! h)" "set (mfs_dnchash st ! h) \<subseteq> {..<length (mfs_dnc st)}"
    using r h by (auto simp: rings_ok_def)
  then have "distinct (mfs_dnchash st' ! h)" "set (mfs_dnchash st' ! h) \<subseteq> {..<length (mfs_dnc st')}"
    using chain len set_remove1_subset by fastforce+
  then obtain I k where I: "I \<subseteq> set (mfs_dnchash st' ! h)"
    and eq: "mfs_dnc_inval_case_synonyms fid vw nm n h st' = DNC_BUMP_VAL Dnc_invalhits k (inval_at invalidate I st')"
    by (rule synonyms_effect)
  have iI: "i \<notin> I" "I \<subseteq> set (mfs_dnchash st ! h)" using I chain d by (auto simp: set_remove1_eq)
  have es: "mfs_dnc (inval_at invalidate I st') = (mfs_dnc (inval_at invalidate I st))
      [i := (mfs_dnc (inval_at invalidate I st) ! i)\<lparr>dnc_hash := -1, dn_in_trans := True\<rparr>]"
    using t iI(1) assms(2) inv_len [OF inv]
    by (intro nth_equalityI) (auto simp: in_transit_def nth_list_update)
  have "in_transit i (inval_at invalidate I st) (DNC_BUMP_VAL Dnc_invalhits k (inval_at invalidate I st'))"
    using t es by (simp add: in_transit_def DNC_BUMP_VAL_def)
  then show thesis using that iI eq by simp
qed

lemma finish_free:
  assumes "in_transit i st st'" and "i < length (mfs_dnc st)"
  shows "given_up i st (dnc_inslru_head i (set_in_trans False i (mfs_dncrele i st')))"
  using assms unfolding given_up_def
  by (auto simp: in_transit_def dncrele_effect dnc_prims Let_def freed_ent_def fun_eq_iff ent_vholds_def ent_choldsc_def)

lemma fill_fields [simp]:
  "dn_lruhead (dncadd_fill dvp tvw dnc_flags nm n fid evt h cd X) = dn_lruhead X"
  "dn_dvw (dncadd_fill dvp tvw dnc_flags nm n fid evt h cd X) = vn_view dvp"
  "dn_vfsp (dncadd_fill dvp tvw dnc_flags nm n fid evt h cd X) = vn_vfsp dvp"
  "dn_dfid (dncadd_fill dvp tvw dnc_flags nm n fid evt h cd X) = vn_fid dvp"
  "dn_len (dncadd_fill dvp tvw dnc_flags nm n fid evt h cd X) = n"
  "dn_nm_p (dncadd_fill dvp tvw dnc_flags nm n fid evt h cd X) = Some nm"
  "dn_vvw (dncadd_fill dvp tvw dnc_flags nm n fid evt h cd X) = tvw"
  "dn_vfid (dncadd_fill dvp tvw dnc_flags nm n fid evt h cd X) = fid"
  "dn_vevtime (dncadd_fill dvp tvw dnc_flags nm n fid evt h cd X) = evt"
  "dn_cred (dncadd_fill dvp tvw dnc_flags nm n fid evt h cd X) = cd_cred cd"
  "dnc_hash (dncadd_fill dvp tvw dnc_flags nm n fid evt h cd X) = int h"
  "\<not> dn_invalid (dncadd_fill dvp tvw dnc_flags nm n fid evt h cd X)"
  "dn_flags (dncadd_fill dvp tvw dnc_flags nm n fid evt h cd X) = ucast dnc_flags"
  "dn_dncgen (dncadd_fill dvp tvw dnc_flags nm n fid evt h cd X) = vn_dncgen dvp"
  "dn_addtime (dncadd_fill dvp tvw dnc_flags nm n fid evt h cd X) = cd_ctime cd"
  by (simp_all add: dncadd_fill_def mfs_dncbhset_def Let_def)

definition new_ent :: "dnc_vnode \<Rightarrow> addr \<Rightarrow> u32 \<Rightarrow> cstr \<Rightarrow> nat \<Rightarrow> mfs_fid \<Rightarrow> timeval \<Rightarrow> nat \<Rightarrow> call_data
    \<Rightarrow> mfs_dncent \<Rightarrow> mfs_dncent" where
  "new_ent dvp tvw dnc_flags nm n fid evt h cd X = (dncadd_fill dvp tvw dnc_flags nm n fid evt h cd X)\<lparr>dn_in_trans := False\<rparr>"

definition hold_new :: "addr \<Rightarrow> addr \<Rightarrow> addr \<Rightarrow> mvfs_dnlc_data \<Rightarrow> mvfs_dnlc_data" where
  "hold_new dv tv c st =
    (let st = (if dv \<noteq> NULL then VN_HOLD dv st else st);
         st = (if tv \<noteq> NULL then VN_HOLD tv st else st) in
     if c \<noteq> NULL then MDKI_CRHOLD c st else st)"

lemma hold_new_effect [simp]:
  "mfs_dnc (hold_new dv tv c st) = mfs_dnc st" "mfs_dnchash (hold_new dv tv c st) = mfs_dnchash st"
  "dnc_lru (hold_new dv tv c st) = dnc_lru st" "dnc_consts (hold_new dv tv c st) = dnc_consts st"
  "v \<noteq> NULL \<Longrightarrow> vn_holds (hold_new dv tv c st) v = vn_holds st v + (if dv = v then 1 else 0) + (if tv = v then 1 else 0)"
  "v \<noteq> NULL \<Longrightarrow> cr_holds (hold_new dv tv c st) v = cr_holds st v + (if c = v then 1 else 0)"
  by (auto simp: hold_new_def Let_def VN_HOLD_def MDKI_CRHOLD_def)

lemma finish_fill:
  assumes t: "in_transit i st st'" and i: "i < length (mfs_dnc st)" and h: "h < length (mfs_dnchash st)"
    and X: "X = mfs_dnc (mfs_dncrele i st') ! i"
    and st2: "st2 = hold_new (vn_view dvp) tvw (cd_cred cd)
        (set_ent i (dncadd_fill dvp tvw dnc_flags nm n fid evt h cd X) (mfs_dncrele i st'))"
  shows "dn_lruhead X = dn_lruhead (mfs_dnc st ! i)"
    and "filled i h (new_ent dvp tvw dnc_flags nm n fid evt h cd X) st
      (dnc_inshash h i (dnc_inslru_tail i (set_in_trans False i st2)))"
proof -
  let ?e = "new_ent dvp tvw dnc_flags nm n fid evt h cd X"
  have len: "i < length (mfs_dnc st')" using t i by (simp add: in_transit_def)
  note rele = dncrele_effect [OF len]
  show lru: "dn_lruhead X = dn_lruhead (mfs_dnc st ! i)"
    using t i len by (simp add: X rele in_transit_def)
  have es: "mfs_dnc (set_in_trans False i st2) = (mfs_dnc st)[i := ?e]"
    using t i by (simp add: st2 set_in_trans_def set_ent_def rele in_transit_def new_ent_def)
  have h2: "mfs_dnchash st2 = map (remove1 i) (mfs_dnchash st)" "dnc_lru st2 = (\<lambda>l. remove1 i (dnc_lru st l))"
    "dnc_consts st2 = dnc_consts st"
    using t by (simp_all add: st2 set_ent_def rele in_transit_def)
  have v: "vn_holds st2 v = vn_holds st v + ent_vholds v ?e - ent_vholds v (mfs_dnc st ! i)"
    "cr_holds st2 v = cr_holds st v + ent_choldsc v ?e - ent_choldsc v (mfs_dnc st ! i)" if "v \<noteq> NULL" for v
    using t i that by (simp_all add: st2 set_ent_def rele in_transit_def new_ent_def ent_vholds_def ent_choldsc_def)
  have lh: "dn_lruhead ?e = dn_lruhead (mfs_dnc st ! i)" using lru by (simp add: new_ent_def)
  show "filled i h ?e st (dnc_inshash h i (dnc_inslru_tail i (set_in_trans False i st2)))"
    using es h h2 v lh i
    by (auto simp: filled_def dnc_inshash_def dnc_inslru_tail_def Let_def set_in_trans_def set_ent_def fun_eq_iff)
qed

lemma filled_counters [simp]:
  "filled i h e st (DNC_BUMP s st') = filled i h e st st'" "filled i h e st (bump_type t st') = filled i h e st st'"
  "filled i h e st (st'\<lparr>mvfs_dnc_noent_other := k\<rparr>) = filled i h e st st'"
  by (simp_all add: filled_def dnc_prims)

lemma dncadd_new_filled:
  assumes inv: "dnc_inv env vb cb st" and h: "h < mvfs_dnchashsize st" and l: "dnc_lru st (lru_of_type type) = i # r"
  obtains I X where "i \<notin> I" and "I \<subseteq> set (mfs_dnchash st ! h)" and "i < mfs_dncmax st"
    and "dn_lruhead X = lru_of_type type" and "dn_lruhead (mfs_dnc st ! i) = lru_of_type type"
    and "filled i h (new_ent dvp tvw dnc_flags nm n fid evt h cd X) (inval_at invalidate I st)
      (dncadd_new dvp tvw dnc_flags nm n fid type evt h cd st)"
proof -
  have "i \<in> set (dnc_lru st (lru_of_type type))" using l by simp
  then have i: "i < mfs_dncmax st" "dn_lruhead (mfs_dnc st ! i) = lru_of_type type"
    using inv_rings [OF inv] inv_len [OF inv] by (auto simp: rings_ok_def)
  let ?t = "set_in_trans True i (dnc_rmlru i (if dnc_on_chain i st then dnc_unhash i st else st))"
  obtain I k where I: "i \<notin> I" "I \<subseteq> set (mfs_dnchash st ! h)"
    and t: "in_transit i (inval_at invalidate I st) (mfs_dnc_inval_case_synonyms (vn_fid dvp) (vn_view dvp) nm n h ?t)"
    using in_transit_synonyms [OF inv i(1) take_in_transit [OF inv i(1)] h] .
  define st1 where "st1 = mfs_dncrele i (mfs_dnc_inval_case_synonyms (vn_fid dvp) (vn_view dvp) nm n h ?t)"
  define st2 where "st2 = hold_new (vn_view dvp) tvw (cd_cred cd)
    (set_ent i (dncadd_fill dvp tvw dnc_flags nm n fid evt h cd (mfs_dnc st1 ! i)) st1)"
  have len: "i < length (mfs_dnc (inval_at invalidate I st))" "h < length (mfs_dnchash (inval_at invalidate I st))"
    using i h inv_len [OF inv] inv_rings [OF inv] by (simp_all add: rings_ok_def)
  note f = finish_fill [where dvp = dvp and tvw = tvw and cd = cd and dnc_flags = dnc_flags and nm = nm
      and n = n and fid = fid and evt = evt, OF t len refl refl, folded st1_def, folded st2_def]
  define st3 where "st3 = dnc_inshash h i (dnc_inslru_tail i (set_in_trans False i st2))"
  have "dncadd_new dvp tvw dnc_flags nm n fid type evt h cd st =
    (let st = st3;
         st = (if type = VNON \<and> \<not> ent_flag (mfs_dnc st ! i) MFS_DNC_NOTINDIR
                 then st\<lparr>mvfs_dnc_noent_other := mvfs_dnc_noent_other st + 1\<rparr> else st);
         st = bump_type type st;
         st = (if n \<ge> MFS_DNMAXSHORTNAME then DNC_BUMP Dnc_addlong st else st) in
       if MVFS_FLAGON dnc_flags MFS_DNC_BHINVARIANT then DNC_BUMP Dnc_addbhinvariant st else st)"
    unfolding dncadd_new_def l st3_def st2_def st1_def hold_new_def Let_def by simp
  then have "filled i h (new_ent dvp tvw dnc_flags nm n fid evt h cd (mfs_dnc st1 ! i)) (inval_at invalidate I st)
      (dncadd_new dvp tvw dnc_flags nm n fid type evt h cd st)"
    using f(2) by (simp add: st3_def Let_def)
  moreover have "dn_lruhead (mfs_dnc st1 ! i) = lru_of_type type"
    using f(1) i I(1) inv_len [OF inv] by simp
  ultimately show thesis using that I i by blast
qed

text \<open>What an add is called with: the kind of entry fits the flags and the name, the name is not empty,
  and the hash is that of the key.\<close>
definition add_args_ok :: "dnc_env \<Rightarrow> nat \<Rightarrow> dnc_vnode \<Rightarrow> addr \<Rightarrow> u32 \<Rightarrow> cstr \<Rightarrow> mfs_fid \<Rightarrow> vtype \<Rightarrow> nat \<Rightarrow> bool" where
  "add_args_ok env sz dvp tvw dnc_flags nm fid type h \<longleftrightarrow> nm \<noteq> [] \<and>
    (if MVFS_FLAGON dnc_flags MVFS_DNC_RVC_ENT
     then nm = [46] \<and> vn_view dvp = NULL \<and> tvw \<noteq> NULL \<and> type = VDIR \<and>
       h = MVFS_RVCHASH sz (env_view_uuid env tvw) (mmi_svr_uuid (env_mmi env (vn_vfsp dvp)))
     else nm \<noteq> [46] \<and> vn_view dvp \<noteq> NULL \<and> (MFS_FIDNULL fid \<longrightarrow> tvw = NULL) \<and>
       h = MFS_DNCHASH sz (vn_fid dvp) (fst (mfs_namehash nm)) (length nm))"

definition add_key :: "dnc_vnode \<Rightarrow> addr \<Rightarrow> u32 \<Rightarrow> cstr \<Rightarrow> dnc_key" where
  "add_key dvp tvw dnc_flags nm = (MVFS_FLAGON dnc_flags MVFS_DNC_RVC_ENT,
     if MVFS_FLAGON dnc_flags MVFS_DNC_RVC_ENT then tvw else vn_view dvp, vn_vfsp dvp, vn_fid dvp, nm)"

lemma flagon_ucast: "m = MFS_DNC_BHINVARIANT \<or> m = MFS_DNC_NOTINDIR \<or> m = MFS_DNC_CASE_INSENSITIVE \<or> m = MVFS_DNC_RVC_ENT
    \<Longrightarrow> MVFS_FLAGON (ucast (ucast (f :: u32) :: u16)) m = MVFS_FLAGON f m"
proof -
  assume m: "m = MFS_DNC_BHINVARIANT \<or> m = MFS_DNC_NOTINDIR \<or> m = MFS_DNC_CASE_INSENSITIVE \<or> m = MVFS_DNC_RVC_ENT"
  have "(ucast (ucast f :: u16) :: u32) = f AND mask 16" by (rule bit_word_eqI) (auto simp: bit_simps)
  moreover have "mask 16 AND m = m" using m by (auto simp: dnc_flag_defs mask_eq_exp_minus_1)
  ultimately show ?thesis by (simp add: MVFS_FLAGON_def and.assoc)
qed

lemma dnchash_less [simp]: "0 < sz \<Longrightarrow> MFS_DNCHASH sz fid h n < sz" "0 < sz \<Longrightarrow> MVFS_RVCHASH sz u v < sz"
  by (simp_all add: MFS_DNCHASH_def MVFS_RVCHASH_def)

lemma add_hash_less: "add_args_ok env sz dvp tvw fl nm fid type h \<Longrightarrow> 0 < sz \<Longrightarrow> h < sz"
  by (auto simp: add_args_ok_def split: if_splits)

definition no_key :: "dnc_key \<Rightarrow> mvfs_dnlc_data \<Rightarrow> bool" where
  "no_key k st \<longleftrightarrow> (\<forall>j < mfs_dncmax st. linked (mfs_dnc st ! j) \<longrightarrow> ent_key (mfs_dnc st ! j) \<noteq> k)"

lemma add_key_hash:
  assumes "used_ok env sz e" and "ent_key e = add_key dvp tvw fl nm" and "add_args_ok env sz dvp tvw fl nm fid type h"
  shows "dnc_hash e = int h"
  using assms by (auto simp: used_ok_def ent_key_def add_key_def add_args_ok_def split: option.splits if_splits)

lemma find_add_key:
  assumes inv: "dnc_inv env vb cb st" and a: "add_args_ok env (mvfs_dnchashsize st) dvp tvw fl nm fid type h"
    and f: "mfs_dncfind (vn_fid dvp) (vn_vfsp dvp) (if MVFS_FLAGON fl MVFS_DNC_RVC_ENT then tvw else vn_view dvp)
      nm (length nm) False h st = r"
  shows "r = None \<Longrightarrow> no_key (add_key dvp tvw fl nm) st"
    and "r = Some i \<Longrightarrow> i < mfs_dncmax st \<and> linked (mfs_dnc st ! i) \<and> ent_key (mfs_dnc st ! i) = add_key dvp tvw fl nm"
proof -
  have h: "h < mvfs_dnchashsize st" "nm \<noteq> []" "MVFS_FLAGON fl MVFS_DNC_RVC_ENT \<longleftrightarrow> nm = [46]"
    using a inv add_hash_less [OF a] by (auto simp: dnc_inv_def add_args_ok_def split: if_splits)
  show "no_key (add_key dvp tvw fl nm) st" if "r = None"
    unfolding no_key_def
  proof (intro allI impI notI)
    fix j assume j: "j < mfs_dncmax st" "linked (mfs_dnc st ! j)" "ent_key (mfs_dnc st ! j) = add_key dvp tvw fl nm"
    then have "dnc_hash (mfs_dnc st ! j) = int h" using add_key_hash [OF inv_used [OF inv] _ a] by blast
    from find_NoneD [OF inv h(1,2) f [unfolded that] j(1) this] j(3) show False by (simp only: add_key_def) blast
  qed
  show "i < mfs_dncmax st \<and> linked (mfs_dnc st ! i) \<and> ent_key (mfs_dnc st ! i) = add_key dvp tvw fl nm" if "r = Some i"
    using find_SomeD [OF inv h(1,2) f [unfolded that]] h(3) by (simp add: add_key_def)
qed

lemma no_key_given_up:
  assumes inv: "dnc_inv env vb cb st" and "given_up i st st'" and "i < mfs_dncmax st" and "linked (mfs_dnc st ! i)"
    and "ent_key (mfs_dnc st ! i) = k"
  shows "no_key k st'"
proof -
  have "mfs_dncmax st' = mfs_dncmax st" "mfs_dnc st' = (mfs_dnc st)[i := freed_ent (mfs_dnc st ! i)]"
    using assms(2) by (simp_all add: given_up_def dnc_consts_def)
  moreover have "ent_key (mfs_dnc st ! j) \<noteq> k" if "j < mfs_dncmax st" "linked (mfs_dnc st ! j)" "j \<noteq> i" for j
    using inv that assms(3-5) inv_len [OF inv] unfolding dnc_inv_def dnc_keys_ok_def by metis
  ultimately show ?thesis
    unfolding no_key_def using inv_len [OF inv] assms(3) by (metis freed_facts(1) nth_list_update_eq nth_list_update_neq)
qed

lemma new_ent_facts [simp]:
  "dnc_hash (new_ent dvp tvw fl nm n fid evt h cd X) = int h" "linked (new_ent dvp tvw fl nm n fid evt h cd X)"
  "\<not> dn_in_trans (new_ent dvp tvw fl nm n fid evt h cd X)" "dn_lruhead (new_ent dvp tvw fl nm n fid evt h cd X) = dn_lruhead X"
  "ent_key (new_ent dvp tvw fl nm n fid evt h cd X) = add_key dvp tvw fl nm"
  "\<not> dn_invalid (new_ent dvp tvw fl nm n fid evt h cd X)" "dn_vfid (new_ent dvp tvw fl nm n fid evt h cd X) = fid"
  "dn_vevtime (new_ent dvp tvw fl nm n fid evt h cd X) = evt" "dn_vvw (new_ent dvp tvw fl nm n fid evt h cd X) = tvw"
  "dn_dncgen (new_ent dvp tvw fl nm n fid evt h cd X) = vn_dncgen dvp"
  "dn_addtime (new_ent dvp tvw fl nm n fid evt h cd X) = cd_ctime cd"
  by (simp_all add: new_ent_def linked_def ent_key_def add_key_def ent_flag_def flagon_ucast)

lemma bh_slots_set [simp]: "bh_slots_ok (mfs_dncbhset b e)"
  by (simp add: bh_slots_ok_def mfs_dncbhset_def Let_def MFS_DNCBHMAX_def)

lemma bh_slots_new [simp]: "bh_slots_ok (new_ent dvp tvw fl nm n fid evt h cd X)"
  by (simp add: bh_slots_ok_def new_ent_def dncadd_fill_def mfs_dncbhset_def Let_def MFS_DNCBHMAX_def)

lemma new_ent_used:
  assumes "add_args_ok env sz dvp tvw fl nm fid type h" and "dn_lruhead X = lru_of_type type"
  shows "used_ok env sz (new_ent dvp tvw fl nm (length nm) fid evt h cd X)"
  using assms bh_slots_new [of dvp tvw fl nm "length nm" fid evt h cd X]
  by (auto simp: used_ok_def new_ent_def add_args_ok_def ent_flag_def flagon_ucast lru_of_type_def)

lemma no_key_inval_at:
  assumes "no_key k st" and "soft f" and "length (mfs_dnc st) = mfs_dncmax st"
  shows "no_key k (inval_at f I st)"
  unfolding no_key_def
proof (intro allI impI)
  fix j assume j: "j < mfs_dncmax (inval_at f I st)" "linked (mfs_dnc (inval_at f I st) ! j)"
  then have "ent_core (mfs_dnc (inval_at f I st) ! j) = ent_core (mfs_dnc st ! j)" "j < mfs_dncmax st"
    using assms(2,3) by (simp_all add: soft_def inval_at_def)
  from ent_core_facts(1,2) [OF this(1)] this(2) j(2) assms(1) show "ent_key (mfs_dnc (inval_at f I st) ! j) \<noteq> k"
    by (simp add: no_key_def)
qed

lemma inv_dncadd_new:
  assumes inv: "dnc_inv env vb cb st" and a: "add_args_ok env (mvfs_dnchashsize st) dvp tvw fl nm fid type h"
    and k: "no_key (add_key dvp tvw fl nm) st"
  shows "dnc_inv env vb cb (dncadd_new dvp tvw fl nm (length nm) fid type evt h cd st)"
proof (cases "dnc_lru st (lru_of_type type)")
  case Nil
  then show ?thesis using inv by (simp add: dncadd_new_def)
next
  case (Cons i r)
  have h: "h < mvfs_dnchashsize st" using a inv add_hash_less [OF a] by (simp add: dnc_inv_def)
  obtain I X where I: "i \<notin> I" "i < mfs_dncmax st" "dn_lruhead X = lru_of_type type"
      "dn_lruhead (mfs_dnc st ! i) = lru_of_type type"
    and f: "filled i h (new_ent dvp tvw fl nm (length nm) fid evt h cd X) (inval_at invalidate I st)
      (dncadd_new dvp tvw fl nm (length nm) fid type evt h cd st)"
    using dncadd_new_filled [OF inv h Cons, where dvp = dvp and tvw = tvw and dnc_flags = fl and nm = nm and n = "length nm"
      and fid = fid and evt = evt and cd = cd] .
  let ?st = "inval_at invalidate I st"
  have inv': "dnc_inv env vb cb ?st" by (rule inv_inval_at [OF inv soft_invalidate])
  have c: "mvfs_dnchashsize ?st = mvfs_dnchashsize st" "mfs_dncmax ?st = mfs_dncmax st" by (simp_all add: inval_at_def)
  have "no_key (add_key dvp tvw fl nm) ?st" by (rule no_key_inval_at [OF k soft_invalidate inv_len [OF inv]])
  then have "ent_key (mfs_dnc ?st ! j) \<noteq> ent_key (new_ent dvp tvw fl nm (length nm) fid evt h cd X)"
    if "j < mfs_dncmax ?st" "linked (mfs_dnc ?st ! j)" for j
    using that unfolding new_ent_facts no_key_def by blast
  moreover have "dn_lruhead (mfs_dnc ?st ! i) = lru_of_type type" using I inv_len [OF inv] by simp
  ultimately show ?thesis
    using I h c new_ent_used [OF a I(3)] by (intro inv_filled [OF inv' _ f]) simp_all
qed

text \<open>A changed entry with the same core.\<close>
lemma inv_set_ent:
  assumes inv: "dnc_inv env vb cb st" and "linked (mfs_dnc st ! i)" and "ent_core e = ent_core (mfs_dnc st ! i)"
  shows "dnc_inv env vb cb (set_ent i e st)"
  unfolding set_ent_def
proof (rule inv_core [OF inv])
  fix j assume j: "j < length ((mfs_dnc st)[i := e])"
  show "ent_core ((mfs_dnc st)[i := e] ! j) = ent_core (mfs_dnc st ! j)"
    using j assms(3) by (cases "j = i") simp_all
  show "dn_flags ((mfs_dnc st)[i := e] ! j) = dn_flags (mfs_dnc st ! j)" if "\<not> linked (mfs_dnc st ! j)"
    using that assms(2) by (cases "j = i") simp_all
qed simp

lemma bh_slots_add [simp]: "bh_slots_ok e \<Longrightarrow> bh_slots_ok (mfs_dncbhadd b e)"
  by (auto simp: bh_slots_ok_def mfs_dncbhadd_def Let_def)

lemma bh_core [simp]:
  assumes "bh_slots_ok e"
  shows "ent_core (mfs_dncbhset b e) = ent_core e" and "ent_core (mfs_dncbhadd b e) = ent_core e"
  using assms bh_slots_set [of b e] bh_slots_add [OF assms, of b]
  by (simp_all add: ent_core_def) (simp_all add: mfs_dncbhset_def mfs_dncbhadd_def ent_flag_def Let_def)

lemma bh_slots_fields [simp]:
  "bh_slots_ok (e\<lparr>dn_flags := f\<rparr>) = bh_slots_ok e" "bh_slots_ok (e\<lparr>dn_nullbh := x\<rparr>) = bh_slots_ok e"
  "bh_slots_ok (e\<lparr>dn_invalid := x\<rparr>) = bh_slots_ok e" "bh_slots_ok (e\<lparr>dn_dncgen := g\<rparr>) = bh_slots_ok e"
  by (simp_all add: bh_slots_ok_def)

lemma bh_fields [simp]:
  "dn_vevtime (mfs_dncbhset b e) = dn_vevtime e" "dn_vevtime (mfs_dncbhadd b e) = dn_vevtime e"
  "dn_invalid (mfs_dncbhset b e) = dn_invalid e" "dn_invalid (mfs_dncbhadd b e) = dn_invalid e"
  "dn_dncgen (mfs_dncbhset b e) = dn_dncgen e" "dn_dncgen (mfs_dncbhadd b e) = dn_dncgen e"
  "dn_flags (mfs_dncbhset b e) = dn_flags e" "dn_flags (mfs_dncbhadd b e) = dn_flags e"
  "dn_lruhead (mfs_dncbhset b e) = dn_lruhead e" "dn_dvw (mfs_dncbhset b e) = dn_dvw e" "dn_vfsp (mfs_dncbhset b e) = dn_vfsp e"
  "dn_dfid (mfs_dncbhset b e) = dn_dfid e" "dn_len (mfs_dncbhset b e) = dn_len e" "dn_nm_p (mfs_dncbhset b e) = dn_nm_p e"
  "dn_vvw (mfs_dncbhset b e) = dn_vvw e" "dn_vfid (mfs_dncbhset b e) = dn_vfid e" "dn_cred (mfs_dncbhset b e) = dn_cred e"
  "dnc_hash (mfs_dncbhset b e) = dnc_hash e" "dn_in_trans (mfs_dncbhset b e) = dn_in_trans e"
  "dn_addtime (mfs_dncbhset b e) = dn_addtime e" "dn_addtime (mfs_dncbhadd b e) = dn_addtime e"
  by (simp_all add: mfs_dncbhset_def mfs_dncbhadd_def Let_def)

lemma refresh_fields:
  "bh_slots_ok e \<Longrightarrow> ent_flag e MVFS_DNC_RVC_ENT = MVFS_FLAGON fl MVFS_DNC_RVC_ENT \<Longrightarrow>
     ent_core (dncadd_refresh dvp fl mth e) = ent_core e"
  "\<not> dn_invalid (dncadd_refresh dvp fl mth e)" "dn_vevtime (dncadd_refresh dvp fl mth e) = dn_vevtime e"
  "bh_slots_ok e \<Longrightarrow> bh_slots_ok (dncadd_refresh dvp fl mth e)"
  by (simp_all add: dncadd_refresh_def Let_def ent_core_def ent_flag_def flagon_ucast)

lemma inv_dncadd_match:
  assumes inv: "dnc_inv env vb cb st" and i: "i < mfs_dncmax st" "linked (mfs_dnc st ! i)"
    and f: "ent_flag (mfs_dnc st ! i) MVFS_DNC_RVC_ENT = MVFS_FLAGON fl MVFS_DNC_RVC_ENT"
  shows "dnc_inv env vb cb (dncadd_match dvp fl type mth i st)"
  using inv_set_ent [OF inv i(2)] refresh_fields(1) [OF inv_bh_slots [OF inv i] f] refresh_fields(4) [OF inv_bh_slots [OF inv i]]
  by (simp add: dncadd_match_def Let_def)

lemma given_up_counters [simp]:
  "given_up i st (DNC_BUMP s st') = given_up i st st'"
  by (simp add: given_up_def dnc_prims)

lemma displace_given_up:
  assumes inv: "dnc_inv env vb cb st" and i: "i < mfs_dncmax st"
  shows "given_up i st (dncadd_displace i st)"
proof -
  have "\<not> dn_in_trans (mfs_dnc (dnc_unhash i st) ! i)" using inv_not_in_trans [OF inv i] i inv_len [OF inv] by simp
  then show ?thesis
    using recycle_given_up [of i st] i inv_len [OF inv] by (simp add: dncadd_displace_def Let_def)
qed

lemma consts_sel: "dnc_consts st' = dnc_consts st \<Longrightarrow> mvfs_dnchashsize st' = mvfs_dnchashsize st \<and>
    mfs_dncmax st' = mfs_dncmax st \<and> mvfs_dncenabled st' = mvfs_dncenabled st \<and> mfs_dnc_null st' = mfs_dnc_null st \<and>
    mvfs_dncnoentenabled st' = mvfs_dncnoentenabled st \<and> mvfs_dncdirmax st' = mvfs_dncdirmax st"
  by (simp add: dnc_consts_def)

lemma inv_dncadd_subr:
  assumes inv: "dnc_inv env vb cb st" and a: "add_args_ok env (mvfs_dnchashsize st) dvp tvw fl nm fid type h"
  shows "dnc_inv env vb cb (mvfs_dncadd_subr env' dvp tvw fl nm (length nm) fid type evt h cd st)"
proof -
  let ?st = "DNC_BUMP Dnc_add st"
  have inv': "dnc_inv env vb cb ?st" and a': "add_args_ok env (mvfs_dnchashsize ?st) dvp tvw fl nm fid type h"
    using inv a by (simp, simp add: DNC_BUMP_def)
  define r where "r = mfs_dncfind (vn_fid dvp) (vn_vfsp dvp) (if MVFS_FLAGON fl MVFS_DNC_RVC_ENT then tvw else vn_view dvp)
      nm (length nm) False h ?st"
  note find = find_add_key [OF inv' a' r_def [symmetric]]
  show ?thesis
  proof (cases r)
    case None
    have "dnc_inv env vb cb (dncadd_new dvp tvw fl nm (length nm) fid type evt h cd ?st)"
      by (rule inv_dncadd_new [OF inv' a' find(1) [OF None]])
    then show ?thesis using inv None by (simp add: mvfs_dncadd_subr_def Let_def r_def)
  next
    case (Some i)
    note i = find(2) [OF Some]
    have m: "dnc_inv env vb cb (dncadd_match dvp fl type (cd_thread cd) i ?st)"
    proof (rule inv_dncadd_match [OF inv'])
      show "ent_flag (mfs_dnc ?st ! i) MVFS_DNC_RVC_ENT = MVFS_FLAGON fl MVFS_DNC_RVC_ENT"
        using i by (simp add: ent_key_def add_key_def)
    qed (use i in simp_all)
    have g: "given_up i ?st (dncadd_displace i ?st)" using displace_given_up [OF inv'] i by blast
    have "dnc_inv env vb cb (dncadd_displace i ?st)" using inv_given_up [OF inv' _ g] i by blast
    moreover have "no_key (add_key dvp tvw fl nm) (dncadd_displace i ?st)"
      using no_key_given_up [OF inv' g] i by blast
    moreover have "mvfs_dnchashsize (dncadd_displace i ?st) = mvfs_dnchashsize ?st"
      using g consts_sel [of "dncadd_displace i ?st" ?st] unfolding given_up_def by blast
    ultimately have "dnc_inv env vb cb (dncadd_new dvp tvw fl nm (length nm) fid type evt h cd (dncadd_displace i ?st))"
      using a' by (intro inv_dncadd_new) simp_all
    then show ?thesis using inv Some m by (simp add: mvfs_dncadd_subr_def Let_def r_def)
  qed
qed

lemma rvc_ucast [simp]: "ent_flag (e\<lparr>dn_flags := dn_flags e OR ucast fl\<rparr>) MVFS_DNC_RVC_ENT \<longleftrightarrow>
    ent_flag e MVFS_DNC_RVC_ENT \<or> MVFS_FLAGON fl MVFS_DNC_RVC_ENT"
  using flagon_ucast [of MVFS_DNC_RVC_ENT fl]
  by (auto simp: ent_flag_def MVFS_FLAGON_def unsigned_or_eq bit.conj_disj_distrib2 or_eq_0_iff)

lemma inv_add_flag:
  assumes inv: "dnc_inv env vb cb st" and "\<not> MVFS_FLAGON fl MVFS_DNC_RVC_ENT" and "0 < mvfs_dnchashsize st"
  shows "dnc_inv env vb cb (mfs_dnc_add_flag env' dvp nm dtm fl st)"
proof -
  let ?f = "mfs_dncfind (vn_fid dvp) (vn_vfsp dvp) (vn_view dvp) nm (length nm) False (dnchash_of st (vn_fid dvp) nm) st"
  have "dnc_inv env vb cb (set_ent i (if b then e\<lparr>dn_nullbh := True\<rparr> else e) st)"
    if "?f = Some i" "nm \<noteq> []" "e = (mfs_dnc st ! i)\<lparr>dn_flags := dn_flags (mfs_dnc st ! i) OR ucast fl\<rparr>" for i b e
  proof (rule inv_set_ent [OF inv])
    show "linked (mfs_dnc st ! i)"
      using find_SomeD(2) [OF inv _ that(2,1)] assms(3) by (simp add: dnchash_of_def)
    have "ent_core e = ent_core (mfs_dnc st ! i)"
      using that(3) assms(2) rvc_ucast [of "mfs_dnc st ! i" fl] by (simp add: ent_core_def del: rvc_ucast)
    then show "ent_core (if b then e\<lparr>dn_nullbh := True\<rparr> else e) = ent_core (mfs_dnc st ! i)"
      by (simp add: ent_core_def ent_flag_def)
  qed
  then show ?thesis
    using inv by (simp add: mfs_dnc_add_flag_def Let_def split: option.split)
qed

lemma in_transit_inval:
  assumes "in_transit i st st'" and "r \<noteq> i" and "r < length (mfs_dnc st)" and "i < length (mfs_dnc st)"
  shows "in_transit i (inval_at set_invalid {r} st) (set_ent r (set_invalid (mfs_dnc st' ! r)) st')"
proof -
  have "mfs_dnc (set_ent r (set_invalid (mfs_dnc st' ! r)) st') = (mfs_dnc (inval_at set_invalid {r} st))
      [i := (mfs_dnc (inval_at set_invalid {r} st) ! i)\<lparr>dnc_hash := -1, dn_in_trans := True\<rparr>]"
    using assms by (intro nth_equalityI) (auto simp: in_transit_def set_ent_def nth_list_update)
  then show ?thesis using assms(1) by (simp add: in_transit_def set_ent_def)
qed

text \<open>Nothing but invalidations, and counters.\<close>
definition weakened :: "mvfs_dnlc_data \<Rightarrow> mvfs_dnlc_data \<Rightarrow> bool" where
  "weakened st st' \<longleftrightarrow> dnc_consts st' = dnc_consts st \<and> mfs_dnchash st' = mfs_dnchash st \<and> dnc_lru st' = dnc_lru st \<and>
    vn_holds st' = vn_holds st \<and> cr_holds st' = cr_holds st \<and> length (mfs_dnc st') = length (mfs_dnc st) \<and>
    (\<forall>j < length (mfs_dnc st). ent_core (mfs_dnc st' ! j) = ent_core (mfs_dnc st ! j) \<and>
       dn_flags (mfs_dnc st' ! j) = dn_flags (mfs_dnc st ! j) \<and> dn_vevtime (mfs_dnc st' ! j) = dn_vevtime (mfs_dnc st ! j) \<and>
       (dn_invalid (mfs_dnc st ! j) \<longrightarrow> dn_invalid (mfs_dnc st' ! j)))"

lemma weakened_refl [simp]: "weakened st st"
  by (simp add: weakened_def)

lemma weakened_trans: "weakened a b \<Longrightarrow> weakened b c \<Longrightarrow> weakened a c"
  by (auto simp: weakened_def)

lemma weakened_counters [simp]:
  "weakened st (DNC_BUMP s st') = weakened st st'" "weakened st (DNC_BUMP_VAL s n st') = weakened st st'"
  by (simp_all add: weakened_def dnc_prims)

lemma weakened_inval_at: "weakened st (inval_at invalidate I st)" "weakened st (inval_at set_invalid I st)"
  using soft_invalidate soft_set_invalid by (auto simp: weakened_def soft_def invalidate_def set_invalid_def)

lemma inv_weakened:
  assumes inv: "dnc_inv env vb cb st" and w: "weakened st st'"
  shows "dnc_inv env vb cb st'"
proof -
  have "dnc_inv env vb cb (st\<lparr>mfs_dnc := mfs_dnc st'\<rparr>)"
    by (rule inv_core [OF inv]) (use w in \<open>simp_all add: weakened_def\<close>)
  then show ?thesis using w by (simp add: weakened_def dnc_consts_def dnc_inv_def lru_of_index_def)
qed

lemma no_key_weakened:
  assumes "dnc_inv env vb cb st" and "weakened st st'" and "no_key k st"
  shows "no_key k st'"
  unfolding no_key_def
proof (intro allI impI)
  fix j assume j: "j < mfs_dncmax st'" "linked (mfs_dnc st' ! j)"
  then have "j < mfs_dncmax st" "ent_core (mfs_dnc st' ! j) = ent_core (mfs_dnc st ! j)"
    using assms(2) inv_len [OF assms(1)] by (simp_all add: weakened_def dnc_consts_def)
  from ent_core_facts(1,2) [OF this(2)] this(1) j(2) assms(3) show "ent_key (mfs_dnc st' ! j) \<noteq> k"
    by (simp add: no_key_def)
qed

lemma inv_synonyms:
  assumes "dnc_inv env vb cb st" and "h < mvfs_dnchashsize st"
  shows "weakened st (mfs_dnc_inval_case_synonyms fid vw nm n h st)"
proof -
  have "distinct (mfs_dnchash st ! h)" "set (mfs_dnchash st ! h) \<subseteq> {..<length (mfs_dnc st)}"
    using inv_rings [OF assms(1)] assms(2) by (auto simp: rings_ok_def)
  then obtain I k where "mfs_dnc_inval_case_synonyms fid vw nm n h st = DNC_BUMP_VAL Dnc_invalhits k (inval_at invalidate I st)"
    by (rule synonyms_effect)
  then show ?thesis by (simp add: weakened_inval_at)
qed

text \<open>A transit of an entry, possibly with invalidations of others on the way.\<close>
lemma transit_weakened_inval:
  assumes inv: "dnc_inv env vb cb st" and w: "weakened st st0" and t: "in_transit i st0 st1" and i: "i < mfs_dncmax st"
    and f: "mfs_dncfind fid vfs vw nm n b h st1 = Some r" and h: "h < mvfs_dnchashsize st"
  obtains st0' where "weakened st st0'" and "in_transit i st0' (set_ent r (set_invalid (mfs_dnc st1 ! r)) st1)"
proof -
  note inv0 = inv_weakened [OF inv w]
  have r: "r \<in> set (mfs_dnchash st1 ! h)" using f by (auto simp: mfs_dncfind_def find_Some_iff in_set_conv_nth)
  have c: "mvfs_dnchashsize st0 = mvfs_dnchashsize st" "mfs_dncmax st0 = mfs_dncmax st"
    using w by (simp_all add: weakened_def dnc_consts_def)
  note rings = inv_rings [OF inv0]
  have "h < length (mfs_dnchash st0)" using rings h c by (simp add: rings_ok_def)
  then have "r \<in> set (remove1 i (mfs_dnchash st0 ! h))" using r t by (simp add: in_transit_def)
  moreover have "distinct (mfs_dnchash st0 ! h)" using rings h c by (simp add: rings_ok_def)
  ultimately have "r \<noteq> i" "r \<in> set (mfs_dnchash st0 ! h)" by (auto simp: set_remove1_eq)
  then have "r < length (mfs_dnc st0)" using rings_chain_mem [OF rings] h c by simp
  with \<open>r \<noteq> i\<close> have "in_transit i (inval_at set_invalid {r} st0) (set_ent r (set_invalid (mfs_dnc st1 ! r)) st1)"
    using in_transit_inval [OF t] i c inv_len [OF inv0] by simp
  then show thesis using that weakened_trans [OF w weakened_inval_at(2)] by blast
qed

text \<open>The net effect of a removal: the entry found is given up, others are at most invalidated.\<close>
definition removed :: "dnc_key \<Rightarrow> mvfs_dnlc_data \<Rightarrow> mvfs_dnlc_data \<Rightarrow> bool" where
  "removed k st st' \<longleftrightarrow> weakened st st' \<and> no_key k st \<or>
    (\<exists>i st0. weakened st st0 \<and> given_up i st0 st' \<and> i < mfs_dncmax st \<and> linked (mfs_dnc st ! i) \<and> ent_key (mfs_dnc st ! i) = k)"

lemma dncremove_one_effect:
  assumes inv: "dnc_inv env vb cb st" and "mvfs_dncenabled st" and "\<not> mmi_nodnlc (env_mmi env (vn_vfsp dvp))" and "nm \<noteq> []"
    and k: "k = (nm = [46], vn_view dvp, vn_vfsp dvp, vn_fid dvp, nm)" and st': "st' = snd (mfs_dncremove_one env dvp nm st)"
  shows "weakened st st' \<or> removed k st st'" and "nm \<noteq> [46] \<Longrightarrow> removed k st st'"
proof -
  let ?h = "dnchash_of st (vn_fid dvp) nm" and ?n = "length nm"
  have sz: "0 < mvfs_dnchashsize st" "\<not> mfs_dnc_null st" using inv by (simp_all add: dnc_inv_def)
  then have h: "?h < mvfs_dnchashsize st" by (simp add: dnchash_of_def)
  define f where "f = mfs_dncfind (vn_fid dvp) (vn_vfsp dvp) (vn_view dvp) nm ?n False ?h st"
  have *: "(weakened st st' \<and> (nm \<noteq> [46] \<longrightarrow> no_key k st)) \<or> removed k st st'"
  proof (cases f)
    case None
    have "no_key k st" if "nm \<noteq> [46]"
      unfolding no_key_def
    proof (intro allI impI notI)
      fix j assume j: "j < mfs_dncmax st" "linked (mfs_dnc st ! j)" "ent_key (mfs_dnc st ! j) = k"
      then have "dnc_hash (mfs_dnc st ! j) = int ?h"
        using inv_used [OF inv j(1,2)] that k
        by (auto simp: used_ok_def ent_key_def dnchash_of_def mfs_namehash_def split: option.splits)
      from find_NoneD [OF inv h assms(4) None [unfolded f_def] j(1) this] j(3) k show False by blast
    qed
    then show ?thesis
      using None assms(2-4) sz inv_synonyms [OF inv h] by (simp add: st' mfs_dncremove_one_def Let_def f_def)
  next
    case (Some i)
    note i = find_SomeD [OF inv h assms(4) Some [unfolded f_def]]
    define t where "t = set_in_trans True i (dnc_rmlru i (dnc_unhash i st))"
    have t: "in_transit i st t" using take_in_transit [OF inv i(1)] inv_on_chain [OF inv i(1)] i(2) by (simp add: t_def)
    obtain I k' where I: "in_transit i (inval_at invalidate I st)
        (mfs_dnc_inval_case_synonyms (vn_fid dvp) (vn_view dvp) nm ?n ?h t)"
      using in_transit_synonyms [OF inv i(1) t h] by blast
    define st1 where "st1 = mfs_dnc_inval_case_synonyms (vn_fid dvp) (vn_view dvp) nm ?n ?h t"
    define rh where "rh = rvchash_of env st (vn_view dvp) (vn_vfsp dvp)"
    define rvc where "rvc = (if dn_lruhead (mfs_dnc st1 ! i) = Dirlru then mfs_dncfind
      (vn_fid (mmi_rootvp (env_mmi env (vn_vfsp dvp)))) (vn_vfsp dvp) (vn_view dvp) [46] 1 False rh st1 else None)"
    define inval where "inval = (case rvc of None \<Rightarrow> False | Some r \<Rightarrow> MFS_FIDEQ (dn_vfid (mfs_dnc st1 ! r)) (dn_vfid (mfs_dnc st1 ! i)))"
    define st2 where "st2 = (if inval then set_ent (the rvc) (set_invalid (mfs_dnc st1 ! the rvc)) st1 else st1)"
    have rh: "rh < mvfs_dnchashsize st" using sz by (simp add: rh_def rvchash_of_def)
    obtain st0 where st0: "weakened st st0" "in_transit i st0 st2"
    proof (cases inval)
      case True
      then obtain r where r: "rvc = Some r" by (auto simp: inval_def split: option.splits)
      then have "mfs_dncfind (vn_fid (mmi_rootvp (env_mmi env (vn_vfsp dvp)))) (vn_vfsp dvp) (vn_view dvp) [46] 1 False rh st1 = Some r"
        by (simp add: rvc_def split: if_splits)
      from transit_weakened_inval [OF inv weakened_inval_at(1) I [folded st1_def] i(1) this rh]
      show ?thesis using that True r by (auto simp: st2_def)
    next
      case False
      then show ?thesis using that [OF weakened_inval_at(1)] I by (simp add: st2_def st1_def)
    qed
    have "i < length (mfs_dnc st0)" using st0(1) i(1) inv_len [OF inv] by (simp add: weakened_def)
    then have g: "given_up i st0 (dnc_inslru_head i (set_in_trans False i (mfs_dncrele i st2)))"
      by (rule finish_free [OF st0(2)])
    have "\<not> dn_in_trans (mfs_dnc (dnc_unhash i st) ! i)" using inv_not_in_trans [OF inv i(1)] i(1) inv_len [OF inv] by simp
    then have "st' = (if inval then DNC_BUMP Dnc_invalhits (dnc_inslru_head i (set_in_trans False i (mfs_dncrele i st2)))
        else dnc_inslru_head i (set_in_trans False i (mfs_dncrele i st2)))"
      using Some assms(2-4) sz
      unfolding st' mfs_dncremove_one_def Let_def st2_def inval_def rvc_def rh_def st1_def t_def f_def by simp
    then have "given_up i st0 st'" using g by simp
    then show ?thesis using st0(1) i k unfolding removed_def by blast
  qed
  then show "weakened st st' \<or> removed k st st'" by blast
  show "removed k st st'" if "nm \<noteq> [46]" using * that by (auto simp: removed_def)
qed

lemma removed_effect:
  assumes inv: "dnc_inv env vb cb st" and r: "removed k st st'"
  shows "dnc_inv env vb cb st'" and "no_key k st'" and "dnc_consts st' = dnc_consts st"
proof -
  show "dnc_inv env vb cb st'"
    using r inv_weakened [OF inv] inv_given_up unfolding removed_def
    by (metis weakened_def consts_sel)
  show "no_key k st'"
    using r unfolding removed_def
  proof (elim disjE exE conjE)
    fix i st0
    assume a: "weakened st st0" "given_up i st0 st'" "i < mfs_dncmax st" "linked (mfs_dnc st ! i)" "ent_key (mfs_dnc st ! i) = k"
    then have c: "ent_core (mfs_dnc st0 ! i) = ent_core (mfs_dnc st ! i)" "mfs_dncmax st0 = mfs_dncmax st"
      using inv_len [OF inv] by (simp_all add: weakened_def dnc_consts_def)
    show "no_key k st'"
      using no_key_given_up [OF inv_weakened [OF inv a(1)] a(2)] ent_core_facts(1,2) [OF c(1)] a c(2) by simp
  qed (use no_key_weakened [OF inv] in blast)
  show "dnc_consts st' = dnc_consts st" using r by (auto simp: removed_def weakened_def given_up_def)
qed

end
