(* ===== verification/Mvfs_Dnc_Spec.thy ===== *)
theory Mvfs_Dnc_Spec
  imports Mvfs_Dnc_Inv
begin

text \<open>What the name cache promises: every valid translation in it was added for its key and has not been
  changed, removed or invalidated since.  The reference is a cache that never forgets: a map from keys
  to translations.  Every operation of the name cache is an operation on that map, and the cache stays a
  part of it.\<close>

section \<open>The translations in the cache\<close>

text \<open>The identifier of the result, its event time and its view.\<close>
type_synonym dnc_val = "mfs_fid \<times> timeval \<times> addr"

definition ent_val :: "mfs_dncent \<Rightarrow> dnc_val" where
  "ent_val e = (dn_vfid e, dn_vevtime e, dn_vvw e)"

definition cached :: "mvfs_dnlc_data \<Rightarrow> (dnc_key \<times> dnc_val) set" where
  "cached st = {(ent_key e, ent_val e) | e i. i < mfs_dncmax st \<and> e = mfs_dnc st ! i \<and> linked e \<and> \<not> dn_invalid e}"

text \<open>The cache only loses translations.\<close>
definition shrunk :: "mvfs_dnlc_data \<Rightarrow> mvfs_dnlc_data \<Rightarrow> bool" where
  "shrunk st st' \<longleftrightarrow> dnc_consts st' = dnc_consts st \<and> (\<forall>j < mfs_dncmax st. linked (mfs_dnc st' ! j) \<longrightarrow>
     linked (mfs_dnc st ! j) \<and> ent_key (mfs_dnc st' ! j) = ent_key (mfs_dnc st ! j) \<and>
     ent_val (mfs_dnc st' ! j) = ent_val (mfs_dnc st ! j) \<and> (dn_invalid (mfs_dnc st ! j) \<longrightarrow> dn_invalid (mfs_dnc st' ! j)))"

lemma shrunk_cached: "shrunk st st' \<Longrightarrow> cached st' \<subseteq> cached st"
  unfolding cached_def shrunk_def dnc_consts_def by (clarsimp simp: prod_eq_iff) metis

lemma shrunk_refl [simp]: "shrunk st st"
  by (simp add: shrunk_def)

lemma shrunk_trans: "shrunk a b \<Longrightarrow> shrunk b c \<Longrightarrow> shrunk a c"
  unfolding shrunk_def dnc_consts_def by auto

lemma shrunk_counters [simp]:
  "shrunk st (DNC_BUMP s st') = shrunk st st'" "shrunk st (DNC_BUMP_VAL s n st') = shrunk st st'"
  "shrunk st (VN_HOLD v st') = shrunk st st'" "shrunk st (ATRIA_VN_RELE v st') = shrunk st st'"
  by (simp_all add: shrunk_def)

lemma cached_counters [simp]:
  "cached (DNC_BUMP s st) = cached st" "cached (DNC_BUMP_VAL s n st) = cached st" "cached (bump_type t st) = cached st"
  by (simp_all add: cached_def dnc_prims)

lemma weakened_shrunk:
  assumes "weakened st st'" and "length (mfs_dnc st) = mfs_dncmax st"
  shows "shrunk st st'"
  unfolding shrunk_def
proof (intro conjI allI impI)
  fix j assume j: "j < mfs_dncmax st" and l: "linked (mfs_dnc st' ! j)"
  have c: "ent_core (mfs_dnc st' ! j) = ent_core (mfs_dnc st ! j)" using assms j by (simp add: weakened_def)
  note f = ent_core_facts [OF c]
  show "linked (mfs_dnc st ! j)" "ent_key (mfs_dnc st' ! j) = ent_key (mfs_dnc st ! j)" using f l by simp_all
  show "ent_val (mfs_dnc st' ! j) = ent_val (mfs_dnc st ! j)" using f assms j by (simp add: ent_val_def weakened_def)
  show "dn_invalid (mfs_dnc st' ! j)" if "dn_invalid (mfs_dnc st ! j)" using that assms j by (simp add: weakened_def)
qed (use assms in \<open>simp add: weakened_def\<close>)

lemma given_up_shrunk:
  assumes "given_up i st st'" and "i < mfs_dncmax st" and "length (mfs_dnc st) = mfs_dncmax st"
  shows "shrunk st st'"
  using assms by (auto simp: shrunk_def given_up_def nth_list_update)

lemma removed_shrunk:
  assumes inv: "dnc_inv env vb cb st" and "removed k st st'"
  shows "shrunk st st'"
  using assms(2) unfolding removed_def
proof (elim disjE exE conjE)
  fix i st0 assume a: "weakened st st0" "given_up i st0 st'" "i < mfs_dncmax st"
  have "length (mfs_dnc st0) = mfs_dncmax st0" "mfs_dncmax st0 = mfs_dncmax st"
    using a(1) inv_len [OF inv] by (simp_all add: weakened_def dnc_consts_def)
  then show "shrunk st st'"
    using weakened_shrunk [OF a(1) inv_len [OF inv]] given_up_shrunk [OF a(2)] a(3) shrunk_trans by metis
qed (use weakened_shrunk inv_len [OF inv] in blast)

lemma no_key_cached: "no_key k st \<Longrightarrow> (k, v) \<notin> cached st"
  by (auto simp: no_key_def cached_def)

section \<open>What an add leaves\<close>

lemma filled_cached:
  assumes f: "filled i h e st st'" and "length (mfs_dnc st) = mfs_dncmax st" and i: "i < mfs_dncmax st"
    and kv: "(k, v) \<in> cached st'"
  shows "(k, v) = (ent_key e, ent_val e) \<or> (\<exists>j < mfs_dncmax st. j \<noteq> i \<and> linked (mfs_dnc st ! j) \<and> ent_key (mfs_dnc st ! j) = k)
    \<and> (k, v) \<in> cached st"
proof -
  have c: "mfs_dnc st' = (mfs_dnc st)[i := e]" "mfs_dncmax st' = mfs_dncmax st"
    using f by (simp_all add: filled_def dnc_consts_def)
  obtain j where j: "j < mfs_dncmax st" "k = ent_key (mfs_dnc st' ! j)" "v = ent_val (mfs_dnc st' ! j)"
    "linked (mfs_dnc st' ! j)" "\<not> dn_invalid (mfs_dnc st' ! j)"
    using kv c by (auto simp: cached_def)
  show ?thesis
  proof (cases "j = i")
    case True
    then show ?thesis using j c i assms(2) by simp
  next
    case False
    then show ?thesis using j c unfolding cached_def by auto
  qed
qed

lemma dncadd_new_cached:
  assumes inv: "dnc_inv env vb cb st" and a: "add_args_ok env (mvfs_dnchashsize st) dvp tvw fl nm fid type h"
    and k: "no_key (add_key dvp tvw fl nm) st"
    and kv: "(k, v) \<in> cached (dncadd_new dvp tvw fl nm (length nm) fid type evt h cd st)"
  shows "k = add_key dvp tvw fl nm \<and> v = (fid, evt, tvw) \<or> k \<noteq> add_key dvp tvw fl nm \<and> (k, v) \<in> cached st"
proof (cases "dnc_lru st (lru_of_type type)")
  case Nil
  then have "(k, v) \<in> cached st" using kv by (simp add: dncadd_new_def)
  then show ?thesis using no_key_cached [OF k, of v] by blast
next
  case (Cons i r)
  have h: "h < mvfs_dnchashsize st" using a inv add_hash_less [OF a] by (simp add: dnc_inv_def)
  obtain I X where I: "i < mfs_dncmax st"
    and f: "filled i h (new_ent dvp tvw fl nm (length nm) fid evt h cd X) (inval_at invalidate I st)
      (dncadd_new dvp tvw fl nm (length nm) fid type evt h cd st)"
    using dncadd_new_filled [OF inv h Cons, where dvp = dvp and tvw = tvw and dnc_flags = fl and nm = nm and n = "length nm"
      and fid = fid and evt = evt and cd = cd] .
  let ?st = "inval_at invalidate I st"
  have c: "length (mfs_dnc ?st) = mfs_dncmax ?st" "mfs_dncmax ?st = mfs_dncmax st"
    using inv_len [OF inv] by (simp_all add: inval_at_def)
  have nk: "no_key (add_key dvp tvw fl nm) ?st" by (rule no_key_inval_at [OF k soft_invalidate inv_len [OF inv]])
  have sub: "cached ?st \<subseteq> cached st"
    by (rule shrunk_cached [OF weakened_shrunk [OF weakened_inval_at(1) inv_len [OF inv]]])
  from filled_cached [OF f c(1) _ kv] I c(2) have
    "(k, v) = (add_key dvp tvw fl nm, (fid, evt, tvw)) \<or> (\<exists>j < mfs_dncmax ?st. linked (mfs_dnc ?st ! j) \<and> ent_key (mfs_dnc ?st ! j) = k)
    \<and> (k, v) \<in> cached ?st" by (auto simp: ent_val_def)
  then show ?thesis using nk sub by (auto simp: no_key_def)
qed

text \<open>An entry for the key with the same translation keeps the view of its result.\<close>
definition same_view :: "dnc_key \<Rightarrow> dnc_val \<Rightarrow> mvfs_dnlc_data \<Rightarrow> bool" where
  "same_view k v st \<longleftrightarrow> (\<forall>j < mfs_dncmax st. linked (mfs_dnc st ! j) \<longrightarrow> ent_key (mfs_dnc st ! j) = k \<longrightarrow>
     dn_vfid (mfs_dnc st ! j) = fst v \<longrightarrow> dn_vevtime (mfs_dnc st ! j) = fst (snd v) \<longrightarrow> dn_vvw (mfs_dnc st ! j) = snd (snd v))"

lemma match_cached:
  assumes inv: "dnc_inv env vb cb st" and i: "i < mfs_dncmax st" "linked (mfs_dnc st ! i)"
    and f: "ent_flag (mfs_dnc st ! i) MVFS_DNC_RVC_ENT = MVFS_FLAGON fl MVFS_DNC_RVC_ENT"
    and kv: "(k, v) \<in> cached (dncadd_match dvp fl type mth i st)"
  shows "k = ent_key (mfs_dnc st ! i) \<and> v = ent_val (mfs_dnc st ! i) \<or> k \<noteq> ent_key (mfs_dnc st ! i) \<and> (k, v) \<in> cached st"
proof -
  define e where "e = dncadd_refresh dvp fl mth (mfs_dnc st ! i)"
  define e' where "e' = (if mfs_dnc_nullbhcheck mth e \<or> mfs_dncbhcheck mth e then e else mfs_dncbhadd (thr_bh mth) e)"
  have core: "ent_core e' = ent_core (mfs_dnc st ! i)" and t: "dn_vevtime e' = dn_vevtime (mfs_dnc st ! i)"
    using refresh_fields(1) [OF inv_bh_slots [OF inv i] f] refresh_fields(4) [OF inv_bh_slots [OF inv i]] refresh_fields(3)
    by (simp_all add: e'_def e_def)
  note facts = ent_core_facts [OF core]
  have "cached (dncadd_match dvp fl type mth i st) = cached (set_ent i e' st)"
    by (simp add: dncadd_match_def Let_def e'_def e_def)
  then obtain j where j: "j < mfs_dncmax st" "k = ent_key ((mfs_dnc st)[i := e'] ! j)" "v = ent_val ((mfs_dnc st)[i := e'] ! j)"
    "linked ((mfs_dnc st)[i := e'] ! j)" "\<not> dn_invalid ((mfs_dnc st)[i := e'] ! j)"
    using kv by (auto simp: cached_def set_ent_def)
  show ?thesis
  proof (cases "j = i")
    case True
    then show ?thesis using j i facts t inv_len [OF inv] by (simp add: ent_val_def)
  next
    case False
    then have k: "k = ent_key (mfs_dnc st ! j)" "(k, v) \<in> cached st" using j by (auto simp: cached_def)
    have "k \<noteq> ent_key (mfs_dnc st ! i)"
      using inv False i j k(1) inv_len [OF inv] unfolding dnc_inv_def dnc_keys_ok_def by (metis nth_list_update_neq)
    then show ?thesis using k(2) by blast
  qed
qed

lemma dncadd_subr_cached:
  assumes inv: "dnc_inv env vb cb st" and a: "add_args_ok env (mvfs_dnchashsize st) dvp tvw fl nm fid type h"
    and on: "mvfs_dncenabled st" "mvfs_dncnoentenabled st \<or> \<not> MFS_FIDNULL fid" "\<not> mmi_nodnlc (env_mmi env' (vn_vfsp dvp))"
    and view: "same_view (add_key dvp tvw fl nm) (fid, evt, tvw) st"
    and kv: "(k, v) \<in> cached (mvfs_dncadd_subr env' dvp tvw fl nm (length nm) fid type evt h cd st)"
  shows "k = add_key dvp tvw fl nm \<and> v = (fid, evt, tvw) \<or> k \<noteq> add_key dvp tvw fl nm \<and> (k, v) \<in> cached st"
proof -
  let ?st = "DNC_BUMP Dnc_add st"
  have inv': "dnc_inv env vb cb ?st" and a': "add_args_ok env (mvfs_dnchashsize ?st) dvp tvw fl nm fid type h"
    using inv a by (simp, simp add: DNC_BUMP_def)
  define r where "r = mfs_dncfind (vn_fid dvp) (vn_vfsp dvp) (if MVFS_FLAGON fl MVFS_DNC_RVC_ENT then tvw else vn_view dvp)
      nm (length nm) False h ?st"
  note find = find_add_key [OF inv' a' r_def [symmetric]]
  have eq: "mvfs_dncadd_subr env' dvp tvw fl nm (length nm) fid type evt h cd st = (case r of
      Some i \<Rightarrow> if fid = dn_vfid (mfs_dnc ?st ! i) \<and> evt = dn_vevtime (mfs_dnc ?st ! i)
         then dncadd_match dvp fl type (cd_thread cd) i ?st
         else dncadd_new dvp tvw fl nm (length nm) fid type evt h cd (dncadd_displace i ?st)
    | None \<Rightarrow> dncadd_new dvp tvw fl nm (length nm) fid type evt h cd ?st)"
    unfolding mvfs_dncadd_subr_def Let_def r_def FIDEQ_iff TVEQ_iff using inv on by (auto simp: dnc_inv_def)
  show ?thesis
  proof (cases r)
    case None
    then show ?thesis using dncadd_new_cached [OF inv' a' find(1) [OF None]] kv eq by simp
  next
    case (Some i)
    note i = find(2) [OF Some]
    show ?thesis
    proof (cases "fid = dn_vfid (mfs_dnc ?st ! i) \<and> evt = dn_vevtime (mfs_dnc ?st ! i)")
      case True
      have "ent_flag (mfs_dnc ?st ! i) MVFS_DNC_RVC_ENT = MVFS_FLAGON fl MVFS_DNC_RVC_ENT"
        using i by (simp add: ent_key_def add_key_def)
      from match_cached [OF inv' _ _ this] kv eq Some True i have
        "k = add_key dvp tvw fl nm \<and> v = ent_val (mfs_dnc ?st ! i) \<or> k \<noteq> add_key dvp tvw fl nm \<and> (k, v) \<in> cached ?st" by simp
      moreover have "ent_val (mfs_dnc ?st ! i) = (fid, evt, tvw)"
        using view i True by (simp add: same_view_def ent_val_def DNC_BUMP_def)
      ultimately show ?thesis by simp
    next
      case False
      have g: "given_up i ?st (dncadd_displace i ?st)" using displace_given_up [OF inv'] i by blast
      have inv2: "dnc_inv env vb cb (dncadd_displace i ?st)" using inv_given_up [OF inv' _ g] i by blast
      have nk: "no_key (add_key dvp tvw fl nm) (dncadd_displace i ?st)" using no_key_given_up [OF inv' g] i by blast
      have "mvfs_dnchashsize (dncadd_displace i ?st) = mvfs_dnchashsize ?st"
        using g consts_sel [of "dncadd_displace i ?st" ?st] unfolding given_up_def by blast
      then have a2: "add_args_ok env (mvfs_dnchashsize (dncadd_displace i ?st)) dvp tvw fl nm fid type h" using a' by simp
      have "(k, v) \<in> cached (dncadd_new dvp tvw fl nm (length nm) fid type evt h cd (dncadd_displace i ?st))"
        using kv unfolding eq Some option.case if_not_P [OF False] .
      from dncadd_new_cached [OF inv2 a2 nk this] have "k = add_key dvp tvw fl nm \<and> v = (fid, evt, tvw) \<or>
          k \<noteq> add_key dvp tvw fl nm \<and> (k, v) \<in> cached (dncadd_displace i ?st)" .
      moreover have "cached (dncadd_displace i ?st) \<subseteq> cached ?st"
        using shrunk_cached [OF given_up_shrunk [OF g]] i inv_len [OF inv'] by blast
      ultimately show ?thesis by auto
    qed
  qed
qed

end
