(* ===== verification/Mvfs_Dnc_Ops.thy ===== *)
theory Mvfs_Dnc_Ops
  imports Mvfs_Dnc_Spec
begin

text \<open>The operations of the name cache as steps: what each of them keeps of the invariant and of the
  translations in the cache.  A step that is not an add only loses translations; the lemmas here say
  which ones it has to lose, and what a lookup may answer.\<close>

section \<open>Steps that only lose translations\<close>

definition keeps :: "dnc_env \<Rightarrow> (addr \<Rightarrow> int) \<Rightarrow> (addr \<Rightarrow> int) \<Rightarrow> mvfs_dnlc_data \<Rightarrow> mvfs_dnlc_data \<Rightarrow> bool" where
  "keeps env vb cb st st' \<longleftrightarrow> dnc_inv env vb cb st' \<and> shrunk st st'"

lemma keeps_refl [simp]: "keeps env vb cb st st \<longleftrightarrow> dnc_inv env vb cb st"
  by (simp add: keeps_def)

lemma keeps_trans: "keeps env vb cb a b \<Longrightarrow> keeps env vb' cb b c \<Longrightarrow> keeps env vb' cb a c"
  by (auto simp: keeps_def intro: shrunk_trans)

lemma keeps_counters [simp]:
  "keeps env vb cb st (DNC_BUMP s st') = keeps env vb cb st st'"
  "keeps env vb cb st (DNC_BUMP_VAL s n st') = keeps env vb cb st st'"
  by (simp_all add: keeps_def)

lemma keeps_weakened: "dnc_inv env vb cb st \<Longrightarrow> weakened st st' \<Longrightarrow> keeps env vb cb st st'"
  by (simp add: keeps_def inv_weakened weakened_shrunk inv_len)

lemma keeps_removed: "dnc_inv env vb cb st \<Longrightarrow> removed k st st' \<Longrightarrow> keeps env vb cb st st'"
  by (simp add: keeps_def removed_effect(1) removed_shrunk)

lemma keeps_given_up: "dnc_inv env vb cb st \<Longrightarrow> i < mfs_dncmax st \<Longrightarrow> given_up i st st' \<Longrightarrow> keeps env vb cb st st'"
  by (simp add: keeps_def inv_given_up given_up_shrunk inv_len)

lemma keepsD: "keeps env vb cb st st' \<Longrightarrow> dnc_inv env vb cb st'" "keeps env vb cb st st' \<Longrightarrow> cached st' \<subseteq> cached st"
    "keeps env vb cb st st' \<Longrightarrow> dnc_consts st' = dnc_consts st" "keeps env vb cb st st' \<Longrightarrow> mfs_dncmax st' = mfs_dncmax st"
  by (simp_all add: keeps_def shrunk_cached shrunk_def dnc_consts_def)

lemma no_key_shrunk: "shrunk st st' \<Longrightarrow> no_key k st \<Longrightarrow> no_key k st'"
  by (simp add: shrunk_def no_key_def dnc_consts_def)

text \<open>A hold for a caller, and its release.\<close>
lemma inv_hold: "dnc_inv env vb cb st \<Longrightarrow> dnc_inv env (vb(v := vb v + 1)) cb (VN_HOLD v st)"
  by (simp add: dnc_inv_def VN_HOLD_def holds_ok_def lru_of_index_def)

lemma inv_rele: "dnc_inv env (vb(v := vb v + 1)) cb st \<Longrightarrow> dnc_inv env vb cb (ATRIA_VN_RELE v st)"
  by (auto simp: dnc_inv_def ATRIA_VN_RELE_def holds_ok_def lru_of_index_def)

lemma inv_base_null: "dnc_inv env (vb(NULL := x)) cb st \<longleftrightarrow> dnc_inv env vb cb st"
  by (simp add: dnc_inv_def holds_ok_def)

lemma inv_rele_maybe:
  "dnc_inv env (vb(v := vb v + 1)) cb st \<Longrightarrow> dnc_inv env vb cb (if v \<noteq> NULL then ATRIA_VN_RELE v st else st)"
  by (cases "v = NULL") (simp_all add: inv_rele inv_base_null)

lemma keeps_hold: "keeps env vb cb st st' \<Longrightarrow> keeps env (vb(v := vb v + 1)) cb st (VN_HOLD v st')"
  by (simp add: keeps_def inv_hold)

lemma keeps_rele: "keeps env (vb(v := vb v + 1)) cb st st' \<Longrightarrow> keeps env vb cb st (ATRIA_VN_RELE v st')"
  by (simp add: keeps_def inv_rele)

lemma keeps_rele_maybe:
  "keeps env (vb(v := vb v + 1)) cb st st' \<Longrightarrow> keeps env vb cb st (if v \<noteq> NULL then ATRIA_VN_RELE v st' else st')"
  by (cases "v = NULL") (simp_all add: keeps_def inv_rele inv_base_null)

section \<open>Removing\<close>

abbreviation dir_key :: "dnc_vnode \<Rightarrow> cstr \<Rightarrow> dnc_key" where
  "dir_key dvp nm \<equiv> (False, vn_view dvp, vn_vfsp dvp, vn_fid dvp, nm)"

lemma keeps_remove_one:
  assumes inv: "dnc_inv env vb cb st"
  shows "keeps env vb cb st (snd (mfs_dncremove_one env dvp nm st))"
proof (cases "mvfs_dncenabled st \<and> \<not> mmi_nodnlc (env_mmi env (vn_vfsp dvp)) \<and> nm \<noteq> []")
  case True
  then show ?thesis
    using dncremove_one_effect(1) [OF inv, of dvp nm _ "snd (mfs_dncremove_one env dvp nm st)"]
      keeps_weakened [OF inv] keeps_removed [OF inv] by blast
next
  case False
  then show ?thesis using inv by (auto simp: mfs_dncremove_one_def)
qed

lemma plain_key_named: "dnc_inv env vb cb st \<Longrightarrow> no_key (False, vw, vfs, fid, []) st"
    "dnc_inv env vb cb st \<Longrightarrow> no_key (False, vw, vfs, fid, [46]) st"
  unfolding no_key_def by (auto dest!: inv_used simp: used_ok_def ent_key_def split: option.splits if_splits)

lemma remove_one_gone:
  assumes inv: "dnc_inv env vb cb st" and "mvfs_dncenabled st" and "\<not> mmi_nodnlc (env_mmi env (vn_vfsp dvp))"
  shows "no_key (dir_key dvp nm) (snd (mfs_dncremove_one env dvp nm st))"
proof (cases "nm = [] \<or> nm = [46]")
  case True
  then show ?thesis using plain_key_named [OF keepsD(1) [OF keeps_remove_one [OF inv]]] by blast
next
  case False
  then show ?thesis
    using removed_effect(2) [OF inv dncremove_one_effect(2) [OF inv assms(2,3) _ refl refl]] by simp
qed

text \<open>The names a removal takes out.\<close>
definition remove_names :: "dnc_env \<Rightarrow> bool \<Rightarrow> cstr \<Rightarrow> cstr list" where
  "remove_names env alloc nm = (case mfs_hmname (env_viewroot env) nm of
      (True, Some xnm) \<Rightarrow> [xnm, nm]
    | _ \<Rightarrow> nm # (case mfs_hmappend (env_viewroot env) alloc nm of None \<Rightarrow> [] | Some xnm \<Rightarrow> [xnm]))"

lemma remove_names_fold: "snd (mfs_dncremove env alloc dvp nm st) =
    fold (\<lambda>x st. snd (mfs_dncremove_one env dvp x st)) (remove_names env alloc nm) st"
  by (auto simp: mfs_dncremove_def remove_names_def split: prod.splits bool.splits option.splits)

lemma fold_remove:
  assumes "dnc_inv env vb cb st"
  shows "keeps env vb cb st (fold (\<lambda>x st. snd (mfs_dncremove_one env dvp x st)) xs st)"
    and "mvfs_dncenabled st \<Longrightarrow> \<not> mmi_nodnlc (env_mmi env (vn_vfsp dvp)) \<Longrightarrow> x \<in> set xs \<Longrightarrow>
      no_key (dir_key dvp x) (fold (\<lambda>x st. snd (mfs_dncremove_one env dvp x st)) xs st)"
proof -
  let ?r = "\<lambda>x st. snd (mfs_dncremove_one env dvp x st)"
  have k: "keeps env vb cb st (fold ?r xs st)" if "dnc_inv env vb cb st" for xs st
    using that
  proof (induction xs arbitrary: st)
    case (Cons a xs)
    note a = keeps_remove_one [OF Cons.prems, of dvp a]
    show ?case using keeps_trans [OF a Cons.IH [OF keepsD(1) [OF a]]] by simp
  qed simp
  then show "keeps env vb cb st (fold ?r xs st)" using assms .
  show "no_key (dir_key dvp x) (fold ?r xs st)"
    if "mvfs_dncenabled st" "\<not> mmi_nodnlc (env_mmi env (vn_vfsp dvp))" "x \<in> set xs"
    using assms that
  proof (induction xs arbitrary: st)
    case (Cons a xs)
    note a = keeps_remove_one [OF Cons.prems(1), of dvp a]
    have en: "mvfs_dncenabled (?r a st)" using keepsD(3) [OF a] Cons.prems(2) by (simp add: dnc_consts_def)
    show ?case
    proof (cases "x = a")
      case True
      then have "no_key (dir_key dvp x) (?r a st)" using remove_one_gone Cons.prems(1-3) by blast
      moreover have "shrunk (?r a st) (fold ?r xs (?r a st))" using k [OF keepsD(1) [OF a]] by (simp add: keeps_def)
      ultimately show ?thesis using no_key_shrunk by simp
    next
      case False
      then show ?thesis using Cons.IH [OF keepsD(1) [OF a] en Cons.prems(3)] Cons.prems(4) by simp
    qed
  qed simp
qed

lemmas keeps_remove = fold_remove(1) [of env vb cb st dvp "remove_names env alloc nm" for env vb cb st dvp alloc nm,
    folded remove_names_fold]
lemmas remove_gone = fold_remove(2) [of env vb cb st dvp x "remove_names env alloc nm" for env vb cb st dvp alloc nm x,
    folded remove_names_fold]

section \<open>Flushing\<close>

lemma inv_dirmax: "dnc_inv env vb cb st \<Longrightarrow> mvfs_dncdirmax st \<le> mfs_dncmax st"
  by (simp add: dnc_inv_def)

lemma inv_not_null: "dnc_inv env vb cb st \<Longrightarrow> \<not> mfs_dnc_null st"
  by (simp add: dnc_inv_def)

text \<open>A loop over entries that gives up those with a property.\<close>
lemma sweep:
  assumes step: "\<And>i st. dnc_inv env vb cb st \<Longrightarrow> i < mfs_dncmax st \<Longrightarrow>
      f i st = st \<and> (linked (mfs_dnc st ! i) \<longrightarrow> \<not> Q (mfs_dnc st ! i)) \<or> given_up i st (f i st)"
    and inv: "dnc_inv env vb cb st" and xs: "set xs \<subseteq> {..<mfs_dncmax st}"
  shows "keeps env vb cb st (fold f xs st) \<and>
    (\<forall>j < mfs_dncmax st. linked (mfs_dnc (fold f xs st) ! j) \<longrightarrow>
       mfs_dnc (fold f xs st) ! j = mfs_dnc st ! j \<and> (j \<in> set xs \<longrightarrow> \<not> Q (mfs_dnc st ! j)))"
  using inv xs
proof (induction xs arbitrary: st)
  case (Cons i xs)
  have i: "i < mfs_dncmax st" using Cons.prems by simp
  have k: "keeps env vb cb st (f i st)"
    using step [OF Cons.prems(1) i] keeps_given_up [OF Cons.prems(1) i] Cons.prems(1) by auto
  note IH = Cons.IH [OF keepsD(1) [OF k]]
  have one: "mfs_dnc (f i st) ! j = mfs_dnc st ! j \<and> (j = i \<longrightarrow> \<not> Q (mfs_dnc st ! j))"
    if "linked (mfs_dnc (f i st) ! j)" "j < mfs_dncmax st" for j
    using step [OF Cons.prems(1) i]
  proof
    assume "given_up i st (f i st)"
    then have "mfs_dnc (f i st) = (mfs_dnc st)[i := freed_ent (mfs_dnc st ! i)]" by (simp add: given_up_def)
    then show ?thesis using that inv_len [OF Cons.prems(1)] by (cases "j = i") simp_all
  qed (use that in auto)
  have sub: "set xs \<subseteq> {..<mfs_dncmax (f i st)}" using Cons.prems(2) keepsD(4) [OF k] by simp
  note rest = IH [OF sub, unfolded keepsD(4) [OF k]]
  have "mfs_dnc (fold f xs (f i st)) ! j = mfs_dnc st ! j \<and> (j \<in> set (i # xs) \<longrightarrow> \<not> Q (mfs_dnc st ! j))"
    if "linked (mfs_dnc (fold f xs (f i st)) ! j)" "j < mfs_dncmax st" for j
    using rest one [of j] that by (metis set_ConsD)
  then show ?case using keeps_trans [OF k] rest unfolding fold.simps o_apply by blast
qed simp

lemma upt_indices: "set [0..<n] \<subseteq> {..<n}"
  by auto

lemma snd_flush_fold: "snd (fold (flush_step vfs) xs ds) = fold (\<lambda>i st. snd (flush_step vfs i (0, st))) xs (snd ds)"
proof (induction xs arbitrary: ds)
  case (Cons i xs)
  have "snd (flush_step vfs i ds) = snd (flush_step vfs i (0, snd ds))"
    by (simp add: flush_step_def Let_def split: prod.splits)
  then show ?case by (simp add: Cons.IH)
qed simp

lemma flush_subr_effect:
  assumes inv: "dnc_inv env vb cb st" and st': "st' = snd (mvfs_dncflush_subr vfs st)"
  shows "keeps env vb cb st st'"
    and "j < mfs_dncmax st \<Longrightarrow> linked (mfs_dnc st' ! j) \<Longrightarrow>
      mfs_dnc st' ! j = mfs_dnc st ! j \<and> vfs \<noteq> NULL \<and> dn_vfsp (mfs_dnc st ! j) \<noteq> vfs"
proof -
  let ?f = "\<lambda>i st. snd (flush_step vfs i (0, st))" and ?Q = "\<lambda>e. vfs = NULL \<or> dn_vfsp e = vfs"
  have step: "?f i st = st \<and> (linked (mfs_dnc st ! i) \<longrightarrow> \<not> ?Q (mfs_dnc st ! i)) \<or> given_up i st (?f i st)"
    if "dnc_inv env vb cb st" "i < mfs_dncmax st" for i st
    using inv_unused_iff [OF that] inv_not_in_trans [OF that] inv_flush_ent(1) [OF that]
    by (auto simp: flush_step_def Let_def)
  note s = sweep [of env vb cb ?f ?Q, OF step inv upt_indices]
  have eq: "st' = (if vfs = NULL then DNC_BUMP Dnc_flush (fold ?f [0..<mfs_dncmax st] st) else fold ?f [0..<mfs_dncmax st] st)"
    using inv_not_null [OF inv] snd_flush_fold [of vfs "[0..<mfs_dncmax st]" "(0, st)"]
    by (simp add: st' mvfs_dncflush_subr_def case_prod_beta)
  show "keeps env vb cb st st'" using s eq by auto
  show "mfs_dnc st' ! j = mfs_dnc st ! j \<and> vfs \<noteq> NULL \<and> dn_vfsp (mfs_dnc st ! j) \<noteq> vfs"
    if "j < mfs_dncmax st" "linked (mfs_dnc st' ! j)" using s eq that by (auto split: if_splits)
qed

lemma flushvw_effect:
  assumes inv: "dnc_inv env vb cb st" and st': "st' = mfs_dnc_flushvw vw st"
  shows "keeps env vb cb st st'"
    and "j < mfs_dncmax st \<Longrightarrow> linked (mfs_dnc st' ! j) \<Longrightarrow>
      mfs_dnc st' ! j = mfs_dnc st ! j \<and> dn_dvw (mfs_dnc st ! j) \<noteq> vw \<and> dn_vvw (mfs_dnc st ! j) \<noteq> vw"
proof -
  let ?Q = "\<lambda>e. dn_dvw e = vw \<or> dn_vvw e = vw"
  have step: "flushvw_step vw i st = st \<and> (linked (mfs_dnc st ! i) \<longrightarrow> \<not> ?Q (mfs_dnc st ! i)) \<or> given_up i st (flushvw_step vw i st)"
    if "dnc_inv env vb cb st" "i < mfs_dncmax st" for i st
    using inv_unused_iff [OF that] inv_not_in_trans [OF that] inv_flush_ent(1) [OF that]
    by (auto simp: flushvw_step_def Let_def)
  note s = sweep [of env vb cb "flushvw_step vw" ?Q, OF step inv upt_indices]
  have eq: "st' = DNC_BUMP Dnc_flushvw (fold (flushvw_step vw) [0..<mfs_dncmax st] st)"
    using inv by (simp add: st' mfs_dnc_flushvw_def dnc_inv_def)
  show "keeps env vb cb st st'" using s eq by auto
  show "mfs_dnc st' ! j = mfs_dnc st ! j \<and> dn_dvw (mfs_dnc st ! j) \<noteq> vw \<and> dn_vvw (mfs_dnc st ! j) \<noteq> vw"
    if "j < mfs_dncmax st" "linked (mfs_dnc st' ! j)" using s eq that by auto
qed

section \<open>Invalidating\<close>

lemma inval_loop_effect:
  assumes inv: "dnc_inv env vb cb st" and hi: "hi \<le> mfs_dncmax st" and st': "st' = snd (inval_loop P lo hi st)"
  shows "keeps env vb cb st st'"
    and "j < mfs_dncmax st \<Longrightarrow> linked (mfs_dnc st' ! j) \<Longrightarrow> \<not> dn_invalid (mfs_dnc st' ! j) \<Longrightarrow>
      mfs_dnc st' ! j = mfs_dnc st ! j \<and> (lo \<le> j \<and> j < hi \<longrightarrow> \<not> P (mfs_dnc st ! j))"
proof -
  have eq: "st' = inval_at set_invalid (set (inval_hits P lo hi st)) st"
    using inval_loop_eq hi inv_len [OF inv] by (simp add: st')
  show "keeps env vb cb st st'" using keeps_weakened [OF inv weakened_inval_at(2)] by (simp add: eq)
  assume j: "j < mfs_dncmax st" "linked (mfs_dnc st' ! j)" "\<not> dn_invalid (mfs_dnc st' ! j)"
  then have n: "j \<notin> set (inval_hits P lo hi st)" "mfs_dnc st' ! j = mfs_dnc st ! j"
    using inv_len [OF inv] by (auto simp: eq set_invalid_def split: if_splits)
  then show "mfs_dnc st' ! j = mfs_dnc st ! j \<and> (lo \<le> j \<and> j < hi \<longrightarrow> \<not> P (mfs_dnc st ! j))"
    using j inv_unused_iff [OF inv j(1)] inv_not_in_trans [OF inv j(1)] by (auto simp: inval_hits_def)
qed

lemma inval_eqs:
  assumes "\<not> mfs_dnc_null st"
  shows "vn_isvob vp \<Longrightarrow> mfs_dnc_invalvp vp st = (let r = inval_loop (\<lambda>e. dn_vfsp e = vn_vfsp vp \<and>
           (dn_dvw e = vn_view vp \<and> dn_dfid e = vn_fid vp \<or> dn_vvw e = vn_view vp \<and> dn_vfid e = vn_fid vp)) 0 (mfs_dncmax st) st in
      DNC_BUMP_VAL Dnc_invalhits (fst r) (DNC_BUMP Dnc_invalvp (snd r)))"
    and "\<not> vn_isvob vp \<Longrightarrow> mfs_dnc_invalvp vp st = st"
    and "mfs_dnc_invalvw vw st = (let r = inval_loop (\<lambda>e. dn_dvw e = vw \<or> dn_vvw e = vw) 0 (mfs_dncmax st) st in
      DNC_BUMP_VAL Dnc_invalhits (fst r) (DNC_BUMP Dnc_invalvw (snd r)))"
    and "mvfs_rvcflush vw vfs st = (let r = inval_loop (\<lambda>e. dn_vvw e = vw \<and> ent_flag e MVFS_DNC_RVC_ENT \<and>
           (vfs = NULL \<or> vfs = dn_vfsp e)) 0 (mvfs_dncdirmax st) st in
      DNC_BUMP_VAL Dnc_invalhits (fst r) (DNC_BUMP_VAL Rvc_purge (fst r) (snd r)))"
    and "mfs_dnc_inval_obj_not_found st = (if mvfs_dnc_noent_other st = 0 then st else
      let r = inval_loop (\<lambda>e. \<not> ent_flag e MFS_DNC_NOTINDIR) (mfs_dnc_enoent_start st) (mfs_dncmax st) st in
      DNC_BUMP_VAL Dnc_invalhits (fst r) (DNC_BUMP Dnc_invalnf (snd r)))"
  using assms by (simp_all add: mfs_dnc_invalvp_def mfs_dnc_invalvw_def mvfs_rvcflush_def mfs_dnc_inval_obj_not_found_def
      Let_def split: prod.splits)

lemma keeps_invals:
  assumes "dnc_inv env vb cb st"
  shows "keeps env vb cb st (mfs_dnc_invalvp vp st)" and "keeps env vb cb st (mfs_dnc_invalvw vw st)"
    and "keeps env vb cb st (mvfs_rvcflush vw vfs st)" and "keeps env vb cb st (mfs_dnc_inval_obj_not_found st)"
  using inval_loop_effect(1) [OF assms _ refl] inv_dirmax [OF assms] assms
  by (cases "vn_isvob vp"; simp add: inval_eqs inv_not_null [OF assms] Let_def)+

section \<open>Looking up\<close>

lemma FIDNULL_iff: "MFS_FIDNULL f \<longleftrightarrow> f = MFS_FID_NULL"
  by (auto simp: MFS_FIDNULL_def MFS_FID_NULL_def)

lemma counters_max [simp]: "mfs_dncmax (DNC_BUMP s st) = mfs_dncmax st"
  by (simp add: DNC_BUMP_def)

lemma inv_touch:
  assumes inv: "dnc_inv env vb cb st" and i: "i < mfs_dncmax st" and st': "st' = dnc_inslru_tail i (dnc_rmlru i st)"
  shows "keeps env vb cb st st'" and "mfs_dnc st' = mfs_dnc st"
proof -
  have r: "rings_ok (mvfs_dnchashsize st) (mfs_dnc st) (mfs_dnchash st) (dnc_lru st')"
    using rings_touch [OF inv_rings [OF inv] _ refl, of i] i inv_len [OF inv]
    by (auto simp: st' dnc_inslru_tail_def dnc_rmlru_def Let_def fun_upd_def if_distrib cong: if_cong)
  have e: "mfs_dnc st' = mfs_dnc st" "dnc_consts st' = dnc_consts st" "mfs_dnchash st' = mfs_dnchash st"
      "vn_holds st' = vn_holds st" "cr_holds st' = cr_holds st"
    by (simp_all add: st' dnc_prims Let_def)
  show "mfs_dnc st' = mfs_dnc st" by (rule e)
  show "keeps env vb cb st st'"
    using inv e r by (simp add: keeps_def shrunk_def dnc_inv_def dnc_consts_def lru_of_index_def)
qed

lemma lookup_subr_effect:
  assumes inv: "dnc_inv env vb cb st" and i: "i < mfs_dncmax st"
    and l: "mvfs_dnclookup_subr i want_view mth st = ((err, vvw), st')"
  shows "keeps env (vb(vvw := vb vvw + 1)) cb st st'" and "mfs_dnc st' = mfs_dnc st"
    and "err = 0 \<Longrightarrow> \<not> dn_invalid (mfs_dnc st ! i) \<and> vvw = (if want_view then dn_vvw (mfs_dnc st ! i) else NULL)"
    and "err \<noteq> 0 \<Longrightarrow> vvw = NULL"
proof -
  let ?e = "mfs_dnc st ! i"
  have null: "keeps env (vb(NULL := x)) cb st s = keeps env vb cb st s" for s x by (simp add: keeps_def inv_base_null)
  define s where "s = (if mfs_dnc_nullbhcheck mth ?e then DNC_BUMP Dnc_hitbhfromnull st else st)"
  define t where "t = dnc_inslru_tail i (dnc_rmlru i s)"
  have s: "dnc_inv env vb cb s" "i < mfs_dncmax s" "keeps env vb cb st s" "mfs_dnc s = mfs_dnc st"
    using inv i by (simp_all add: s_def)
  have t: "keeps env vb cb st t" "mfs_dnc t = mfs_dnc st"
    using keeps_trans [OF s(3) inv_touch(1) [OF s(1,2) t_def]] inv_touch(2) [OF s(1,2) t_def] s(4) by simp_all
  have st': "vvw = NULL \<and> (\<exists>why. st' = DNC_BUMP why (DNC_BUMP Dnc_misses st)) \<or> vvw = NULL \<and> st' = t \<or> st' = VN_HOLD vvw t"
    using l inv_not_in_trans [OF inv i] unfolding mvfs_dnclookup_subr_def Let_def s_def [symmetric] t_def [symmetric]
    by (auto split: if_splits)
  show "keeps env (vb(vvw := vb vvw + 1)) cb st st'" using st' t inv keeps_hold [OF t(1)] by (auto simp: null inv_base_null)
  show "mfs_dnc st' = mfs_dnc st" using st' t by auto
  show "err = 0 \<Longrightarrow> \<not> dn_invalid (mfs_dnc st ! i) \<and> vvw = (if want_view then dn_vvw (mfs_dnc st ! i) else NULL)" "err \<noteq> 0 \<Longrightarrow> vvw = NULL"
    using l by (auto simp: mvfs_dnclookup_subr_def Let_def split: if_splits)
qed

text \<open>A fetch of attributes that finds the file changed may invalidate its names.\<close>
definition getattr_ok :: "dnc_ops \<Rightarrow> bool" where
  "getattr_ok ops \<longleftrightarrow> (\<forall>vp st. snd (snd (op_clnt_getattr ops vp st)) = st \<or>
     snd (snd (op_clnt_getattr ops vp st)) = mfs_dnc_invalvp vp st)"

lemma evtime_valid_effect:
  assumes inv: "dnc_inv env vb cb st" and ops: "getattr_ok ops" and v: "mfs_evtime_valid ops vp tv st = (valid, st')"
  shows "keeps env vb cb st st'" and "valid \<Longrightarrow> tv = vn_evtime vp"
proof -
  have "keeps env vb cb st (snd (snd (op_clnt_getattr ops vp st)))"
    using ops keeps_invals(1) [OF inv, of vp] inv unfolding getattr_ok_def by (metis keeps_refl)
  then show "keeps env vb cb st st'"
    using v inv by (auto simp: mfs_evtime_valid_def Let_def split: if_splits prod.splits)
  show "valid \<Longrightarrow> tv = vn_evtime vp"
    using v by (auto simp: mfs_evtime_valid_def Let_def split: if_splits prod.splits)
qed


lemma find_nil:
  assumes inv: "dnc_inv env vb cb st" and h: "h < mvfs_dnchashsize st"
  shows "mfs_dncfind fid vfs vw [] 0 False h st = None"
proof -
  have "dn_len (mfs_dnc st ! i) \<noteq> 0" if "i \<in> set (mfs_dnchash st ! h)" for i
  proof -
    have i: "i < mfs_dncmax st" "linked (mfs_dnc st ! i)"
      using rings_chain_mem [OF inv_rings [OF inv] h that] inv_len [OF inv] by simp_all
    then show ?thesis using inv_used [OF inv i] by (auto simp: used_ok_def split: option.splits)
  qed
  then show ?thesis by (auto simp: mfs_dncfind_def find_None_iff dnc_matches_def)
qed

lemma lookup_find:
  assumes inv: "dnc_inv env vb cb st" and nm: "nm \<noteq> [46]"
    and f: "mfs_dncfind (vn_fid dvp) (vn_vfsp dvp) (vn_view dvp) nm (length nm) False (dnchash_of st (vn_fid dvp) nm) st = Some i"
  shows "i < mfs_dncmax st" and "linked (mfs_dnc st ! i)" and "ent_key (mfs_dnc st ! i) = dir_key dvp nm"
    and "MFS_FIDNULL (dn_vfid (mfs_dnc st ! i)) \<Longrightarrow> dn_vvw (mfs_dnc st ! i) = NULL"
    and "\<not> dn_invalid (mfs_dnc st ! i) \<Longrightarrow>
      (dir_key dvp nm, (dn_vfid (mfs_dnc st ! i), dn_vevtime (mfs_dnc st ! i), dn_vvw (mfs_dnc st ! i))) \<in> cached st"
proof -
  have h: "dnchash_of st (vn_fid dvp) nm < mvfs_dnchashsize st" using inv by (simp add: dnchash_of_def dnc_inv_def)
  have "nm \<noteq> []" using f find_nil [OF inv h] by auto
  note i = find_SomeD [OF inv h this f]
  show *: "i < mfs_dncmax st" "linked (mfs_dnc st ! i)" "ent_key (mfs_dnc st ! i) = dir_key dvp nm" using i nm by simp_all
  show "dn_vvw (mfs_dnc st ! i) = NULL" if "MFS_FIDNULL (dn_vfid (mfs_dnc st ! i))"
    using inv_used [OF inv *(1,2)] * that by (auto simp: used_ok_def ent_key_def split: option.splits if_splits)
  show "(dir_key dvp nm, (dn_vfid (mfs_dnc st ! i), dn_vevtime (mfs_dnc st ! i), dn_vvw (mfs_dnc st ! i))) \<in> cached st"
    if "\<not> dn_invalid (mfs_dnc st ! i)" using * that unfolding cached_def ent_val_def by force
qed

text \<open>What a lookup may answer, and the hold it hands out.\<close>
definition lookup_answer :: "dnc_ops \<Rightarrow> dnc_vnode \<Rightarrow> cstr \<Rightarrow> dnc_result \<Rightarrow> (dnc_key \<times> dnc_val) set \<Rightarrow> bool" where
  "lookup_answer ops dvp nm r kvs \<longleftrightarrow> (case r of DncMiss \<Rightarrow> True
    | DncEnoent \<Rightarrow> \<exists>evt. (dir_key dvp nm, (MFS_FID_NULL, evt, NULL)) \<in> kvs
    | DncVp vp \<Rightarrow> if nm = [46] then vp = dvp
        else \<exists>fid vvw. (dir_key dvp nm, (fid, vn_evtime vp, vvw)) \<in> kvs \<and> fid \<noteq> MFS_FID_NULL \<and>
          op_getvnode ops (vn_vfsp dvp) vvw fid = (0, vp))"

definition handed :: "dnc_result \<Rightarrow> (addr \<Rightarrow> int) \<Rightarrow> addr \<Rightarrow> int" where
  "handed r vb = (case r of DncVp vp \<Rightarrow> vb(vn_addr vp := vb (vn_addr vp) + 1) | _ \<Rightarrow> vb)"

lemma lookup_getvnode:
  assumes inv: "dnc_inv env vb cb st" and K: "keeps env vb cb st st1" and ops: "getattr_ok ops"
    and r: "(r, st') = (case op_getvnode ops vfs vvw fid of (error, vp) \<Rightarrow>
               if error \<noteq> 0 then (DncMiss, DNC_BUMP Dnc_missnovp (DNC_BUMP Dnc_misses (snd (mfs_dncremove env alloc dvp nm st1))))
               else
                 case mfs_evtime_valid ops vp evt (VN_HOLD (vn_addr vp) st1) of (valid, st) \<Rightarrow>
                   if \<not> valid then
                     (DncMiss, DNC_BUMP Dnc_missevtime (DNC_BUMP Dnc_misses
                       (snd (mfs_dncremove env alloc dvp nm (ATRIA_VN_RELE (vn_addr vp) st)))))
                   else (DncVp vp, DNC_BUMP (if vn_type vp = VDIR then Dnc_hitdir else Dnc_hitreg)
                     (DNC_BUMP Dnc_hits st)))"
  shows "keeps env (handed r vb) cb st st'" and "r = DncMiss \<or> (\<exists>vp. r = DncVp vp \<and> op_getvnode ops vfs vvw fid = (0, vp) \<and> evt = vn_evtime vp)"
proof -
  obtain error vp where g: "op_getvnode ops vfs vvw fid = (error, vp)" by fastforce
  obtain valid st2 where v: "mfs_evtime_valid ops vp evt (VN_HOLD (vn_addr vp) st1) = (valid, st2)" by fastforce
  let ?vb = "vb(vn_addr vp := vb (vn_addr vp) + 1)"
  note h = keeps_hold [OF K, of "vn_addr vp"]
  note e = evtime_valid_effect [OF keepsD(1) [OF h] ops v]
  have K2: "keeps env ?vb cb st st2" by (rule keeps_trans [OF h e(1)])
  have rm: "keeps env vb cb st (snd (mfs_dncremove env alloc dvp nm s))" if "keeps env vb cb st s" for s
    by (rule keeps_trans [OF that keeps_remove [OF keepsD(1) [OF that]]])
  show "keeps env (handed r vb) cb st st'"
    using r g v K2 rm [OF K] rm [OF keeps_rele [OF K2]] by (auto simp: handed_def split: if_splits)
  show "r = DncMiss \<or> (\<exists>vp. r = DncVp vp \<and> op_getvnode ops vfs vvw fid = (0, vp) \<and> evt = vn_evtime vp)"
    using r g v e(2) by (auto split: if_splits)
qed

lemma lookup_effect:
  assumes inv: "dnc_inv env vb cb st" and ops: "getattr_ok ops" and l: "mfs_dnclookup env ops alloc dvp nm cd st = (r, st')"
  shows "keeps env (handed r vb) cb st st'" and "lookup_answer ops dvp nm r (cached st)"
proof -
  let ?f = "mfs_dncfind (vn_fid dvp) (vn_vfsp dvp) (vn_view dvp) nm (length nm) False (dnchash_of st (vn_fid dvp) nm) st"
  have "keeps env (handed r vb) cb st st' \<and> lookup_answer ops dvp nm r (cached st)"
  proof (cases "mvfs_dncenabled st \<and> \<not> mmi_nodnlc (env_mmi env (vn_vfsp dvp)) \<and> nm \<noteq> [46] \<and> ?f \<noteq> None")
    case False
    then show ?thesis
      using l inv by (auto simp: mfs_dnclookup_def handed_def lookup_answer_def Let_def split: if_splits intro!: keeps_hold)
  next
    case True
    then obtain i where f: "?f = Some i" by auto
    note i = lookup_find [OF inv _ f]
    have nm: "nm \<noteq> [46]" using True by simp
    let ?e = "mfs_dnc st ! i"
    obtain err vvw st1 where s: "mvfs_dnclookup_subr i True (cd_thread cd) st = ((err, vvw), st1)" by (metis prod.collapse)
    note sub = lookup_subr_effect [OF inv i(1) [OF nm] s]
    have null: "keeps env (vb(NULL := x)) cb st s' = keeps env vb cb st s'" for s' x by (simp add: keeps_def inv_base_null)
    let ?rel = "\<lambda>s. if vvw \<noteq> NULL then ATRIA_VN_RELE vvw s else s"
    have K: "keeps env vb cb st (?rel st1)" by (rule keeps_rele_maybe [OF sub(1)])
    have G: "keeps env vb cb st (?rel (mfs_dnc_invalvp dvp st1))"
      by (rule keeps_rele_maybe [OF keeps_trans [OF sub(1) keeps_invals(1) [OF keepsD(1) [OF sub(1)]]]])
    have eq: "(r, st') = (
           let e = ?e; miss = (\<lambda>why st. (DncMiss, DNC_BUMP why (DNC_BUMP Dnc_misses st))) in
           if err \<noteq> 0 then (DncMiss, st1)
           else if vn_dncgen dvp \<noteq> dn_dncgen e then miss Dnc_missdncgen (?rel (mfs_dnc_invalvp dvp st1))
           else if MFS_FIDNULL (dn_vfid e) then
             if \<not> mvfs_dncnoentenabled st1 then (DncMiss, DNC_BUMP Dnc_misses st1)
             else if ent_flag e MFS_DNC_NOTINDIR \<or>
               sint (cd_ctime cd) \<le> sint (dn_addtime e + mmi_ac_regmax (env_mmi env (vn_vfsp dvp)))
             then (DncEnoent, DNC_BUMP Dnc_hitnoent (DNC_BUMP Dnc_hits st1))
             else miss Dnc_missnoenttimedout (snd (mfs_dncremove env alloc dvp nm st1))
           else
             (case op_getvnode ops (vn_vfsp dvp) vvw (dn_vfid e) of (error, vp) \<Rightarrow>
               if error \<noteq> 0 then miss Dnc_missnovp (snd (mfs_dncremove env alloc dvp nm (?rel st1)))
               else
                 (case mfs_evtime_valid ops vp (dn_vevtime e) (VN_HOLD (vn_addr vp) (?rel st1)) of (valid, st) \<Rightarrow>
                   if \<not> valid then
                     miss Dnc_missevtime (snd (mfs_dncremove env alloc dvp nm (ATRIA_VN_RELE (vn_addr vp) st)))
                   else (DncVp vp, DNC_BUMP (if vn_type vp = VDIR then Dnc_hitdir else Dnc_hitreg)
                     (DNC_BUMP Dnc_hits st)))))"
      unfolding l [symmetric] mfs_dnclookup_def Let_def f option.case s prod.case sub(2)
      using True inv_not_null [OF inv] by (simp only: simp_thms if_True if_False)
    show ?thesis
    proof (cases "err = 0 \<and> vn_dncgen dvp = dn_dncgen ?e \<and> \<not> MFS_FIDNULL (dn_vfid ?e)")
      case True
      note get = lookup_getvnode [OF inv K ops]
      have eq': "(r, st') = (case op_getvnode ops (vn_vfsp dvp) vvw (dn_vfid ?e) of (error, vp) \<Rightarrow>
               if error \<noteq> 0 then (DncMiss, DNC_BUMP Dnc_missnovp (DNC_BUMP Dnc_misses (snd (mfs_dncremove env alloc dvp nm (?rel st1)))))
               else
                 (case mfs_evtime_valid ops vp (dn_vevtime ?e) (VN_HOLD (vn_addr vp) (?rel st1)) of (valid, st) \<Rightarrow>
                   if \<not> valid then
                     (DncMiss, DNC_BUMP Dnc_missevtime (DNC_BUMP Dnc_misses
                       (snd (mfs_dncremove env alloc dvp nm (ATRIA_VN_RELE (vn_addr vp) st)))))
                   else (DncVp vp, DNC_BUMP (if vn_type vp = VDIR then Dnc_hitdir else Dnc_hitreg)
                     (DNC_BUMP Dnc_hits st))))"
        using eq True by (simp only: Let_def simp_thms if_False)
      have "(dir_key dvp nm, (dn_vfid ?e, dn_vevtime ?e, vvw)) \<in> cached st"
        using i(5) [OF nm] sub(3) True by simp
      then show ?thesis using get [OF eq'] True nm by (fastforce simp: lookup_answer_def FIDNULL_iff)
    next
      case False
      have v: "vvw = NULL" if "err \<noteq> 0 \<or> MFS_FIDNULL (dn_vfid ?e)" using that sub(3,4) i(4) [OF nm] by auto
      have K1: "keeps env vb cb st st1" if "vvw = NULL" using sub(1) that null by simp
      have rm: "keeps env vb cb st (snd (mfs_dncremove env alloc dvp nm st1))" if "vvw = NULL"
        by (rule keeps_trans [OF K1 [OF that] keeps_remove [OF keepsD(1) [OF K1 [OF that]]]])
      have noent: "\<exists>evt. (dir_key dvp nm, (MFS_FID_NULL, evt, NULL)) \<in> cached st" if "err = 0" "MFS_FIDNULL (dn_vfid ?e)"
        using i(4,5) [OF nm] sub(3) that by (auto simp: FIDNULL_iff)
      consider "err \<noteq> 0" | "err = 0" "vn_dncgen dvp \<noteq> dn_dncgen ?e"
        | "err = 0" "vn_dncgen dvp = dn_dncgen ?e" "MFS_FIDNULL (dn_vfid ?e)" using False by blast
      then show ?thesis
      proof cases
        case 1
        then have "r = DncMiss" "st' = st1" using eq by (simp_all add: Let_def)
        then show ?thesis using K1 v 1 by (simp add: handed_def lookup_answer_def)
      next
        case 2
        then have "r = DncMiss" "st' = DNC_BUMP Dnc_missdncgen (DNC_BUMP Dnc_misses (?rel (mfs_dnc_invalvp dvp st1)))"
          using eq by (simp_all only: Let_def simp_thms if_True if_False prod.inject)
        then show ?thesis using G by (simp add: handed_def lookup_answer_def)
      next
        case 3
        then have "r = DncMiss \<and> (st' = DNC_BUMP Dnc_misses st1 \<or>
              st' = DNC_BUMP Dnc_missnoenttimedout (DNC_BUMP Dnc_misses (snd (mfs_dncremove env alloc dvp nm st1)))) \<or>
            r = DncEnoent \<and> st' = DNC_BUMP Dnc_hitnoent (DNC_BUMP Dnc_hits st1)"
          using eq by (simp add: Let_def split: if_splits)
        then show ?thesis using K1 rm v noent 3 by (auto simp: handed_def lookup_answer_def)
      qed
    qed
  qed
  then show "keeps env (handed r vb) cb st st'" "lookup_answer ops dvp nm r (cached st)" by auto
qed

text \<open>The entry for the root of a VOB in a view.\<close>
abbreviation root_key :: "addr \<Rightarrow> dnc_vnode \<Rightarrow> dnc_key" where
  "root_key vw vobrtvp \<equiv> (True, vw, vn_vfsp vobrtvp, vn_fid vobrtvp, [46])"

lemma rvclookup_effect:
  assumes inv: "dnc_inv env vb cb st" and l: "mvfs_rvclookup env vw vobrtvp fid0 cd st = ((err, fid), st')"
  shows "keeps env vb cb st st'"
    and "err = 0 \<Longrightarrow> fid \<noteq> MFS_FID_NULL \<and> (\<exists>evt. (root_key vw vobrtvp, (fid, evt, vw)) \<in> cached st)"
proof -
  let ?h = "rvchash_of env st vw (vn_vfsp vobrtvp)"
  let ?f = "mfs_dncfind (vn_fid vobrtvp) (vn_vfsp vobrtvp) vw [46] 1 False ?h st"
  have "keeps env vb cb st st' \<and> (err = 0 \<longrightarrow> fid \<noteq> MFS_FID_NULL \<and> (\<exists>evt. (root_key vw vobrtvp, (fid, evt, vw)) \<in> cached st))"
  proof (cases "mvfs_dncenabled st \<and> \<not> mmi_nodnlc (env_mmi env (vn_vfsp vobrtvp)) \<and> mvfs_rvcenabled st \<and>
      \<not> env_view_nullvid env vw \<and> ?f \<noteq> None")
    case False
    then show ?thesis using l inv by (auto simp: mvfs_rvclookup_def split: if_splits)
  next
    case True
    then obtain i where f: "?f = Some i" by auto
    have h: "?h < mvfs_dnchashsize st" using inv by (simp add: rvchash_of_def dnc_inv_def)
    have "mfs_dncfind (vn_fid vobrtvp) (vn_vfsp vobrtvp) vw [46] (length [46 :: 8 word]) False ?h st = Some i" using f by simp
    note i = find_SomeD [OF inv h _ this]
    let ?e = "mfs_dnc st ! i"
    have k: "ent_key ?e = root_key vw vobrtvp" "dn_vvw ?e = vw" using i(4) by (auto simp: ent_key_def split: if_splits)
    obtain err1 v st1 where s: "mvfs_dnclookup_subr i False (cd_thread cd) st = ((err1, v), st1)" by (metis prod.collapse)
    note sub = lookup_subr_effect [OF inv i(1) s]
    have K: "keeps env vb cb st st1" using sub(1,3,4) by (cases "err1 = 0") (auto simp: keeps_def inv_base_null)
    have c: "(root_key vw vobrtvp, (dn_vfid ?e, dn_vevtime ?e, vw)) \<in> cached st" if "err1 = 0"
      using sub(3) that i(1,2) k unfolding cached_def ent_val_def by force
    show ?thesis
      using l True f s sub(2) K c inv_not_null [OF inv]
      by (auto simp: mvfs_rvclookup_def Let_def FIDNULL_iff split: if_splits)
  qed
  then show "keeps env vb cb st st'"
    "err = 0 \<Longrightarrow> fid \<noteq> MFS_FID_NULL \<and> (\<exists>evt. (root_key vw vobrtvp, (fid, evt, vw)) \<in> cached st)" by auto
qed

section \<open>Adding\<close>

text \<open>The switches that make an add do nothing.\<close>
definition add_on :: "dnc_env \<Rightarrow> dnc_vnode \<Rightarrow> mfs_fid \<Rightarrow> mvfs_dnlc_data \<Rightarrow> bool" where
  "add_on env dvp fid st \<longleftrightarrow> mvfs_dncenabled st \<and> (mvfs_dncnoentenabled st \<or> \<not> MFS_FIDNULL fid) \<and>
     \<not> mmi_nodnlc (env_mmi env (vn_vfsp dvp))"

lemma add_off: "\<not> add_on env dvp fid st \<Longrightarrow> mvfs_dncadd_subr env dvp tvw fl nm n fid type evt h cd st = st"
  by (auto simp: add_on_def mvfs_dncadd_subr_def)

text \<open>What callers of \<open>mfs_dncadd\<close> give: a directory in a view, a name other than the directory itself, and
  not the flag of the root version entries.\<close>
definition add_pre :: "dnc_vnode \<Rightarrow> u32 \<Rightarrow> cstr \<Rightarrow> dnc_vnode option \<Rightarrow> bool" where
  "add_pre dvp fl nm vp \<longleftrightarrow> vn_view dvp \<noteq> NULL \<and> nm \<noteq> [46] \<and> \<not> MVFS_FLAGON fl MVFS_DNC_RVC_ENT \<and>
    (case vp of None \<Rightarrow> True | Some v \<Rightarrow> vn_fid v \<noteq> MFS_FID_NULL)"

definition add_val :: "dnc_vnode option \<Rightarrow> dnc_val" where
  "add_val vp = (case vp of Some v \<Rightarrow> (vn_fid v, vn_evtime v, vn_view v) | None \<Rightarrow> (MFS_FID_NULL, timeval_zero, NULL))"

definition rvc_pre :: "dnc_env \<Rightarrow> addr \<Rightarrow> dnc_vnode \<Rightarrow> bool" where
  "rvc_pre env vw vobrtvp \<longleftrightarrow> vw \<noteq> NULL \<and> (let root = mmi_rootvp (env_mmi env (vn_vfsp vobrtvp)) in
     vn_view root = NULL \<and> vn_vfsp root = vn_vfsp vobrtvp \<and> vn_fid root = vn_fid vobrtvp)"

lemma dncadd_eq:
  assumes "mfs_dncadd env dvp fl nm vp cd st = Some st'" and "nm \<noteq> []"
  shows "st' = mvfs_dncadd_subr env dvp (snd (snd (add_val vp))) fl nm (length nm) (fst (add_val vp))
      (case vp of Some v \<Rightarrow> vn_type v | None \<Rightarrow> VNON) (fst (snd (add_val vp))) (dnchash_of st (vn_fid dvp) nm) cd st"
  using assms by (cases vp) (auto simp: mfs_dncadd_def add_val_def mfs_namehash_def split: if_splits)

lemma dncadd_args:
  assumes "add_pre dvp fl nm vp" and "nm \<noteq> []"
  shows "add_args_ok env (mvfs_dnchashsize st) dvp (snd (snd (add_val vp))) fl nm (fst (add_val vp)) t (dnchash_of st (vn_fid dvp) nm)"
    and "add_key dvp tvw fl nm = dir_key dvp nm"
  using assms by (auto simp: add_pre_def add_args_ok_def add_key_def add_val_def dnchash_of_def FIDNULL_iff mfs_namehash_def split: option.splits)

lemma dncadd_effect:
  assumes inv: "dnc_inv env vb cb st" and pre: "add_pre dvp fl nm vp"
    and add: "mfs_dncadd env dvp fl nm vp cd st = Some st'"
  shows "dnc_inv env vb cb st'"
    and "same_view (dir_key dvp nm) (add_val vp) st \<Longrightarrow> add_on env dvp (fst (add_val vp)) st \<Longrightarrow> (k, v) \<in> cached st' \<Longrightarrow>
      k = dir_key dvp nm \<and> v = add_val vp \<or> k \<noteq> dir_key dvp nm \<and> (k, v) \<in> cached st"
    and "\<not> add_on env dvp (fst (add_val vp)) st \<Longrightarrow> st' = st"
proof -
  show off: "st' = st" if "\<not> add_on env dvp (fst (add_val vp)) st"
    using dncadd_eq [OF add] add_off [OF that] add by (cases "nm = []") (auto simp: mfs_dncadd_def split: if_splits prod.splits)
  have nil: "st' = st" if "nm = []" using add that by (auto simp: mfs_dncadd_def split: if_splits prod.splits)
  show "dnc_inv env vb cb st'"
    using inv nil inv_dncadd_subr [OF inv dncadd_args(1) [OF pre]] dncadd_eq [OF add] by (cases "nm = []") auto
  assume view: "same_view (dir_key dvp nm) (add_val vp) st" and on: "add_on env dvp (fst (add_val vp)) st" and kv: "(k, v) \<in> cached st'"
  show "k = dir_key dvp nm \<and> v = add_val vp \<or> k \<noteq> dir_key dvp nm \<and> (k, v) \<in> cached st"
  proof (cases "nm = []")
    case True
    then show ?thesis using nil kv no_key_cached [OF plain_key_named(1) [OF inv]] by blast
  next
    case False
    note eq = dncadd_eq [OF add False] and args = dncadd_args [OF pre False]
    have on': "mvfs_dncenabled st" "mvfs_dncnoentenabled st \<or> \<not> MFS_FIDNULL (fst (add_val vp))"
        "\<not> mmi_nodnlc (env_mmi env (vn_vfsp dvp))" using on by (simp_all add: add_on_def)
    have view': "same_view (add_key dvp (snd (snd (add_val vp))) fl nm)
        (fst (add_val vp), fst (snd (add_val vp)), snd (snd (add_val vp))) st" using view args(2) by simp
    show ?thesis using dncadd_subr_cached [OF inv args(1) on' view' kv [unfolded eq]] args(2) by simp
  qed
qed

lemma rvcenter_effect:
  assumes inv: "dnc_inv env vb cb st" and pre: "rvc_pre env vw vobrtvp" and st': "st' = mvfs_rvcenter env vw vobrtvp fid cd st"
  shows "dnc_inv env vb cb st'"
    and "add_on env vobrtvp fid st \<Longrightarrow> (k, v) \<in> cached st' \<Longrightarrow>
      k = root_key vw vobrtvp \<and> v = (fid, \<lparr>tv_sec = cd_ctime cd, tv_usec = 0\<rparr>, vw) \<or> k \<noteq> root_key vw vobrtvp \<and> (k, v) \<in> cached st"
    and "\<not> add_on env vobrtvp fid st \<Longrightarrow> st' = st"
proof -
  let ?r = "mmi_rootvp (env_mmi env (vn_vfsp vobrtvp))" and ?h = "rvchash_of env st vw (vn_vfsp vobrtvp)"
  have r: "vn_view ?r = NULL" "vn_vfsp ?r = vn_vfsp vobrtvp" "vn_fid ?r = vn_fid vobrtvp" "vw \<noteq> NULL"
    using pre by (simp_all add: rvc_pre_def Let_def)
  have fl: "MVFS_FLAGON MVFS_DNC_RVC_ENT MVFS_DNC_RVC_ENT" by (simp add: MVFS_FLAGON_def MVFS_DNC_RVC_ENT_def)
  have a: "add_args_ok env (mvfs_dnchashsize st) ?r vw MVFS_DNC_RVC_ENT [46] fid VDIR ?h"
    using r fl by (simp add: add_args_ok_def rvchash_of_def)
  have k: "add_key ?r vw MVFS_DNC_RVC_ENT [46] = root_key vw vobrtvp" using r fl by (simp add: add_key_def)
  have eq: "st' = mvfs_dncadd_subr env ?r vw MVFS_DNC_RVC_ENT [46] (length [46 :: 8 word]) fid VDIR
      \<lparr>tv_sec = cd_ctime cd, tv_usec = 0\<rparr> ?h cd st"
    by (simp add: st' mvfs_rvcenter_def)
  have on: "add_on env ?r fid st = add_on env vobrtvp fid st" using r by (simp add: add_on_def)
  show "dnc_inv env vb cb st'" unfolding eq by (rule inv_dncadd_subr [OF inv a])
  show "st' = st" if "\<not> add_on env vobrtvp fid st" using add_off that on eq by simp
  show "k = root_key vw vobrtvp \<and> v = (fid, \<lparr>tv_sec = cd_ctime cd, tv_usec = 0\<rparr>, vw) \<or> k \<noteq> root_key vw vobrtvp \<and> (k, v) \<in> cached st"
    if "add_on env vobrtvp fid st" "(k, v) \<in> cached st'"
  proof -
    have view: "same_view (add_key ?r vw MVFS_DNC_RVC_ENT [46]) (fid, \<lparr>tv_sec = cd_ctime cd, tv_usec = 0\<rparr>, vw) st"
      unfolding k by (auto simp: same_view_def ent_key_def split: if_splits)
    have on': "mvfs_dncenabled st" "mvfs_dncnoentenabled st \<or> \<not> MFS_FIDNULL fid" "\<not> mmi_nodnlc (env_mmi env (vn_vfsp ?r))"
      using that(1) on by (simp_all add: add_on_def)
    show ?thesis using dncadd_subr_cached [OF inv a on' view that(2) [unfolded eq]] k by simp
  qed
qed

lemma add_flag_effect:
  assumes inv: "dnc_inv env vb cb st" and fl: "\<not> MVFS_FLAGON fl MVFS_DNC_RVC_ENT"
  shows "keeps env vb cb st (mfs_dnc_add_flag env dvp nm dtm fl st)"
proof -
  let ?st = "mfs_dnc_add_flag env dvp nm dtm fl st"
  define g :: "mfs_dncent \<Rightarrow> mfs_dncent" where "g = (\<lambda>e. let e = e\<lparr>dn_flags := dn_flags e OR ucast fl\<rparr> in
      if MVFS_FLAGON fl MFS_DNC_BHINVARIANT then e\<lparr>dn_nullbh := True\<rparr> else e)"
  have "?st = st \<or> (\<exists>i. ?st = set_ent i (g (mfs_dnc st ! i)) st)"
    by (auto simp: mfs_dnc_add_flag_def Let_def g_def split: option.split)
  moreover have "shrunk st (set_ent i (g (mfs_dnc st ! i)) st)" for i
  proof -
    let ?e = "mfs_dnc st ! i"
    have c: "ent_core (g ?e) = ent_core ?e"
      using fl rvc_ucast [of ?e fl] by (simp add: g_def Let_def ent_core_def ent_flag_def del: rvc_ucast)
    have t: "dn_vevtime (g ?e) = dn_vevtime ?e" "dn_invalid (g ?e) = dn_invalid ?e" by (simp_all add: g_def Let_def)
    have "mfs_dnc (set_ent i (g ?e) st) ! j = (if j = i then g ?e else mfs_dnc st ! j)" if "j < mfs_dncmax st" for j
      using that inv_len [OF inv] by (simp add: set_ent_def nth_list_update)
    then show ?thesis using ent_core_facts(1,2,9,10) [OF c] t by (simp add: shrunk_def ent_val_def)
  qed
  moreover have "dnc_inv env vb cb ?st" by (rule inv_add_flag [OF inv fl]) (use inv in \<open>simp add: dnc_inv_def\<close>)
  ultimately show ?thesis by (auto simp: keeps_def)
qed

end
