(* ===== verification/Mvfs_Dnc_Steps.thy ===== *)
theory Mvfs_Dnc_Steps
  imports Mvfs_Dnc_Ops
begin

text \<open>Sequences of operations on the name cache.  An interface of caches that may lose what they hold is
  stated as a locale and interpreted on the operations of the name cache; its reference is a map that
  never forgets.  From it follow the invariant of every reachable state and what a lookup may answer
  after any sequence of operations.\<close>

section \<open>Caches that may lose what they hold\<close>

inductive runs :: "('s \<Rightarrow> 'o \<Rightarrow> 'r \<Rightarrow> 's \<Rightarrow> bool) \<Rightarrow> 's \<Rightarrow> ('o \<times> 'r) list \<Rightarrow> 's \<Rightarrow> bool"
  for step :: "'s \<Rightarrow> 'o \<Rightarrow> 'r \<Rightarrow> 's \<Rightarrow> bool" where
  runs_nil: "runs step s [] s"
| runs_cons: "step s oper r s1 \<Longrightarrow> runs step s1 tr s' \<Longrightarrow> runs step s ((oper, r) # tr) s'"

inductive_simps runs_simps: "runs step s [] s'" "runs step s (p # tr) s'"

lemma runs_append: "runs step s (tr @ tr') s' \<longleftrightarrow> (\<exists>s1. runs step s tr s1 \<and> runs step s1 tr' s')"
  by (induction tr arbitrary: s) (auto simp: runs_simps)

definition within :: "('k \<times> 'v) set \<Rightarrow> ('k \<rightharpoonup> 'v) \<Rightarrow> bool" where
  "within kvs m \<longleftrightarrow> (\<forall>k v. (k, v) \<in> kvs \<longrightarrow> m k = Some v)"

lemma within_empty [simp]: "within {} m"
  by (simp add: within_def)

lemma within_mono: "A \<subseteq> B \<Longrightarrow> within B m \<Longrightarrow> within A m"
  by (auto simp: within_def)

lemma within_graph: "within A m \<Longrightarrow> A \<subseteq> Map.graph m"
  by (auto simp: within_def Map.graph_def)

locale lossy_cache =
  fixes inv :: "'s \<Rightarrow> bool" and contents :: "'s \<Rightarrow> ('k \<times> 'v) set"
    and step :: "'s \<Rightarrow> 'o \<Rightarrow> 'r \<Rightarrow> 's \<Rightarrow> bool" and spec :: "'o \<Rightarrow> ('k \<rightharpoonup> 'v) \<Rightarrow> ('k \<rightharpoonup> 'v)"
    and answer :: "'o \<Rightarrow> 'r \<Rightarrow> ('k \<times> 'v) set \<Rightarrow> bool"
  assumes step_inv: "inv s \<Longrightarrow> step s oper r s' \<Longrightarrow> inv s'"
    and step_spec: "inv s \<Longrightarrow> step s oper r s' \<Longrightarrow> within (contents s) m \<Longrightarrow> within (contents s') (spec oper m)"
    and step_answer: "inv s \<Longrightarrow> step s oper r s' \<Longrightarrow> answer oper r (contents s)"
    and answer_mono: "A \<subseteq> B \<Longrightarrow> answer oper r A \<Longrightarrow> answer oper r B"
begin

lemma run_inv: "runs step s tr s' \<Longrightarrow> inv s \<Longrightarrow> inv s'"
  by (induction rule: runs.induct) (auto intro: step_inv)

lemma run_spec:
  "runs step s tr s' \<Longrightarrow> inv s \<Longrightarrow> within (contents s) m \<Longrightarrow> within (contents s') (fold spec (map fst tr) m)"
  by (induction arbitrary: m rule: runs.induct) (auto intro: step_inv step_spec)

lemma run_answer:
  assumes "runs step s (tr @ (oper, r) # tr') s'" and "inv s" and "within (contents s) m"
  shows "answer oper r (Map.graph (fold spec (map fst tr) m))"
proof -
  obtain s1 s2 where r: "runs step s tr s1" "step s1 oper r s2" using assms(1) by (auto simp: runs_append runs_simps)
  have "answer oper r (contents s1)" by (rule step_answer [OF run_inv [OF r(1) assms(2)] r(2)])
  then show ?thesis using within_graph [OF run_spec [OF r(1) assms(2,3)]] by (rule answer_mono [rotated])
qed

end

section \<open>The operations\<close>

datatype dnc_op = OpAdd dnc_vnode u32 cstr "dnc_vnode option" call_data
  | OpRvcEnter addr dnc_vnode mfs_fid call_data
  | OpAddFlag dnc_vnode cstr timeval u32
  | OpRemove bool dnc_vnode cstr
  | OpLookup bool dnc_vnode cstr call_data
  | OpRvcLookup addr dnc_vnode mfs_fid call_data
  | OpInvalVp dnc_vnode
  | OpInvalNotFound
  | OpInvalVw addr
  | OpRvcFlush addr addr
  | OpFlush
  | OpFlushVw addr
  | OpFlushVfs addr

datatype dnc_out = OutNone | OutLookup dnc_result | OutRvc int mfs_fid

text \<open>One call, with what its callers guarantee.\<close>
inductive dnc_step :: "dnc_env \<Rightarrow> dnc_ops \<Rightarrow> mvfs_dnlc_data \<Rightarrow> dnc_op \<Rightarrow> dnc_out \<Rightarrow> mvfs_dnlc_data \<Rightarrow> bool"
  for env :: dnc_env and ops :: dnc_ops where
  step_add: "add_pre dvp fl nm vp \<Longrightarrow> same_view (dir_key dvp nm) (add_val vp) st \<Longrightarrow>
    mfs_dncadd env dvp fl nm vp cd st = Some st' \<Longrightarrow> dnc_step env ops st (OpAdd dvp fl nm vp cd) OutNone st'"
| step_rvcenter: "rvc_pre env vw vobrtvp \<Longrightarrow>
    dnc_step env ops st (OpRvcEnter vw vobrtvp fid cd) OutNone (mvfs_rvcenter env vw vobrtvp fid cd st)"
| step_add_flag: "\<not> MVFS_FLAGON fl MVFS_DNC_RVC_ENT \<Longrightarrow>
    dnc_step env ops st (OpAddFlag dvp nm dtm fl) OutNone (mfs_dnc_add_flag env dvp nm dtm fl st)"
| step_remove: "dnc_step env ops st (OpRemove alloc dvp nm) OutNone (snd (mfs_dncremove env alloc dvp nm st))"
| step_lookup: "mfs_dnclookup env ops alloc dvp nm cd st = (r, st') \<Longrightarrow>
    dnc_step env ops st (OpLookup alloc dvp nm cd) (OutLookup r) st'"
| step_rvclookup: "mvfs_rvclookup env vw vobrtvp fid0 cd st = ((err, fid), st') \<Longrightarrow>
    dnc_step env ops st (OpRvcLookup vw vobrtvp fid0 cd) (OutRvc err fid) st'"
| step_invalvp: "dnc_step env ops st (OpInvalVp vp) OutNone (mfs_dnc_invalvp vp st)"
| step_invalnf: "dnc_step env ops st OpInvalNotFound OutNone (mfs_dnc_inval_obj_not_found st)"
| step_invalvw: "dnc_step env ops st (OpInvalVw vw) OutNone (mfs_dnc_invalvw vw st)"
| step_rvcflush: "dnc_step env ops st (OpRvcFlush vw vfs) OutNone (mvfs_rvcflush vw vfs st)"
| step_flush: "dnc_step env ops st OpFlush OutNone (mfs_dncflush st)"
| step_flushvw: "dnc_step env ops st (OpFlushVw vw) OutNone (mfs_dnc_flushvw vw st)"
| step_flushvfs: "dnc_step env ops st (OpFlushVfs vfs) OutNone (mvfs_dnc_flushvfs vfs st)"

inductive_cases dnc_stepE: "dnc_step env ops st oper out st'"

text \<open>The reference.  \<open>key_dvw\<close> is the view of the directory: the root entries have none.\<close>
definition key_dvw :: "dnc_key \<Rightarrow> addr" where "key_dvw k = (if fst k then NULL else fst (snd k))"

definition drop_if :: "('k \<Rightarrow> 'v \<Rightarrow> bool) \<Rightarrow> ('k \<rightharpoonup> 'v) \<Rightarrow> ('k \<rightharpoonup> 'v)" where
  "drop_if P m k = (case m k of None \<Rightarrow> None | Some v \<Rightarrow> if P k v then None else Some v)"

definition about_vp :: "dnc_vnode \<Rightarrow> dnc_key \<Rightarrow> dnc_val \<Rightarrow> bool" where
  "about_vp vp k v \<longleftrightarrow> (case (k, v) of ((_, _, vfs, dfid, _), (vfid, _, vvw)) \<Rightarrow>
     vn_isvob vp \<and> vfs = vn_vfsp vp \<and> (key_dvw k = vn_view vp \<and> dfid = vn_fid vp \<or> vvw = vn_view vp \<and> vfid = vn_fid vp))"

definition about_view :: "addr \<Rightarrow> dnc_key \<Rightarrow> dnc_val \<Rightarrow> bool" where
  "about_view vw k v \<longleftrightarrow> key_dvw k = vw \<or> snd (snd v) = vw"

definition about_vfs :: "addr \<Rightarrow> dnc_key \<Rightarrow> dnc_val \<Rightarrow> bool" where
  "about_vfs vfs k v \<longleftrightarrow> vfs = NULL \<or> fst (snd (snd k)) = vfs"

definition about_root :: "addr \<Rightarrow> addr \<Rightarrow> dnc_key \<Rightarrow> dnc_val \<Rightarrow> bool" where
  "about_root vw vfs k v \<longleftrightarrow> fst k \<and> fst (snd k) = vw \<and> (vfs = NULL \<or> vfs = fst (snd (snd k)))"

text \<open>The switches are those of the cache: \<open>en\<close> for the cache, \<open>ne\<close> for names not found.\<close>
fun dnc_spec :: "dnc_env \<Rightarrow> bool \<Rightarrow> bool \<Rightarrow> dnc_op \<Rightarrow> (dnc_key \<rightharpoonup> dnc_val) \<Rightarrow> (dnc_key \<rightharpoonup> dnc_val)" where
  "dnc_spec env en ne (OpAdd dvp fl nm vp cd) m =
    (if en \<and> (ne \<or> vp \<noteq> None) \<and> \<not> mmi_nodnlc (env_mmi env (vn_vfsp dvp)) then m(dir_key dvp nm \<mapsto> add_val vp) else m)"
| "dnc_spec env en ne (OpRvcEnter vw vobrtvp fid cd) m =
    (if en \<and> (ne \<or> fid \<noteq> MFS_FID_NULL) \<and> \<not> mmi_nodnlc (env_mmi env (vn_vfsp vobrtvp))
     then m(root_key vw vobrtvp \<mapsto> (fid, \<lparr>tv_sec = cd_ctime cd, tv_usec = 0\<rparr>, vw)) else m)"
| "dnc_spec env en ne (OpRemove alloc dvp nm) m =
    (if en \<and> \<not> mmi_nodnlc (env_mmi env (vn_vfsp dvp))
     then drop_if (\<lambda>k v. k \<in> dir_key dvp ` set (remove_names env alloc nm)) m else m)"
| "dnc_spec env en ne (OpInvalVp vp) m = drop_if (about_vp vp) m"
| "dnc_spec env en ne (OpInvalVw vw) m = drop_if (about_view vw) m"
| "dnc_spec env en ne (OpRvcFlush vw vfs) m = drop_if (about_root vw vfs) m"
| "dnc_spec env en ne OpFlush m = Map.empty"
| "dnc_spec env en ne (OpFlushVw vw) m = drop_if (about_view vw) m"
| "dnc_spec env en ne (OpFlushVfs vfs) m = drop_if (about_vfs vfs) m"
| "dnc_spec env en ne _ m = m"

lemma within_drop: "within A m \<Longrightarrow> (\<And>k v. (k, v) \<in> A \<Longrightarrow> \<not> P k v) \<Longrightarrow> within A (drop_if P m)"
  unfolding within_def drop_if_def by fastforce

lemma within_upd:
  "within A m \<Longrightarrow> (\<And>k v. (k, v) \<in> B \<Longrightarrow> k = k0 \<and> v = v0 \<or> k \<noteq> k0 \<and> (k, v) \<in> A) \<Longrightarrow> within B (m(k0 \<mapsto> v0))"
  unfolding within_def by (metis fun_upd_apply)

section \<open>What the invalidations and flushes leave\<close>

lemma key_dvw_ent: "used_ok env sz e \<Longrightarrow> key_dvw (ent_key e) = dn_dvw e"
  by (auto simp: key_dvw_def ent_key_def used_ok_def split: option.splits if_splits)

lemma about_ent:
  assumes "used_ok env sz e"
  shows "about_vp vp (ent_key e) (ent_val e) \<longleftrightarrow> vn_isvob vp \<and> dn_vfsp e = vn_vfsp vp \<and>
      (dn_dvw e = vn_view vp \<and> dn_dfid e = vn_fid vp \<or> dn_vvw e = vn_view vp \<and> dn_vfid e = vn_fid vp)"
    and "about_view vw (ent_key e) (ent_val e) \<longleftrightarrow> dn_dvw e = vw \<or> dn_vvw e = vw"
    and "about_vfs vfs (ent_key e) (ent_val e) \<longleftrightarrow> vfs = NULL \<or> dn_vfsp e = vfs"
    and "about_root vw vfs (ent_key e) (ent_val e) \<longleftrightarrow> dn_vvw e = vw \<and> ent_flag e MVFS_DNC_RVC_ENT \<and> (vfs = NULL \<or> vfs = dn_vfsp e)"
    and "about_root vw vfs (ent_key e) (ent_val e) \<Longrightarrow> dn_lruhead e = Dirlru"
proof -
  note d = key_dvw_ent [OF assms]
  show "about_vp vp (ent_key e) (ent_val e) \<longleftrightarrow> vn_isvob vp \<and> dn_vfsp e = vn_vfsp vp \<and>
      (dn_dvw e = vn_view vp \<and> dn_dfid e = vn_fid vp \<or> dn_vvw e = vn_view vp \<and> dn_vfid e = vn_fid vp)"
    using d by (auto simp: about_vp_def ent_key_def ent_val_def)
  show "about_view vw (ent_key e) (ent_val e) \<longleftrightarrow> dn_dvw e = vw \<or> dn_vvw e = vw"
    using d by (simp add: about_view_def ent_val_def)
  show "about_vfs vfs (ent_key e) (ent_val e) \<longleftrightarrow> vfs = NULL \<or> dn_vfsp e = vfs"
    by (simp add: about_vfs_def ent_key_def)
  show "about_root vw vfs (ent_key e) (ent_val e) \<longleftrightarrow> dn_vvw e = vw \<and> ent_flag e MVFS_DNC_RVC_ENT \<and> (vfs = NULL \<or> vfs = dn_vfsp e)"
    by (auto simp: about_root_def ent_key_def)
  show "about_root vw vfs (ent_key e) (ent_val e) \<Longrightarrow> dn_lruhead e = Dirlru"
    using assms by (auto simp: about_root_def ent_key_def used_ok_def split: option.splits)
qed

lemma cachedE:
  assumes "dnc_inv env vb cb st" and "(k, v) \<in> cached st"
  obtains j where "j < mfs_dncmax st" and "linked (mfs_dnc st ! j)" and "\<not> dn_invalid (mfs_dnc st ! j)"
    and "k = ent_key (mfs_dnc st ! j)" and "v = ent_val (mfs_dnc st ! j)"
    and "used_ok env (mvfs_dnchashsize st) (mfs_dnc st ! j)"
proof -
  obtain j where j: "j < mfs_dncmax st" "linked (mfs_dnc st ! j)" "\<not> dn_invalid (mfs_dnc st ! j)"
      "k = ent_key (mfs_dnc st ! j)" "v = ent_val (mfs_dnc st ! j)"
    using assms(2) by (auto simp: cached_def)
  show thesis using that [OF j inv_used [OF assms(1) j(1,2)]] .
qed

text \<open>An entry that is valid in the new state has kept clear of what the step looks for.\<close>
lemma cleared:
  assumes K: "keeps env vb cb st st'"
    and j: "\<And>j. j < mfs_dncmax st \<Longrightarrow> linked (mfs_dnc st' ! j) \<Longrightarrow> \<not> dn_invalid (mfs_dnc st' ! j) \<Longrightarrow>
      used_ok env (mvfs_dnchashsize st) (mfs_dnc st' ! j) \<Longrightarrow> \<not> P (ent_key (mfs_dnc st' ! j)) (ent_val (mfs_dnc st' ! j))"
    and kv: "(k, v) \<in> cached st'"
  shows "\<not> P k v"
proof -
  have "mfs_dncmax st' = mfs_dncmax st" "mvfs_dnchashsize st' = mvfs_dnchashsize st"
    using keepsD(3) [OF K] by (simp_all add: dnc_consts_def)
  then show ?thesis using j cachedE [OF keepsD(1) [OF K] kv] by metis
qed

lemma invalvp_clears:
  assumes inv: "dnc_inv env vb cb st" and kv: "(k, v) \<in> cached (mfs_dnc_invalvp vp st)"
  shows "\<not> about_vp vp k v"
proof (cases "vn_isvob vp")
  case True
  let ?P = "\<lambda>e. dn_vfsp e = vn_vfsp vp \<and> (dn_dvw e = vn_view vp \<and> dn_dfid e = vn_fid vp \<or> dn_vvw e = vn_view vp \<and> dn_vfid e = vn_fid vp)"
  let ?st = "snd (inval_loop ?P 0 (mfs_dncmax st) st)"
  have kv': "(k, v) \<in> cached ?st" using kv inval_eqs(1) [OF inv_not_null [OF inv] True] by (simp add: Let_def)
  show ?thesis
    by (rule cleared [OF inval_loop_effect(1) [OF inv order_refl refl, of ?P 0] _ kv'])
      (use inval_loop_effect(2) [OF inv order_refl refl, of _ ?P 0] about_ent(1) in fastforce)
next
  case False
  then show ?thesis by (auto simp: about_vp_def split: prod.splits)
qed

lemma invalvw_clears:
  assumes inv: "dnc_inv env vb cb st" and kv: "(k, v) \<in> cached (mfs_dnc_invalvw vw st)"
  shows "\<not> about_view vw k v"
proof -
  let ?P = "\<lambda>e. dn_dvw e = vw \<or> dn_vvw e = vw"
  let ?st = "snd (inval_loop ?P 0 (mfs_dncmax st) st)"
  have kv': "(k, v) \<in> cached ?st" using kv inval_eqs(3) [OF inv_not_null [OF inv]] by (simp add: Let_def)
  show ?thesis
    by (rule cleared [OF inval_loop_effect(1) [OF inv order_refl refl, of ?P 0] _ kv'])
      (use inval_loop_effect(2) [OF inv order_refl refl, of _ ?P 0] about_ent(2) in fastforce)
qed

lemma rvcflush_clears:
  assumes inv: "dnc_inv env vb cb st" and kv: "(k, v) \<in> cached (mvfs_rvcflush vw vfs st)"
  shows "\<not> about_root vw vfs k v"
proof -
  let ?P = "\<lambda>e. dn_vvw e = vw \<and> ent_flag e MVFS_DNC_RVC_ENT \<and> (vfs = NULL \<or> vfs = dn_vfsp e)"
  let ?st = "snd (inval_loop ?P 0 (mvfs_dncdirmax st) st)"
  note eff = inval_loop_effect(1) [OF inv inv_dirmax [OF inv] refl, of ?P 0] inval_loop_effect(2) [OF inv inv_dirmax [OF inv] refl, of _ ?P 0]
  have kv': "(k, v) \<in> cached ?st" using kv inval_eqs(4) [OF inv_not_null [OF inv]] by (simp add: Let_def)
  show ?thesis
  proof (rule cleared [OF eff(1) _ kv'])
    fix j
    assume j: "j < mfs_dncmax st" "linked (mfs_dnc ?st ! j)" "\<not> dn_invalid (mfs_dnc ?st ! j)"
      and u: "used_ok env (mvfs_dnchashsize st) (mfs_dnc ?st ! j)"
    have e: "mfs_dnc ?st ! j = mfs_dnc st ! j" "j < mvfs_dncdirmax st \<longrightarrow> \<not> ?P (mfs_dnc st ! j)" using eff(2) [OF j] by simp_all
    have l: "dn_lruhead (mfs_dnc st ! j) = lru_of_index st j" using inv j(1) by (simp add: dnc_inv_def)
    show "\<not> about_root vw vfs (ent_key (mfs_dnc ?st ! j)) (ent_val (mfs_dnc ?st ! j))"
    proof
      assume a: "about_root vw vfs (ent_key (mfs_dnc ?st ! j)) (ent_val (mfs_dnc ?st ! j))"
      then have "lru_of_index st j = Dirlru" using about_ent(5) [OF u] l e(1) by simp
      then have "j < mvfs_dncdirmax st" by (simp add: lru_of_index_def split: if_splits)
      then show False using e a about_ent(4) [OF u, of vw vfs] by simp
    qed
  qed
qed

lemma flushvw_clears:
  assumes inv: "dnc_inv env vb cb st" and kv: "(k, v) \<in> cached (mfs_dnc_flushvw vw st)"
  shows "\<not> about_view vw k v"
  by (rule cleared [OF flushvw_effect(1) [OF inv refl, of vw] _ kv])
    (use flushvw_effect(2) [OF inv refl, of _ vw] about_ent(2) in fastforce)

lemma flush_subr_clears:
  assumes inv: "dnc_inv env vb cb st" and kv: "(k, v) \<in> cached (snd (mvfs_dncflush_subr vfs st))"
  shows "\<not> about_vfs vfs k v"
  by (rule cleared [OF flush_subr_effect(1) [OF inv refl, of vfs] _ kv])
    (use flush_subr_effect(2) [OF inv refl, of _ vfs] about_ent(3) in fastforce)

lemma flush_eqs:
  assumes "dnc_inv env vb cb st"
  shows "mfs_dncflush st = snd (mvfs_dncflush_subr NULL st)"
    and "mvfs_dnc_flushvfs vfs st = DNC_BUMP Dnc_flushvfs (snd (mvfs_dncflush_subr vfs st))"
  using inv_not_null [OF assms] by (simp_all add: mfs_dncflush_def mvfs_dnc_flushvfs_def)

lemma remove_clears:
  assumes inv: "dnc_inv env vb cb st" and "mvfs_dncenabled st" and "\<not> mmi_nodnlc (env_mmi env (vn_vfsp dvp))"
    and kv: "(k, v) \<in> cached (snd (mfs_dncremove env alloc dvp nm st))"
  shows "k \<notin> dir_key dvp ` set (remove_names env alloc nm)"
  using remove_gone [OF inv assms(2,3)] kv no_key_cached by blast

section \<open>The name cache is such a cache\<close>

text \<open>The state is paired with the holds that others have on vnodes, the ones handed to callers included.\<close>
definition out_handed :: "dnc_out \<Rightarrow> (addr \<Rightarrow> int) \<Rightarrow> addr \<Rightarrow> int" where
  "out_handed out vb = (case out of OutLookup r \<Rightarrow> handed r vb | _ \<Rightarrow> vb)"

definition paired_inv :: "dnc_env \<Rightarrow> dnc_ops \<Rightarrow> bool \<Rightarrow> bool \<Rightarrow> (addr \<Rightarrow> int) \<Rightarrow> (addr \<Rightarrow> int) \<times> mvfs_dnlc_data \<Rightarrow> bool" where
  "paired_inv env ops en ne cb s \<longleftrightarrow> getattr_ok ops \<and> dnc_inv env (fst s) cb (snd s) \<and>
    mvfs_dncenabled (snd s) = en \<and> mvfs_dncnoentenabled (snd s) = ne"

definition paired_step :: "dnc_env \<Rightarrow> dnc_ops \<Rightarrow> (addr \<Rightarrow> int) \<times> mvfs_dnlc_data \<Rightarrow> dnc_op \<Rightarrow> dnc_out
    \<Rightarrow> (addr \<Rightarrow> int) \<times> mvfs_dnlc_data \<Rightarrow> bool" where
  "paired_step env ops s oper out s' \<longleftrightarrow> dnc_step env ops (snd s) oper out (snd s') \<and> fst s' = out_handed out (fst s)"

definition dnc_answer :: "dnc_ops \<Rightarrow> dnc_op \<Rightarrow> dnc_out \<Rightarrow> (dnc_key \<times> dnc_val) set \<Rightarrow> bool" where
  "dnc_answer ops oper out kvs \<longleftrightarrow> (case (oper, out) of
      (OpLookup alloc dvp nm cd, OutLookup r) \<Rightarrow> lookup_answer ops dvp nm r kvs
    | (OpRvcLookup vw vobrtvp fid0 cd, OutRvc err fid) \<Rightarrow>
        err = 0 \<longrightarrow> fid \<noteq> MFS_FID_NULL \<and> (\<exists>evt. (root_key vw vobrtvp, (fid, evt, vw)) \<in> kvs)
    | _ \<Rightarrow> True)"

lemma paired_runs: "runs (dnc_step env ops) st tr st' \<Longrightarrow>
    runs (paired_step env ops) (vb, st) tr (fold out_handed (map snd tr) vb, st')"
  by (induction arbitrary: vb rule: runs.induct) (auto simp: paired_step_def runs_simps)

lemma keeps_switches:
  "keeps env vb cb st st' \<Longrightarrow> mvfs_dncenabled st' = mvfs_dncenabled st \<and> mvfs_dncnoentenabled st' = mvfs_dncnoentenabled st"
  using keepsD(3) by (fastforce simp: dnc_consts_def)

text \<open>Every step but the two adds only loses translations.\<close>
lemma step_keeps:
  assumes s: "dnc_step env ops st oper out st'" and ops: "getattr_ok ops" and inv: "dnc_inv env vb cb st"
    and no_add: "\<And>dvp fl nm vp cd. oper \<noteq> OpAdd dvp fl nm vp cd" "\<And>vw rt fid cd. oper \<noteq> OpRvcEnter vw rt fid cd"
  shows "keeps env (out_handed out vb) cb st st'"
  using s
proof (cases rule: dnc_step.cases)
  case (step_lookup alloc dvp nm cd r)
  then show ?thesis using lookup_effect(1) [OF inv ops] by (simp add: out_handed_def)
qed (use no_add inv in \<open>simp_all add: out_handed_def keeps_invals keeps_remove add_flag_effect flush_eqs flushvw_effect(1)
    flush_subr_effect(1) rvclookup_effect(1)\<close>)

lemma add_val_null: "add_pre dvp fl nm vp \<Longrightarrow> MFS_FIDNULL (fst (add_val vp)) \<longleftrightarrow> vp = None"
  by (auto simp: add_pre_def add_val_def FIDNULL_iff split: option.splits)

lemma consts_links:
  "dnc_consts (set_in_trans b i st) = dnc_consts st" "dnc_consts (dnc_rmlru i st) = dnc_consts st"
  "dnc_consts (dnc_inslru_head i st) = dnc_consts st" "dnc_consts (dnc_inslru_tail i st) = dnc_consts st"
  "dnc_consts (dnc_inshash h i st) = dnc_consts st" "dnc_consts (mfs_dncrele i st) = dnc_consts st"
  "dnc_consts (MDKI_CRHOLD c st) = dnc_consts st" "dnc_consts (dnc_recycle i st) = dnc_consts st"
  by (simp_all add: dnc_recycle_def mfs_dncrele_def Let_def dnc_prims dnc_consts_def)

lemma consts_synonyms: "dnc_consts (mfs_dnc_inval_case_synonyms fid vw nm n h st) = dnc_consts st"
proof -
  have "dnc_consts (fold (\<lambda>i st. set_ent i ((mfs_dnc st ! i)\<lparr>dn_invalid := True\<rparr>) st) xs s) = dnc_consts s" for xs s
    by (induction xs arbitrary: s) simp_all
  then show ?thesis by (simp add: mfs_dnc_inval_case_synonyms_def Let_def)
qed

lemma consts_add: "dnc_consts (mvfs_dncadd_subr env dvp tvw fl nm n fid type evt h cd st) = dnc_consts st"
proof -
  have new: "dnc_consts (dncadd_new dvp tvw fl nm n fid type evt h cd s) = dnc_consts s" for s fid evt
    by (simp add: dncadd_new_def Let_def consts_links consts_synonyms split: list.split)
  have disp: "dnc_consts (dncadd_displace i s) = dnc_consts s" for i s
    by (simp add: dncadd_displace_def Let_def consts_links)
  have match: "dnc_consts (dncadd_match dvp fl type mth i s) = dnc_consts s" for mth i s
    by (simp add: dncadd_match_def Let_def)
  show ?thesis by (simp add: mvfs_dncadd_subr_def Let_def new disp match split: option.split)
qed

lemma add_step:
  assumes s: "dnc_step env ops st oper out st'" and inv: "dnc_inv env vb cb st"
    and add: "oper = OpAdd dvp fl nm vp cd \<or> oper = OpRvcEnter vw rt fid cd"
  shows "dnc_inv env vb cb st'" and "out = OutNone" and "dnc_consts st' = dnc_consts st"
    and "within (cached st) m \<Longrightarrow>
      within (cached st') (dnc_spec env (mvfs_dncenabled st) (mvfs_dncnoentenabled st) oper m)"
proof -
  have "dnc_inv env vb cb st' \<and> out = OutNone \<and> dnc_consts st' = dnc_consts st \<and> (within (cached st) m \<longrightarrow>
      within (cached st') (dnc_spec env (mvfs_dncenabled st) (mvfs_dncnoentenabled st) oper m))"
    using s
  proof (cases rule: dnc_step.cases)
    case (step_add dvp fl nm vp cd)
    have c: "dnc_consts st' = dnc_consts st"
      using step_add(5) dncadd_eq [OF step_add(5)] consts_add
      by (cases "nm = []") (auto simp: mfs_dncadd_def split: if_splits prod.splits)
    have on: "add_on env dvp (fst (add_val vp)) st \<longleftrightarrow> mvfs_dncenabled st \<and> (mvfs_dncnoentenabled st \<or> vp \<noteq> None) \<and>
        \<not> mmi_nodnlc (env_mmi env (vn_vfsp dvp))"
      using add_val_null [OF step_add(3)] by (auto simp: add_on_def)
    note eff = dncadd_effect [OF inv step_add(3,5)]
    show ?thesis
    proof (cases "add_on env dvp (fst (add_val vp)) st")
      case True
      then have "within (cached st') (m(dir_key dvp nm \<mapsto> add_val vp))" if "within (cached st) m"
        by (intro within_upd [OF that] eff(2) [OF step_add(4)])
      then show ?thesis using eff(1) c on True step_add(1,2) by simp
    next
      case False
      then show ?thesis using eff(1,3) c on step_add(1,2) by auto
    qed
  next
    case (step_rvcenter vw rt fid cd)
    have c: "dnc_consts st' = dnc_consts st" by (simp add: step_rvcenter(3) mvfs_rvcenter_def consts_add)
    have on: "add_on env rt fid st \<longleftrightarrow> mvfs_dncenabled st \<and> (mvfs_dncnoentenabled st \<or> fid \<noteq> MFS_FID_NULL) \<and>
        \<not> mmi_nodnlc (env_mmi env (vn_vfsp rt))"
      by (auto simp: add_on_def FIDNULL_iff)
    note eff = rvcenter_effect [OF inv step_rvcenter(4,3)]
    show ?thesis
    proof (cases "add_on env rt fid st")
      case True
      then have "within (cached st') (m(root_key vw rt \<mapsto> (fid, \<lparr>tv_sec = cd_ctime cd, tv_usec = 0\<rparr>, vw)))" if "within (cached st) m"
        by (intro within_upd [OF that] eff(2))
      then show ?thesis using eff(1) c on True step_rvcenter(1,2) by simp
    next
      case False
      then show ?thesis using eff(1,3) c on step_rvcenter(1,2) by auto
    qed
  qed (use add in auto)
  then show "dnc_inv env vb cb st'" "out = OutNone" "dnc_consts st' = dnc_consts st"
    "within (cached st) m \<Longrightarrow> within (cached st') (dnc_spec env (mvfs_dncenabled st) (mvfs_dncnoentenabled st) oper m)"
    by auto
qed

text \<open>The other steps lose what the reference drops.\<close>
lemma lossy_step:
  assumes s: "dnc_step env ops st oper out st'" and ops: "getattr_ok ops" and inv: "dnc_inv env vb cb st"
    and no_add: "\<And>dvp fl nm vp cd. oper \<noteq> OpAdd dvp fl nm vp cd" "\<And>vw rt fid cd. oper \<noteq> OpRvcEnter vw rt fid cd"
    and w: "within (cached st) m"
  shows "within (cached st') (dnc_spec env (mvfs_dncenabled st) (mvfs_dncnoentenabled st) oper m)"
proof -
  have sub: "cached st' \<subseteq> cached st" by (rule keepsD(2) [OF step_keeps [OF s ops inv no_add]])
  have m: "within (cached st') m" by (rule within_mono [OF sub w])
  note drop = within_drop [OF m]
  show ?thesis
    using s
  proof (cases rule: dnc_step.cases)
    case (step_remove alloc dvp nm)
    have "within (cached st') (drop_if (\<lambda>k v. k \<in> dir_key dvp ` set (remove_names env alloc nm)) m)"
      if "mvfs_dncenabled st" "\<not> mmi_nodnlc (env_mmi env (vn_vfsp dvp))"
      by (rule drop) (use remove_clears [OF inv that] step_remove(3) in auto)
    then show ?thesis using m step_remove(1) by auto
  next
    case step_flush
    have "cached st' = {}" using flush_subr_clears [OF inv, of _ _ NULL] step_flush flush_eqs(1) [OF inv] by (auto simp: about_vfs_def)
    then show ?thesis by simp
  qed (use no_add m in \<open>auto intro!: within_drop simp: flush_eqs [OF inv] dest: invalvp_clears [OF inv] invalvw_clears [OF inv]
      rvcflush_clears [OF inv] flushvw_clears [OF inv] flush_subr_clears [OF inv]\<close>)
qed

lemma answer_step:
  assumes s: "dnc_step env ops st oper out st'" and ops: "getattr_ok ops" and inv: "dnc_inv env vb cb st"
  shows "dnc_answer ops oper out (cached st)"
  using s
  by (cases rule: dnc_step.cases)
    (auto simp: dnc_answer_def dest: lookup_effect(2) [OF inv ops] rvclookup_effect(2) [OF inv])

lemma lookup_answer_mono: "A \<subseteq> B \<Longrightarrow> lookup_answer ops dvp nm r A \<Longrightarrow> lookup_answer ops dvp nm r B"
  unfolding lookup_answer_def by (auto split: dnc_result.splits if_splits)

interpretation dnc: lossy_cache "paired_inv env ops en ne cb" "\<lambda>s. cached (snd s)" "paired_step env ops"
    "dnc_spec env en ne" "dnc_answer ops" for env ops en ne cb
proof unfold_locales
  fix s oper out s'
  assume i: "paired_inv env ops en ne cb s" and p: "paired_step env ops s oper out s'"
  then have ops: "getattr_ok ops" and inv: "dnc_inv env (fst s) cb (snd s)" and sw: "mvfs_dncenabled (snd s) = en"
      "mvfs_dncnoentenabled (snd s) = ne" and st: "dnc_step env ops (snd s) oper out (snd s')"
      and vb: "fst s' = out_handed out (fst s)"
    by (simp_all add: paired_inv_def paired_step_def)
  show "dnc_answer ops oper out (cached (snd s))" by (rule answer_step [OF st ops inv])
  consider (add) dvp fl nm vp cd vw rt fid where "oper = OpAdd dvp fl nm vp cd \<or> oper = OpRvcEnter vw rt fid cd"
    | (other) "\<And>dvp fl nm vp cd. oper \<noteq> OpAdd dvp fl nm vp cd" "\<And>vw rt fid cd. oper \<noteq> OpRvcEnter vw rt fid cd"
    by blast
  note cases = this
  show "paired_inv env ops en ne cb s'"
  proof (cases rule: cases)
    case add
    show ?thesis using add_step(1-3) [OF st inv add] ops sw vb by (auto simp: paired_inv_def out_handed_def dnc_consts_def)
  next
    case other
    note k = step_keeps [OF st ops inv other]
    show ?thesis using keepsD(1) [OF k] keeps_switches [OF k] ops sw vb by (simp add: paired_inv_def)
  qed
  show "within (cached (snd s')) (dnc_spec env en ne oper m)" if "within (cached (snd s)) m" for m
    using add_step(4) [OF st inv _ that] lossy_step [OF st ops inv _ _ that] sw by (cases rule: cases) blast+
next
  show "A \<subseteq> B \<Longrightarrow> dnc_answer ops oper out A \<Longrightarrow> dnc_answer ops oper out B" for A B oper out
    by (auto simp: dnc_answer_def dest: lookup_answer_mono split: dnc_op.splits dnc_out.splits)
qed

end
