(* ===== verification/Mvfs_Dnc_Props.thy ===== *)
theory Mvfs_Dnc_Props
  imports Mvfs_Dnc_Steps
begin

text \<open>The properties of the name cache: the state after the setup, every state reached from it, what
  lookups answer after any sequence of calls, that an added name is found and a removed one is not, that
  a flush gives back every hold, and how a cache in use is resized.\<close>

section \<open>The state after the setup\<close>

lemma sum_list_zero: "(\<And>x. x \<in> set xs \<Longrightarrow> f x = (0 :: int)) \<Longrightarrow> sum_list (map f xs) = 0"
  by (induction xs) simp_all

lemma list_init_inv:
  assumes l: "mvfs_dnclist_init alloc alloc_min st = (err, st')" and a: "alloc \<or> alloc_min" and "\<not> mfs_dnc_null st"
    and z: "mfs_dnc st = replicate (mvfs_dncdirmax st + mvfs_dncregmax st + mvfs_dncnoentmax st) dnc_zero"
  shows "err = 0" and "dnc_inv env (vn_holds st) (cr_holds st) st'" and "no_key k st'"
    and "mvfs_dncenabled st' = mvfs_dncenabled st" and "mvfs_dncnoentenabled st' = mvfs_dncnoentenabled st"
    and "mvfs_dncdirmax st' = mvfs_dncdirmax st" and "mvfs_dncregmax st' = mvfs_dncregmax st"
    and "mvfs_dncnoentmax st' = mvfs_dncnoentmax st" and "mvfs_dnc_noent_other st' = mvfs_dnc_noent_other st"
proof -
  let ?N = "mvfs_dncdirmax st + mvfs_dncregmax st + mvfs_dncnoentmax st"
  let ?sz = "if alloc then mvfs_find_dnchashsize ?N else MFS_DNCHASHMIN"
  let ?e = "\<lambda>i. dnc_zero\<lparr>dn_lruhead := lru_of_index st i, dn_nm_p := Some [], dnc_hash := -1\<rparr>"
  have nth: "mfs_dnc st ! i = dnc_zero" if "i < ?N" for i using z that by simp
  define s0 where "s0 = st\<lparr>mfs_dncmax := ?N, mfs_dnc_enoent_start := mvfs_dncdirmax st + mvfs_dncregmax st, mvfs_dnchashsize := ?sz\<rparr>"
  have f0: "mfs_dncmax s0 = ?N" "mfs_dnc_enoent_start s0 = mvfs_dncdirmax st + mvfs_dncregmax st" "mvfs_dnchashsize s0 = ?sz"
    "mfs_dnc_null s0 = mfs_dnc_null st" "mvfs_dncenabled s0 = mvfs_dncenabled st" "mvfs_dncnoentenabled s0 = mvfs_dncnoentenabled st"
    "mvfs_dncdirmax s0 = mvfs_dncdirmax st" "mvfs_dncregmax s0 = mvfs_dncregmax st" "mvfs_dncnoentmax s0 = mvfs_dncnoentmax st"
    "vn_holds s0 = vn_holds st" "cr_holds s0 = cr_holds st" "mvfs_dnc_noent_other s0 = mvfs_dnc_noent_other st"
    by (simp_all add: s0_def)
  have lru: "lru_of_index s0 = lru_of_index st" by (simp add: lru_of_index_def fun_eq_iff s0_def)
  have es: "map (\<lambda>i. (mfs_dnc st ! i)\<lparr>dn_lruhead := lru_of_index st i, dn_nm_p := Some [], dnc_hash := -1\<rparr>) [0..<?N] = map ?e [0..<?N]"
    using nth by simp
  have "err = 0 \<and> st' = s0\<lparr>mfs_dnchash := replicate ?sz [], dnc_lru := \<lambda>l. rev (filter (\<lambda>i. lru_of_index s0 i = l) [0..<?N]),
      mfs_dnc := map (\<lambda>i. (mfs_dnc st ! i)\<lparr>dn_lruhead := lru_of_index s0 i, dn_nm_p := Some [], dnc_hash := -1\<rparr>) [0..<?N]\<rparr>"
    using l a by (cases alloc) (simp_all add: mvfs_dnclist_init_def Let_def s0_def)
  then have S: "err = 0" "st' = s0\<lparr>mfs_dnchash := replicate ?sz [], dnc_lru := \<lambda>l. rev (filter (\<lambda>i. lru_of_index st i = l) [0..<?N]),
      mfs_dnc := map ?e [0..<?N]\<rparr>" unfolding lru es by blast+
  have st': "err = 0" "mfs_dncmax st' = ?N" "mfs_dnc_enoent_start st' = mvfs_dncdirmax st + mvfs_dncregmax st"
      "mvfs_dnchashsize st' = ?sz" "mfs_dnchash st' = replicate ?sz []" "mfs_dnc st' = map ?e [0..<?N]"
      "dnc_lru st' = (\<lambda>l. rev (filter (\<lambda>i. lru_of_index st i = l) [0..<?N]))" "mfs_dnc_null st' = mfs_dnc_null st"
      "mvfs_dncenabled st' = mvfs_dncenabled st" "mvfs_dncnoentenabled st' = mvfs_dncnoentenabled st"
      "mvfs_dncdirmax st' = mvfs_dncdirmax st" "mvfs_dncregmax st' = mvfs_dncregmax st"
      "mvfs_dncnoentmax st' = mvfs_dncnoentmax st" "vn_holds st' = vn_holds st" "cr_holds st' = cr_holds st"
      "mvfs_dnc_noent_other st' = mvfs_dnc_noent_other st"
    by (simp_all add: S f0)
  show "err = 0" "mvfs_dncenabled st' = mvfs_dncenabled st" "mvfs_dncnoentenabled st' = mvfs_dncnoentenabled st"
    "mvfs_dncdirmax st' = mvfs_dncdirmax st" "mvfs_dncregmax st' = mvfs_dncregmax st" "mvfs_dncnoentmax st' = mvfs_dncnoentmax st"
    "mvfs_dnc_noent_other st' = mvfs_dnc_noent_other st"
    using st' by simp_all
  show "no_key k st'" using st' by (auto simp: no_key_def linked_def)
  have sz: "0 < ?sz" using dnchashsize_range(1) [of ?N] by (simp add: MFS_DNCHASHMIN_def)
  have rings: "rings_ok ?sz (map ?e [0..<?N]) (replicate ?sz []) (\<lambda>l. rev (filter (\<lambda>i. lru_of_index st i = l) [0..<?N]))"
    by (auto simp: rings_ok_def dnc_zero_def)
  have ent: "ent_ok env h (?e i)" for i h by (simp add: ent_ok_def linked_def released_def dnc_zero_def)
  have keys: "dnc_keys_ok (map ?e [0..<?N])" by (simp add: dnc_keys_ok_def linked_def)
  have holds: "holds_ok vb cb (map ?e [0..<?N]) vb cb" for vb cb
    by (auto simp: holds_ok_def ent_vholds_def ent_choldsc_def dnc_zero_def intro!: sum_list_zero)
  have lru': "lru_of_index st' = lru_of_index st" using st' by (simp add: lru_of_index_def fun_eq_iff)
  show "dnc_inv env (vn_holds st) (cr_holds st) st'"
    unfolding dnc_inv_def st' lru' using assms(3) sz rings ent keys holds by simp
qed

declare dncinit_retry.simps [simp del]

lemma sizes_fields [simp]:
  "mfs_dnc_null (dncinit_sizes scale st) = mfs_dnc_null st" "vn_holds (dncinit_sizes scale st) = vn_holds st"
  "cr_holds (dncinit_sizes scale st) = cr_holds st" "mvfs_dncenabled (dncinit_sizes scale st) = mvfs_dncenabled st"
  "mvfs_dncnoentenabled (dncinit_sizes scale st) = mvfs_dncnoentenabled st"
  "mfs_dncmax (dncinit_sizes scale st) = mvfs_dncdirmax (dncinit_sizes scale st) + mvfs_dncregmax (dncinit_sizes scale st)
    + mvfs_dncnoentmax (dncinit_sizes scale st)"
  by (simp_all add: dncinit_sizes_def Let_def)

lemma retry_inv:
  assumes "dncinit_retry alloc halloc halloc_min scale st = (0, scale', st')" and "\<not> mfs_dnc_null st'" and "mfs_dnc_null st"
  shows "dnc_inv env (vn_holds st) (cr_holds st) st' \<and> no_key k st' \<and> mvfs_dncenabled st' = mvfs_dncenabled st \<and>
    mvfs_dncnoentenabled st' = mvfs_dncnoentenabled st"
  using assms
proof (induction alloc halloc halloc_min scale st rule: dncinit_retry.induct)
  case (1 alloc halloc halloc_min scale st)
  let ?st = "dncinit_sizes scale st"
  let ?z = "?st\<lparr>mfs_dnc := replicate (mfs_dncmax ?st) dnc_zero, mfs_dnc_null := False\<rparr>"
  note r = "1.prems"(1) [unfolded dncinit_retry.simps [of alloc halloc halloc_min scale st] Let_def]
  have nz: "mfs_dncmax ?st \<noteq> 0" using r "1.prems"(2,3) by (auto split: if_splits)
  show ?case
  proof (cases "alloc (mfs_dncmax ?st)")
    case True
    obtain err s where l: "mvfs_dnclist_init halloc halloc_min ?z = (err, s)" by fastforce
    have "(case mvfs_dnclist_init halloc halloc_min ?z of (err, st) \<Rightarrow> (err, scale, st)) = (0, scale', st')"
      using r by (simp only: nz True simp_thms if_False)
    then have s: "err = 0" "s = st'" unfolding l by simp_all
    have h: "halloc \<or> halloc_min" using l s(1) by (auto simp: mvfs_dnclist_init_def Let_def split: if_splits)
    show ?thesis using list_init_inv [OF l h] s by simp
  next
    case False
    then show ?thesis
      using r nz "1.IH"(1) [OF refl refl nz False] "1.IH"(2) [OF refl refl nz False] "1.prems"(2,3)
      by (auto split: if_splits)
  qed
qed

lemma no_keys_empty: "(\<And>k. no_key k st) \<Longrightarrow> cached st = {}"
  using no_key_cached by fastforce

lemma dncinit_inv:
  assumes "mvfs_dncinit alloc halloc halloc_min scale sizes st = (0, scale', st')" and "\<not> mfs_dnc_null st'"
  shows "dnc_inv env (vn_holds st) (cr_holds st) st'" and "no_key k st'"
    and "mvfs_dncenabled st' = mvfs_dncenabled st" and "mvfs_dncnoentenabled st' = mvfs_dncnoentenabled st"
proof -
  let ?st1 = "st\<lparr>mfs_dnc_null := True, mvfs_dnchashsize := MFS_DNCHASHMIN, mfs_dnchash := [], mfs_dncmax := 0,
           mfs_dnc_enoent_start := 0, mvfs_dnc_noent_other := 0,
           mvfs_dncdirmax := MVFS_SIZE_DEFLOAD sizes MVFS_SETCACHE_DNCDIRMAX 0,
           mvfs_dncregmax := MVFS_SIZE_DEFLOAD sizes MVFS_SETCACHE_DNCREGMAX 0,
           mvfs_dncnoentmax := MVFS_SIZE_DEFLOAD sizes MVFS_SETCACHE_DNCNOENTMAX 0\<rparr>"
  have "dncinit_retry alloc halloc halloc_min scale ?st1 = (0, scale', st')"
    using assms(1) by (auto simp: mvfs_dncinit_def Let_def split: prod.splits if_splits)
  from retry_inv [OF this assms(2), of env k] show "dnc_inv env (vn_holds st) (cr_holds st) st'" "no_key k st'"
    "mvfs_dncenabled st' = mvfs_dncenabled st" "mvfs_dncnoentenabled st' = mvfs_dncnoentenabled st" by simp_all
qed

section \<open>Every reachable state\<close>

text \<open>How often the trace has handed out a hold on a vnode.\<close>
definition handed_out :: "(dnc_op \<times> dnc_out) list \<Rightarrow> addr \<Rightarrow> int" where
  "handed_out tr v = int (length (filter (\<lambda>(_, out). \<exists>vp. out = OutLookup (DncVp vp) \<and> vn_addr vp = v) tr))"

lemma fold_handed: "fold out_handed (map snd tr) vb = (\<lambda>v. vb v + handed_out tr v)"
proof (induction tr arbitrary: vb)
  case (Cons p tr)
  have "out_handed (snd p) vb v + handed_out tr v = vb v + handed_out (p # tr) v" for v
    by (auto simp: handed_out_def out_handed_def handed_def split: prod.splits dnc_out.splits dnc_result.splits)
  then show ?case by (simp add: Cons.IH)
qed (simp add: handed_out_def)

lemma reachable:
  assumes i: "mvfs_dncinit alloc halloc halloc_min scale sizes st0 = (0, scale', st1)" "\<not> mfs_dnc_null st1"
    and ops: "getattr_ok ops" and r: "runs (dnc_step env ops) st1 tr st"
  shows "dnc_inv env (\<lambda>v. vn_holds st0 v + handed_out tr v) (cr_holds st0) st"
    and "within (cached st) (fold (dnc_spec env (mvfs_dncenabled st0) (mvfs_dncnoentenabled st0)) (map fst tr) Map.empty)"
proof -
  note init = dncinit_inv(1) [OF i, of env] no_keys_empty [OF dncinit_inv(2) [OF i]] dncinit_inv(3,4) [OF i]
  have p: "paired_inv env ops (mvfs_dncenabled st0) (mvfs_dncnoentenabled st0) (cr_holds st0) (vn_holds st0, st1)"
    using init ops by (simp add: paired_inv_def)
  note run = paired_runs [OF r, of "vn_holds st0"]
  show "dnc_inv env (\<lambda>v. vn_holds st0 v + handed_out tr v) (cr_holds st0) st"
    using dnc.run_inv [OF run p] by (simp add: paired_inv_def fold_handed)
  show "within (cached st) (fold (dnc_spec env (mvfs_dncenabled st0) (mvfs_dncnoentenabled st0)) (map fst tr) Map.empty)"
    using dnc.run_spec [OF run p, of Map.empty] init(2) by simp
qed

section \<open>An added name is found\<close>

definition type_max :: "mvfs_dnlc_data \<Rightarrow> vtype \<Rightarrow> nat" where
  "type_max st t = (case lru_of_type t of Dirlru \<Rightarrow> mvfs_dncdirmax st | Reglru \<Rightarrow> mvfs_dncregmax st
     | Noentlru \<Rightarrow> mvfs_dncnoentmax st)"

lemma lru_nonempty:
  assumes inv: "dnc_inv env vb cb st" and "0 < type_max st t"
  shows "dnc_lru st (lru_of_type t) \<noteq> []"
proof -
  have "\<exists>i < mfs_dncmax st. lru_of_index st i = lru_of_type t"
  proof (cases "lru_of_type t")
    case Dirlru
    then show ?thesis using assms by (intro exI [of _ 0]) (simp add: lru_of_index_def type_max_def dnc_inv_def)
  next
    case Reglru
    then show ?thesis
      using assms by (intro exI [of _ "mvfs_dncdirmax st"]) (simp add: lru_of_index_def type_max_def dnc_inv_def)
  next
    case Noentlru
    then show ?thesis
      using assms by (intro exI [of _ "mvfs_dncdirmax st + mvfs_dncregmax st"]) (simp add: lru_of_index_def type_max_def dnc_inv_def)
  qed
  then obtain i where "i \<in> set (dnc_lru st (lru_of_type t))"
    using inv inv_rings [OF inv] inv_len [OF inv] by (auto simp: rings_ok_def dnc_inv_def)
  then show ?thesis by auto
qed

lemma find_present:
  assumes inv: "dnc_inv env vb cb st" and i: "i < mfs_dncmax st" "linked (mfs_dnc st ! i)"
    and k: "ent_key (mfs_dnc st ! i) = dir_key dvp nm"
  shows "mfs_dncfind (vn_fid dvp) (vn_vfsp dvp) (vn_view dvp) nm (length nm) False (dnchash_of st (vn_fid dvp) nm) st = Some i"
    and "nm \<noteq> []" and "nm \<noteq> [46]"
proof -
  let ?h = "dnchash_of st (vn_fid dvp) nm"
  note u = inv_used [OF inv i]
  have h: "?h < mvfs_dnchashsize st" using inv by (simp add: dnchash_of_def dnc_inv_def)
  show nm: "nm \<noteq> []" "nm \<noteq> [46]" using u k by (auto simp: used_ok_def ent_key_def split: option.splits if_splits)
  have e: "dnc_hash (mfs_dnc st ! i) = int ?h"
    using u k by (auto simp: used_ok_def ent_key_def dnchash_of_def mfs_namehash_def split: option.splits if_splits)
  show "mfs_dncfind (vn_fid dvp) (vn_vfsp dvp) (vn_view dvp) nm (length nm) False ?h st = Some i"
  proof (cases "mfs_dncfind (vn_fid dvp) (vn_vfsp dvp) (vn_view dvp) nm (length nm) False ?h st")
    case None
    from find_NoneD [OF inv h nm(1) None i(1) e] k show ?thesis by blast
  next
    case (Some j)
    note j = find_SomeD [OF inv h nm(1) Some]
    have "ent_key (mfs_dnc st ! i) = ent_key (mfs_dnc st ! j)" using k j(4) nm by simp
    moreover have "dnc_keys_ok (mfs_dnc st)" using inv by (simp add: dnc_inv_def)
    ultimately have "i = j" using i j(1,2) inv_len [OF inv] by (simp add: dnc_keys_ok_def)
    then show ?thesis using Some by simp
  qed
qed

text \<open>An entry that the add has just made fits the thread that added it.\<close>
lemma new_ent_check: "mfs_dnc_nullbhcheck (cd_thread cd) (new_ent dvp tvw fl nm n fid evt h cd X) \<or>
    mfs_dncbhcheck (cd_thread cd) (new_ent dvp tvw fl nm n fid evt h cd X)"
  by (simp add: new_ent_def dncadd_fill_def Let_def mfs_dncbhcheck_def mfs_dncbhset_def MFS_BH_SAMECONFIG_def MFS_DNCBHMAX_def
      numeral_3_eq_3)

lemma new_ent_notindir [simp]:
  "ent_flag (new_ent dvp tvw fl nm n fid evt h cd X) MFS_DNC_NOTINDIR = MVFS_FLAGON fl MFS_DNC_NOTINDIR"
  by (simp add: new_ent_def ent_flag_def flagon_ucast)

lemma add_new_present:
  assumes inv: "dnc_inv env vb cb st" and a: "add_args_ok env (mvfs_dnchashsize st) dvp tvw fl nm fid type h"
    and m: "0 < type_max st type"
  obtains i X where "i < mfs_dncmax st"
    and "mfs_dnc (dncadd_new dvp tvw fl nm (length nm) fid type evt h cd st) ! i = new_ent dvp tvw fl nm (length nm) fid evt h cd X"
proof -
  obtain i r where l: "dnc_lru st (lru_of_type type) = i # r" using lru_nonempty [OF inv m] by (auto simp: neq_Nil_conv)
  have h: "h < mvfs_dnchashsize st" using a inv add_hash_less [OF a] by (simp add: dnc_inv_def)
  obtain I X where I: "i < mfs_dncmax st"
    and f: "filled i h (new_ent dvp tvw fl nm (length nm) fid evt h cd X) (inval_at invalidate I st)
      (dncadd_new dvp tvw fl nm (length nm) fid type evt h cd st)"
    using dncadd_new_filled [OF inv h l, where dvp = dvp and tvw = tvw and dnc_flags = fl and nm = nm and n = "length nm"
      and fid = fid and evt = evt and cd = cd] .
  show thesis using that [OF I] f I inv_len [OF inv] by (simp add: filled_def)
qed

text \<open>An entry that the add has refreshed, which keeps the view of its result and the time it was added, and
  while it is valid its generation.\<close>
definition match_ent :: "dnc_vnode \<Rightarrow> u32 \<Rightarrow> dnc_thread \<Rightarrow> mfs_dncent \<Rightarrow> mfs_dncent" where
  "match_ent dvp fl mth e = (let e = dncadd_refresh dvp fl mth e in
     if mfs_dnc_nullbhcheck mth e \<or> mfs_dncbhcheck mth e then e else mfs_dncbhadd (thr_bh mth) e)"

lemma match_entries: "mfs_dnc (dncadd_match dvp fl type mth i st) = (mfs_dnc st)[i := match_ent dvp fl mth (mfs_dnc st ! i)]"
  by (simp add: dncadd_match_def match_ent_def Let_def dnc_prims)

lemma bhadd_check: "bh_slots_ok e \<Longrightarrow> mfs_dncbhcheck mth (mfs_dncbhadd (thr_bh mth) e)"
  by (auto simp: bh_slots_ok_def mfs_dncbhcheck_def mfs_dncbhadd_def MFS_BH_SAMECONFIG_def list_ex_iff set_update_memI Let_def)

lemma match_ent_facts:
  assumes "bh_slots_ok e" and "ent_flag e MVFS_DNC_RVC_ENT = MVFS_FLAGON fl MVFS_DNC_RVC_ENT"
  shows "ent_core (match_ent dvp fl mth e) = ent_core e"
    and "\<not> dn_invalid (match_ent dvp fl mth e)" and "dn_vevtime (match_ent dvp fl mth e) = dn_vevtime e"
    and "dn_addtime (match_ent dvp fl mth e) = dn_addtime e"
    and "dn_dncgen (match_ent dvp fl mth e) = (if dn_invalid e then vn_dncgen dvp else dn_dncgen e)"
    and "ent_flag (match_ent dvp fl mth e) MFS_DNC_NOTINDIR = MVFS_FLAGON fl MFS_DNC_NOTINDIR"
    and "mfs_dnc_nullbhcheck mth (match_ent dvp fl mth e) \<or> mfs_dncbhcheck mth (match_ent dvp fl mth e)"
proof -
  let ?r = "dncadd_refresh dvp fl mth e"
  note r = refresh_fields [where e = e and fl = fl and dvp = dvp and mth = mth]
  have g: "dn_addtime ?r = dn_addtime e" "dn_dncgen ?r = (if dn_invalid e then vn_dncgen dvp else dn_dncgen e)"
      "dn_flags ?r = ucast fl"
    by (simp_all add: dncadd_refresh_def Let_def)
  show "ent_core (match_ent dvp fl mth e) = ent_core e" using r(1,4) assms by (simp add: match_ent_def Let_def)
  show "\<not> dn_invalid (match_ent dvp fl mth e)" "dn_vevtime (match_ent dvp fl mth e) = dn_vevtime e"
    "dn_addtime (match_ent dvp fl mth e) = dn_addtime e"
    "dn_dncgen (match_ent dvp fl mth e) = (if dn_invalid e then vn_dncgen dvp else dn_dncgen e)"
    using r(2,3) g by (simp_all add: match_ent_def Let_def)
  show "ent_flag (match_ent dvp fl mth e) MFS_DNC_NOTINDIR = MVFS_FLAGON fl MFS_DNC_NOTINDIR"
    using g(3) by (simp add: match_ent_def Let_def ent_flag_def flagon_ucast)
  show "mfs_dnc_nullbhcheck mth (match_ent dvp fl mth e) \<or> mfs_dncbhcheck mth (match_ent dvp fl mth e)"
    using bhadd_check [OF r(4) [OF assms(1)]] by (auto simp: match_ent_def Let_def)
qed

text \<open>The entry that an add of this translation refreshes, if there is one.\<close>
definition refreshed_ent :: "dnc_key \<Rightarrow> mfs_fid \<Rightarrow> timeval \<Rightarrow> mvfs_dnlc_data \<Rightarrow> mfs_dncent option" where
  "refreshed_ent k fid evt st =
     List.find (\<lambda>e. linked e \<and> ent_key e = k \<and> dn_vfid e = fid \<and> dn_vevtime e = evt) (mfs_dnc st)"

lemma refreshed_counters [simp]: "refreshed_ent k fid evt (DNC_BUMP s st) = refreshed_ent k fid evt st"
  by (simp add: refreshed_ent_def)

lemma refreshed_none:
  assumes "dnc_inv env vb cb st" and "no_key k st"
  shows "refreshed_ent k fid evt st = None"
  using assms inv_len [OF assms(1)] by (auto simp: refreshed_ent_def find_None_iff no_key_def in_set_conv_nth)

lemma refreshed_at:
  assumes inv: "dnc_inv env vb cb st" and i: "i < mfs_dncmax st" "linked (mfs_dnc st ! i)" "ent_key (mfs_dnc st ! i) = k"
  shows "refreshed_ent k fid evt st =
    (if fid = dn_vfid (mfs_dnc st ! i) \<and> evt = dn_vevtime (mfs_dnc st ! i) then Some (mfs_dnc st ! i) else None)"
proof (cases "refreshed_ent k fid evt st")
  case None
  then show ?thesis using i inv_len [OF inv] by (auto simp: refreshed_ent_def find_None_iff in_set_conv_nth)
next
  case (Some e)
  then obtain j where j: "j < mfs_dncmax st" "linked (mfs_dnc st ! j)" "ent_key (mfs_dnc st ! j) = k" "e = mfs_dnc st ! j"
      "dn_vfid e = fid" "dn_vevtime e = evt"
    using inv_len [OF inv] by (auto simp: refreshed_ent_def find_Some_iff)
  have "dnc_keys_ok (mfs_dnc st)" using inv by (simp add: dnc_inv_def)
  then have "j = i" using i j inv_len [OF inv] unfolding dnc_keys_ok_def by metis
  then show ?thesis using Some j by simp
qed

lemma refreshed_facts:
  assumes inv: "dnc_inv env vb cb st" and "refreshed_ent k fid evt st = Some e"
  shows "linked e" and "ent_key e = k" and "dn_vfid e = fid" and "dn_vevtime e = evt" and "bh_slots_ok e"
proof -
  obtain j where "j < mfs_dncmax st" "linked (mfs_dnc st ! j)" "ent_key (mfs_dnc st ! j) = k" "e = mfs_dnc st ! j"
      "dn_vfid e = fid" "dn_vevtime e = evt"
    using assms inv_len [OF inv] by (auto simp: refreshed_ent_def find_Some_iff)
  then show "linked e" "ent_key e = k" "dn_vfid e = fid" "dn_vevtime e = evt" "bh_slots_ok e"
    using inv_bh_slots [OF inv] by simp_all
qed

text \<open>What an add leaves for its translation: the refreshed entry, or a new one.\<close>
lemma add_subr_present:
  assumes inv: "dnc_inv env vb cb st" and a: "add_args_ok env (mvfs_dnchashsize st) dvp tvw fl nm fid type h"
    and on: "add_on env dvp fid st" and m: "0 < type_max st type"
  obtains i X where "i < mfs_dncmax st" and "mfs_dnc (mvfs_dncadd_subr env dvp tvw fl nm (length nm) fid type evt h cd st) ! i
      = (case refreshed_ent (add_key dvp tvw fl nm) fid evt st of None \<Rightarrow> new_ent dvp tvw fl nm (length nm) fid evt h cd X
         | Some e \<Rightarrow> match_ent dvp fl (cd_thread cd) e)"
proof -
  let ?st = "DNC_BUMP Dnc_add st"
  have inv': "dnc_inv env vb cb ?st" and a': "add_args_ok env (mvfs_dnchashsize ?st) dvp tvw fl nm fid type h"
    using inv a by (simp, simp add: DNC_BUMP_def)
  have t: "type_max ?st type = type_max st type" by (simp add: type_max_def DNC_BUMP_def split: dnclru.split)
  define r where "r = mfs_dncfind (vn_fid dvp) (vn_vfsp dvp) (if MVFS_FLAGON fl MVFS_DNC_RVC_ENT then tvw else vn_view dvp)
      nm (length nm) False h ?st"
  note find = find_add_key [OF inv' a' r_def [symmetric]]
  have eq: "mvfs_dncadd_subr env dvp tvw fl nm (length nm) fid type evt h cd st = (case r of
      Some i \<Rightarrow> if fid = dn_vfid (mfs_dnc ?st ! i) \<and> evt = dn_vevtime (mfs_dnc ?st ! i)
         then dncadd_match dvp fl type (cd_thread cd) i ?st
         else dncadd_new dvp tvw fl nm (length nm) fid type evt h cd (dncadd_displace i ?st)
    | None \<Rightarrow> dncadd_new dvp tvw fl nm (length nm) fid type evt h cd ?st)"
    unfolding mvfs_dncadd_subr_def Let_def r_def FIDEQ_iff TVEQ_iff using inv on by (auto simp: dnc_inv_def add_on_def)
  show thesis
  proof (cases r)
    case None
    have "refreshed_ent (add_key dvp tvw fl nm) fid evt st = None"
      using refreshed_none [OF inv' find(1) [OF None], of fid evt] by simp
    then show thesis using that add_new_present [OF inv' a', where evt = evt and cd = cd] m t eq None by auto
  next
    case (Some i)
    note i = find(2) [OF Some]
    have re: "refreshed_ent (add_key dvp tvw fl nm) fid evt st =
        (if fid = dn_vfid (mfs_dnc ?st ! i) \<and> evt = dn_vevtime (mfs_dnc ?st ! i) then Some (mfs_dnc st ! i) else None)"
      using refreshed_at [OF inv', of i _ fid evt] i by simp
    show thesis
    proof (cases "fid = dn_vfid (mfs_dnc ?st ! i) \<and> evt = dn_vevtime (mfs_dnc ?st ! i)")
      case True
      then have "mvfs_dncadd_subr env dvp tvw fl nm (length nm) fid type evt h cd st = dncadd_match dvp fl type (cd_thread cd) i ?st"
        unfolding eq Some option.case by (rule if_P)
      then show thesis using that [of i] i re True inv_len [OF inv] by (simp add: match_entries)
    next
      case False
      then have eq': "mvfs_dncadd_subr env dvp tvw fl nm (length nm) fid type evt h cd st =
          dncadd_new dvp tvw fl nm (length nm) fid type evt h cd (dncadd_displace i ?st)"
        unfolding eq Some option.case by (rule if_not_P)
      have g: "given_up i ?st (dncadd_displace i ?st)" using displace_given_up [OF inv'] i by blast
      have inv2: "dnc_inv env vb cb (dncadd_displace i ?st)" using inv_given_up [OF inv' _ g] i by blast
      have c: "dnc_consts (dncadd_displace i ?st) = dnc_consts st" using g by (simp add: given_up_def)
      then have "mvfs_dnchashsize (dncadd_displace i ?st) = mvfs_dnchashsize st" "mfs_dncmax (dncadd_displace i ?st) = mfs_dncmax st"
          "type_max (dncadd_displace i ?st) type = type_max st type"
        by (simp_all add: dnc_consts_def type_max_def split: dnclru.split)
      moreover have "refreshed_ent (add_key dvp tvw fl nm) fid evt st = None" using re False by simp
      ultimately show thesis
        using that add_new_present [OF inv2, where evt = evt and cd = cd] a m eq' by (metis option.case(1))
    qed
  qed
qed

lemma lookup_hit:
  assumes inv: "dnc_inv env vb cb st" and on: "mvfs_dncenabled st" "\<not> mmi_nodnlc (env_mmi env (vn_vfsp dvp))"
    and i: "i < mfs_dncmax st" "linked (mfs_dnc st ! i)" "ent_key (mfs_dnc st ! i) = dir_key dvp nm"
    and e: "\<not> dn_invalid (mfs_dnc st ! i)" "dn_dncgen (mfs_dnc st ! i) = vn_dncgen dvp"
    and bh: "mfs_dnc_nullbhcheck (cd_thread cd) (mfs_dnc st ! i) \<or> mfs_dncbhcheck (cd_thread cd) (mfs_dnc st ! i)"
  shows "dn_vfid (mfs_dnc st ! i) \<noteq> MFS_FID_NULL \<Longrightarrow>
      op_getvnode ops (vn_vfsp dvp) (dn_vvw (mfs_dnc st ! i)) (dn_vfid (mfs_dnc st ! i)) = (0, vp) \<Longrightarrow>
      dn_vevtime (mfs_dnc st ! i) = vn_evtime vp \<Longrightarrow> \<not> op_ac_timedout ops vp \<Longrightarrow>
      fst (mfs_dnclookup env ops alloc dvp nm cd st) = DncVp vp"
    and "dn_vfid (mfs_dnc st ! i) = MFS_FID_NULL \<Longrightarrow> mvfs_dncnoentenabled st \<Longrightarrow>
      fst (mfs_dnclookup env ops alloc dvp nm cd st) = (if ent_flag (mfs_dnc st ! i) MFS_DNC_NOTINDIR \<or>
        sint (cd_ctime cd) \<le> sint (dn_addtime (mfs_dnc st ! i) + mmi_ac_regmax (env_mmi env (vn_vfsp dvp)))
        then DncEnoent else DncMiss)"
proof -
  let ?e = "mfs_dnc st ! i"
  note f = find_present [OF inv i]
  obtain err vvw st1 where s: "mvfs_dnclookup_subr i True (cd_thread cd) st = ((err, vvw), st1)" by (metis prod.collapse)
  note sub = lookup_subr_effect [OF inv i(1) s]
  have err: "err = 0" using s e(1) bh inv_not_in_trans [OF inv i(1)]
    by (auto simp: mvfs_dnclookup_subr_def Let_def split: if_splits)
  then have vvw: "vvw = dn_vvw ?e" using sub(3) by simp
  have ne: "mvfs_dncnoentenabled st1 = mvfs_dncnoentenabled st" using keeps_switches [OF sub(1)] by simp
  note unfold = mfs_dnclookup_def Let_def f(1) option.case s prod.case sub(2)
  show "fst (mfs_dnclookup env ops alloc dvp nm cd st) = DncVp vp"
    if "dn_vfid ?e \<noteq> MFS_FID_NULL" "op_getvnode ops (vn_vfsp dvp) (dn_vvw ?e) (dn_vfid ?e) = (0, vp)"
      "dn_vevtime ?e = vn_evtime vp" "\<not> op_ac_timedout ops vp"
    using that on e(2) err vvw f(3) inv_not_null [OF inv] unfolding unfold
    by (simp add: FIDNULL_iff mfs_evtime_valid_def)
  show "fst (mfs_dnclookup env ops alloc dvp nm cd st) = (if ent_flag ?e MFS_DNC_NOTINDIR \<or>
      sint (cd_ctime cd) \<le> sint (dn_addtime ?e + mmi_ac_regmax (env_mmi env (vn_vfsp dvp))) then DncEnoent else DncMiss)"
    if "dn_vfid ?e = MFS_FID_NULL" "mvfs_dncnoentenabled st"
    using that on e(2) err f(3) inv_not_null [OF inv] ne unfolding unfold by (simp add: FIDNULL_iff)
qed

text \<open>An entry of another generation of the directory is a miss.\<close>
lemma lookup_other_gen:
  assumes inv: "dnc_inv env vb cb st"
    and i: "i < mfs_dncmax st" "linked (mfs_dnc st ! i)" "ent_key (mfs_dnc st ! i) = dir_key dvp nm"
    and g: "dn_dncgen (mfs_dnc st ! i) \<noteq> vn_dncgen dvp"
  shows "fst (mfs_dnclookup env ops alloc dvp nm cd st) = DncMiss"
proof -
  note f = find_present [OF inv i]
  obtain err vvw st1 where s: "mvfs_dnclookup_subr i True (cd_thread cd) st = ((err, vvw), st1)" by (metis prod.collapse)
  note sub = lookup_subr_effect [OF inv i(1) s]
  show ?thesis
    unfolding mfs_dnclookup_def Let_def f(1) option.case s prod.case sub(2) using f(3) g by auto
qed

lemma lookup_absent:
  assumes inv: "dnc_inv env vb cb st" and nm: "nm \<noteq> [46]"
    and no: "\<And>v. (dir_key dvp nm, v) \<notin> cached st"
  shows "fst (mfs_dnclookup env ops alloc dvp nm cd st) = DncMiss"
proof (cases "mvfs_dncenabled st \<and> \<not> mmi_nodnlc (env_mmi env (vn_vfsp dvp))")
  case True
  let ?f = "mfs_dncfind (vn_fid dvp) (vn_vfsp dvp) (vn_view dvp) nm (length nm) False (dnchash_of st (vn_fid dvp) nm) st"
  show ?thesis
  proof (cases ?f)
    case None
    then show ?thesis using True nm by (simp add: mfs_dnclookup_def)
  next
    case (Some i)
    have "dn_invalid (mfs_dnc st ! i)" using lookup_find(5) [OF inv nm Some] no by blast
    then have "mvfs_dnclookup_subr i True (cd_thread cd) st = ((1, NULL), DNC_BUMP Dnc_missinvalid (DNC_BUMP Dnc_misses st))"
      by (simp add: mvfs_dnclookup_subr_def)
    then show ?thesis using True nm Some by (simp add: mfs_dnclookup_def)
  qed
qed (auto simp: mfs_dnclookup_def nm)

text \<open>The entry an add leaves, for the lookup.\<close>
lemma added_ent:
  assumes "dnc_inv env vb cb st" and "add_pre dvp fl nm vp" and "nm \<noteq> []" and "add_on env dvp (fst (add_val vp)) st"
    and "0 < type_max st (case vp of Some v \<Rightarrow> vn_type v | None \<Rightarrow> VNON)"
    and "mfs_dncadd env dvp fl nm vp cd st = Some st'"
    and r: "r = refreshed_ent (dir_key dvp nm) (fst (add_val vp)) (fst (snd (add_val vp))) st"
  obtains i where "i < mfs_dncmax st" and "linked (mfs_dnc st' ! i)" and "ent_key (mfs_dnc st' ! i) = dir_key dvp nm"
    and "\<not> dn_invalid (mfs_dnc st' ! i)"
    and "dn_vfid (mfs_dnc st' ! i) = fst (add_val vp)" and "dn_vevtime (mfs_dnc st' ! i) = fst (snd (add_val vp))"
    and "dn_vvw (mfs_dnc st' ! i) = (case r of None \<Rightarrow> snd (snd (add_val vp)) | Some e \<Rightarrow> dn_vvw e)"
    and "dn_dncgen (mfs_dnc st' ! i) = (case r of None \<Rightarrow> vn_dncgen dvp
           | Some e \<Rightarrow> if dn_invalid e then vn_dncgen dvp else dn_dncgen e)"
    and "dn_addtime (mfs_dnc st' ! i) = (case r of None \<Rightarrow> cd_ctime cd | Some e \<Rightarrow> dn_addtime e)"
    and "ent_flag (mfs_dnc st' ! i) MFS_DNC_NOTINDIR = MVFS_FLAGON fl MFS_DNC_NOTINDIR"
    and "mfs_dnc_nullbhcheck (cd_thread cd) (mfs_dnc st' ! i) \<or> mfs_dncbhcheck (cd_thread cd) (mfs_dnc st' ! i)"
proof -
  let ?fid = "fst (add_val vp)" and ?evt = "fst (snd (add_val vp))" and ?tvw = "snd (snd (add_val vp))"
  note eq = dncadd_eq [OF assms(6,3)] and args = dncadd_args [OF assms(2,3)]
  obtain i X where i: "i < mfs_dncmax st"
    and e: "mfs_dnc st' ! i = (case r of None \<Rightarrow> new_ent dvp ?tvw fl nm (length nm) ?fid ?evt (dnchash_of st (vn_fid dvp) nm) cd X
       | Some e \<Rightarrow> match_ent dvp fl (cd_thread cd) e)"
    using add_subr_present [OF assms(1) args(1) assms(4,5), where evt = ?evt and cd = cd] eq args(2) r by metis
  show thesis
  proof (cases r)
    case None
    show thesis
      by (rule that [OF i]) (use None e args(2) new_ent_check in simp_all)
  next
    case (Some x)
    note x = refreshed_facts [OF assms(1) Some [unfolded r]]
    have "ent_flag x MVFS_DNC_RVC_ENT = MVFS_FLAGON fl MVFS_DNC_RVC_ENT" using x(2) assms(2) by (simp add: ent_key_def add_pre_def)
    note m = match_ent_facts [OF x(5) this, where dvp = dvp and mth = "cd_thread cd"]
    note c = ent_core_facts(1,2,9,10) [OF m(1)]
    show thesis by (rule that [OF i]) (use Some e x c m(2-7) in simp_all)
  qed
qed

lemma lookup_added:
  assumes "dnc_inv env vb cb st" and "add_pre dvp fl nm vp" and "nm \<noteq> []" and "add_on env dvp (fst (add_val vp)) st"
    and "0 < type_max st (case vp of Some v \<Rightarrow> vn_type v | None \<Rightarrow> VNON)"
    and "mfs_dncadd env dvp fl nm vp cd st = Some st'" and "cd_thread cd' = cd_thread cd"
    and "r = refreshed_ent (dir_key dvp nm) (fst (add_val vp)) (fst (snd (add_val vp))) st"
    and "case vp of None \<Rightarrow> True | Some v \<Rightarrow> \<not> op_ac_timedout ops v \<and>
      op_getvnode ops (vn_vfsp dvp) (case r of None \<Rightarrow> vn_view v | Some e \<Rightarrow> dn_vvw e) (vn_fid v) = (0, v)"
  shows "fst (mfs_dnclookup env ops alloc dvp nm cd' st') =
    (if \<exists>e. r = Some e \<and> \<not> dn_invalid e \<and> dn_dncgen e \<noteq> vn_dncgen dvp then DncMiss
     else case vp of Some v \<Rightarrow> DncVp v
     | None \<Rightarrow> if MVFS_FLAGON fl MFS_DNC_NOTINDIR \<or> sint (cd_ctime cd') \<le>
           sint ((case r of None \<Rightarrow> cd_ctime cd | Some e \<Rightarrow> dn_addtime e) + mmi_ac_regmax (env_mmi env (vn_vfsp dvp)))
         then DncEnoent else DncMiss)"
proof -
  have inv: "dnc_inv env vb cb st'" by (rule dncadd_effect(1) [OF assms(1,2,6)])
  have c: "dnc_consts st' = dnc_consts st" unfolding dncadd_eq [OF assms(6,3)] by (rule consts_add)
  obtain i where i: "i < mfs_dncmax st" and k: "linked (mfs_dnc st' ! i)" "ent_key (mfs_dnc st' ! i) = dir_key dvp nm"
    and valid: "\<not> dn_invalid (mfs_dnc st' ! i)"
    and v: "dn_vfid (mfs_dnc st' ! i) = fst (add_val vp)" "dn_vevtime (mfs_dnc st' ! i) = fst (snd (add_val vp))"
      "dn_vvw (mfs_dnc st' ! i) = (case r of None \<Rightarrow> snd (snd (add_val vp)) | Some e \<Rightarrow> dn_vvw e)"
    and gen: "dn_dncgen (mfs_dnc st' ! i) = (case r of None \<Rightarrow> vn_dncgen dvp
           | Some e \<Rightarrow> if dn_invalid e then vn_dncgen dvp else dn_dncgen e)"
    and t: "dn_addtime (mfs_dnc st' ! i) = (case r of None \<Rightarrow> cd_ctime cd | Some e \<Rightarrow> dn_addtime e)"
      "ent_flag (mfs_dnc st' ! i) MFS_DNC_NOTINDIR = MVFS_FLAGON fl MFS_DNC_NOTINDIR"
    and bh: "mfs_dnc_nullbhcheck (cd_thread cd) (mfs_dnc st' ! i) \<or> mfs_dncbhcheck (cd_thread cd) (mfs_dnc st' ! i)"
    by (rule added_ent [OF assms(1-6,8)])
  have i': "i < mfs_dncmax st'" and on: "mvfs_dncenabled st'" "\<not> mmi_nodnlc (env_mmi env (vn_vfsp dvp))"
    using assms(4) c i by (simp_all add: add_on_def dnc_consts_def)
  show ?thesis
  proof (cases "\<exists>e. r = Some e \<and> \<not> dn_invalid e \<and> dn_dncgen e \<noteq> vn_dncgen dvp")
    case True
    then show ?thesis using lookup_other_gen [OF inv i' k] gen by auto
  next
    case False
    then have g: "dn_dncgen (mfs_dnc st' ! i) = vn_dncgen dvp" using gen by (auto split: option.split)
    note hit = lookup_hit [OF inv on i' k valid g, of cd'] and bh' = bh [folded assms(7)]
    show ?thesis
    proof (cases vp)
      case (Some x)
      then have "fst (mfs_dnclookup env ops alloc dvp nm cd' st') = DncVp x"
        using hit(1) [OF bh'] v assms(2,9) by (cases r) (simp_all add: add_val_def add_pre_def)
      then show ?thesis using False Some by simp
    next
      case None
      have "mvfs_dncnoentenabled st'" using assms(4) None c by (auto simp: add_on_def add_val_def FIDNULL_iff dnc_consts_def)
      moreover have "dn_vfid (mfs_dnc st' ! i) = MFS_FID_NULL" using v None by (simp add: add_val_def)
      ultimately show ?thesis using hit(2) [OF bh'] t False None by simp
    qed
  qed
qed

section \<open>Flushing everything and resizing\<close>

lemma free_holds:
  assumes inv: "dnc_inv env vb cb st" and free: "\<And>j. j < mfs_dncmax st \<Longrightarrow> \<not> linked (mfs_dnc st ! j)" and v: "v \<noteq> NULL"
  shows "vn_holds st v = vb v" and "cr_holds st v = cb v"
proof -
  have "ent_vholds v e = 0 \<and> ent_choldsc v e = 0" if e: "e \<in> set (mfs_dnc st)" for e
  proof -
    obtain j where "j < mfs_dncmax st" "e = mfs_dnc st ! j" using e inv_len [OF inv] by (auto simp: in_set_conv_nth)
    then have "released e" using inv free by (auto simp: dnc_inv_def ent_ok_def)
    then show ?thesis using v by (simp add: released_def ent_vholds_def ent_choldsc_def)
  qed
  then have "sum_list (map (ent_vholds v) (mfs_dnc st)) = 0" "sum_list (map (ent_choldsc v) (mfs_dnc st)) = 0"
    by (auto intro: sum_list_zero)
  then show "vn_holds st v = vb v" "cr_holds st v = cb v" using inv v by (simp_all add: dnc_inv_def holds_ok_def)
qed

lemma flush_all:
  assumes inv: "dnc_inv env vb cb st" and st': "st' = snd (mvfs_dncflush_subr NULL st)"
  shows "dnc_inv env vb cb st'" and "dnc_consts st' = dnc_consts st" and "j < mfs_dncmax st \<Longrightarrow> \<not> linked (mfs_dnc st' ! j)"
  using flush_subr_effect(1) [OF inv st'] flush_subr_effect(2) [OF inv st', of j] by (auto simp: keeps_def shrunk_def)

lemma flush_fold_busy: "fst (fold (flush_step vfs) xs (-1, st)) = -1"
proof (induction xs arbitrary: st)
  case (Cons i xs)
  have "fst (flush_step vfs i (-1, st)) = -1" by (simp add: flush_step_def Let_def)
  then show ?case using Cons.IH [of "snd (flush_step vfs i (-1, st))"] by (metis fold.simps(2) o_apply prod.collapse)
qed simp

text \<open>The flush tells whether there was anything to flush.\<close>
lemma flush_fold_rval:
  assumes inv: "dnc_inv env vb cb st" and xs: "set xs \<subseteq> {..<mfs_dncmax st}"
  shows "fst (fold (flush_step NULL) xs (0, st)) = (if \<exists>i\<in>set xs. linked (mfs_dnc st ! i) then -1 else 0)"
  using xs
proof (induction xs)
  case (Cons i xs)
  have i: "i < mfs_dncmax st" using Cons.prems by simp
  have "flush_step NULL i (0, st) = (if linked (mfs_dnc st ! i) then (-1, dnc_flush_ent i st) else (0, st))"
    using inv_unused_iff [OF inv i] inv_not_in_trans [OF inv i] by (simp add: flush_step_def Let_def)
  then show ?case using Cons flush_fold_busy by auto
qed simp

lemma flush_rval:
  assumes inv: "dnc_inv env vb cb st"
  shows "fst (mvfs_dncflush_subr NULL st) = (if \<exists>i<mfs_dncmax st. linked (mfs_dnc st ! i) then -1 else 0)"
  using flush_fold_rval [OF inv upt_indices] inv_not_null [OF inv]
  by (auto simp: mvfs_dncflush_subr_def case_prod_beta)

lemma inv_base_cong:
  "(\<And>v. v \<noteq> NULL \<Longrightarrow> vb v = vb' v \<and> cb v = cb' v) \<Longrightarrow> dnc_inv env vb cb st = dnc_inv env vb' cb' st"
  by (simp add: dnc_inv_def holds_ok_def)

text \<open>The sizes a request asks for.\<close>
definition asked_sizes :: "mvfs_cache_sizes_t \<Rightarrow> mvfs_dnlc_data \<Rightarrow> nat \<times> nat \<times> nat" where
  "asked_sizes szp st = (MVFS_SIZE_RUNTIME_SET szp MVFS_SETCACHE_DNCDIRMAX (mvfs_dncdirmax st),
     MVFS_SIZE_RUNTIME_SET szp MVFS_SETCACHE_DNCREGMAX (mvfs_dncregmax st),
     MVFS_SIZE_RUNTIME_SET szp MVFS_SETCACHE_DNCNOENTMAX (mvfs_dncnoentmax st))"

definition dnc_sizes :: "mvfs_dnlc_data \<Rightarrow> nat \<times> nat \<times> nat" where
  "dnc_sizes st = (mvfs_dncdirmax st, mvfs_dncregmax st, mvfs_dncnoentmax st)"

lemma setcaches_eq:
  assumes "asked_sizes szp st \<noteq> dnc_sizes st"
  shows "fst (mvfs_dnc_setcaches True halloc halloc_min szp st) = (if fst (mvfs_dncflush_subr NULL st) = -1 then EBUSY else 0)"
    and "snd (snd (mvfs_dnc_setcaches True halloc halloc_min szp st)) = (let st' = snd (mvfs_dncflush_subr NULL st);
       (d, r, n) = asked_sizes szp st in
     if fst (mvfs_dncflush_subr NULL st) = -1 then st'
     else snd (mvfs_dnclist_init halloc halloc_min (st'\<lparr>mfs_dnc := replicate (d + r + n) dnc_zero, mfs_dnc_null := False,
       mvfs_dncdirmax := d, mvfs_dncregmax := r, mvfs_dncnoentmax := n\<rparr>)))"
proof -
  have ne: "\<not> ((\<not> MVFS_SIZE_VALID szp MVFS_SETCACHE_DNCDIRMAX \<or> unat (sz_size szp ! MVFS_SETCACHE_DNCDIRMAX) = mvfs_dncdirmax st) \<and>
      (\<not> MVFS_SIZE_VALID szp MVFS_SETCACHE_DNCREGMAX \<or> unat (sz_size szp ! MVFS_SETCACHE_DNCREGMAX) = mvfs_dncregmax st) \<and>
      (\<not> MVFS_SIZE_VALID szp MVFS_SETCACHE_DNCNOENTMAX \<or> unat (sz_size szp ! MVFS_SETCACHE_DNCNOENTMAX) = mvfs_dncnoentmax st))"
    using assms by (auto simp: asked_sizes_def dnc_sizes_def MVFS_SIZE_RUNTIME_SET_def split: if_splits)
  show "fst (mvfs_dnc_setcaches True halloc halloc_min szp st) = (if fst (mvfs_dncflush_subr NULL st) = -1 then EBUSY else 0)"
    unfolding mvfs_dnc_setcaches_def Let_def if_not_P [OF ne] by (simp add: case_prod_beta)
  show "snd (snd (mvfs_dnc_setcaches True halloc halloc_min szp st)) = (let st' = snd (mvfs_dncflush_subr NULL st);
       (d, r, n) = asked_sizes szp st in
     if fst (mvfs_dncflush_subr NULL st) = -1 then st'
     else snd (mvfs_dnclist_init halloc halloc_min (st'\<lparr>mfs_dnc := replicate (d + r + n) dnc_zero, mfs_dnc_null := False,
       mvfs_dncdirmax := d, mvfs_dncregmax := r, mvfs_dncnoentmax := n\<rparr>)))"
    unfolding mvfs_dnc_setcaches_def Let_def if_not_P [OF ne] by (simp add: case_prod_beta asked_sizes_def)
qed

lemma setcaches_idle:
  assumes inv: "dnc_inv env vb cb st" and free: "\<And>j. j < mfs_dncmax st \<Longrightarrow> \<not> linked (mfs_dnc st ! j)"
    and ne: "asked_sizes szp st \<noteq> dnc_sizes st" and a: "halloc \<or> halloc_min"
    and r: "mvfs_dnc_setcaches True halloc halloc_min szp st = (err, szp', st')"
  shows "err = 0" and "dnc_sizes st' = asked_sizes szp st" and "dnc_inv env vb cb st'" and "cached st' = {}"
proof -
  let ?f = "snd (mvfs_dncflush_subr NULL st)"
  obtain d g n where sz: "asked_sizes szp st = (d, g, n)" by (metis prod.collapse)
  let ?z = "?f\<lparr>mfs_dnc := replicate (d + g + n) dnc_zero, mfs_dnc_null := False,
       mvfs_dncdirmax := d, mvfs_dncregmax := g, mvfs_dncnoentmax := n\<rparr>"
  have rv: "fst (mvfs_dncflush_subr NULL st) = 0" using flush_rval [OF inv] free by auto
  show "err = 0" using setcaches_eq(1) [OF ne, of halloc halloc_min] r rv by simp
  have st': "mvfs_dnclist_init halloc halloc_min ?z = (fst (mvfs_dnclist_init halloc halloc_min ?z), st')"
    using setcaches_eq(2) [OF ne, of halloc halloc_min] r rv sz by (simp add: Let_def prod_eq_iff)
  note l = list_init_inv [OF st' a]
  note fl = flush_all [OF inv refl]
  have max: "mfs_dncmax ?f = mfs_dncmax st" using fl(2) by (simp add: dnc_consts_def)
  show "dnc_sizes st' = asked_sizes szp st" using l(6-8) sz by (simp add: dnc_sizes_def)
  show "cached st' = {}" by (rule no_keys_empty [OF l(3)]) simp_all
  have h: "vn_holds ?z v = vb v \<and> cr_holds ?z v = cb v" if "v \<noteq> NULL" for v
    using free_holds [OF fl(1) _ that] fl(3) max by simp
  have "dnc_inv env (vn_holds ?z) (cr_holds ?z) st'" using l(2) by simp
  then show "dnc_inv env vb cb st'" using inv_base_cong [of "vn_holds ?z" vb "cr_holds ?z" cb env st'] h by blast
qed

section \<open>Properties\<close>

text \<open>C5: after the setup and any sequence of calls the name cache is well-formed: the hash chains and the
  three LRU lists hold exactly the entries they should, each entry on the chain of its name and the list of
  its part of the array, with its build handles within their array, no two entries have the same key, unused entries hold nothing, and the holds on
  vnodes and credentials are those of the entries in use and those handed out by lookups.\<close>
theorem name_cache_invariant:
  assumes "mvfs_dncinit alloc halloc halloc_min scale sizes st0 = (0, scale', st1)" and "\<not> mfs_dnc_null st1"
    and "getattr_ok ops" and "runs (dnc_step env ops) st1 tr st"
  shows "dnc_inv env (\<lambda>v. vn_holds st0 v + handed_out tr v) (cr_holds st0) st"
  by (rule reachable(1) [OF assms])

text \<open>C4: a lookup in the name cache never answers with a stale translation.  The reference is a map that
  never forgets, changed only by the adds, removals, invalidations and flushes among the calls before:
  when a lookup returns a vnode, the map has for this name an identifier that the vnode was found by and
  the event time of that vnode; when it says that the name does not exist, the map says so too.\<close>
theorem name_cache_refines_map:
  assumes "mvfs_dncinit alloc halloc halloc_min scale sizes st0 = (0, scale', st1)" and "\<not> mfs_dnc_null st1"
    and "getattr_ok ops" and "runs (dnc_step env ops) st1 (tr @ [(OpLookup alloc' dvp nm cd, OutLookup r)]) st"
    and "nm \<noteq> [46]"
    and "m = fold (dnc_spec env (mvfs_dncenabled st0) (mvfs_dncnoentenabled st0)) (map fst tr) Map.empty"
  shows "(r = DncEnoent \<longrightarrow> (\<exists>evt. m (dir_key dvp nm) = Some (MFS_FID_NULL, evt, NULL))) \<and>
    (\<forall>vp. r = DncVp vp \<longrightarrow> (\<exists>fid vvw. m (dir_key dvp nm) = Some (fid, vn_evtime vp, vvw) \<and> fid \<noteq> MFS_FID_NULL \<and>
       op_getvnode ops (vn_vfsp dvp) vvw fid = (0, vp)))"
proof -
  obtain s where r: "runs (dnc_step env ops) st1 tr s" and l: "dnc_step env ops s (OpLookup alloc' dvp nm cd) (OutLookup r) st"
    using assms(4) by (auto simp: runs_append runs_simps)
  have l': "mfs_dnclookup env ops alloc' dvp nm cd s = (r, st)" using l by (auto elim: dnc_step.cases)
  note reach = reachable [OF assms(1-3) r]
  have "lookup_answer ops dvp nm r (Map.graph m)"
    using lookup_answer_mono [OF within_graph [OF reach(2)] lookup_effect(2) [OF reach(1) assms(3) l']] assms(6) by simp
  then show ?thesis using assms(5) by (auto simp: lookup_answer_def Map.graph_def)
qed


text \<open>C18: a name that was removed, or whose directory was invalidated, or whose view was invalidated or
  flushed, is not found any more: the next lookup misses, in whatever state the cache was.\<close>
theorem removed_name_misses:
  assumes "dnc_inv env vb cb st" and "mvfs_dncenabled st" and "\<not> mmi_nodnlc (env_mmi env (vn_vfsp dvp))" and "nm \<noteq> [46]"
    and "vn_isvob dvp"
    and "st' = snd (mfs_dncremove env alloc dvp nm st) \<or> st' = mfs_dnc_invalvp dvp st \<or> st' = mfs_dnc_invalvw (vn_view dvp) st
      \<or> st' = mfs_dnc_flushvw (vn_view dvp) st \<or> st' = mvfs_dnc_flushvfs (vn_vfsp dvp) st \<or> st' = mfs_dncflush st"
  shows "fst (mfs_dnclookup env ops alloc' dvp nm cd st') = DncMiss"
proof -
  let ?k = "dir_key dvp nm"
  note flush = flush_eqs [OF assms(1)]
  have a: "about_vp dvp ?k v" "about_view (vn_view dvp) ?k v" "about_vfs (vn_vfsp dvp) ?k v" "about_vfs NULL ?k v" for v
    using assms(5) by (auto simp: about_vp_def about_view_def about_vfs_def key_dvw_def split: prod.splits)
  have "nm \<in> set (remove_names env alloc nm)"
    by (cases "mfs_hmname (env_viewroot env) nm"; cases "fst (mfs_hmname (env_viewroot env) nm)";
        cases "snd (mfs_hmname (env_viewroot env) nm)") (simp_all add: remove_names_def)
  then have r: "(?k, v) \<notin> cached (snd (mfs_dncremove env alloc dvp nm st))" for v
    using remove_clears [OF assms(1-3)] by blast
  have "keeps env vb cb st st' \<and> (\<forall>v. (?k, v) \<notin> cached st')"
    using assms(6)
  proof (elim disjE)
    assume "st' = snd (mfs_dncremove env alloc dvp nm st)"
    then show ?thesis using keeps_remove [OF assms(1)] r by simp
  next
    assume "st' = mfs_dnc_invalvp dvp st"
    then show ?thesis using keeps_invals(1) [OF assms(1)] invalvp_clears [OF assms(1)] a(1) by blast
  next
    assume "st' = mfs_dnc_invalvw (vn_view dvp) st"
    then show ?thesis using keeps_invals(2) [OF assms(1)] invalvw_clears [OF assms(1)] a(2) by blast
  next
    assume "st' = mfs_dnc_flushvw (vn_view dvp) st"
    then show ?thesis using flushvw_effect(1) [OF assms(1) refl] flushvw_clears [OF assms(1)] a(2) by blast
  next
    assume s: "st' = mvfs_dnc_flushvfs (vn_vfsp dvp) st"
    show ?thesis unfolding s flush keeps_counters cached_counters
      using flush_subr_effect(1) [OF assms(1) refl] flush_subr_clears [OF assms(1)] a(3) by blast
  next
    assume s: "st' = mfs_dncflush st"
    show ?thesis unfolding s flush
      using flush_subr_effect(1) [OF assms(1) refl] flush_subr_clears [OF assms(1)] a(4) by blast
  qed
  then show ?thesis using lookup_absent [OF keepsD(1) assms(4)] by blast
qed

text \<open>C19: no hold leaks.  After any sequence of calls a flush of the name cache gives back every hold it has
  on a vnode or a credential: what remains are the holds from before and those handed out to the callers
  of lookups; and no entry is counted as used.\<close>
theorem flush_releases_holds:
  assumes "mvfs_dncinit alloc halloc halloc_min scale sizes st0 = (0, scale', st1)" and "\<not> mfs_dnc_null st1"
    and "getattr_ok ops" and "runs (dnc_step env ops) st1 tr st" and "v \<noteq> NULL"
  shows "vn_holds (mfs_dncflush st) v = vn_holds st0 v + handed_out tr v \<and> cr_holds (mfs_dncflush st) v = cr_holds st0 v \<and>
    mvfs_dnc_count (mfs_dncflush st) = (0, 0, 0)"
proof -
  note inv = reachable(1) [OF assms(1-4)]
  let ?st = "mfs_dncflush st"
  have eq: "?st = snd (mvfs_dncflush_subr NULL st)" by (rule flush_eqs(1) [OF inv])
  note fl = flush_all [OF inv eq]
  have max: "mfs_dncmax ?st = mfs_dncmax st" using fl(2) by (simp add: dnc_consts_def)
  have free: "\<not> linked (mfs_dnc ?st ! j)" if "j < mfs_dncmax ?st" for j using fl(3) that max by simp
  have "filter (\<lambda>i. dnc_counted (mfs_dnc ?st ! i)) [0..<mfs_dncmax ?st] = []"
    using inv_unused_iff [OF fl(1)] free by (auto simp: dnc_counted_def filter_empty_conv)
  then have "mvfs_dnc_count ?st = (0, 0, 0)" unfolding mvfs_dnc_count_def Let_def by simp
  then show ?thesis using free_holds [OF fl(1) free assms(5)] by simp
qed

text \<open>C20: a resize of the cache gets through at the second call at the latest.  A call that finds names in
  the cache flushes them and reports EBUSY with the sizes as they were; the same call repeated then
  succeeds, and the cache has the sizes asked for, is empty and well-formed.\<close>
theorem resize_gets_through:
  assumes "dnc_inv env vb cb st" and "asked_sizes szp st \<noteq> dnc_sizes st" and "halloc \<or> halloc_min"
    and "mvfs_dnc_setcaches True halloc halloc_min szp st = (e1, sz1, st1)"
    and "mvfs_dnc_setcaches True halloc halloc_min szp st1 = (e2, sz2, st2)"
  shows "e1 = 0 \<and> dnc_sizes st1 = asked_sizes szp st \<and> dnc_inv env vb cb st1 \<and> cached st1 = {} \<or>
    e1 = EBUSY \<and> dnc_sizes st1 = dnc_sizes st \<and>
      e2 = 0 \<and> dnc_sizes st2 = asked_sizes szp st \<and> dnc_inv env vb cb st2 \<and> cached st2 = {}"
proof (cases "\<exists>i<mfs_dncmax st. linked (mfs_dnc st ! i)")
  case False
  then show ?thesis using setcaches_idle [OF assms(1) _ assms(2-4)] by blast
next
  case True
  then have rv: "fst (mvfs_dncflush_subr NULL st) = -1" using flush_rval [OF assms(1)] by simp
  have e1: "e1 = EBUSY" using setcaches_eq(1) [OF assms(2), of halloc halloc_min] assms(4) rv by simp
  have st1: "st1 = snd (mvfs_dncflush_subr NULL st)"
    using setcaches_eq(2) [OF assms(2), of halloc halloc_min] assms(4) rv by (simp add: Let_def case_prod_beta)
  note fl = flush_all [OF assms(1) st1]
  have c: "dnc_sizes st1 = dnc_sizes st" "asked_sizes szp st1 = asked_sizes szp st" "mfs_dncmax st1 = mfs_dncmax st"
    using fl(2) by (simp_all add: dnc_consts_def dnc_sizes_def asked_sizes_def)
  have "\<not> linked (mfs_dnc st1 ! j)" if "j < mfs_dncmax st1" for j using fl(3) that c(3) by simp
  from setcaches_idle [OF fl(1) this _ assms(3,5)] show ?thesis using assms(2) c e1 by auto
qed

text \<open>C35: the count of names not found for another reason than the directory is not kept up when an entry is
  refreshed with other flags.  An entry for a name that was missing from its directory is refreshed as
  not found for another reason; with the count at zero the invalidation after a change of some object
  then skips the entry, which stays valid.\<close>
theorem stale_noent_survives:
  assumes "dnc_inv env vb cb st" and "add_pre dvp fl nm None" and "add_on env dvp MFS_FID_NULL st"
    and "i < mfs_dncmax st" and "linked (mfs_dnc st ! i)" and "ent_key (mfs_dnc st ! i) = dir_key dvp nm"
    and "dn_vfid (mfs_dnc st ! i) = MFS_FID_NULL" and "dn_vevtime (mfs_dnc st ! i) = timeval_zero"
    and "mvfs_dnc_noent_other st = 0" and "\<not> MVFS_FLAGON fl MFS_DNC_NOTINDIR"
    and "mfs_dncadd env dvp fl nm None cd st = Some st'"
  shows "mfs_dnc_inval_obj_not_found st' = st' \<and> \<not> ent_flag (mfs_dnc st' ! i) MFS_DNC_NOTINDIR \<and>
    (\<exists>evt vvw. (dir_key dvp nm, (MFS_FID_NULL, evt, vvw)) \<in> cached st')"
proof -
  note f = find_present [OF assms(1,4-6)]
  have nm: "nm \<noteq> []" by (rule f(2))
  let ?st = "DNC_BUMP Dnc_add st"
  have inv': "dnc_inv env vb cb ?st" using assms(1) by simp
  have i: "i < mfs_dncmax ?st" "linked (mfs_dnc ?st ! i)" "ent_key (mfs_dnc ?st ! i) = dir_key dvp nm" using assms(4-6) by simp_all
  have rvc: "\<not> MVFS_FLAGON fl MVFS_DNC_RVC_ENT" using assms(2) by (simp add: add_pre_def)
  have h: "dnchash_of ?st (vn_fid dvp) nm = dnchash_of st (vn_fid dvp) nm" by (simp add: dnchash_of_def DNC_BUMP_def)
  have st': "st' = dncadd_match dvp fl VNON (cd_thread cd) i ?st"
    using dncadd_eq [OF assms(11) nm] find_present(1) [OF inv' i] h assms(1,3,7,8) rvc
    by (simp add: mvfs_dncadd_subr_def Let_def add_val_def add_on_def dnc_inv_def FIDNULL_iff)
  define e where "e = dncadd_refresh dvp fl (cd_thread cd) (mfs_dnc st ! i)"
  define e' where "e' = (if mfs_dnc_nullbhcheck (cd_thread cd) e \<or> mfs_dncbhcheck (cd_thread cd) e then e else mfs_dncbhadd (thr_bh (cd_thread cd)) e)"
  have ent: "mfs_dnc st' = (mfs_dnc st)[i := e']" "mvfs_dnc_noent_other st' = mvfs_dnc_noent_other st" "mfs_dncmax st' = mfs_dncmax st"
    by (simp_all add: st' dncadd_match_def Let_def e'_def e_def dnc_prims)
  have e': "mfs_dnc st' ! i = e'" using ent(1) assms(4) inv_len [OF assms(1)] by simp
  have "dn_flags e' = ucast fl" "\<not> dn_invalid e'" by (simp_all add: e'_def e_def dncadd_refresh_def Let_def)
  moreover have "ent_core e' = ent_core (mfs_dnc st ! i)"
    using assms(6) rvc refresh_fields(1,4) [OF inv_bh_slots [OF assms(1,4,5)], where fl = fl] by (simp add: e'_def e_def ent_key_def)
  ultimately have k: "linked e'" "ent_key e' = dir_key dvp nm" "dn_vfid e' = MFS_FID_NULL" "\<not> ent_flag e' MFS_DNC_NOTINDIR" "\<not> dn_invalid e'"
    using ent_core_facts(1,2,10) [of e' "mfs_dnc st ! i"] assms(5-7,10) flagon_ucast [of MFS_DNC_NOTINDIR fl] by (simp_all add: ent_flag_def)
  have "mfs_dnc_inval_obj_not_found st' = st'" using ent(2) assms(9) by (simp add: mfs_dnc_inval_obj_not_found_def)
  moreover have "(dir_key dvp nm, (MFS_FID_NULL, dn_vevtime e', dn_vvw e')) \<in> cached st'"
    using k e' ent(3) assms(4) unfolding cached_def ent_val_def by force
  ultimately show ?thesis using e' k(4) by blast
qed


section \<open>Examples\<close>

text \<open>A VOB directory and a file in a view, a cache of the default sizes, and the calls on them.\<close>
definition ex_dir :: dnc_vnode where
  "ex_dir = \<lparr>vn_addr = 10, vn_isvob = True, vn_fid = \<lparr>mf_dbid = 5, mf_gen = 1\<rparr>, vn_dncgen = 0, vn_view = 20, vn_vfsp = 30,
     vn_type = VDIR, vn_evtime = timeval_zero, vn_mtime = timeval_zero, vn_attrvalid = True\<rparr>"

definition ex_file :: dnc_vnode where
  "ex_file = ex_dir\<lparr>vn_addr := 11, vn_fid := \<lparr>mf_dbid = 6, mf_gen = 1\<rparr>, vn_type := VREG\<rparr>"

definition ex_env :: dnc_env where
  "ex_env = \<lparr>env_mmi = \<lambda>_. \<lparr>mmi_nodnlc = False, mmi_ac_regmax = 60, mmi_ac_dirmax = 60, mmi_svr_uuid = TBS_UUID_NULL, mmi_rootvp = ex_dir\<rparr>,
     env_view_uuid = \<lambda>_. TBS_UUID_NULL, env_view_nullvid = \<lambda>_. False, env_viewroot = None\<rparr>"

definition ex_ops :: dnc_ops where
  "ex_ops = \<lparr>op_getvnode = \<lambda>_ _ _. (0, ex_file), op_ac_timedout = \<lambda>_. False, op_clnt_getattr = \<lambda>vp st. (0, vn_evtime vp, st)\<rparr>"

definition ex_cd :: call_data where
  "ex_cd = \<lparr>cd_cred = 40, cd_thread = \<lparr>thr_bh = \<lparr>bh_build_session = 0, bh_target_id = 0\<rparr>, thr_usereftime = False,
     thr_bh_ref_time = timeval_zero\<rparr>, cd_ctime = 100\<rparr>"

definition ex_sizes :: mvfs_cache_sizes_t where "ex_sizes = \<lparr>sz_mask = 0, sz_size = []\<rparr>"

definition ex_st0 :: mvfs_dnlc_data where
  "ex_st0 = \<lparr>mfs_dnc_null = True, mfs_dnc = [], mvfs_dnchashsize = 0, mfs_dnchash = [], dnc_lru = \<lambda>_. [], mfs_dncmax = 0,
     mfs_dnc_enoent_start = 0, mvfs_dnc_noent_other = 0, mvfs_dncdirmax = 0, mvfs_dncregmax = 0, mvfs_dncnoentmax = 0,
     mvfs_dncenabled = True, mvfs_dncnoentenabled = True, mvfs_rvcenabled = True, dncstat = \<lambda>_. 0, vn_holds = \<lambda>_. 0, cr_holds = \<lambda>_. 0\<rparr>"

definition ex_st1 :: mvfs_dnlc_data where
  "ex_st1 = snd (snd (mvfs_dncinit (\<lambda>_. True) True True 0 ex_sizes ex_st0))"

definition ex_st2 :: mvfs_dnlc_data where
  "ex_st2 = the (mfs_dncadd ex_env ex_dir 0 [97] (Some ex_file) ex_cd ex_st1)"

definition ex_st3 :: mvfs_dnlc_data where
  "ex_st3 = snd (mfs_dnclookup ex_env ex_ops True ex_dir [97] ex_cd ex_st2)"

lemma ex_init:
  "mvfs_dncinit (\<lambda>_. True) True True 0 ex_sizes ex_st0 = (0, 0, ex_st1)" "\<not> mfs_dnc_null ex_st1" "mvfs_dncregmax ex_st1 = 800"
  "mvfs_dncnoentmax ex_st1 = 800" "mvfs_dncdirmax ex_st1 = 200" "mvfs_dnc_noent_other ex_st1 = 0"
proof -
  let ?s = "dncinit_sizes 0 (ex_st0\<lparr>mfs_dnc_null := True, mvfs_dnchashsize := MFS_DNCHASHMIN, mfs_dnchash := [], mfs_dncmax := 0,
      mfs_dnc_enoent_start := 0, mvfs_dnc_noent_other := 0, mvfs_dncdirmax := 0, mvfs_dncregmax := 0, mvfs_dncnoentmax := 0\<rparr>)"
  let ?z = "?s\<lparr>mfs_dnc := replicate (mfs_dncmax ?s) dnc_zero, mfs_dnc_null := False\<rparr>"
  have sz: "mvfs_dncdirmax ?s = 200" "mvfs_dncregmax ?s = 800" "mvfs_dncnoentmax ?s = 800"
    by (simp_all add: dncinit_sizes_def ex_st0_def DIRMAX_FORMULA_def REGMAX_FORMULA_def NOENTMAX_FORMULA_def)
  have other: "mvfs_dnc_noent_other ?s = 0" by (simp add: dncinit_sizes_def Let_def)
  have nz: "mfs_dncmax ?s \<noteq> 0" using sz by simp
  obtain err s where l: "mvfs_dnclist_init True True ?z = (err, s)" by fastforce
  have i: "err = 0" "dnc_inv ex_env (vn_holds ?z) (cr_holds ?z) s" "mvfs_dncregmax s = 800" "mvfs_dncnoentmax s = 800"
      "mvfs_dncdirmax s = 200" "mvfs_dnc_noent_other s = 0"
    using list_init_inv [OF l] sz other by simp_all
  have d: "MVFS_SIZE_DEFLOAD ex_sizes b 0 = 0" for b
    by (simp add: MVFS_SIZE_DEFLOAD_def MVFS_SIZE_VALID_def MVFS_SIZE_PRESENT_def ex_sizes_def)
  have "dncinit_retry (\<lambda>_. True) True True 0 (ex_st0\<lparr>mfs_dnc_null := True, mvfs_dnchashsize := MFS_DNCHASHMIN, mfs_dnchash := [],
      mfs_dncmax := 0, mfs_dnc_enoent_start := 0, mvfs_dnc_noent_other := 0, mvfs_dncdirmax := 0, mvfs_dncregmax := 0,
      mvfs_dncnoentmax := 0\<rparr>) = (0, 0, s)"
    by (subst dncinit_retry.simps) (use nz l i(1) in \<open>simp only: Let_def if_False simp_thms prod.case\<close>)
  then have "mvfs_dncinit (\<lambda>_. True) True True 0 ex_sizes ex_st0 = (0, 0, s)"
    by (simp add: mvfs_dncinit_def d)
  then show "mvfs_dncinit (\<lambda>_. True) True True 0 ex_sizes ex_st0 = (0, 0, ex_st1)" "\<not> mfs_dnc_null ex_st1"
    "mvfs_dncregmax ex_st1 = 800" "mvfs_dncnoentmax ex_st1 = 800" "mvfs_dncdirmax ex_st1 = 200"
    "mvfs_dnc_noent_other ex_st1 = 0"
    using i inv_not_null [OF i(2)] by (simp_all add: ex_st1_def)
qed

lemmas ex_defs = ex_dir_def ex_file_def ex_env_def ex_ops_def ex_cd_def ex_sizes_def ex_st0_def

lemma ex_inv1: "dnc_inv ex_env (vn_holds ex_st0) (cr_holds ex_st0) ex_st1" "no_key k ex_st1"
    "mvfs_dncenabled ex_st1" "mvfs_dncnoentenabled ex_st1"
  using dncinit_inv(1) [OF ex_init(1,2), of ex_env] dncinit_inv(2-4) [OF ex_init(1,2)] by (simp_all add: ex_st0_def)

lemma ex_getattr: "getattr_ok ex_ops"
  by (simp add: getattr_ok_def ex_ops_def)

lemma ex_pre: "add_pre ex_dir 0 [97] (Some ex_file)" "add_on ex_env ex_dir (fst (add_val (Some ex_file))) ex_st1"
    "0 < type_max ex_st1 VREG"
  using ex_inv1(3,4) ex_init(3)
  by (simp_all add: add_pre_def add_on_def ex_defs NULL_def MVFS_FLAGON_def MFS_FID_NULL_def type_max_def lru_of_type_def)

lemma ex_new: "same_view k v ex_st1" "refreshed_ent k f t ex_st1 = None"
  using ex_inv1(2) refreshed_none [OF ex_inv1(1)] by (auto simp: same_view_def no_key_def)

lemma ex_add: "mfs_dncadd ex_env ex_dir 0 [97] (Some ex_file) ex_cd ex_st1 = Some ex_st2"
  by (simp add: ex_st2_def mfs_dncadd_def MVFS_FLAGON_def)

lemma dncadd_consts: "mfs_dncadd env dvp fl nm vp cd st = Some st' \<Longrightarrow> nm \<noteq> [] \<Longrightarrow> dnc_consts st' = dnc_consts st"
  using dncadd_eq consts_add by metis

lemma ex_inv2: "dnc_inv ex_env (vn_holds ex_st0) (cr_holds ex_st0) ex_st2" "mvfs_dncenabled ex_st2"
    "dnc_sizes ex_st2 = (200, 800, 800)"
proof -
  show "dnc_inv ex_env (vn_holds ex_st0) (cr_holds ex_st0) ex_st2" by (rule dncadd_effect(1) [OF ex_inv1(1) ex_pre(1) ex_add])
  have "dnc_consts ex_st2 = dnc_consts ex_st1" by (rule dncadd_consts [OF ex_add]) simp
  then show "mvfs_dncenabled ex_st2" "dnc_sizes ex_st2 = (200, 800, 800)"
    using ex_inv1(3) ex_init(3-5) by (simp_all add: dnc_consts_def dnc_sizes_def)
qed

lemma ex_lookup: "mfs_dnclookup ex_env ex_ops True ex_dir [97] ex_cd ex_st2 = (DncVp ex_file, ex_st3)"
proof -
  have "fst (mfs_dnclookup ex_env ex_ops True ex_dir [97] ex_cd ex_st2) = DncVp ex_file"
    using lookup_added [OF ex_inv1(1) ex_pre(1) _ ex_pre(2) _ ex_add refl refl, of ex_ops True] ex_pre(3)
    by (simp add: ex_new(2) ex_file_def ex_ops_def)
  then show ?thesis by (simp add: ex_st3_def prod_eq_iff)
qed

lemma ex_run: "runs (dnc_step ex_env ex_ops) ex_st1
    [(OpAdd ex_dir 0 [97] (Some ex_file) ex_cd, OutNone), (OpLookup True ex_dir [97] ex_cd, OutLookup (DncVp ex_file))] ex_st3"
  using step_add [OF ex_pre(1) ex_new(1) ex_add, of ex_ops] step_lookup [OF ex_lookup] by (auto simp: runs_simps)

text \<open>The theorems at these states.\<close>
theorem name_cache_invariant_witness:
  "dnc_inv ex_env (\<lambda>v. vn_holds ex_st0 v + handed_out [(OpAdd ex_dir 0 [97] (Some ex_file) ex_cd, OutNone),
     (OpLookup True ex_dir [97] ex_cd, OutLookup (DncVp ex_file))] v) (cr_holds ex_st0) ex_st3"
  by (rule name_cache_invariant [OF ex_init(1,2) ex_getattr ex_run])

theorem name_cache_refines_map_witness:
  "\<exists>fid vvw. dnc_spec ex_env True True (OpAdd ex_dir 0 [97] (Some ex_file) ex_cd) Map.empty (dir_key ex_dir [97])
      = Some (fid, vn_evtime ex_file, vvw) \<and> fid \<noteq> MFS_FID_NULL \<and> op_getvnode ex_ops (vn_vfsp ex_dir) vvw fid = (0, ex_file)"
  using name_cache_refines_map [OF ex_init(1,2) ex_getattr, of ex_env "[(OpAdd ex_dir 0 [97] (Some ex_file) ex_cd, OutNone)]"
      True ex_dir "[97]" ex_cd "DncVp ex_file" ex_st3, OF _ _ refl] ex_run
  by (simp add: ex_st0_def)

text \<open>The file is added twice: to the empty cache, and again, which refreshes the entry.\<close>
lemma ex_refreshed:
  obtains e where "refreshed_ent (dir_key ex_dir [97]) (vn_fid ex_file) (vn_evtime ex_file) ex_st2 = Some e"
    and "dn_dncgen e = vn_dncgen ex_dir"
proof -
  have v: "fst (add_val (Some ex_file)) = vn_fid ex_file" "fst (snd (add_val (Some ex_file))) = vn_evtime ex_file"
    by (simp_all add: add_val_def)
  have m: "0 < type_max ex_st1 (case Some ex_file of Some v \<Rightarrow> vn_type v | None \<Rightarrow> VNON)"
    using ex_pre(3) by (simp add: ex_file_def)
  have nm: "[97 :: 8 word] \<noteq> []" by simp
  obtain i where i: "i < mfs_dncmax ex_st1" "linked (mfs_dnc ex_st2 ! i)" "ent_key (mfs_dnc ex_st2 ! i) = dir_key ex_dir [97]"
      and f: "dn_vfid (mfs_dnc ex_st2 ! i) = fst (add_val (Some ex_file))"
        "dn_vevtime (mfs_dnc ex_st2 ! i) = fst (snd (add_val (Some ex_file)))"
      and g: "dn_dncgen (mfs_dnc ex_st2 ! i) = (case (None :: mfs_dncent option) of None \<Rightarrow> vn_dncgen ex_dir
           | Some e \<Rightarrow> if dn_invalid e then vn_dncgen ex_dir else dn_dncgen e)"
    by (rule added_ent [OF ex_inv1(1) ex_pre(1) nm ex_pre(2) m ex_add ex_new(2) [symmetric]])
  have "mfs_dncmax ex_st2 = mfs_dncmax ex_st1" using dncadd_consts [OF ex_add nm] by (simp add: dnc_consts_def)
  then show thesis
    using that [of "mfs_dnc ex_st2 ! i"] refreshed_at [OF ex_inv2(1), of i "dir_key ex_dir [97]"] i f g v by simp
qed


theorem removed_name_misses_witness:
  "fst (mfs_dnclookup ex_env ex_ops True ex_dir [97] ex_cd (snd (mfs_dncremove ex_env True ex_dir [97] ex_st2))) = DncMiss"
  by (rule removed_name_misses [OF ex_inv2(1,2), of ex_dir "[97]" _ True]) (simp_all add: ex_defs)

theorem flush_releases_holds_witness:
  "vn_holds (mfs_dncflush ex_st3) 11 = 1 \<and> cr_holds (mfs_dncflush ex_st3) 11 = 0 \<and> mvfs_dnc_count (mfs_dncflush ex_st3) = (0, 0, 0)"
  using flush_releases_holds [OF ex_init(1,2) ex_getattr ex_run, of 11]
  by (simp add: NULL_def handed_out_def ex_st0_def ex_file_def)

definition ex_request :: mvfs_cache_sizes_t where
  "ex_request = \<lparr>sz_mask = push_bit 2 1, sz_size = [0, 0, 1000]\<rparr>"

theorem resize_gets_through_witness:
  "let (e1, sz1, st1) = mvfs_dnc_setcaches True True True ex_request ex_st2;
       (e2, sz2, st2) = mvfs_dnc_setcaches True True True ex_request st1 in
   e1 = 0 \<and> dnc_sizes st1 = (200, 1000, 800) \<or> e1 = EBUSY \<and> e2 = 0 \<and> dnc_sizes st2 = (200, 1000, 800)"
proof -
  have a: "asked_sizes ex_request ex_st2 = (200, 1000, 800)"
    using ex_inv2(3) by (simp add: asked_sizes_def dnc_sizes_def ex_request_def MVFS_SIZE_RUNTIME_SET_def MVFS_SIZE_VALID_def
        MVFS_SIZE_PRESENT_def MVFS_SETCACHE_DNCDIRMAX_def MVFS_SETCACHE_DNCREGMAX_def MVFS_SETCACHE_DNCNOENTMAX_def)
  obtain e1 sz1 st1 where r1: "mvfs_dnc_setcaches True True True ex_request ex_st2 = (e1, sz1, st1)" by (metis prod.collapse)
  obtain e2 sz2 st2 where r2: "mvfs_dnc_setcaches True True True ex_request st1 = (e2, sz2, st2)" by (metis prod.collapse)
  show ?thesis using resize_gets_through [OF ex_inv2(1) _ _ r1 r2] a ex_inv2(3) r1 r2 by auto
qed

text \<open>The name was missing from the directory, and is then not found for another reason.\<close>
definition ex_st4 :: mvfs_dnlc_data where
  "ex_st4 = the (mfs_dncadd ex_env ex_dir MFS_DNC_NOTINDIR [97] None ex_cd ex_st1)"

definition ex_st5 :: mvfs_dnlc_data where
  "ex_st5 = the (mfs_dncadd ex_env ex_dir 0 [97] None ex_cd ex_st4)"

lemma noent_links [simp]:
  "mvfs_dnc_noent_other (set_ent i e st) = mvfs_dnc_noent_other st"
  "mvfs_dnc_noent_other (set_in_trans b i st) = mvfs_dnc_noent_other st" "mvfs_dnc_noent_other (dnc_rmlru i st) = mvfs_dnc_noent_other st"
  "mvfs_dnc_noent_other (dnc_inslru_tail i st) = mvfs_dnc_noent_other st" "mvfs_dnc_noent_other (dnc_inshash h i st) = mvfs_dnc_noent_other st"
  "mvfs_dnc_noent_other (mfs_dncrele i st) = mvfs_dnc_noent_other st" "mvfs_dnc_noent_other (VN_HOLD v st) = mvfs_dnc_noent_other st"
  "mvfs_dnc_noent_other (MDKI_CRHOLD v st) = mvfs_dnc_noent_other st" "mvfs_dnc_noent_other (DNC_BUMP s st) = mvfs_dnc_noent_other st"
  "mvfs_dnc_noent_other (DNC_BUMP_VAL s n st) = mvfs_dnc_noent_other st" "mvfs_dnc_noent_other (bump_type t st) = mvfs_dnc_noent_other st"
  by (simp_all add: mfs_dncrele_def Let_def dnc_prims)

lemma noent_synonyms [simp]: "mvfs_dnc_noent_other (mfs_dnc_inval_case_synonyms fid vw nm n h st) = mvfs_dnc_noent_other st"
proof -
  have "mvfs_dnc_noent_other (fold (\<lambda>i st. set_ent i ((mfs_dnc st ! i)\<lparr>dn_invalid := True\<rparr>) st) xs s) = mvfs_dnc_noent_other s" for xs s
    by (induction xs arbitrary: s) simp_all
  then show ?thesis by (simp add: mfs_dnc_inval_case_synonyms_def Let_def)
qed


lemma length_links [simp]:
  "length (mfs_dnc (set_in_trans b i st)) = length (mfs_dnc st)" "length (mfs_dnc (dnc_rmlru i st)) = length (mfs_dnc st)"
  "length (mfs_dnc (mfs_dncrele i st)) = length (mfs_dnc st)"
  by (simp_all add: mfs_dncrele_def Let_def dnc_prims)

lemma length_synonyms [simp]: "length (mfs_dnc (mfs_dnc_inval_case_synonyms fid vw nm n h st)) = length (mfs_dnc st)"
proof -
  have "length (mfs_dnc (fold (\<lambda>i st. set_ent i ((mfs_dnc st ! i)\<lparr>dn_invalid := True\<rparr>) st) xs s)) = length (mfs_dnc s)" for xs s
    by (induction xs arbitrary: s) (simp_all add: set_ent_def)
  then show ?thesis by (simp add: mfs_dnc_inval_case_synonyms_def Let_def)
qed

lemma noent_new:
  assumes "dnc_lru st Noentlru = i # r" and "\<not> dnc_on_chain i st" and "i < length (mfs_dnc st)" and "MVFS_FLAGON fl MFS_DNC_NOTINDIR"
  shows "mvfs_dnc_noent_other (dncadd_new dvp tvw fl nm n fid VNON evt h cd st) = mvfs_dnc_noent_other st"
proof -
  have "ent_flag (e\<lparr>dn_flags := ucast fl, dn_in_trans := b\<rparr>) MFS_DNC_NOTINDIR" for e b
    using assms(4) flagon_ucast [of MFS_DNC_NOTINDIR fl] by (simp add: ent_flag_def)
  then have "ent_flag (mfs_dnc (dnc_inshash h i (dnc_inslru_tail i (set_in_trans False i s))) ! i) MFS_DNC_NOTINDIR"
    if "dn_flags (mfs_dnc s ! i) = ucast fl" "i < length (mfs_dnc s)" for s
    using that assms(4) flagon_ucast [of MFS_DNC_NOTINDIR fl] by (simp add: dnc_prims Let_def ent_flag_def)
  then show ?thesis
    using assms by (simp add: dncadd_new_def lru_of_type_def Let_def dnc_prims)
qed

lemma ex_pre4: "add_pre ex_dir fl [97] None" if "fl = 0 \<or> fl = MFS_DNC_NOTINDIR"
  using that by (auto simp: add_pre_def ex_defs NULL_def MVFS_FLAGON_def dnc_flag_defs)


lemma ex_on: "add_on ex_env ex_dir MFS_FID_NULL ex_st1"
  using ex_inv1(3,4) by (simp add: add_on_def ex_defs)

lemma ex_add4: "mfs_dncadd ex_env ex_dir MFS_DNC_NOTINDIR [97] None ex_cd ex_st1 = Some ex_st4"
    "mfs_dncadd ex_env ex_dir 0 [97] None ex_cd ex_st4 = Some ex_st5"
  by (simp_all add: ex_st4_def ex_st5_def mfs_dncadd_def MVFS_FLAGON_def dnc_flag_defs)

lemma add_subr_new:
  assumes inv: "dnc_inv env vb cb st" and a: "add_args_ok env (mvfs_dnchashsize st) dvp tvw fl nm fid type h"
    and on: "add_on env dvp fid st" and no: "no_key (add_key dvp tvw fl nm) st"
  shows "mvfs_dncadd_subr env dvp tvw fl nm (length nm) fid type evt h cd st =
    dncadd_new dvp tvw fl nm (length nm) fid type evt h cd (DNC_BUMP Dnc_add st)"
proof -
  let ?st = "DNC_BUMP Dnc_add st"
  have inv': "dnc_inv env vb cb ?st" and a': "add_args_ok env (mvfs_dnchashsize ?st) dvp tvw fl nm fid type h"
    using inv a by (simp, simp add: DNC_BUMP_def)
  have "mfs_dncfind (vn_fid dvp) (vn_vfsp dvp) (if MVFS_FLAGON fl MVFS_DNC_RVC_ENT then tvw else vn_view dvp)
      nm (length nm) False h ?st = None" (is "?f = None")
    using find_add_key(2) [OF inv' a' refl] no by (cases ?f) (auto simp: no_key_def)
  then show ?thesis using inv on by (auto simp: mvfs_dncadd_subr_def Let_def add_on_def dnc_inv_def split: if_splits)
qed

lemma ex_inv4: "dnc_inv ex_env (vn_holds ex_st0) (cr_holds ex_st0) ex_st4" "add_on ex_env ex_dir MFS_FID_NULL ex_st4"
    "\<exists>i < mfs_dncmax ex_st4. linked (mfs_dnc ex_st4 ! i) \<and> ent_key (mfs_dnc ex_st4 ! i) = dir_key ex_dir [97] \<and>
      dn_vfid (mfs_dnc ex_st4 ! i) = MFS_FID_NULL \<and> dn_vevtime (mfs_dnc ex_st4 ! i) = timeval_zero"
    "mvfs_dnc_noent_other ex_st4 = 0"
proof -
  note pre = ex_pre4 [of MFS_DNC_NOTINDIR, simplified]
  note args = dncadd_args(1) [OF pre, of ex_env ex_st1 VNON] dncadd_args(2) [OF pre]
  have v: "add_val None = (MFS_FID_NULL, timeval_zero, NULL)" by (simp add: add_val_def)
  show "dnc_inv ex_env (vn_holds ex_st0) (cr_holds ex_st0) ex_st4" by (rule dncadd_effect(1) [OF ex_inv1(1) pre ex_add4(1)])
  have c: "dnc_consts ex_st4 = dnc_consts ex_st1" by (rule dncadd_consts [OF ex_add4(1)]) simp
  then show "add_on ex_env ex_dir MFS_FID_NULL ex_st4" using ex_on by (simp add: add_on_def dnc_consts_def)
  have eq: "ex_st4 = mvfs_dncadd_subr ex_env ex_dir NULL MFS_DNC_NOTINDIR [97] (length [97 :: 8 word]) MFS_FID_NULL VNON timeval_zero
      (dnchash_of ex_st1 (vn_fid ex_dir) [97]) ex_cd ex_st1"
    using dncadd_eq [OF ex_add4(1)] by (simp add: v)
  have m: "0 < type_max ex_st1 VNON" using ex_init(4) by (simp add: type_max_def lru_of_type_def)
  have a: "add_args_ok ex_env (mvfs_dnchashsize ex_st1) ex_dir NULL MFS_DNC_NOTINDIR [97] MFS_FID_NULL VNON (dnchash_of ex_st1 (vn_fid ex_dir) [97])"
    using args(1) by (simp add: v)
  obtain i X where i: "i < mfs_dncmax ex_st1" "mfs_dnc ex_st4 ! i = new_ent ex_dir NULL MFS_DNC_NOTINDIR [97] (length [97 :: 8 word])
      MFS_FID_NULL timeval_zero (dnchash_of ex_st1 (vn_fid ex_dir) [97]) ex_cd X"
    using add_subr_present [OF ex_inv1(1) a ex_on m, of timeval_zero ex_cd] eq unfolding ex_new(2) option.case by metis
  then show "\<exists>i < mfs_dncmax ex_st4. linked (mfs_dnc ex_st4 ! i) \<and> ent_key (mfs_dnc ex_st4 ! i) = dir_key ex_dir [97] \<and>
      dn_vfid (mfs_dnc ex_st4 ! i) = MFS_FID_NULL \<and> dn_vevtime (mfs_dnc ex_st4 ! i) = timeval_zero"
    using c args(2) by (intro exI [of _ i]) (simp add: dnc_consts_def)
  let ?st = "DNC_BUMP Dnc_add ex_st1"
  have inv': "dnc_inv ex_env (vn_holds ex_st0) (cr_holds ex_st0) ?st" using ex_inv1(1) by simp
  have m': "0 < type_max ?st VNON" using m by (simp add: type_max_def lru_of_type_def DNC_BUMP_def)
  have lv: "lru_of_type VNON = Noentlru" by (simp add: lru_of_type_def)
  obtain n r where l: "dnc_lru ?st Noentlru = n # r" using lru_nonempty [OF inv' m'] lv by (auto simp: neq_Nil_conv)
  then have "n \<in> set (dnc_lru ?st Noentlru)" by simp
  then have n: "n < mfs_dncmax ?st" using inv_rings [OF inv'] inv_len [OF inv'] by (simp add: rings_ok_def)
  then have "\<not> linked (mfs_dnc ?st ! n)" using ex_inv1(2) [of "ent_key (mfs_dnc ex_st1 ! n)"] by (auto simp: no_key_def)
  then have "\<not> dnc_on_chain n ?st" using inv_on_chain [OF inv' n] by simp
  from noent_new [OF l this] n inv_len [OF inv'] ex_init(6) show "mvfs_dnc_noent_other ex_st4 = 0"
    unfolding eq add_subr_new [OF ex_inv1(1) a ex_on ex_inv1(2)] by (simp add: MVFS_FLAGON_def MFS_DNC_NOTINDIR_def)
qed

theorem stale_noent_survives_witness:
  "mfs_dnc_inval_obj_not_found ex_st5 = ex_st5 \<and> (\<exists>evt vvw. (dir_key ex_dir [97], (MFS_FID_NULL, evt, vvw)) \<in> cached ex_st5)"
proof -
  obtain i where i: "i < mfs_dncmax ex_st4" "linked (mfs_dnc ex_st4 ! i)" "ent_key (mfs_dnc ex_st4 ! i) = dir_key ex_dir [97]"
      "dn_vfid (mfs_dnc ex_st4 ! i) = MFS_FID_NULL" "dn_vevtime (mfs_dnc ex_st4 ! i) = timeval_zero"
    using ex_inv4(3) by blast
  have "\<not> MVFS_FLAGON 0 MFS_DNC_NOTINDIR" by (simp add: MVFS_FLAGON_def)
  from stale_noent_survives [OF ex_inv4(1) ex_pre4 ex_inv4(2) i ex_inv4(4) this ex_add4(2)] show ?thesis by blast
qed

end
