(* ===== verification/Mvfs_Sohash.thy ===== *)
theory Mvfs_Sohash
  imports Mvfs_Dlist "HOL-Library.Monad_Syntax"
begin

text \<open>The split ordered hash table (mvfs\_sohash\_table.c, mvfs\_sohash\_table.h): one singly linked list
  of nodes in the order of their bit-reversed keys, an array of segments whose buckets point at
  sentinel nodes in that list, and hazard pointer records with the nodes taken out of the list but
  not yet freed.  The nodes live in a store from addresses to entries; addresses are even, and the
  low bit of a link is the delete bit.  An operation runs here from its start to its end without another
  thread in between, so its compare-and-swaps see what was read before; the retries are kept.  The result
  \<open>None\<close> stands for what must not happen: a panic, the use of an address with no node, an index outside of
  an array, a division by zero, or a loop without end.  The assertions are not compiled into the module and
  are left out.\<close>

section \<open>Bits of keys\<close>

definition SOKEY_MASK_SET_MSB :: u32 where "SOKEY_MASK_SET_MSB = 0x80000000"

definition SOKEY_SETMSB :: "u32 \<Rightarrow> u32" where
  "SOKEY_SETMSB input = input OR SOKEY_MASK_SET_MSB"

fun reverse_bit_loop :: "nat \<Rightarrow> u32 \<Rightarrow> u32 \<Rightarrow> u32" where
  "reverse_bit_loop 0 input output = output"
| "reverse_bit_loop (Suc n) input output =
    reverse_bit_loop n (drop_bit 1 input) (push_bit 1 output + (input AND 1))"

definition sohash_reverse_bit :: "u32 \<Rightarrow> u32" where
  "sohash_reverse_bit input = reverse_bit_loop 32 input 0"

definition sohash_regularkey :: "u32 \<Rightarrow> u32" where
  "sohash_regularkey key = sohash_reverse_bit (SOKEY_SETMSB key)"

definition sohash_sentinelkey :: "u32 \<Rightarrow> u32" where
  "sohash_sentinelkey key = sohash_reverse_bit key"

text \<open>The search for the highest bit ends when the bit is found; after 32 steps the mask is 0 and
  the loop of the source would not end.\<close>
fun unsetmsb_loop :: "nat \<Rightarrow> u32 \<Rightarrow> u32 \<Rightarrow> u32 option" where
  "unsetmsb_loop 0 input bitnullifier = None"
| "unsetmsb_loop (Suc n) input bitnullifier =
    (if input AND bitnullifier = 0 then unsetmsb_loop n input (drop_bit 1 bitnullifier)
     else Some bitnullifier)"

definition unsetmsb :: "u32 \<Rightarrow> u32 option" where
  "unsetmsb input =
    (if input = 0 then Some 0
     else do { bitnullifier \<leftarrow> unsetmsb_loop 32 input (push_bit 31 1);
               Some (input AND NOT bitnullifier) })"

definition SOHASH_SET_DELETE_BIT :: "addr \<Rightarrow> addr" where
  "SOHASH_SET_DELETE_BIT a = a OR 1"
definition SOHASH_IS_DELETE_BIT_SET :: "addr \<Rightarrow> bool" where
  "SOHASH_IS_DELETE_BIT_SET a \<longleftrightarrow> a AND 1 \<noteq> 0"
definition SOHASH_UNSET_DELETE_BIT :: "addr \<Rightarrow> addr" where
  "SOHASH_UNSET_DELETE_BIT a = a - (a AND 1)"

section \<open>Nodes, hazard references and the table\<close>

text \<open>\<open>SOHASH_NO_NODE\<close> is the type of a node that was just cleared.\<close>
datatype sohash_entry_type = SOHASH_NO_NODE | SOHASH_SENTINEL_NODE | SOHASH_REGULAR_NODE

record sohash_entry =
  hashentry_next :: addr
  data :: addr
  reverse_so_key :: u32
  so_key :: u32
  hashindex :: u32
  segment_index :: nat
  bucket_index :: nat
  entry_type :: sohash_entry_type

text \<open>What a pointer to a pointer can point to: a bucket, the link of a node, or a local variable
  with the address it holds.\<close>
datatype sohash_loc = Bucket nat nat | NextOf addr | Local addr

text \<open>\<open>sohash_hazard_ref_t\<close> with the fields of its \<open>hprec\<close>; \<open>nxt\<close> is its \<open>next\<close>, and \<open>rlist\<close> has the
  nodes of the retired list from its head on.\<close>
record sohash_hazard_ref =
  prev :: sohash_loc
  cur :: addr
  nxt :: addr
  hazard_ptrs :: "addr list"
  rlist :: "addr list"
  rcount :: u32
  hp_state :: int

definition SOHASH_HP_FREE :: int where "SOHASH_HP_FREE = 1"
definition SOHASH_HP_INUSE :: int where "SOHASH_HP_INUSE = 2"
definition SOHASH_STATE_ACTIVE :: int where "SOHASH_STATE_ACTIVE = 1"
definition SOHASH_STATE_FLUSH :: int where "SOHASH_STATE_FLUSH = 2"
definition SOHASH_DEFAULT_SEG_COUNT :: int where "SOHASH_DEFAULT_SEG_COUNT = 511"
definition SOHASH_DEFAULT_SEG_SZ :: int where "SOHASH_DEFAULT_SEG_SZ = 511"
definition SOHASH_MIN_SEG_COUNT :: int where "SOHASH_MIN_SEG_COUNT = 1"
definition SOHASH_MIN_SEG_SZ :: int where "SOHASH_MIN_SEG_SZ = 251"
definition SOHASH_SET_SEG_DEFAULT :: int where "SOHASH_SET_SEG_DEFAULT = -1"
definition SOHASH_MAX_LOAD :: int where "SOHASH_MAX_LOAD = 1"

lemmas sohash_consts = SOHASH_HP_FREE_def SOHASH_HP_INUSE_def SOHASH_STATE_ACTIVE_def SOHASH_STATE_FLUSH_def
  SOHASH_DEFAULT_SEG_COUNT_def SOHASH_DEFAULT_SEG_SZ_def SOHASH_MIN_SEG_COUNT_def SOHASH_MIN_SEG_SZ_def
  SOHASH_SET_SEG_DEFAULT_def SOHASH_MAX_LOAD_def

text \<open>The table.  A segment is \<open>None\<close> until it is allocated, an uninitialised bucket is NULL.  \<open>hp_list\<close> has the
  hazard references from the oldest to the one \<open>hp_head\<close> points to.  The callbacks are the caller's: whether
  an entry is the one looked for, and the two that only tell the caller of an event, which the state
  logs (\<open>data_freed\<close> for \<open>fn_data_free\<close>, \<open>deleted\<close> for \<open>fn_on_delete\<close>, when there is one).  The last fields
  are kernel memory: the nodes, the outcomes of the next allocations (success after the end of
  the list), and the next address.\<close>
record sohash_table =
  hashtable :: "nat \<Rightarrow> (nat \<Rightarrow> addr) option"
  fn_verify_matched_entry :: "sohash_entry \<Rightarrow> addr \<Rightarrow> bool"
  fn_on_delete :: bool
  hp_list :: "sohash_hazard_ref list"
  hash_state :: int
  sohash_num_segments :: int
  sohash_segment_sz :: int
  sohash_keys_unique :: bool
  hazard_ptrs_total :: int
  sohash_current_size :: int
  sohash_regularkey_count :: int
  sohash_sentinelkey_count :: int
  nodes :: "addr \<Rightarrow> sohash_entry option"
  kmem :: "bool list"
  kmem_next :: addr
  data_freed :: "addr list"
  deleted :: "addr list"

text \<open>The values of an \<open>atomic_t\<close>.\<close>
definition wrap32 :: "int \<Rightarrow> int" where "wrap32 x = sint (word_of_int x :: u32)"

definition KMEM_ALLOC :: "sohash_table \<Rightarrow> bool \<times> sohash_table" where
  "KMEM_ALLOC st = (case kmem st of [] \<Rightarrow> (True, st) | ok # oks \<Rightarrow> (ok, st\<lparr>kmem := oks\<rparr>))"

definition BZERO_entry :: sohash_entry where
  "BZERO_entry = \<lparr>hashentry_next = NULL, data = NULL, reverse_so_key = 0, so_key = 0, hashindex = 0,
     segment_index = 0, bucket_index = 0, entry_type = SOHASH_NO_NODE\<rparr>"

definition sohash_alloc_node :: "sohash_table \<Rightarrow> addr \<times> sohash_table" where
  "sohash_alloc_node st =
    (case KMEM_ALLOC st of (ok, st) \<Rightarrow>
       if ok then (kmem_next st, st\<lparr>nodes := (nodes st)(kmem_next st \<mapsto> BZERO_entry), kmem_next := kmem_next st + 2\<rparr>)
       else (NULL, st))"

definition sohash_free_data :: "addr \<Rightarrow> sohash_table \<Rightarrow> sohash_table" where
  "sohash_free_data datap st = (if datap \<noteq> NULL then st\<lparr>data_freed := datap # data_freed st\<rparr> else st)"

definition sohash_free_node :: "addr \<Rightarrow> sohash_table \<Rightarrow> sohash_table option" where
  "sohash_free_node node st =
    do { e \<leftarrow> nodes st node;
         let st = (if data e \<noteq> NULL then sohash_free_data (data e) st else st);
         Some (st\<lparr>nodes := (nodes st)(node := None)\<rparr>) }"

definition set_node :: "addr \<Rightarrow> sohash_entry \<Rightarrow> sohash_table \<Rightarrow> sohash_table" where
  "set_node a e st = st\<lparr>nodes := (nodes st)(a \<mapsto> e)\<rparr>"

definition set_hp :: "nat \<Rightarrow> sohash_hazard_ref \<Rightarrow> sohash_table \<Rightarrow> sohash_table" where
  "set_hp i hp st = st\<lparr>hp_list := (hp_list st)[i := hp]\<rparr>"

definition set_hazard :: "nat \<Rightarrow> addr \<Rightarrow> sohash_hazard_ref \<Rightarrow> sohash_hazard_ref" where
  "set_hazard k a hp = hp\<lparr>hazard_ptrs := (hazard_ptrs hp)[k := a]\<rparr>"

definition read_loc :: "sohash_table \<Rightarrow> sohash_loc \<Rightarrow> addr option" where
  "read_loc st l = (case l of
      Bucket s b \<Rightarrow> map_option (\<lambda>seg. seg b) (hashtable st s)
    | NextOf a \<Rightarrow> map_option hashentry_next (nodes st a)
    | Local v \<Rightarrow> Some v)"

definition write_loc :: "sohash_loc \<Rightarrow> addr \<Rightarrow> sohash_table \<Rightarrow> sohash_table option" where
  "write_loc l v st = (case l of
      Bucket s b \<Rightarrow> map_option (\<lambda>seg. st\<lparr>hashtable := (hashtable st)(s \<mapsto> seg(b := v))\<rparr>) (hashtable st s)
    | NextOf a \<Rightarrow> map_option (\<lambda>e. set_node a (e\<lparr>hashentry_next := v\<rparr>) st) (nodes st a)
    | Local _ \<Rightarrow> Some st)"

definition MDKI_ATOMIC_CAS_PTR :: "sohash_loc \<Rightarrow> addr \<Rightarrow> addr \<Rightarrow> sohash_table \<Rightarrow> (bool \<times> sohash_table) option" where
  "MDKI_ATOMIC_CAS_PTR l cmp_addr new_addr st =
    do { v \<leftarrow> read_loc st l;
         if v = cmp_addr then map_option (Pair True) (write_loc l new_addr st) else Some (False, st) }"

section \<open>Hazard references\<close>

text \<open>The walk from \<open>hp_head\<close> for one that is free.\<close>
fun hp_walk :: "nat \<Rightarrow> sohash_hazard_ref list \<Rightarrow> nat option" where
  "hp_walk 0 hps = None"
| "hp_walk (Suc k) hps = (if hp_state (hps ! k) = SOHASH_HP_FREE then Some k else hp_walk k hps)"

definition new_hp :: "int \<Rightarrow> sohash_hazard_ref" where
  "new_hp s = \<lparr>prev = Local NULL, cur = NULL, nxt = NULL, hazard_ptrs = [NULL, NULL, NULL], rlist = [],
     rcount = 0, hp_state = s\<rparr>"

definition sohash_hp_get :: "sohash_table \<Rightarrow> (int \<times> nat) \<times> sohash_table" where
  "sohash_hp_get st =
    (case hp_walk (length (hp_list st)) (hp_list st) of
       Some i \<Rightarrow> ((0, i), set_hp i ((hp_list st ! i)\<lparr>hp_state := SOHASH_HP_INUSE\<rparr>) st)
     | None \<Rightarrow> (case KMEM_ALLOC st of (ok, st) \<Rightarrow>
         if \<not> ok then ((ENOMEM, 0), st)
         else ((0, length (hp_list st)),
               st\<lparr>hp_list := hp_list st @ [new_hp SOHASH_HP_INUSE],
                  hazard_ptrs_total := wrap32 (hazard_ptrs_total st + 3)\<rparr>)))"

definition reset_hazards :: "nat \<Rightarrow> sohash_table \<Rightarrow> sohash_table" where
  "reset_hazards i st = set_hp i ((hp_list st ! i)\<lparr>hazard_ptrs := [NULL, NULL, NULL]\<rparr>) st"

definition sohash_hp_release :: "nat \<Rightarrow> sohash_table \<Rightarrow> sohash_table" where
  "sohash_hp_release i st =
    set_hp i ((hp_list st ! i)\<lparr>hazard_ptrs := [NULL, NULL, NULL], hp_state := SOHASH_HP_FREE\<rparr>) st"

section \<open>Reclaiming the nodes taken out of the list\<close>

text \<open>The inner loop of the insertion sort, at \<open>j + 1\<close>.  The source also reads the element in front of
  the array before it sees that \<open>j\<close> is negative.\<close>
fun sort_shift :: "u32 \<Rightarrow> nat \<Rightarrow> u32 list \<Rightarrow> u32 list" where
  "sort_shift temp 0 arr = arr[0 := temp]"
| "sort_shift temp (Suc j) arr =
    (if temp < arr ! j then sort_shift temp j (arr[Suc j := arr ! j]) else arr[Suc j := temp])"

definition sohash_sort_arr :: "u32 list \<Rightarrow> u32 list" where
  "sohash_sort_arr arr = fold (\<lambda>i arr. sort_shift (arr ! i) i arr) [1..<length arr] arr"

function sohash_search_arr :: "u32 list \<Rightarrow> u32 \<Rightarrow> int \<Rightarrow> int \<Rightarrow> bool" where
  "sohash_search_arr arr rev_sokey low high =
    (if high < low then False
     else let mid = low + (high - low) div 2 in
       if arr ! nat mid < rev_sokey then sohash_search_arr arr rev_sokey (mid + 1) high
       else if arr ! nat mid > rev_sokey then sohash_search_arr arr rev_sokey low (mid - 1)
       else True)"
  by pat_completeness auto
termination
  by (relation "measure (\<lambda>(_, _, low, high). nat (high - low + 1))") auto

declare sohash_search_arr.simps [simp del]

text \<open>The keys the hazard pointers name, in the order of the walk.\<close>
definition hazard_list :: "sohash_hazard_ref list \<Rightarrow> addr list" where
  "hazard_list hps = filter (\<lambda>a. a \<noteq> NULL) (concat (map hazard_ptrs (rev hps)))"

definition plist_keys :: "sohash_table \<Rightarrow> u32 list option" where
  "plist_keys st = those (map (\<lambda>a. map_option reverse_so_key (nodes st (SOHASH_UNSET_DELETE_BIT a)))
     (hazard_list (hp_list st)))"

definition head_of :: "addr list \<Rightarrow> addr" where
  "head_of as = (case as of [] \<Rightarrow> NULL | a # _ \<Rightarrow> a)"

text \<open>The second stage: the nodes whose key is on \<open>plist\<close> go back to the retired list.\<close>
fun scan_rlist :: "u32 list \<Rightarrow> nat \<Rightarrow> addr list \<Rightarrow> sohash_table \<Rightarrow> sohash_table option" where
  "scan_rlist plist i [] st = Some st"
| "scan_rlist plist i (a # as) st =
    do { e \<leftarrow> nodes st a;
         let hp = hp_list st ! i;
         st \<leftarrow> (if sohash_search_arr plist (reverse_so_key e) 0 (int (length plist) - 1)
               then Some (set_hp i (hp\<lparr>rlist := a # rlist hp, rcount := rcount hp + 1\<rparr>)
                      (set_node a (e\<lparr>hashentry_next := head_of (rlist hp)\<rparr>) st))
               else sohash_free_node a st);
         scan_rlist plist i as st }"

definition sohash_hprec_scan :: "nat \<Rightarrow> sohash_table \<Rightarrow> sohash_table option" where
  "sohash_hprec_scan i st =
    (case KMEM_ALLOC st of (ok, st) \<Rightarrow>
       if \<not> ok then None
       else do { keys \<leftarrow> plist_keys st;
                 let total = nat (hazard_ptrs_total st);
                 if total < length keys then None
                 else (let plist = sohash_sort_arr (keys @ replicate (total - length keys) 0);
                           hp = hp_list st ! i in
                       scan_rlist plist i (rlist hp) (set_hp i (hp\<lparr>rlist := [], rcount := 0\<rparr>) st)) })"

definition sohash_retire_node :: "addr \<Rightarrow> nat \<Rightarrow> sohash_table \<Rightarrow> sohash_table option" where
  "sohash_retire_node node i st =
    do { e \<leftarrow> nodes st node;
         if entry_type e = SOHASH_SENTINEL_NODE \<and> hash_state st = SOHASH_STATE_ACTIVE then None
         else
          (let hp = hp_list st ! i;
               st = set_node node (e\<lparr>hashentry_next := head_of (rlist hp)\<rparr>) st;
               hp = hp\<lparr>rlist := node # rlist hp, rcount := rcount hp + 1\<rparr>;
               st = set_hp i hp st;
               st = (if entry_type e = SOHASH_REGULAR_NODE \<and> fn_on_delete st then st\<lparr>deleted := node # deleted st\<rparr>
                     else st) in
           if hash_state st \<noteq> SOHASH_STATE_FLUSH \<and> rcount hp \<ge> word_of_int (hazard_ptrs_total st)
           then sohash_hprec_scan i st else Some st) }"

section \<open>The linked list\<close>

text \<open>From \<open>try_again\<close> to the loop.\<close>
definition find_try :: "sohash_table \<Rightarrow> sohash_loc \<Rightarrow> sohash_hazard_ref \<Rightarrow> sohash_hazard_ref option" where
  "find_try st head hp =
    do { c \<leftarrow> read_loc st head;
         Some (set_hazard 1 c (hp\<lparr>prev := head, cur := c\<rparr>)) }"

definition find_match :: "sohash_table \<Rightarrow> sohash_entry \<Rightarrow> sohash_entry_type \<Rightarrow> addr \<Rightarrow> bool" where
  "find_match st e ty arg \<longleftrightarrow>
    ty = SOHASH_SENTINEL_NODE \<or>
    ty = SOHASH_REGULAR_NODE \<and> (sohash_keys_unique st \<or> fn_verify_matched_entry st e arg)"

partial_function (option) find_loop ::
  "sohash_table \<Rightarrow> sohash_loc \<Rightarrow> u32 \<Rightarrow> sohash_entry_type \<Rightarrow> addr \<Rightarrow> sohash_hazard_ref \<Rightarrow>
   (addr \<times> sohash_hazard_ref) option" where
  "find_loop st head key ty arg hp =
    (if cur hp = NULL then Some (NULL, hp)
     else do {
       e \<leftarrow> nodes st (cur hp);
       let hp = set_hazard 0 (hashentry_next e) (hp\<lparr>nxt := hashentry_next e\<rparr>);
       p \<leftarrow> read_loc st (prev hp);
       if p \<noteq> cur hp \<or> SOHASH_IS_DELETE_BIT_SET (nxt hp) then
         do { hp \<leftarrow> find_try st head hp; find_loop st head key ty arg hp }
       else if reverse_so_key e = key \<and> find_match st e ty arg then Some (cur hp, hp)
       else if reverse_so_key e > key then Some (NULL, hp)
       else (let hp = set_hazard 2 (cur hp) (hp\<lparr>prev := NextOf (cur hp)\<rparr>);
                 hp = set_hazard 1 (nxt hp) (hp\<lparr>cur := nxt hp\<rparr>) in
             find_loop st head key ty arg hp) })"

definition sohash_list_find ::
  "sohash_loc \<Rightarrow> u32 \<Rightarrow> sohash_entry_type \<Rightarrow> addr \<Rightarrow> nat \<Rightarrow> sohash_table \<Rightarrow> (addr \<times> sohash_table) option" where
  "sohash_list_find head key ty arg i st =
    do { hp \<leftarrow> find_try st head (hp_list st ! i);
         (r, hp) \<leftarrow> find_loop st head key ty arg hp;
         Some (r, set_hp i hp st) }"

text \<open>The result is the error and the entry found.\<close>
partial_function (option) sohash_list_insert ::
  "sohash_loc \<Rightarrow> addr \<Rightarrow> addr \<Rightarrow> nat \<Rightarrow> sohash_table \<Rightarrow> ((int \<times> addr) \<times> sohash_table) option" where
  "sohash_list_insert head node arg i st =
    do { e \<leftarrow> nodes st node;
         (existing_node, st) \<leftarrow> sohash_list_find head (reverse_so_key e) (entry_type e) arg i st;
         if existing_node \<noteq> NULL then Some ((EEXIST, existing_node), reset_hazards i st)
         else do {
           let st = set_node node (e\<lparr>hashentry_next := cur (hp_list st ! i)\<rparr>) st;
           (ok, st) \<leftarrow> MDKI_ATOMIC_CAS_PTR (prev (hp_list st ! i)) (cur (hp_list st ! i)) node st;
           if ok then Some ((0, NULL), reset_hazards i st)
           else sohash_list_insert head node arg i st } }"

partial_function (option) sohash_list_delete ::
  "sohash_loc \<Rightarrow> u32 \<Rightarrow> sohash_entry_type \<Rightarrow> addr \<Rightarrow> nat \<Rightarrow> sohash_table \<Rightarrow> (int \<times> sohash_table) option" where
  "sohash_list_delete head key ty arg i st =
    do { (r, st) \<leftarrow> sohash_list_find head key ty arg i st;
         if r = NULL then Some (ENOENT, reset_hazards i st)
         else do {
           let hp = hp_list st ! i;
           (ok, st) \<leftarrow> MDKI_ATOMIC_CAS_PTR (NextOf (cur hp)) (nxt hp) (SOHASH_SET_DELETE_BIT (nxt hp)) st;
           if \<not> ok then sohash_list_delete head key ty arg i st
           else do {
             (ok, st) \<leftarrow> MDKI_ATOMIC_CAS_PTR (prev hp) (cur hp) (nxt hp) st;
             if ok then do { st \<leftarrow> sohash_retire_node (cur hp) i st; Some (0, reset_hazards i st) }
             else do {
               (ok, st) \<leftarrow> MDKI_ATOMIC_CAS_PTR (NextOf (cur hp)) (SOHASH_SET_DELETE_BIT (nxt hp)) (nxt hp) st;
               if ok then sohash_list_delete head key ty arg i st else None } } } }"

declare find_loop.simps [code] sohash_list_insert.simps [code] sohash_list_delete.simps [code]

section \<open>Buckets\<close>

text \<open>The segment of a hash index.  The indices of the source are checked by an assertion only, and that
  lets one past the end through.\<close>
definition segment_of :: "sohash_table \<Rightarrow> u32 \<Rightarrow> nat option" where
  "segment_of st hi =
    (if (word_of_int (sohash_segment_sz st) :: u32) = 0 then None
     else let s = unat (hi div word_of_int (sohash_segment_sz st)) in
       if sohash_num_segments st \<le> int s then None else Some s)"

definition bucket_of :: "sohash_table \<Rightarrow> u32 \<Rightarrow> nat" where
  "bucket_of st hi = unat (hi mod word_of_int (sohash_segment_sz st))"

text \<open>\<open>Some None\<close>: the bucket is uninitialised.\<close>
definition sohash_get_bucket :: "sohash_table \<Rightarrow> u32 \<Rightarrow> sohash_loc option option" where
  "sohash_get_bucket st hi =
    do { s \<leftarrow> segment_of st hi;
         case hashtable st s of None \<Rightarrow> Some None
         | Some seg \<Rightarrow> if seg (bucket_of st hi) = NULL then Some None
                       else Some (Some (Bucket s (bucket_of st hi))) }"

definition set_bucket_slot :: "nat \<Rightarrow> nat \<Rightarrow> addr \<Rightarrow> bool \<Rightarrow> sohash_table \<Rightarrow> ((int \<times> sohash_loc) \<times> sohash_table) option" where
  "set_bucket_slot s b bucket_head insert_success st =
    do { (_, st) \<leftarrow> MDKI_ATOMIC_CAS_PTR (Bucket s b) NULL bucket_head st;
         st \<leftarrow> (if insert_success
               then do { e \<leftarrow> nodes st bucket_head;
                         let st = set_node bucket_head (e\<lparr>segment_index := s, bucket_index := b\<rparr>) st;
                         Some (st\<lparr>sohash_sentinelkey_count := wrap32 (sohash_sentinelkey_count st + 1)\<rparr>) }
               else Some st);
         Some ((0, Bucket s b), st) }"

definition sohash_set_bucket :: "u32 \<Rightarrow> addr \<Rightarrow> bool \<Rightarrow> sohash_table \<Rightarrow> ((int \<times> sohash_loc) \<times> sohash_table) option" where
  "sohash_set_bucket hi bucket_head insert_success st =
    do { s \<leftarrow> segment_of st hi;
         let b = bucket_of st hi;
         case hashtable st s of
           Some _ \<Rightarrow> set_bucket_slot s b bucket_head insert_success st
         | None \<Rightarrow> (case KMEM_ALLOC st of (ok, st) \<Rightarrow>
             if \<not> ok then Some ((ENOMEM, Bucket s b), st)
             else set_bucket_slot s b bucket_head insert_success
                    (st\<lparr>hashtable := (hashtable st)(s \<mapsto> (\<lambda>_. NULL))\<rparr>)) }"

text \<open>The sentinel node of a bucket goes into the list from the bucket of its parent on; then the
  bucket is set to it.  \<open>None\<close> as the bucket of the result is \<open>SOHASH_RETVAL_FAILURE\<close>.\<close>
definition insert_sentinel :: "u32 \<Rightarrow> sohash_loc \<Rightarrow> nat \<Rightarrow> sohash_table \<Rightarrow> (sohash_loc option \<times> sohash_table) option" where
  "insert_sentinel hi parent_bucket i st =
    (case sohash_alloc_node st of (sentinel_node, st) \<Rightarrow>
      if sentinel_node = NULL then Some (None, st)
      else do {
        let st = set_node sentinel_node (BZERO_entry\<lparr>reverse_so_key := sohash_sentinelkey hi, so_key := hi,
                   entry_type := SOHASH_SENTINEL_NODE, hashindex := hi, data := NULL\<rparr>) st;
        ((error, _), st) \<leftarrow> sohash_list_insert parent_bucket sentinel_node NULL i st;
        if error \<noteq> 0 \<and> error \<noteq> EEXIST then Some (None, st)
        else do {
          (sentinel_node, st) \<leftarrow>
            (if error = EEXIST
             then do { st \<leftarrow> sohash_free_node sentinel_node st; Some (cur (hp_list st ! i), st) }
             else Some (sentinel_node, st));
          ((error, bucket), st) \<leftarrow> sohash_set_bucket hi sentinel_node (error = 0) st;
          Some (if error \<noteq> 0 then None else Some bucket, st) } })"

text \<open>The parent of a bucket has a smaller index.\<close>
lemma unsetmsb_loop_bit: "unsetmsb_loop n input b = Some m \<Longrightarrow> input AND m \<noteq> 0"
  by (induction n input b rule: unsetmsb_loop.induct) (auto split: if_splits)

lemma and_less: "x AND NOT m < (x :: u32)" if "x AND m \<noteq> 0"
proof -
  have "x AND NOT m \<noteq> x"
  proof
    assume "x AND NOT m = x"
    then have "(x AND NOT m) AND m = x AND m" by (rule arg_cong)
    then show False using that by (simp add: and.assoc)
  qed
  then show ?thesis using word_and_le2 [of x "NOT m"] by (simp add: order_less_le)
qed

lemma unsetmsb_less: "unsetmsb input = Some p \<Longrightarrow> input \<noteq> 0 \<Longrightarrow> p < input"
  by (auto simp: unsetmsb_def bind_eq_Some_conv intro: and_less dest: unsetmsb_loop_bit)

function sohash_initialize_bucket :: "u32 \<Rightarrow> nat \<Rightarrow> sohash_table \<Rightarrow> (sohash_loc option \<times> sohash_table) option" where
  "sohash_initialize_bucket hi i st =
    (if hash_state st = SOHASH_STATE_FLUSH then Some (None, st)
     else do {
       bucket \<leftarrow> sohash_get_bucket st hi;
       if bucket \<noteq> None then Some (bucket, st)
       else if hi = 0 then None
       else do {
         parent_hashindex \<leftarrow> unsetmsb hi;
         parent_bucket \<leftarrow> sohash_get_bucket st parent_hashindex;
         (parent_bucket, st) \<leftarrow> (if parent_bucket = None then sohash_initialize_bucket parent_hashindex i st
                                else Some (parent_bucket, st));
         case parent_bucket of None \<Rightarrow> Some (None, st)
         | Some parent_bucket \<Rightarrow> insert_sentinel hi parent_bucket i st } })"
  by pat_completeness auto
termination
  by (relation "measure (\<lambda>(hi, _, _). unat hi)") (auto simp: word_less_nat_alt [symmetric] dest: unsetmsb_less)

declare sohash_initialize_bucket.simps [simp del]

text \<open>The bucket of an operation, initialised when it is not yet.\<close>
definition bucket_for :: "u32 \<Rightarrow> nat \<Rightarrow> sohash_table \<Rightarrow> (sohash_loc option \<times> sohash_table) option" where
  "bucket_for hi i st =
    do { bucket \<leftarrow> sohash_get_bucket st hi;
         if bucket = None then sohash_initialize_bucket hi i st else Some (bucket, st) }"

text \<open>The hash index of a key; no key has one in a table of size 0.\<close>
definition hashindex_of :: "sohash_table \<Rightarrow> u32 \<Rightarrow> u32 option" where
  "hashindex_of st key =
    (if (word_of_int (sohash_current_size st) :: u32) = 0 then None
     else Some (key mod word_of_int (sohash_current_size st)))"

section \<open>The operations of the interface\<close>

text \<open>The arguments: the two sizes, whether keys are unique, and the callbacks, \<open>None\<close> for NULL.\<close>
record sohash_init_args =
  arg_num_segments :: int
  arg_segment_sz :: int
  arg_keys_unique :: bool
  arg_data_free :: bool
  arg_compute_sohashkey :: bool
  arg_verify :: "(sohash_entry \<Rightarrow> addr \<Rightarrow> bool) option"
  arg_on_delete :: bool

definition init_args_bad :: "sohash_init_args option \<Rightarrow> bool" where
  "init_args_bad init_args = (case init_args of None \<Rightarrow> True
    | Some a \<Rightarrow> \<not> arg_data_free a \<or> \<not> arg_compute_sohashkey a \<or> \<not> arg_keys_unique a \<and> arg_verify a = None)"

text \<open>The table after its first \<open>BZERO\<close> and with the two sizes; the memory is given.\<close>
definition BZERO_table :: "int \<Rightarrow> int \<Rightarrow> bool list \<Rightarrow> addr \<Rightarrow> sohash_table" where
  "BZERO_table num_segments segment_sz oks a =
    \<lparr>hashtable = (\<lambda>_. None), fn_verify_matched_entry = (\<lambda>_ _. False), fn_on_delete = False, hp_list = [],
     hash_state = 0, sohash_num_segments = num_segments, sohash_segment_sz = segment_sz,
     sohash_keys_unique = False, hazard_ptrs_total = 0, sohash_current_size = 0, sohash_regularkey_count = 0,
     sohash_sentinelkey_count = 0, nodes = (\<lambda>_. None), kmem = oks, kmem_next = a, data_freed = [], deleted = []\<rparr>"

text \<open>The steps from the allocation of the table on: the table, the array of segments, the first sentinel,
  the first bucket, the first hazard reference.  \<open>Some None\<close> is the result NULL.\<close>
definition init_hashtable_tail :: "int \<Rightarrow> int \<Rightarrow> sohash_init_args \<Rightarrow> bool list \<Rightarrow> addr \<Rightarrow> sohash_table option option" where
  "init_hashtable_tail num_segments segment_sz a oks base =
    (case KMEM_ALLOC (BZERO_table num_segments segment_sz oks base) of (ok, st) \<Rightarrow>
     if \<not> ok then Some None
     else case KMEM_ALLOC st of (ok, st) \<Rightarrow>
     if \<not> ok then Some None
     else case sohash_alloc_node st of (sentinel_node, st) \<Rightarrow>
     if sentinel_node = NULL then Some None
     else do {
       let st = set_node sentinel_node (BZERO_entry\<lparr>reverse_so_key := sohash_sentinelkey 0, so_key := 0,
                  hashentry_next := NULL, entry_type := SOHASH_SENTINEL_NODE\<rparr>) st;
       ((error, _), st) \<leftarrow> sohash_set_bucket 0 sentinel_node True st;
       if error \<noteq> 0 then Some None
       else case KMEM_ALLOC st of (ok, st) \<Rightarrow>
         if \<not> ok then Some None
         else Some (Some (st\<lparr>hp_list := [new_hp SOHASH_HP_FREE], hazard_ptrs_total := 3,
                sohash_keys_unique := arg_keys_unique a,
                fn_verify_matched_entry := (if \<not> arg_keys_unique a then the (arg_verify a) else (\<lambda>_ _. False)),
                fn_on_delete := arg_on_delete a, sohash_current_size := 2, sohash_regularkey_count := 0,
                hash_state := SOHASH_STATE_ACTIVE\<rparr>)) })"

definition sohash_init_hashtable :: "sohash_init_args option \<Rightarrow> bool list \<Rightarrow> addr \<Rightarrow> sohash_table option option" where
  "sohash_init_hashtable init_args oks base =
    (if init_args_bad init_args then Some None
     else let a = the init_args;
       num_segments = (if arg_num_segments a = SOHASH_SET_SEG_DEFAULT then SOHASH_DEFAULT_SEG_COUNT else 0);
       segment_sz = (if arg_segment_sz a = SOHASH_SET_SEG_DEFAULT then SOHASH_DEFAULT_SEG_SZ else 0) in
       if arg_num_segments a \<noteq> SOHASH_SET_SEG_DEFAULT \<and> arg_num_segments a < SOHASH_MIN_SEG_COUNT then Some None
       else if arg_segment_sz a \<noteq> SOHASH_SET_SEG_DEFAULT \<and> arg_segment_sz a < SOHASH_MIN_SEG_SZ then Some None
       else init_hashtable_tail num_segments segment_sz a oks base)"

definition grow_size :: "sohash_table \<Rightarrow> sohash_table" where
  "grow_size st =
    (let st = st\<lparr>sohash_regularkey_count := wrap32 (sohash_regularkey_count st + 1)\<rparr>;
         sohash_size = sohash_current_size st in
     if sohash_regularkey_count st div sohash_size > SOHASH_MAX_LOAD
     then st\<lparr>sohash_current_size := wrap32 (sohash_size * 2)\<rparr> else st)"

text \<open>The part between the two calls for the hazard reference.\<close>
definition insert_entry_hp :: "u32 \<Rightarrow> addr \<Rightarrow> addr \<Rightarrow> nat \<Rightarrow> sohash_table \<Rightarrow> ((int \<times> addr) \<times> sohash_table) option" where
  "insert_entry_hp sohash_key dt arg i st =
    do { hi \<leftarrow> hashindex_of st sohash_key;
         case sohash_alloc_node st of (new_entry, st) \<Rightarrow>
         if new_entry = NULL then Some ((ENOMEM, NULL), sohash_free_data dt st)
         else do {
           let st = set_node new_entry (BZERO_entry\<lparr>reverse_so_key := sohash_regularkey sohash_key, so_key := sohash_key,
                      hashindex := hi, entry_type := SOHASH_REGULAR_NODE, data := dt\<rparr>) st;
           (bucket, st) \<leftarrow> bucket_for hi i st;
           case bucket of
             None \<Rightarrow> do { st \<leftarrow> sohash_free_node new_entry st; Some ((EFAULT, NULL), st) }
           | Some bucket \<Rightarrow> do {
               bucket_head \<leftarrow> read_loc st bucket;
               bh \<leftarrow> nodes st bucket_head;
               e \<leftarrow> nodes st new_entry;
               let st = set_node new_entry (e\<lparr>segment_index := segment_index bh, bucket_index := bucket_index bh\<rparr>) st;
               ((error, node), st) \<leftarrow> sohash_list_insert bucket new_entry arg i st;
               if error \<noteq> 0 then do { st \<leftarrow> sohash_free_node new_entry st; Some ((error, node), st) }
               else Some ((0, new_entry), grow_size st) } } }"

definition sohash_insert_entry :: "u32 \<Rightarrow> addr \<Rightarrow> addr \<Rightarrow> sohash_table \<Rightarrow> ((int \<times> addr) \<times> sohash_table) option" where
  "sohash_insert_entry sohash_key dt arg st =
    (if hash_state st \<noteq> SOHASH_STATE_ACTIVE then Some ((EBUSY, NULL), sohash_free_data dt st)
     else case sohash_hp_get st of ((error, i), st) \<Rightarrow>
       if error \<noteq> 0 then Some ((error, NULL), sohash_free_data dt st)
       else do { (r, st) \<leftarrow> insert_entry_hp sohash_key dt arg i st;
                 Some (r, sohash_hp_release i st) })"

definition sohash_find_entry :: "u32 \<Rightarrow> addr \<Rightarrow> sohash_table \<Rightarrow> (addr \<times> sohash_table) option" where
  "sohash_find_entry sohash_key arg st =
    (if hash_state st \<noteq> SOHASH_STATE_ACTIVE then Some (NULL, st)
     else case sohash_hp_get st of ((error, i), st) \<Rightarrow>
       if error \<noteq> 0 then Some (NULL, st)
       else do { hi \<leftarrow> hashindex_of st sohash_key;
                 (bucket, st) \<leftarrow> bucket_for hi i st;
                 (ret, st) \<leftarrow> (case bucket of None \<Rightarrow> Some (NULL, st)
                   | Some bucket \<Rightarrow> sohash_list_find bucket (sohash_regularkey sohash_key) SOHASH_REGULAR_NODE arg i st);
                 Some (ret, sohash_hp_release i st) })"

definition sohash_delete_entry_subr :: "u32 \<Rightarrow> nat \<Rightarrow> sohash_loc \<Rightarrow> sohash_entry_type \<Rightarrow> addr \<Rightarrow> sohash_table \<Rightarrow>
    (int \<times> sohash_table) option" where
  "sohash_delete_entry_subr key i bucket ty arg st =
    do { (error, st) \<leftarrow> sohash_list_delete bucket key ty arg i st;
         if error \<noteq> 0 then Some (error, st)
         else if sohash_regularkey_count st = 0 then None
         else Some (0, st\<lparr>sohash_regularkey_count := wrap32 (sohash_regularkey_count st - 1)\<rparr>) }"

text \<open>When the bucket cannot be initialised, the hazard reference stays in use.\<close>
definition sohash_delete_entry :: "u32 \<Rightarrow> addr \<Rightarrow> sohash_table \<Rightarrow> (int \<times> sohash_table) option" where
  "sohash_delete_entry sohash_key arg st =
    (if hash_state st \<noteq> SOHASH_STATE_ACTIVE then Some (EBUSY, st)
     else case sohash_hp_get st of ((error, i), st) \<Rightarrow>
       if error \<noteq> 0 then Some (ENOMEM, st)
       else do { hi \<leftarrow> hashindex_of st sohash_key;
                 (bucket, st) \<leftarrow> bucket_for hi i st;
                 case bucket of None \<Rightarrow> Some (EFAULT, st)
                 | Some bucket \<Rightarrow> do {
                     (error, st) \<leftarrow> sohash_delete_entry_subr (sohash_regularkey sohash_key) i bucket SOHASH_REGULAR_NODE arg st;
                     Some (error, sohash_hp_release i st) } })"

section \<open>Tearing the table down\<close>

partial_function (option) cleanup_bucket_loop :: "nat \<Rightarrow> nat \<Rightarrow> addr \<Rightarrow> nat \<Rightarrow> sohash_table \<Rightarrow> (bool \<times> sohash_table) option" where
  "cleanup_bucket_loop s b bucket_head i st =
    do { bh \<leftarrow> nodes st bucket_head;
         if hashentry_next bh = NULL then Some (True, st)
         else do {
           e \<leftarrow> nodes st (hashentry_next bh);
           if entry_type e \<noteq> SOHASH_REGULAR_NODE then Some (True, st)
           else do {
             (error, st) \<leftarrow> sohash_delete_entry_subr (reverse_so_key e) i (Bucket s b) SOHASH_REGULAR_NODE NULL st;
             if error \<noteq> 0 then Some (False, st) else cleanup_bucket_loop s b bucket_head i st } } }"

definition sohash_cleanup_bucket :: "nat \<Rightarrow> nat \<Rightarrow> nat \<Rightarrow> sohash_table \<Rightarrow> (bool \<times> sohash_table) option" where
  "sohash_cleanup_bucket s b i st =
    do { bucket_head \<leftarrow> read_loc st (Bucket s b);
         if bucket_head = NULL then Some (True, st) else cleanup_bucket_loop s b bucket_head i st }"

text \<open>One bucket of the sweep; \<open>False\<close> as the first result is the early return.\<close>
definition sweep_bucket :: "nat \<Rightarrow> nat \<Rightarrow> nat \<Rightarrow> sohash_table \<Rightarrow> (bool \<times> sohash_table) option" where
  "sweep_bucket s b i st =
    (if s = 0 \<and> b = 0 then Some (True, st)
     else do {
       v \<leftarrow> read_loc st (Bucket s b);
       if v = NULL then Some (True, st)
       else do {
         (_, st) \<leftarrow> sohash_cleanup_bucket s b i st;
         sentinel_node \<leftarrow> read_loc st (Bucket s b);
         (_, st) \<leftarrow> MDKI_ATOMIC_CAS_PTR (Bucket s b) sentinel_node NULL st;
         e \<leftarrow> nodes st sentinel_node;
         (error, st) \<leftarrow> sohash_list_delete (Local sentinel_node) (reverse_so_key e) SOHASH_SENTINEL_NODE NULL i st;
         if error \<noteq> 0 then Some (False, st)
         else Some (True, st\<lparr>sohash_sentinelkey_count := wrap32 (sohash_sentinelkey_count st - 1)\<rparr>) } })"

fun sweep_buckets :: "nat \<Rightarrow> nat list \<Rightarrow> nat \<Rightarrow> sohash_table \<Rightarrow> (bool \<times> sohash_table) option" where
  "sweep_buckets s [] i st = Some (True, st)"
| "sweep_buckets s (b # bs) i st =
    do { (go, st) \<leftarrow> sweep_bucket s b i st;
         if go then sweep_buckets s bs i st else Some (False, st) }"

text \<open>The sweep over the segments, which stops early once only one sentinel is counted.\<close>
function sweep_segments :: "nat \<Rightarrow> nat \<Rightarrow> nat \<Rightarrow> sohash_table \<Rightarrow> (bool \<times> sohash_table) option" where
  "sweep_segments n s i st =
    (if n < s \<or> sohash_sentinelkey_count st \<le> 1 then Some (True, st)
     else if n = s then None
     else case hashtable st s of
       None \<Rightarrow> sweep_segments n (Suc s) i st
     | Some _ \<Rightarrow> do {
         (go, st) \<leftarrow> sweep_buckets s [0..<nat (sohash_segment_sz st)] i st;
         if \<not> go then Some (False, st)
         else sweep_segments n (Suc s) i (if s \<noteq> 0 then st\<lparr>hashtable := (hashtable st)(s := None)\<rparr> else st) })"
  by pat_completeness auto
termination
  by (relation "measure (\<lambda>(n, s, _, _). n - s)") auto

declare sweep_segments.simps [simp del]

text \<open>From \<open>retry_loop\<close> to the end of step 1.\<close>
partial_function (option) cleanup_retry :: "nat \<Rightarrow> sohash_table \<Rightarrow> (bool \<times> sohash_table) option" where
  "cleanup_retry i st =
    do { (go, st) \<leftarrow> sweep_segments (nat (sohash_num_segments st)) 0 i st;
         if \<not> go then Some (False, st)
         else do {
           (_, st) \<leftarrow> sohash_cleanup_bucket 0 0 i st;
           if sohash_regularkey_count st \<noteq> 0 \<or> sohash_sentinelkey_count st > 1 then cleanup_retry i st
           else Some (True, st) } }"

declare cleanup_bucket_loop.simps [code] cleanup_retry.simps [code]

text \<open>The retired nodes of one hazard reference are freed; then its count must be 0.\<close>
fun flush_rlist :: "addr list \<Rightarrow> u32 \<Rightarrow> sohash_table \<Rightarrow> (u32 \<times> sohash_table) option" where
  "flush_rlist [] n st = Some (n, st)"
| "flush_rlist (a # as) n st = do { st \<leftarrow> sohash_free_node a st; flush_rlist as (n - 1) st }"

fun flush_hps :: "sohash_hazard_ref list \<Rightarrow> sohash_table \<Rightarrow> sohash_table option" where
  "flush_hps [] st = Some (st\<lparr>hp_list := []\<rparr>)"
| "flush_hps (hp # hps) st =
    do { (n, st) \<leftarrow> flush_rlist (rlist hp) (rcount hp) st;
         if n \<noteq> 0 then None else flush_hps hps st }"

definition sohash_flush_hp_list :: "sohash_table \<Rightarrow> sohash_table option" where
  "sohash_flush_hp_list st = flush_hps (rev (hp_list st)) st"

text \<open>The steps after the buckets are empty: the first sentinel, the first segment, the array, the hazard
  references.\<close>
definition cleanup_tail :: "nat \<Rightarrow> sohash_table \<Rightarrow> sohash_table option" where
  "cleanup_tail i st =
    do { sentinel_node \<leftarrow> read_loc st (Bucket 0 0);
         (_, st) \<leftarrow> MDKI_ATOMIC_CAS_PTR (Bucket 0 0) sentinel_node NULL st;
         let st = st\<lparr>sohash_sentinelkey_count := wrap32 (sohash_sentinelkey_count st - 1)\<rparr>;
         st \<leftarrow> sohash_free_node sentinel_node st;
         let st = sohash_hp_release i (st\<lparr>hashtable := (\<lambda>_. None)\<rparr>);
         sohash_flush_hp_list st }"

definition sohash_cleanup_hashtable :: "sohash_table \<Rightarrow> (int \<times> sohash_table) option" where
  "sohash_cleanup_hashtable st =
    (if hash_state st = SOHASH_STATE_FLUSH then Some (EBUSY, st)
     else if hash_state st \<noteq> SOHASH_STATE_ACTIVE then Some (EFAULT, st)
     else case sohash_hp_get (st\<lparr>hash_state := SOHASH_STATE_FLUSH\<rparr>) of ((error, i), st) \<Rightarrow>
       if error \<noteq> 0 then Some (error, st)
       else do {
         (go, st) \<leftarrow> cleanup_retry i (st\<lparr>sohash_keys_unique := True\<rparr>);
         if \<not> go then Some (1, st)
         else do { st \<leftarrow> cleanup_tail i st; Some (0, st) } })"

end
