(* ===== verification/Mvfs_Sohash_Inv.thy ===== *)
theory Mvfs_Sohash_Inv
  imports Mvfs_Sohash "HOL-Library.Multiset"
begin

text \<open>What the operations of the split ordered hash table keep: the order of the bit-reversed keys, the
  sorted list with its sentinels, the retired nodes, and the counts.\<close>

section \<open>The split order\<close>

lemma bit_shift_in: "bit (push_bit 1 acc + (input AND 1) :: u32) k \<longleftrightarrow>
    (if k = 0 then bit input 0 else k < 32 \<and> bit acc (k - 1))"
proof -
  have "push_bit 1 acc + (input AND 1) = push_bit 1 acc OR (input AND 1)"
    by (rule disjunctive_add) (unfold bit_push_bit_iff bit_and_iff bit_1_iff, auto)
  then show ?thesis
    by (cases k) (simp_all only: bit_or_iff bit_push_bit_iff bit_and_iff bit_1_iff, auto dest: bit_imp_le_length)
qed

lemma bit_reverse_loop: "n \<le> 32 \<Longrightarrow> k < 32 \<Longrightarrow>
    bit (reverse_bit_loop n input acc) k \<longleftrightarrow> (if k < n then bit input (n - 1 - k) else bit acc (k - n))"
proof (induction n arbitrary: input acc)
  case (Suc n)
  have "bit (reverse_bit_loop n (drop_bit 1 input) (push_bit 1 acc + (input AND 1))) k \<longleftrightarrow>
      (if k < n then bit (drop_bit 1 input) (n - 1 - k) else bit (push_bit 1 acc + (input AND 1)) (k - n))"
    by (rule Suc.IH) (use Suc.prems in simp_all)
  then show ?case using Suc.prems
    by (simp only: reverse_bit_loop.simps bit_shift_in bit_drop_bit_eq) (auto simp: Suc_diff_Suc)
qed simp

lemma bit_reverse: "bit (sohash_reverse_bit x) k \<longleftrightarrow> k < 32 \<and> bit x (31 - k)"
  using bit_reverse_loop [of 32 k x 0] bit_imp_le_length [of "sohash_reverse_bit x" k]
  by (cases "k < 32") (auto simp: sohash_reverse_bit_def)

lemma reverse_involution [simp]: "sohash_reverse_bit (sohash_reverse_bit x) = x"
  by (rule bit_word_eqI) (auto simp: bit_reverse dest: bit_imp_le_length)

lemma reverse_inj [simp]: "sohash_reverse_bit x = sohash_reverse_bit y \<longleftrightarrow> x = y"
  by (metis reverse_involution)

lemma reverse_and: "sohash_reverse_bit (x AND y) = sohash_reverse_bit x AND sohash_reverse_bit y"
  by (rule bit_word_eqI) (auto simp: bit_reverse bit_and_iff)

lemma reverse_mono_bits: "x AND y = x \<Longrightarrow> sohash_reverse_bit x \<le> sohash_reverse_bit y"
  by (metis reverse_and word_and_le1)

lemma bit_top: "bit (push_bit 31 1 :: u32) n \<longleftrightarrow> n = 31"
proof -
  have "n = 31" if "31 \<le> n" "n < 32" using that by simp
  then show ?thesis unfolding bit_push_bit_iff bit_1_iff by (auto simp: possible_bit_word)
qed

lemma bit_setmsb: "bit (SOKEY_SETMSB k) n \<longleftrightarrow> bit k n \<or> n = 31"
proof -
  have m: "SOKEY_MASK_SET_MSB = push_bit 31 1" by (simp add: SOKEY_MASK_SET_MSB_def push_bit_eq_mult)
  show ?thesis unfolding SOKEY_SETMSB_def bit_or_iff m bit_top by (rule refl)
qed

text \<open>The key without its highest bit is all that tells two regular keys apart.\<close>
definition key31 :: "u32 \<Rightarrow> u32" where "key31 k = k AND mask 31"

lemma bit_key31: "bit (key31 k) n \<longleftrightarrow> bit k n \<and> n < 31"
  by (auto simp: key31_def bit_simps)

lemma regularkey_eq_iff: "sohash_regularkey k = sohash_regularkey k' \<longleftrightarrow> key31 k = key31 k'"
proof -
  have "SOKEY_SETMSB k = SOKEY_SETMSB k' \<longleftrightarrow> (\<forall>n<32. bit (SOKEY_SETMSB k) n = bit (SOKEY_SETMSB k') n)"
    using bit_word_eqI [of "SOKEY_SETMSB k" "SOKEY_SETMSB k'"] by auto
  also have "\<dots> \<longleftrightarrow> (\<forall>n<32. bit (key31 k) n = bit (key31 k') n)"
    by (rule all_cong) (auto simp: bit_setmsb bit_key31)
  also have "\<dots> \<longleftrightarrow> key31 k = key31 k'" using bit_word_eqI [of "key31 k" "key31 k'"] by auto
  finally show ?thesis by (simp add: sohash_regularkey_def)
qed

lemma regularkey_odd: "bit (sohash_regularkey k) 0"
  by (simp add: sohash_regularkey_def bit_reverse bit_setmsb)

lemma sentinelkey_even: "hi < 2 ^ 31 \<Longrightarrow> \<not> bit (sohash_sentinelkey hi) 0"
proof
  assume "hi < 2 ^ 31" and "bit (sohash_sentinelkey hi) 0"
  then have "bit hi 31" by (simp add: sohash_sentinelkey_def bit_reverse)
  then have "push_bit 31 1 AND hi = push_bit 31 1"
    by (intro bit_word_eqI) (unfold bit_and_iff bit_top, auto)
  then have "push_bit 31 1 \<le> hi" using word_and_le1 [of "push_bit 31 1" hi] by simp
  then show False using \<open>hi < 2 ^ 31\<close> by (simp add: push_bit_eq_mult)
qed

lemma sentinelkey_inj [simp]: "sohash_sentinelkey a = sohash_sentinelkey b \<longleftrightarrow> a = b"
  by (simp add: sohash_sentinelkey_def)

lemma sentinel_not_regular: "hi < 2 ^ 31 \<Longrightarrow> sohash_sentinelkey hi \<noteq> sohash_regularkey k"
  using regularkey_odd [of k] sentinelkey_even [of hi] by auto

lemma mod_pow2_mask: "k mod (2 ^ n :: u32) = k AND mask n"
  by (simp add: take_bit_eq_mod [symmetric] take_bit_eq_mask)

text \<open>The sentinel of the bucket of a key comes before the key in the split order.\<close>
lemma sentinel_before_key:
  assumes "n \<le> 31"
  shows "sohash_sentinelkey (k mod 2 ^ n) < sohash_regularkey k"
proof -
  have "k mod 2 ^ n < 2 ^ 31"
  proof -
    have "k AND mask n AND mask 31 = k AND mask n" using assms
      by (auto intro!: bit_word_eqI simp: bit_simps)
    then have "k mod 2 ^ n \<le> mask 31" by (metis mod_pow2_mask and.assoc word_and_le1)
    then show ?thesis by (simp add: mask_eq_exp_minus_1 order_le_less_trans)
  qed
  moreover have "(k AND mask n) AND SOKEY_SETMSB k = k AND mask n"
    by (auto intro!: bit_word_eqI simp: bit_simps bit_setmsb)
  ultimately show ?thesis
    using reverse_mono_bits [of "k mod 2 ^ n" "SOKEY_SETMSB k"] sentinel_not_regular [of "k mod 2 ^ n" k]
    by (simp add: sohash_sentinelkey_def sohash_regularkey_def mod_pow2_mask order_less_le)
qed

text \<open>The sentinel of its parent comes before the sentinel of a bucket.\<close>
lemma sentinel_parent_before:
  assumes "unsetmsb hi = Some p" and "hi \<noteq> 0"
  shows "sohash_sentinelkey p < sohash_sentinelkey hi"
proof -
  have "p AND hi = p" using assms by (auto simp: unsetmsb_def bind_eq_Some_conv and.assoc and.commute and.left_commute)
  then show ?thesis using reverse_mono_bits [of p hi] unsetmsb_less [OF assms]
    by (simp add: sohash_sentinelkey_def order_less_le)
qed

lemma unsetmsb_loop_some: "x AND mask n \<noteq> 0 \<Longrightarrow> n \<le> 32 \<Longrightarrow> \<exists>m. unsetmsb_loop n x (push_bit (n - 1) 1) = Some m"
proof (induction n)
  case (Suc n)
  show ?case
  proof (cases "x AND push_bit n 1 = 0")
    case True
    then have "\<not> bit (x AND push_bit n 1) n" by simp
    then have "\<not> bit x n" using Suc.prems(2) by (simp add: bit_simps)
    then have "x AND mask (Suc n) = x AND mask n"
      by (intro bit_word_eqI) (auto simp: bit_simps less_Suc_eq)
    moreover from this have "n \<noteq> 0" using Suc.prems(1) by (intro notI) simp
    moreover from this have "drop_bit (Suc 0) (push_bit n 1 :: u32) = push_bit (n - 1) 1"
      using Suc.prems(2) by (auto intro!: bit_word_eqI simp: bit_simps)
    ultimately show ?thesis using True Suc by simp
  qed simp
qed simp

lemma unsetmsb_total: "\<exists>p. unsetmsb x = Some p"
proof (cases "x = 0")
  case False
  moreover have "x AND mask 32 = x" by (intro bit_word_eqI) (simp only: bit_and_iff bit_mask_iff, auto)
  ultimately have "x AND mask 32 \<noteq> 0" by simp
  then show ?thesis using unsetmsb_loop_some [of x 32] by (auto simp: unsetmsb_def)
qed (simp add: unsetmsb_def)

section \<open>Sorting and searching the keys of the hazard pointers\<close>

lemma insort_snoc: "sorted (xs @ [x]) \<Longrightarrow> t < x \<Longrightarrow> insort t (xs @ [x]) = insort t xs @ [x]" for x :: "'a::linorder"
  by (induction xs) (auto simp: sorted_append)

lemma sort_shift_insort: "sorted xs \<Longrightarrow> length xs = j \<Longrightarrow> sort_shift t j (xs @ z # ys) = insort t xs @ ys"
proof (induction t j "xs @ z # ys" arbitrary: xs z ys rule: sort_shift.induct)
  case (2 t j)
  then obtain us x where u: "xs = us @ [x]" "length us = j" by (cases xs rule: rev_cases) auto
  show ?case
  proof (cases "t < x")
    case True
    have "sort_shift t j (us @ x # (x # ys)) = insort t us @ x # ys"
      by (rule "2.hyps") (use True u "2.prems" in \<open>auto simp: nth_append list_update_append sorted_append\<close>)
    then show ?thesis using True u insort_snoc [of us x t] "2.prems"
      by (simp add: nth_append list_update_append)
  next
    case False
    then have "insort t xs = xs @ [t]"
      using u "2.prems" by (intro sorted_insort_is_snoc) (auto simp: sorted_append)
    then show ?thesis using False u by (simp add: nth_append list_update_append)
  qed
qed simp

lemma sort_arr_prefix: "1 \<le> m \<Longrightarrow> m \<le> length arr \<Longrightarrow>
    fold (\<lambda>i arr. sort_shift (arr ! i) i arr) [1..<m] arr = sort (take m arr) @ drop m arr"
proof (induction m rule: dec_induct)
  case base
  then show ?case by (cases arr) auto
next
  case (step m)
  then have m: "m < length arr" by simp
  let ?s = "sort (take m arr)"
  have "drop m arr = arr ! m # drop (Suc m) arr" using m by (rule Cons_nth_drop_Suc [symmetric])
  moreover have "length ?s = m" using m by simp
  ultimately have "(?s @ drop m arr) ! m = arr ! m" "sort_shift (arr ! m) m (?s @ drop m arr) = insort (arr ! m) ?s @ drop (Suc m) arr"
    by (simp_all add: nth_append sort_shift_insort)
  moreover have "sort (take (Suc m) arr) = insort (arr ! m) ?s" unfolding take_Suc_conv_app_nth [OF m]
    by (rule properties_for_sort) (simp_all add: sorted_insort)
  ultimately show ?case using step m by simp
qed

lemma sort_arr_sort: "sohash_sort_arr arr = sort arr"
  using sort_arr_prefix [of "length arr" arr] by (cases arr) (simp_all add: sohash_sort_arr_def)

lemma search_arr_iff: "sorted arr \<Longrightarrow> 0 \<le> low \<Longrightarrow> high < int (length arr) \<Longrightarrow>
    sohash_search_arr arr k low high \<longleftrightarrow> (\<exists>i. low \<le> i \<and> i \<le> high \<and> arr ! nat i = k)"
proof (induction arr k low high rule: sohash_search_arr.induct)
  case (1 arr k low high)
  define mid where "mid = low + (high - low) div 2"
  have mono: "arr ! nat i \<le> arr ! nat j" if "low \<le> i" "i \<le> j" "j \<le> high" for i j
    using that 1 by (intro sorted_nth_mono) auto
  show ?case
  proof (cases "high < low")
    case False
    then have m: "low \<le> mid" "mid \<le> high" by (auto simp: mid_def)
    have *: "sohash_search_arr arr k low high \<longleftrightarrow>
        (if arr ! nat mid < k then sohash_search_arr arr k (mid + 1) high
         else if arr ! nat mid > k then sohash_search_arr arr k low (mid - 1) else True)"
      using False by (subst sohash_search_arr.simps) (simp add: mid_def Let_def)
    consider "arr ! nat mid < k" | "arr ! nat mid > k" | "arr ! nat mid = k" by fastforce
    then show ?thesis
    proof cases
      assume a: "arr ! nat mid < k"
      then have "low \<le> i \<and> i \<le> high \<and> arr ! nat i = k \<longleftrightarrow> mid + 1 \<le> i \<and> i \<le> high \<and> arr ! nat i = k" for i
        using mono [of i mid] m by (cases "i \<le> mid") auto
      then show ?thesis using * a m "1.IH"(1) [OF False mid_def a] "1.prems" by simp
    next
      assume a: "arr ! nat mid > k"
      then have "low \<le> i \<and> i \<le> high \<and> arr ! nat i = k \<longleftrightarrow> low \<le> i \<and> i \<le> mid - 1 \<and> arr ! nat i = k" for i
        using mono [of mid i] m by (cases "mid \<le> i") auto
      moreover have "\<not> arr ! nat mid < k" using a by simp
      ultimately show ?thesis using * a m "1.IH"(2) [OF False mid_def _ a] "1.prems" by simp
    next
      assume a: "arr ! nat mid = k"
      then show ?thesis using * m by auto
    qed
  qed (subst sohash_search_arr.simps, auto)
qed

lemma search_sort_arr: "sohash_search_arr (sohash_sort_arr ks) k 0 (int (length ks) - 1) \<longleftrightarrow> k \<in> set ks"
proof -
  have "(\<exists>i. 0 \<le> i \<and> i \<le> int (length ks) - 1 \<and> sort ks ! nat i = k) \<longleftrightarrow> (\<exists>n<length (sort ks). sort ks ! n = k)"
    (is "(\<exists>i. ?P i) \<longleftrightarrow> (\<exists>n. ?Q n)")
  proof
    assume "\<exists>i. ?P i"
    then obtain i where "?P i" ..
    then have "?Q (nat i)" by auto
    then show "\<exists>n. ?Q n" ..
  next
    assume "\<exists>n. ?Q n"
    then obtain n where "?Q n" ..
    then have "?P (int n)" by auto
    then show "\<exists>i. ?P i" ..
  qed
  also have "\<dots> \<longleftrightarrow> k \<in> set ks" by (simp only: in_set_conv_nth [symmetric] set_sort)
  finally show ?thesis by (simp add: sort_arr_sort search_arr_iff)
qed

section \<open>Lists in the store\<close>

type_synonym store = "addr \<Rightarrow> sohash_entry option"

text \<open>From \<open>p\<close> the links lead over the nodes of the list to \<open>q\<close>; no address has its delete bit set.\<close>
fun lseg :: "store \<Rightarrow> addr \<Rightarrow> addr list \<Rightarrow> addr \<Rightarrow> bool" where
  "lseg h p [] q \<longleftrightarrow> p = q"
| "lseg h p (a # as) q \<longleftrightarrow> p = a \<and> a \<noteq> NULL \<and> even a \<and> (\<exists>e. h a = Some e \<and> lseg h (hashentry_next e) as q)"

lemma lseg_append [simp]: "lseg h p (xs @ ys) q \<longleftrightarrow> (\<exists>r. lseg h p xs r \<and> lseg h r ys q)"
  by (induction xs arbitrary: p) auto

lemma lseg_cong: "(\<And>a. a \<in> set xs \<Longrightarrow> map_option hashentry_next (h a) = map_option hashentry_next (h' a)) \<Longrightarrow>
    lseg h p xs q = lseg h' p xs q"
proof (induction xs arbitrary: p)
  case (Cons a xs)
  have "lseg h r xs q = lseg h' r xs q" for r using Cons by simp
  moreover have "map_option hashentry_next (h a) = map_option hashentry_next (h' a)" by (rule Cons.prems) simp
  ultimately show ?case by (cases "h a"; cases "h' a") auto
qed simp

lemma lseg_upd [simp]: "b \<notin> set xs \<Longrightarrow> lseg (h(b := v)) p xs q = lseg h p xs q"
  by (rule lseg_cong) auto

lemma lseg_head: "lseg h p xs NULL \<Longrightarrow> p = head_of xs"
  by (cases xs) (auto simp: head_of_def)

lemma lseg_even: "lseg h p xs NULL \<Longrightarrow> even p"
  by (cases xs) (auto simp: NULL_def)

lemma lseg_nodes: "lseg h p xs q \<Longrightarrow> a \<in> set xs \<Longrightarrow> a \<noteq> NULL \<and> even a \<and> (\<exists>e. h a = Some e)"
  by (induction xs arbitrary: p) auto

lemma delete_bit_set: "SOHASH_IS_DELETE_BIT_SET a \<longleftrightarrow> odd a"
  by (simp add: SOHASH_IS_DELETE_BIT_SET_def and_one_eq odd_iff_mod_2_eq_one)

lemma unset_delete_bit [simp]: "even a \<Longrightarrow> SOHASH_UNSET_DELETE_BIT a = a"
  by (simp add: SOHASH_UNSET_DELETE_BIT_def and_one_eq)

lemma set_delete_bit_neq: "even a \<Longrightarrow> SOHASH_SET_DELETE_BIT a \<noteq> a"
  by (metis SOHASH_SET_DELETE_BIT_def bit_0 bit_1_0 bit_or_iff)

section \<open>Finding\<close>

definition found_at :: "sohash_table \<Rightarrow> u32 \<Rightarrow> sohash_entry_type \<Rightarrow> addr \<Rightarrow> addr \<Rightarrow> bool" where
  "found_at st key ty arg a \<longleftrightarrow> (\<exists>e. nodes st a = Some e \<and> reverse_so_key e = key \<and> find_match st e ty arg)"

definition rkey :: "store \<Rightarrow> addr \<Rightarrow> u32" where "rkey h a = reverse_so_key (the (h a))"

definition passed :: "sohash_table \<Rightarrow> u32 \<Rightarrow> sohash_entry_type \<Rightarrow> addr \<Rightarrow> addr \<Rightarrow> bool" where
  "passed st key ty arg a \<longleftrightarrow> \<not> found_at st key ty arg a \<and> rkey (nodes st) a \<le> key"

text \<open>Where a search over the nodes \<open>us @ vs\<close> stops: in front of \<open>vs\<close>, the snapshot in the hazard reference.\<close>
definition stopped :: "sohash_table \<Rightarrow> sohash_loc \<Rightarrow> sohash_hazard_ref \<Rightarrow> addr list \<Rightarrow> addr list \<Rightarrow> sohash_hazard_ref \<Rightarrow> bool" where
  "stopped st head hp us vs hp' \<longleftrightarrow>
    cur hp' = head_of vs \<and> prev hp' = (if us = [] then head else NextOf (last us)) \<and>
    (vs \<noteq> [] \<longrightarrow> (\<exists>e. nodes st (hd vs) = Some e \<and> nxt hp' = hashentry_next e)) \<and>
    rlist hp' = rlist hp \<and> rcount hp' = rcount hp \<and> hp_state hp' = hp_state hp \<and>
    length (hazard_ptrs hp') = length (hazard_ptrs hp) \<and> hazard_ptrs hp' ! 1 = cur hp' \<and>
    set (hazard_ptrs hp') \<subseteq> set (hazard_ptrs hp) \<union> insert NULL (set (us @ vs))"

lemma hazard_upd_subset: "set (hazard_ptrs (set_hazard k a hp)) \<subseteq> insert a (set (hazard_ptrs hp))"
  by (simp add: set_hazard_def set_update_subset_insert)

lemma set_hazard_simps [simp]:
  "cur (set_hazard k a hp) = cur hp" "prev (set_hazard k a hp) = prev hp" "nxt (set_hazard k a hp) = nxt hp"
  "rlist (set_hazard k a hp) = rlist hp" "rcount (set_hazard k a hp) = rcount hp"
  "hp_state (set_hazard k a hp) = hp_state hp" "length (hazard_ptrs (set_hazard k a hp)) = length (hazard_ptrs hp)"
  "j \<noteq> k \<Longrightarrow> hazard_ptrs (set_hazard k a hp) ! j = hazard_ptrs hp ! j"
  "k < length (hazard_ptrs hp) \<Longrightarrow> hazard_ptrs (set_hazard k a hp) ! k = a"
  by (simp_all add: set_hazard_def)

lemma find_loop_stops:
  assumes "lseg (nodes st) (cur hp) as NULL" and "read_loc st (prev hp) = Some (cur hp)"
    and "length (hazard_ptrs hp) = 3" and "hazard_ptrs hp ! 1 = cur hp"
  shows "\<exists>hp'. find_loop st head key ty arg hp =
        Some (let vs = dropWhile (passed st key ty arg) as in
              if vs \<noteq> [] \<and> found_at st key ty arg (hd vs) then hd vs else NULL, hp')
    \<and> stopped st (prev hp) hp (takeWhile (passed st key ty arg) as) (dropWhile (passed st key ty arg) as) hp'"
  using assms
proof (induction as arbitrary: hp)
  case Nil
  then show ?case by (subst find_loop.simps) (auto simp: stopped_def head_of_def)
next
  case (Cons a as)
  then obtain e where a: "cur hp = a" "a \<noteq> NULL" and e: "nodes st a = Some e" and l: "lseg (nodes st) (hashentry_next e) as NULL"
    by auto
  let ?hp1 = "set_hazard 0 (hashentry_next e) (hp\<lparr>nxt := hashentry_next e\<rparr>)"
  have ne: "\<not> SOHASH_IS_DELETE_BIT_SET (hashentry_next e)" using lseg_even [OF l] by (simp add: delete_bit_set)
  have nx: "hashentry_next e \<in> insert NULL (set (a # as))" using lseg_head [OF l] by (cases as) (auto simp: head_of_def)
  have h1: "set (hazard_ptrs ?hp1) \<subseteq> set (hazard_ptrs hp) \<union> insert NULL (set (a # as))"
    using hazard_upd_subset [of 0 "hashentry_next e" "hp\<lparr>nxt := hashentry_next e\<rparr>"] nx by auto
  show ?case
  proof (cases "passed st key ty arg a")
    case False
    then have "find_loop st head key ty arg hp = Some (if found_at st key ty arg a then a else NULL, ?hp1)"
      using a e ne Cons.prems by (subst find_loop.simps) (auto simp: passed_def found_at_def rkey_def Let_def)
    moreover have "stopped st (prev hp) hp [] (a # as) ?hp1"
      using a e h1 Cons.prems by (auto simp: stopped_def head_of_def)
    ultimately show ?thesis using False by simp
  next
    case True
    let ?hp2 = "set_hazard 1 (hashentry_next e) ((set_hazard 2 a (?hp1\<lparr>prev := NextOf a\<rparr>))\<lparr>cur := hashentry_next e\<rparr>)"
    have step: "find_loop st head key ty arg hp = find_loop st head key ty arg ?hp2"
      using a e ne Cons.prems True by (subst find_loop.simps) (auto simp: passed_def found_at_def rkey_def Let_def)
    have "read_loc st (prev ?hp2) = Some (cur ?hp2)" using e by (simp add: read_loc_def)
    then obtain hp' where hp': "find_loop st head key ty arg ?hp2 =
        Some (let vs = dropWhile (passed st key ty arg) as in
              if vs \<noteq> [] \<and> found_at st key ty arg (hd vs) then hd vs else NULL, hp')"
      and s: "stopped st (NextOf a) ?hp2 (takeWhile (passed st key ty arg) as) (dropWhile (passed st key ty arg) as) hp'"
      using Cons.IH [of ?hp2] l Cons.prems by auto
    have "set (hazard_ptrs ?hp2) \<subseteq> insert (hashentry_next e) (insert a (set (hazard_ptrs ?hp1)))"
      using hazard_upd_subset [of 1 "hashentry_next e" "(set_hazard 2 a (?hp1\<lparr>prev := NextOf a\<rparr>))\<lparr>cur := hashentry_next e\<rparr>"]
        hazard_upd_subset [of 2 a "?hp1\<lparr>prev := NextOf a\<rparr>"] by auto
    also have "\<dots> \<subseteq> set (hazard_ptrs hp) \<union> insert NULL (set (a # as))" using h1 nx by auto
    finally have h2: "set (hazard_ptrs ?hp2) \<subseteq> set (hazard_ptrs hp) \<union> insert NULL (set (a # as))" .
    have "set (hazard_ptrs hp') \<subseteq> set (hazard_ptrs ?hp2) \<union> insert NULL (set as)"
      using s unfolding stopped_def by simp
    then have "set (hazard_ptrs hp') \<subseteq> set (hazard_ptrs hp) \<union> insert NULL (set (a # as))" using h2 by auto
    then have "stopped st (prev hp) hp (takeWhile (passed st key ty arg) (a # as)) (dropWhile (passed st key ty arg) (a # as)) hp'"
      using s True unfolding stopped_def by simp
    then show ?thesis using True step hp' by simp
  qed
qed

section \<open>The invariant\<close>

definition node_ok :: "sohash_entry \<Rightarrow> bool" where
  "node_ok e \<longleftrightarrow>
    entry_type e = SOHASH_SENTINEL_NODE \<and> so_key e < 2 ^ 31 \<and> reverse_so_key e = sohash_sentinelkey (so_key e) \<and> data e = NULL \<or>
    entry_type e = SOHASH_REGULAR_NODE \<and> reverse_so_key e = sohash_regularkey (so_key e)"

text \<open>The list from the first sentinel on: linked, in order, of well formed nodes.\<close>
definition list_ok :: "store \<Rightarrow> addr list \<Rightarrow> bool" where
  "list_ok h xs \<longleftrightarrow> xs \<noteq> [] \<and> lseg h (hd xs) xs NULL \<and> distinct xs \<and> sorted (map (rkey h) xs) \<and>
    (\<forall>a\<in>set xs. \<exists>e. h a = Some e \<and> node_ok e)"

definition sentinel_at :: "store \<Rightarrow> addr \<Rightarrow> nat \<Rightarrow> bool" where
  "sentinel_at h a n \<longleftrightarrow> (\<exists>e. h a = Some e \<and> entry_type e = SOHASH_SENTINEL_NODE \<and> unat (so_key e) = n)"

text \<open>An initialised bucket points at the sentinel with its index, and the first bucket is initialised.\<close>
definition buckets_ok :: "(nat \<Rightarrow> (nat \<Rightarrow> addr) option) \<Rightarrow> store \<Rightarrow> addr list \<Rightarrow> bool" where
  "buckets_ok ht h xs \<longleftrightarrow> (\<exists>seg. ht 0 = Some seg \<and> seg 0 = hd xs) \<and>
    (\<forall>s seg b. ht s = Some seg \<longrightarrow> b < 511 \<longrightarrow> seg b \<noteq> NULL \<longrightarrow> seg b \<in> set xs \<and> sentinel_at h (seg b) (s * 511 + b))"

definition retired :: "sohash_hazard_ref list \<Rightarrow> addr set" where
  "retired hps = (\<Union>hp\<in>set hps. set (rlist hp))"

text \<open>Every node of the store is in the list, retired by one hazard reference, or one of \<open>E\<close>, which an
  operation under way holds: nothing is lost, and nothing is in two places.\<close>
definition store_ok :: "store \<Rightarrow> sohash_hazard_ref list \<Rightarrow> addr list \<Rightarrow> addr set \<Rightarrow> addr \<Rightarrow> bool" where
  "store_ok h hps xs E nx \<longleftrightarrow>
    dom h = set xs \<union> retired hps \<union> E \<and> set xs \<inter> retired hps = {} \<and> E \<inter> (set xs \<union> retired hps) = {} \<and>
    (\<forall>i<length hps. distinct (rlist (hps ! i)) \<and>
       (\<forall>j<length hps. i \<noteq> j \<longrightarrow> set (rlist (hps ! i)) \<inter> set (rlist (hps ! j)) = {})) \<and>
    (\<forall>a\<in>dom h. a \<noteq> NULL \<and> even a \<and> a < nx) \<and> even nx \<and> nx \<noteq> NULL"

definition hp_ok :: "sohash_hazard_ref \<Rightarrow> bool" where
  "hp_ok hp \<longleftrightarrow> hazard_ptrs hp = [NULL, NULL, NULL] \<and> rcount hp = of_nat (length (rlist hp))"

definition hps_ok :: "sohash_table \<Rightarrow> bool" where
  "hps_ok st \<longleftrightarrow> hp_list st \<noteq> [] \<and> hazard_ptrs_total st = 3 * int (length (hp_list st)) \<and> (\<forall>hp\<in>set (hp_list st). hp_ok hp)"

definition sizes_ok :: "sohash_table \<Rightarrow> bool" where
  "sizes_ok st \<longleftrightarrow> sohash_num_segments st = 511 \<and> sohash_segment_sz st = 511 \<and>
    (\<exists>n. 1 \<le> n \<and> n \<le> 17 \<and> sohash_current_size st = 2 ^ n)"

definition sohash_inv :: "addr set \<Rightarrow> sohash_table \<Rightarrow> addr list \<Rightarrow> bool" where
  "sohash_inv E st xs \<longleftrightarrow> sizes_ok st \<and> list_ok (nodes st) xs \<and> buckets_ok (hashtable st) (nodes st) xs \<and>
    store_ok (nodes st) (hp_list st) xs E (kmem_next st) \<and> hps_ok st"

definition is_regular :: "store \<Rightarrow> addr \<Rightarrow> bool" where
  "is_regular h a \<longleftrightarrow> (\<exists>e. h a = Some e \<and> entry_type e = SOHASH_REGULAR_NODE)"

definition regulars :: "store \<Rightarrow> addr list \<Rightarrow> addr list" where "regulars h xs = filter (is_regular h) xs"

text \<open>A store with other links but the same nodes.\<close>
definition strip :: "sohash_entry \<Rightarrow> sohash_entry" where "strip e = e\<lparr>hashentry_next := NULL, segment_index := 0, bucket_index := 0\<rparr>"

definition same_nodes :: "addr set \<Rightarrow> store \<Rightarrow> store \<Rightarrow> bool" where
  "same_nodes A h h' \<longleftrightarrow> (\<forall>a\<in>A. map_option strip (h a) = map_option strip (h' a))"

lemma strip_fields: assumes "strip e = strip e'"
  shows "data e = data e'" "reverse_so_key e = reverse_so_key e'" "so_key e = so_key e'" "entry_type e = entry_type e'"
    "hashindex e = hashindex e'"
  using assms by (cases e; cases e'; simp add: strip_def)+

lemma strip_upd [simp]: "strip (e\<lparr>hashentry_next := v\<rparr>) = strip e" "strip (e\<lparr>segment_index := m\<rparr>) = strip e"
  "strip (e\<lparr>bucket_index := m\<rparr>) = strip e"
  by (simp_all add: strip_def)

lemma same_nodesD:
  assumes "same_nodes A h h'" "a \<in> A" "h a = Some e"
  obtains e' where "h' a = Some e'" "data e' = data e" "reverse_so_key e' = reverse_so_key e" "so_key e' = so_key e"
    "entry_type e' = entry_type e" "hashindex e' = hashindex e"
proof -
  have "map_option strip (h a) = map_option strip (h' a)" using assms unfolding same_nodes_def by blast
  then obtain e' where "h' a = Some e'" "strip e = strip e'" using assms(3) by (cases "h' a") auto
  then show thesis using strip_fields [of e e'] by (intro that) auto
qed

lemma same_nodes_sym: "same_nodes A h h' \<Longrightarrow> same_nodes A h' h"
  by (simp add: same_nodes_def)

lemma same_nodes_trans: "same_nodes A h h' \<Longrightarrow> same_nodes B h' h'' \<Longrightarrow> A \<subseteq> B \<Longrightarrow> same_nodes A h h''"
  by (auto simp: same_nodes_def)

lemma same_nodes_refl [simp]: "same_nodes A h h"
  by (simp add: same_nodes_def)

lemma same_rkey: "same_nodes A h h' \<Longrightarrow> a \<in> A \<Longrightarrow> h a \<noteq> None \<Longrightarrow> rkey h' a = rkey h a"
  by (auto simp: rkey_def elim!: same_nodesD)

lemma same_node_ok: "same_nodes A h h' \<Longrightarrow> a \<in> A \<Longrightarrow> \<exists>e. h a = Some e \<and> node_ok e \<Longrightarrow> \<exists>e. h' a = Some e \<and> node_ok e"
  by (auto simp: node_ok_def elim!: same_nodesD)

lemma same_sentinel: "same_nodes A h h' \<Longrightarrow> a \<in> A \<Longrightarrow> sentinel_at h a n \<Longrightarrow> sentinel_at h' a n"
  by (auto simp: sentinel_at_def elim!: same_nodesD)

lemma same_regular:
  assumes "same_nodes A h h'" "a \<in> A"
  shows "is_regular h' a = is_regular h a"
proof -
  have "is_regular k' a" if k: "same_nodes A k k'" "is_regular k a" for k k'
  proof -
    obtain e where e: "k a = Some e" "entry_type e = SOHASH_REGULAR_NODE" using k(2) by (auto simp: is_regular_def)
    show ?thesis by (rule same_nodesD [OF k(1) assms(2) e(1)]) (simp add: is_regular_def e(2))
  qed
  then show ?thesis using assms(1) same_nodes_sym [OF assms(1)] by blast
qed

lemma same_regulars: "same_nodes (set xs) h h' \<Longrightarrow> regulars h' xs = regulars h xs"
  unfolding regulars_def by (rule filter_cong) (auto simp: same_regular)

text \<open>The parts of the invariant with other links.\<close>
lemma list_ok_same:
  assumes "list_ok h xs" and "same_nodes (set xs) h h'" and "lseg h' (hd xs) xs NULL"
  shows "list_ok h' xs"
proof -
  have "h a \<noteq> None" if "a \<in> set xs" for a using assms(1) that by (force simp: list_ok_def)
  then have "map (rkey h') xs = map (rkey h) xs" using same_rkey [OF assms(2)] by simp
  then have "sorted (map (rkey h') xs)" using assms(1) by (simp only: list_ok_def)
  then show ?thesis using assms same_node_ok [OF assms(2)] by (simp add: list_ok_def)
qed

lemma buckets_ok_same:
  assumes b: "buckets_ok ht h xs" and s: "same_nodes (set xs) h h'" and "hd xs = hd ys"
    and ys: "\<And>a n. a \<in> set xs \<Longrightarrow> sentinel_at h a n \<Longrightarrow> a \<in> set ys"
  shows "buckets_ok ht h' ys"
  unfolding buckets_ok_def
proof (intro conjI allI impI)
  show "\<exists>seg. ht 0 = Some seg \<and> seg 0 = hd ys" using b assms(3) by (simp add: buckets_ok_def)
  fix t seg n assume "ht t = Some seg" "n < 511" "seg n \<noteq> NULL"
  then have a: "seg n \<in> set xs" "sentinel_at h (seg n) (t * 511 + n)" using b by (auto simp: buckets_ok_def)
  show "seg n \<in> set ys" by (rule ys [OF a])
  show "sentinel_at h' (seg n) (t * 511 + n)" by (rule same_sentinel [OF s a])
qed

end
