(* ===== verification/Mvfs_Sohash_Ops.thy ===== *)
theory Mvfs_Sohash_Ops
  imports Mvfs_Sohash_Inv
begin

text \<open>The effect of the list routines, of bucket initialisation and of reclamation of the split ordered
  hash table on its invariant.\<close>

section \<open>Fields\<close>

lemma set_hp_simps [simp]:
  "nodes (set_hp i hp st) = nodes st" "hashtable (set_hp i hp st) = hashtable st" "kmem (set_hp i hp st) = kmem st"
  "kmem_next (set_hp i hp st) = kmem_next st" "hp_list (set_hp i hp st) = (hp_list st)[i := hp]"
  "hash_state (set_hp i hp st) = hash_state st" "sohash_keys_unique (set_hp i hp st) = sohash_keys_unique st"
  "fn_verify_matched_entry (set_hp i hp st) = fn_verify_matched_entry st" "fn_on_delete (set_hp i hp st) = fn_on_delete st"
  "hazard_ptrs_total (set_hp i hp st) = hazard_ptrs_total st" "sohash_current_size (set_hp i hp st) = sohash_current_size st"
  "sohash_num_segments (set_hp i hp st) = sohash_num_segments st" "sohash_segment_sz (set_hp i hp st) = sohash_segment_sz st"
  "sohash_regularkey_count (set_hp i hp st) = sohash_regularkey_count st" "data_freed (set_hp i hp st) = data_freed st"
  "deleted (set_hp i hp st) = deleted st" "sohash_sentinelkey_count (set_hp i hp st) = sohash_sentinelkey_count st"
  by (simp_all add: set_hp_def)

lemma set_node_simps [simp]:
  "nodes (set_node a e st) = (nodes st)(a \<mapsto> e)" "hashtable (set_node a e st) = hashtable st" "kmem (set_node a e st) = kmem st"
  "kmem_next (set_node a e st) = kmem_next st" "hp_list (set_node a e st) = hp_list st"
  "hash_state (set_node a e st) = hash_state st" "sohash_keys_unique (set_node a e st) = sohash_keys_unique st"
  "fn_verify_matched_entry (set_node a e st) = fn_verify_matched_entry st" "fn_on_delete (set_node a e st) = fn_on_delete st"
  "hazard_ptrs_total (set_node a e st) = hazard_ptrs_total st" "sohash_current_size (set_node a e st) = sohash_current_size st"
  "sohash_num_segments (set_node a e st) = sohash_num_segments st" "sohash_segment_sz (set_node a e st) = sohash_segment_sz st"
  "sohash_regularkey_count (set_node a e st) = sohash_regularkey_count st" "data_freed (set_node a e st) = data_freed st"
  "deleted (set_node a e st) = deleted st" "sohash_sentinelkey_count (set_node a e st) = sohash_sentinelkey_count st"
  by (simp_all add: set_node_def)

text \<open>What no list routine changes: the table but for nodes, links and hazard references.\<close>
definition same_frame :: "sohash_table \<Rightarrow> sohash_table \<Rightarrow> bool" where
  "same_frame st st' \<longleftrightarrow> sohash_keys_unique st' = sohash_keys_unique st \<and>
    fn_verify_matched_entry st' = fn_verify_matched_entry st \<and> fn_on_delete st' = fn_on_delete st \<and>
    hash_state st' = hash_state st \<and> sohash_num_segments st' = sohash_num_segments st \<and>
    sohash_segment_sz st' = sohash_segment_sz st \<and> sohash_current_size st' = sohash_current_size st \<and>
    sohash_regularkey_count st' = sohash_regularkey_count st \<and> length (hp_list st') = length (hp_list st)"

lemma same_frame_refl [simp]: "same_frame st st"
  by (simp add: same_frame_def)

lemma same_frame_trans: "same_frame a b \<Longrightarrow> same_frame b c \<Longrightarrow> same_frame a c"
  by (simp add: same_frame_def)

section \<open>Searching the list\<close>

lemma split_search:
  assumes l: "list_ok (nodes st) (pre @ a # post)" and k: "rkey (nodes st) a < key"
    and ys: "ys = takeWhile (passed st key ty arg) (a # post)" and vs: "vs = dropWhile (passed st key ty arg) (a # post)"
  shows "ys \<noteq> []" "\<forall>u\<in>set (pre @ ys). \<not> found_at st key ty arg u \<and> rkey (nodes st) u \<le> key"
    "\<forall>v\<in>set vs. key \<le> rkey (nodes st) v"
    "(\<exists>c\<in>set (pre @ a # post). found_at st key ty arg c) \<longleftrightarrow> vs \<noteq> [] \<and> found_at st key ty arg (hd vs)"
proof -
  let ?h = "nodes st"
  let ?P = "passed st key ty arg"
  have s: "sorted (map (rkey ?h) (pre @ a # post))" using l by (simp add: list_ok_def)
  have fk: "rkey ?h c = key" if "found_at st key ty arg c" for c using that by (auto simp: found_at_def rkey_def)
  have "?P a" using k fk [of a] by (auto simp: passed_def)
  then show "ys \<noteq> []" using ys by simp
  have pre: "rkey ?h u < key" if "u \<in> set pre" for u
    using s k that by (auto simp: sorted_append intro: order_le_less_trans)
  have "\<not> found_at st key ty arg u \<and> rkey ?h u \<le> key" if "u \<in> set ys" for u
    using that set_takeWhileD [of u ?P "a # post"] by (simp add: ys passed_def)
  then show 1: "\<forall>u\<in>set (pre @ ys). \<not> found_at st key ty arg u \<and> rkey ?h u \<le> key"
    using pre fk by (fastforce simp: order_less_imp_le)
  have eq: "ys @ vs = a # post" by (simp add: ys vs)
  have sv: "sorted (map (rkey ?h) vs)"
    using s unfolding eq [symmetric] by (simp add: sorted_append)
  have hv: "\<not> ?P (hd vs)" if "vs \<noteq> []" using that hd_dropWhile [of ?P "a # post"] by (simp add: vs)
  then have hk: "key \<le> rkey ?h (hd vs)" if "vs \<noteq> []" using that fk [of "hd vs"] by (auto simp: passed_def)
  have le: "rkey ?h (hd vs) \<le> rkey ?h v" if "v \<in> set vs" for v using sv that by (cases vs) auto
  show 3: "\<forall>v\<in>set vs. key \<le> rkey ?h v" using le hk by (metis empty_iff list.set(1) order_trans)
  show "(\<exists>c\<in>set (pre @ a # post). found_at st key ty arg c) \<longleftrightarrow> vs \<noteq> [] \<and> found_at st key ty arg (hd vs)"
  proof
    assume "\<exists>c\<in>set (pre @ a # post). found_at st key ty arg c"
    then obtain c where c: "c \<in> set ((pre @ ys) @ vs)" "found_at st key ty arg c" unfolding eq [symmetric] by auto
    then have cv: "c \<in> set vs" using 1 by auto
    then have "vs \<noteq> []" by auto
    moreover have "rkey ?h (hd vs) \<le> key" using le [OF cv] fk [OF c(2)] by simp
    ultimately show "vs \<noteq> [] \<and> found_at st key ty arg (hd vs)" using hv by (auto simp: passed_def)
  next
    assume v: "vs \<noteq> [] \<and> found_at st key ty arg (hd vs)"
    then have "hd vs \<in> set (ys @ vs)" by auto
    then show "\<exists>c\<in>set (pre @ a # post). found_at st key ty arg c" using v unfolding eq by auto
  qed
qed

text \<open>Where a search from a bucket ends, in the whole list.\<close>
definition search_end :: "sohash_table \<Rightarrow> addr list \<Rightarrow> u32 \<Rightarrow> sohash_entry_type \<Rightarrow> addr \<Rightarrow> nat \<Rightarrow>
    addr list \<Rightarrow> addr list \<Rightarrow> sohash_hazard_ref \<Rightarrow> bool" where
  "search_end st xs key ty arg i us vs hp \<longleftrightarrow> xs = us @ vs \<and> us \<noteq> [] \<and> prev hp = NextOf (last us) \<and> cur hp = head_of vs \<and>
    (vs \<noteq> [] \<longrightarrow> (\<exists>e. nodes st (hd vs) = Some e \<and> nxt hp = hashentry_next e)) \<and>
    (\<forall>u\<in>set us. \<not> found_at st key ty arg u \<and> rkey (nodes st) u \<le> key) \<and> (\<forall>v\<in>set vs. key \<le> rkey (nodes st) v) \<and>
    ((\<exists>c\<in>set xs. found_at st key ty arg c) \<longleftrightarrow> vs \<noteq> [] \<and> found_at st key ty arg (hd vs)) \<and>
    rlist hp = rlist (hp_list st ! i) \<and> rcount hp = rcount (hp_list st ! i) \<and> hp_state hp = hp_state (hp_list st ! i) \<and>
    length (hazard_ptrs hp) = 3 \<and> hazard_ptrs hp ! 1 = cur hp \<and> set (hazard_ptrs hp) \<subseteq> insert NULL (set xs)"

lemma list_find_end:
  assumes l: "list_ok (nodes st) xs" and h: "hazard_ptrs (hp_list st ! i) = [NULL, NULL, NULL]"
    and b: "read_loc st loc = Some a" "a \<in> set xs" "rkey (nodes st) a < key"
  obtains us vs hp where "search_end st xs key ty arg i us vs hp"
    "sohash_list_find loc key ty arg i st = Some (if \<exists>c\<in>set xs. found_at st key ty arg c then hd vs else NULL, set_hp i hp st)"
proof -
  obtain pre post where xs: "xs = pre @ a # post" using split_list [OF b(2)] by blast
  let ?hp0 = "set_hazard 1 a ((hp_list st ! i)\<lparr>prev := loc, cur := a\<rparr>)"
  define ys where "ys = takeWhile (passed st key ty arg) (a # post)"
  define vs where "vs = dropWhile (passed st key ty arg) (a # post)"
  note sp = split_search [OF l [unfolded xs] b(3) ys_def vs_def]
  have "lseg (nodes st) a (a # post) NULL" using l xs by (auto simp: list_ok_def)
  then have "\<exists>hp. find_loop st loc key ty arg ?hp0 =
        Some (let vs = dropWhile (passed st key ty arg) (a # post) in
              if vs \<noteq> [] \<and> found_at st key ty arg (hd vs) then hd vs else NULL, hp)
    \<and> stopped st (prev ?hp0) ?hp0 (takeWhile (passed st key ty arg) (a # post)) (dropWhile (passed st key ty arg) (a # post)) hp"
    by (intro find_loop_stops) (use b h in \<open>simp_all add: set_hazard_def\<close>)
  then obtain hp where f: "find_loop st loc key ty arg ?hp0 =
      Some (if \<exists>c\<in>set xs. found_at st key ty arg c then hd vs else NULL, hp)"
    and s: "stopped st loc ?hp0 ys vs hp"
    unfolding ys_def [symmetric] vs_def [symmetric] Let_def using sp(4) unfolding xs [symmetric] by auto
  have eq: "xs = (pre @ ys) @ vs" by (simp add: xs ys_def vs_def)
  have hz: "set (hazard_ptrs ?hp0) \<subseteq> insert NULL (set xs)" using h b(2) by (auto simp: set_hazard_def)
  have "search_end st xs key ty arg i (pre @ ys) vs hp"
    using s sp hz eq h unfolding stopped_def search_end_def xs [symmetric]
    by (intro conjI) (auto simp: set_hazard_def)
  moreover have "sohash_list_find loc key ty arg i st =
      Some (if \<exists>c\<in>set xs. found_at st key ty arg c then hd vs else NULL, set_hp i hp st)"
    using b(1) f by (simp add: sohash_list_find_def find_try_def)
  ultimately show thesis by (rule that)
qed

section \<open>Parts of the invariant\<close>

lemma retired_rlists: "retired hps = \<Union> (set ` set (map rlist hps))"
  by (auto simp: retired_def)

lemma store_ok_cong:
  assumes "map rlist hps = map rlist hps'" and "dom h = dom h'"
  shows "store_ok h hps xs E nx = store_ok h' hps' xs E nx"
proof -
  have "length hps = length hps'" using assms(1) by (metis length_map)
  moreover have "rlist (hps ! i) = rlist (hps' ! i)" if "i < length hps" for i
    using that assms(1) calculation by (metis nth_map)
  moreover have "retired hps = retired hps'" using assms(1) by (simp only: retired_rlists)
  ultimately show ?thesis using assms(2) by (simp add: store_ok_def)
qed

lemma store_okD:
  assumes "store_ok h hps xs E nx"
  shows "dom h = set xs \<union> retired hps \<union> E" "set xs \<inter> retired hps = {}" "E \<inter> (set xs \<union> retired hps) = {}"
    "i < length hps \<Longrightarrow> distinct (rlist (hps ! i))"
    "i < length hps \<Longrightarrow> j < length hps \<Longrightarrow> i \<noteq> j \<Longrightarrow> set (rlist (hps ! i)) \<inter> set (rlist (hps ! j)) = {}"
    "a \<in> dom h \<Longrightarrow> a \<noteq> NULL \<and> even a \<and> a < nx" "even nx" "nx \<noteq> NULL" "finite (dom h)"
proof -
  note s = assms [unfolded store_ok_def]
  show "dom h = set xs \<union> retired hps \<union> E" "set xs \<inter> retired hps = {}" "E \<inter> (set xs \<union> retired hps) = {}"
    "i < length hps \<Longrightarrow> distinct (rlist (hps ! i))"
    "i < length hps \<Longrightarrow> j < length hps \<Longrightarrow> i \<noteq> j \<Longrightarrow> set (rlist (hps ! i)) \<inter> set (rlist (hps ! j)) = {}"
    "a \<in> dom h \<Longrightarrow> a \<noteq> NULL \<and> even a \<and> a < nx" "even nx" "nx \<noteq> NULL"
    using s by simp_all
  have "dom h \<subseteq> {..<nx}" using s by auto
  then show "finite (dom h)" by (rule finite_subset) simp
qed

lemma rlist_list_update: "i < length hps \<Longrightarrow> rlist hp = rlist (hps ! i) \<Longrightarrow> map rlist (hps[i := hp]) = map rlist hps"
  by (simp add: map_update list_update_same_conv)

lemma inv_hp: "sohash_inv E st xs \<Longrightarrow> i < length (hp_list st) \<Longrightarrow> hp_ok (hp_list st ! i)"
  by (simp add: sohash_inv_def hps_ok_def)

lemma hps_ok_set_hp: "hps_ok st \<Longrightarrow> hp_ok hp \<Longrightarrow> hps_ok (set_hp i hp st)"
  using set_update_subset_insert [of "hp_list st" i hp] by (auto simp: hps_ok_def)

lemma inv_set_hp:
  assumes "sohash_inv E st xs" "i < length (hp_list st)" "rlist hp = rlist (hp_list st ! i)" "hp_ok hp"
  shows "sohash_inv E (set_hp i hp st) xs"
  using assms hps_ok_set_hp [of st hp i]
    store_ok_cong [OF rlist_list_update [OF assms(2,3)] refl, of "nodes st" xs E "kmem_next st"]
  by (simp add: sohash_inv_def sizes_ok_def)

definition clear_hazards :: "sohash_hazard_ref \<Rightarrow> sohash_hazard_ref" where
  "clear_hazards hp = hp\<lparr>hazard_ptrs := [NULL, NULL, NULL]\<rparr>"

lemma clear_hazards_simps [simp]:
  "cur (clear_hazards hp) = cur hp" "prev (clear_hazards hp) = prev hp" "nxt (clear_hazards hp) = nxt hp"
  "rlist (clear_hazards hp) = rlist hp" "rcount (clear_hazards hp) = rcount hp" "hp_state (clear_hazards hp) = hp_state hp"
  "hazard_ptrs (clear_hazards hp) = [NULL, NULL, NULL]"
  by (simp_all add: clear_hazards_def)

lemma reset_hazards_set_hp: "i < length (hp_list st) \<Longrightarrow> reset_hazards i (set_hp i hp st) = set_hp i (clear_hazards hp) st"
  by (simp add: reset_hazards_def clear_hazards_def set_hp_def)

lemma set_node_set_hp: "set_node a e (set_hp i hp st) = set_hp i hp (set_node a e st)"
  by (simp add: set_node_def set_hp_def)

lemma found_at_cong: "nodes st a = nodes st' a \<Longrightarrow> sohash_keys_unique st = sohash_keys_unique st' \<Longrightarrow>
    fn_verify_matched_entry st = fn_verify_matched_entry st' \<Longrightarrow> found_at st k ty arg a = found_at st' k ty arg a"
  by (simp add: found_at_def find_match_def)

section \<open>Insertion into the list\<close>

definition linked_in :: "store \<Rightarrow> addr list \<Rightarrow> addr list \<Rightarrow> addr \<Rightarrow> store" where
  "linked_in h us vs n =
    h(n \<mapsto> (the (h n))\<lparr>hashentry_next := head_of vs\<rparr>, last us \<mapsto> (the (h (last us)))\<lparr>hashentry_next := n\<rparr>)"

lemma linked_in_same:
  assumes "h n = Some e" "h (last us) = Some u"
  shows "same_nodes A h (linked_in h us vs n)" "dom (linked_in h us vs n) = dom h"
  using assms by (auto simp: linked_in_def same_nodes_def split: if_splits)

lemma lseg_split_last:
  assumes "lseg h p (us @ vs) NULL" "us \<noteq> []"
  obtains us0 u where "us = us0 @ [last us]" "h (last us) = Some u" "lseg h p us0 (last us)" "hashentry_next u = head_of vs"
    "lseg h (head_of vs) vs NULL" "last us \<noteq> NULL" "even (last us)"
proof -
  obtain us0 where us0: "us = us0 @ [last us]" using assms(2) by (metis append_butlast_last_id)
  have "lseg h p (us0 @ last us # vs) NULL" using assms(1) us0 by (metis append.assoc append_Cons append_Nil)
  then obtain u where u: "lseg h p us0 (last us)" "h (last us) = Some u" "lseg h (hashentry_next u) vs NULL"
    "last us \<noteq> NULL" "even (last us)" by auto
  show thesis using us0 u lseg_head [OF u(3)] by (intro that) auto
qed

lemma list_ok_linked_in:
  assumes l: "list_ok h (us @ vs)" and us: "us \<noteq> []" and n: "h n = Some e" "node_ok e" "n \<notin> set (us @ vs)" "n \<noteq> NULL" "even n"
    and k: "\<forall>u\<in>set us. rkey h u \<le> reverse_so_key e" "\<forall>v\<in>set vs. reverse_so_key e \<le> rkey h v"
  shows "list_ok (linked_in h us vs n) (us @ n # vs)"
proof -
  let ?h' = "linked_in h us vs n"
  have ls: "lseg h (hd us) (us @ vs) NULL" using l us by (simp add: list_ok_def)
  obtain us0 u where u: "us = us0 @ [last us]" "h (last us) = Some u" "lseg h (hd us) us0 (last us)" "lseg h (head_of vs) vs NULL"
    "last us \<noteq> NULL" "even (last us)" by (rule lseg_split_last [OF ls us])
  have d: "distinct (us @ vs)" using l by (simp add: list_ok_def)
  have "last us \<in> set us" using us by simp
  then have lu2: "last us \<notin> set vs" "last us \<noteq> n" using d n(3) by auto
  have "distinct (us0 @ [last us])" using d u(1) by (metis distinct_append)
  then have lu: "last us \<notin> set us0" "last us \<notin> set vs" "last us \<noteq> n" using lu2 by simp_all
  have nn: "n \<notin> set us0" "n \<notin> set vs" using n(3) u(1) by (metis Un_iff set_append, simp)
  have "lseg ?h' (hd us) us0 (last us)" "lseg ?h' (head_of vs) vs NULL"
    using u lu nn by (simp_all add: linked_in_def)
  then have "lseg ?h' (hd us) (us0 @ last us # n # vs) NULL"
    using u lu n by (auto simp: linked_in_def)
  moreover have eq: "us0 @ last us # n # vs = us @ n # vs" using u(1) by (metis append.assoc append_Cons append_Nil)
  ultimately have 1: "lseg ?h' (hd us) (us @ n # vs) NULL" by simp
  have sn: "same_nodes UNIV h ?h'" by (rule linked_in_same [OF n(1) u(2)])
  have al: "\<exists>e. h a = Some e \<and> node_ok e" if "a \<in> set (us @ vs) \<or> a = n" for a
    using that l n by (auto simp: list_ok_def)
  have rk: "rkey ?h' a = rkey h a" if "a \<in> set (us @ n # vs)" for a
    by (rule same_rkey [OF sn]) (use al [of a] that in auto)
  have "sorted (map (rkey h) (us @ n # vs))"
    using l k n(1) by (fastforce simp: list_ok_def sorted_append rkey_def)
  then have 2: "sorted (map (rkey ?h') (us @ n # vs))" using rk by (metis map_cong)
  have 3: "\<exists>e. ?h' a = Some e \<and> node_ok e" if "a \<in> set (us @ n # vs)" for a
    by (rule same_node_ok [OF sn]) (use al [of a] that in auto)
  show ?thesis using 1 2 3 us d n(3) by (auto simp: list_ok_def)
qed

lemma inv_linked_in:
  assumes inv: "sohash_inv E st (us @ vs)" and us: "us \<noteq> []" and n: "n \<in> E" "nodes st n = Some e" "node_ok e"
    and k: "\<forall>u\<in>set us. rkey (nodes st) u \<le> reverse_so_key e" "\<forall>v\<in>set vs. reverse_so_key e \<le> rkey (nodes st) v"
  shows "sohash_inv (E - {n}) (st\<lparr>nodes := linked_in (nodes st) us vs n\<rparr>) (us @ n # vs)"
    "same_nodes UNIV (nodes st) (linked_in (nodes st) us vs n)"
proof -
  let ?h = "nodes st"
  have ok: "list_ok ?h (us @ vs)" "store_ok ?h (hp_list st) (us @ vs) E (kmem_next st)" using inv by (auto simp: sohash_inv_def)
  have nn: "n \<notin> set (us @ vs)" "n \<noteq> NULL" "even n" using ok(2) n by (auto simp: store_ok_def)
  have "last us \<in> set (us @ vs)" using us by simp
  then obtain u where u: "?h (last us) = Some u" using ok(1) unfolding list_ok_def by blast
  show sn: "same_nodes UNIV ?h (linked_in ?h us vs n)" by (rule linked_in_same [OF n(2) u])
  have "list_ok (linked_in ?h us vs n) (us @ n # vs)" by (rule list_ok_linked_in [OF ok(1) us n(2,3) nn k])
  moreover have "buckets_ok (hashtable st) (linked_in ?h us vs n) (us @ n # vs)"
  proof (rule buckets_ok_same [of "hashtable st" ?h "us @ vs"])
    show "buckets_ok (hashtable st) ?h (us @ vs)" using inv by (simp add: sohash_inv_def)
    show "same_nodes (set (us @ vs)) ?h (linked_in ?h us vs n)" by (rule linked_in_same [OF n(2) u])
  qed (use us in auto)
  moreover have "store_ok (linked_in ?h us vs n) (hp_list st) (us @ n # vs) (E - {n}) (kmem_next st)"
    using ok(2) linked_in_same(2) [of ?h n e us u vs] n u unfolding store_ok_def by auto
  ultimately show "sohash_inv (E - {n}) (st\<lparr>nodes := linked_in ?h us vs n\<rparr>) (us @ n # vs)"
    using inv by (simp add: sohash_inv_def sizes_ok_def hps_ok_def)
qed

lemma hazards_of_inv: "sohash_inv E st xs \<Longrightarrow> i < length (hp_list st) \<Longrightarrow> hazard_ptrs (hp_list st ! i) = [NULL, NULL, NULL]"
  using inv_hp [of E st xs i] by (simp add: hp_ok_def)

text \<open>The two outcomes of an insertion; \<open>hp\<close> is the hazard reference afterwards, without hazard pointers.\<close>
lemma list_insert_effect:
  assumes inv: "sohash_inv E st xs" and i: "i < length (hp_list st)" and n: "n \<in> E" "nodes st n = Some e" "node_ok e"
    and b: "read_loc st loc = Some a" "a \<in> set xs" "rkey (nodes st) a < reverse_so_key e"
  obtains (exists) c hp where "sohash_list_insert loc n arg i st = Some ((EEXIST, c), set_hp i hp st)" "c \<in> set xs"
      "found_at st (reverse_so_key e) (entry_type e) arg c" "cur hp = c" "sohash_inv E (set_hp i hp st) xs"
      "hp_state hp = hp_state (hp_list st ! i)"
    | (new) us vs hp where "sohash_list_insert loc n arg i st = Some ((0, NULL), set_hp i hp (st\<lparr>nodes := linked_in (nodes st) us vs n\<rparr>))"
      "xs = us @ vs" "us \<noteq> []" "\<not> (\<exists>c\<in>set xs. found_at st (reverse_so_key e) (entry_type e) arg c)"
      "sohash_inv (E - {n}) (set_hp i hp (st\<lparr>nodes := linked_in (nodes st) us vs n\<rparr>)) (us @ n # vs)"
      "same_nodes UNIV (nodes st) (linked_in (nodes st) us vs n)"
      "hp_state hp = hp_state (hp_list st ! i)"
proof -
  let ?k = "reverse_so_key e"
  have l: "list_ok (nodes st) xs" using inv by (simp add: sohash_inv_def)
  obtain us vs hp where se: "search_end st xs ?k (entry_type e) arg i us vs hp"
    and f: "sohash_list_find loc ?k (entry_type e) arg i st =
      Some (if \<exists>c\<in>set xs. found_at st ?k (entry_type e) arg c then hd vs else NULL, set_hp i hp st)"
    using list_find_end [OF l hazards_of_inv [OF inv i] b] by blast
  note se' = se [unfolded search_end_def]
  have ho: "hp_ok (clear_hazards hp)" using inv_hp [OF inv i] se' by (simp add: hp_ok_def)
  show thesis
  proof (cases "\<exists>c\<in>set xs. found_at st ?k (entry_type e) arg c")
    case True
    then have v: "vs \<noteq> []" "found_at st ?k (entry_type e) arg (hd vs)" using se' by auto
    then have vx: "hd vs \<in> set xs" using se' by auto
    then have "hd vs \<noteq> NULL" using l lseg_nodes unfolding list_ok_def by blast
    then have "sohash_list_insert loc n arg i st = Some ((EEXIST, hd vs), set_hp i (clear_hazards hp) st)"
      using f True n(2) i by (subst sohash_list_insert.simps) (simp add: reset_hazards_set_hp)
    moreover have "cur hp = hd vs" using se' v by (cases vs) (auto simp: head_of_def)
    moreover have "sohash_inv E (set_hp i (clear_hazards hp) st) xs"
      by (rule inv_set_hp [OF inv i _ ho]) (use se' in simp)
    ultimately show ?thesis using v vx se' by (intro exists [of "hd vs" "clear_hazards hp"]) auto
  next
    case False
    have xs: "xs = us @ vs" "us \<noteq> []" using se' by auto
    have k: "\<forall>u\<in>set us. rkey (nodes st) u \<le> ?k" "\<forall>v\<in>set vs. ?k \<le> rkey (nodes st) v" using se' by auto
    have nn: "n \<notin> set xs" using inv n(1) by (auto simp: sohash_inv_def store_ok_def)
    obtain u where u: "nodes st (last us) = Some u" "hashentry_next u = head_of vs"
      using lseg_split_last [of "nodes st" "hd xs" us vs] l xs by (metis list_ok_def)
    have lu: "last us \<noteq> n" using nn xs by auto
    let ?st = "st\<lparr>nodes := linked_in (nodes st) us vs n\<rparr>"
    have "set_node (last us) (u\<lparr>hashentry_next := n\<rparr>) (set_node n (e\<lparr>hashentry_next := head_of vs\<rparr>) st) = ?st"
      using n(2) u(1) by (simp add: linked_in_def set_node_def)
    then have "sohash_list_insert loc n arg i st = Some ((0, NULL), set_hp i (clear_hazards hp) ?st)"
      using f False n(2) i u lu se'
      by (subst sohash_list_insert.simps)
        (simp add: MDKI_ATOMIC_CAS_PTR_def read_loc_def write_loc_def set_node_set_hp reset_hazards_set_hp)
    moreover have inv': "sohash_inv (E - {n}) ?st (us @ n # vs)" and sn: "same_nodes UNIV (nodes st) (linked_in (nodes st) us vs n)"
      using inv_linked_in [OF _ xs(2) n k] inv xs(1) by simp_all
    moreover have "sohash_inv (E - {n}) (set_hp i (clear_hazards hp) ?st) (us @ n # vs)"
      by (rule inv_set_hp [OF inv' _ _ ho]) (use i se' in simp_all)
    ultimately show ?thesis using False xs se' by (intro new [of "clear_hazards hp" us vs]) auto
  qed
qed

section \<open>Reclaiming nodes\<close>

text \<open>The data of the callers: what was handed to the free callback and what nodes still hold.\<close>
definition node_data :: "store \<Rightarrow> addr multiset" where
  "node_data h = filter_mset (\<lambda>d. d \<noteq> NULL) (image_mset (\<lambda>a. data (the (h a))) (mset_set (dom h)))"

definition owned_data :: "sohash_table \<Rightarrow> addr multiset" where
  "owned_data st = mset (data_freed st) + node_data (nodes st)"

lemma node_data_same:
  assumes s: "same_nodes UNIV h h'"
  shows "node_data h' = node_data h"
proof -
  have o: "map_option strip (h a) = map_option strip (h' a)" for a using s by (simp add: same_nodes_def)
  have d: "dom h' = dom h" using o by (auto simp: dom_def) (metis map_option_is_None not_None_eq)+
  have "data (the (h' a)) = data (the (h a))" if "a \<in> dom h" for a
    using that by (auto intro: same_nodesD [OF s UNIV_I, of a])
  then have "image_mset (\<lambda>a. data (the (h' a))) (mset_set (dom h)) = image_mset (\<lambda>a. data (the (h a))) (mset_set (dom h))"
    by (cases "finite (dom h)") (auto intro: image_mset_cong)
  then show ?thesis by (simp add: node_data_def d)
qed

lemma node_data_remove:
  assumes "finite (dom h)" "h a = Some e"
  shows "node_data h = (if data e = NULL then {#} else {#data e#}) + node_data (h(a := None))"
proof -
  have "mset_set (dom h) = add_mset a (mset_set (dom h - {a}))" using assms by (intro mset_set.remove) auto
  moreover have "image_mset (\<lambda>b. data (the (h b))) (mset_set (dom h - {a})) =
      image_mset (\<lambda>b. data (the ((h(a := None)) b))) (mset_set (dom h - {a}))"
    using assms by (intro image_mset_cong) auto
  ultimately show ?thesis using assms by (simp add: node_data_def)
qed

lemma free_node_effect:
  assumes "nodes st a = Some e" "finite (dom (nodes st))"
  obtains df where "sohash_free_node a st = Some (st\<lparr>nodes := (nodes st)(a := None), data_freed := df\<rparr>)"
    "owned_data (st\<lparr>nodes := (nodes st)(a := None), data_freed := df\<rparr>) = owned_data st"
proof
  let ?df = "if data e \<noteq> NULL then data e # data_freed st else data_freed st"
  show "sohash_free_node a st = Some (st\<lparr>nodes := (nodes st)(a := None), data_freed := ?df\<rparr>)"
    using assms by (simp add: sohash_free_node_def sohash_free_data_def)
  show "owned_data (st\<lparr>nodes := (nodes st)(a := None), data_freed := ?df\<rparr>) = owned_data st"
    using node_data_remove [OF assms(2,1)] by (simp add: owned_data_def)
qed

text \<open>The walk over the retired nodes: a node stays exactly when its key is searched for and found.\<close>
lemma scan_rlist_effect:
  assumes "distinct as" "set as \<subseteq> dom (nodes st)" "i < length (hp_list st)" "finite (dom (nodes st))"
    and "\<And>a. a \<in> set as \<Longrightarrow> kp a = sohash_search_arr plist (rkey (nodes st) a) 0 (int (length plist) - 1)"
  shows "\<exists>h' df. scan_rlist plist i as st =
      Some (st\<lparr>hp_list := (hp_list st)[i := (hp_list st ! i)\<lparr>rlist := rev (filter kp as) @ rlist (hp_list st ! i),
                rcount := rcount (hp_list st ! i) + of_nat (length (filter kp as))\<rparr>],
              nodes := h', data_freed := df\<rparr>)
    \<and> dom h' = dom (nodes st) - {a \<in> set as. \<not> kp a} \<and> same_nodes (dom h') (nodes st) h'
    \<and> (\<forall>a. a \<notin> set as \<longrightarrow> h' a = nodes st a)
    \<and> mset df + node_data h' = owned_data st"
  using assms
proof (induction as arbitrary: st)
  case Nil
  have "st = st\<lparr>hp_list := (hp_list st)[i := hp_list st ! i], nodes := nodes st, data_freed := data_freed st\<rparr>" by simp
  then show ?case
    by (intro exI [of _ "nodes st"] exI [of _ "data_freed st"]) (simp add: owned_data_def)
next
  case (Cons a as)
  obtain e where e: "nodes st a = Some e" using Cons.prems(2) by auto
  have ka: "kp a = sohash_search_arr plist (reverse_so_key e) 0 (int (length plist) - 1)"
    using Cons.prems(5) [of a] e by (simp add: rkey_def)
  let ?hp = "hp_list st ! i"
  define st1 where "st1 = (if kp a then set_hp i (?hp\<lparr>rlist := a # rlist ?hp, rcount := rcount ?hp + 1\<rparr>)
                      (set_node a (e\<lparr>hashentry_next := head_of (rlist ?hp)\<rparr>) st) else the (sohash_free_node a st))"
  obtain df1 where fr: "sohash_free_node a st = Some (st\<lparr>nodes := (nodes st)(a := None), data_freed := df1\<rparr>)"
    "owned_data (st\<lparr>nodes := (nodes st)(a := None), data_freed := df1\<rparr>) = owned_data st"
    by (rule free_node_effect [OF e Cons.prems(4)])
  have step: "scan_rlist plist i (a # as) st = scan_rlist plist i as st1"
    using e ka fr by (cases "kp a") (simp_all add: st1_def Let_def)
  have n1: "b \<noteq> a \<Longrightarrow> nodes st1 b = nodes st b" for b using fr by (simp add: st1_def)
  have na: "kp a \<Longrightarrow> nodes st1 a = Some (e\<lparr>hashentry_next := head_of (rlist ?hp)\<rparr>)" "\<not> kp a \<Longrightarrow> nodes st1 a = None"
    using fr by (simp_all add: st1_def)
  have d1: "dom (nodes st1) = dom (nodes st) - (if kp a then {} else {a})"
    using fr e by (auto simp: st1_def)
  have s1: "kp a \<Longrightarrow> same_nodes UNIV (nodes st) (nodes st1)" using n1 na(1) e by (auto simp: same_nodes_def) (metis option.map(2) strip_upd(1))
  have own: "owned_data st1 = owned_data st"
  proof (cases "kp a")
    case True
    then have "node_data (nodes st1) = node_data (nodes st)" by (intro node_data_same s1)
    then show ?thesis using True by (simp add: owned_data_def st1_def)
  qed (use fr in \<open>simp add: st1_def\<close>)
  moreover have "hp_list st1 = (if kp a then (hp_list st)[i := ?hp\<lparr>rlist := a # rlist ?hp, rcount := rcount ?hp + 1\<rparr>] else hp_list st)"
    using fr by (simp add: st1_def)
  moreover have "rkey (nodes st1) b = rkey (nodes st) b" if "b \<in> set as" for b
    using n1 [of b] that Cons.prems(1) by (cases "b = a") (auto simp: rkey_def)
  ultimately have "\<exists>h' df. scan_rlist plist i as st1 =
      Some (st1\<lparr>hp_list := (hp_list st1)[i := (hp_list st1 ! i)\<lparr>rlist := rev (filter kp as) @ rlist (hp_list st1 ! i),
                rcount := rcount (hp_list st1 ! i) + of_nat (length (filter kp as))\<rparr>],
              nodes := h', data_freed := df\<rparr>)
    \<and> dom h' = dom (nodes st1) - {a \<in> set as. \<not> kp a} \<and> same_nodes (dom h') (nodes st1) h'
    \<and> (\<forall>a. a \<notin> set as \<longrightarrow> h' a = nodes st1 a)
    \<and> mset df + node_data h' = owned_data st1"
    by (intro Cons.IH) (use Cons.prems d1 in auto)
  then obtain h' df where r: "scan_rlist plist i as st1 =
      Some (st1\<lparr>hp_list := (hp_list st1)[i := (hp_list st1 ! i)\<lparr>rlist := rev (filter kp as) @ rlist (hp_list st1 ! i),
                rcount := rcount (hp_list st1 ! i) + of_nat (length (filter kp as))\<rparr>],
              nodes := h', data_freed := df\<rparr>)"
    and dh: "dom h' = dom (nodes st1) - {a \<in> set as. \<not> kp a}" and sh: "same_nodes (dom h') (nodes st1) h'"
    and out: "\<forall>a. a \<notin> set as \<longrightarrow> h' a = nodes st1 a" and ow: "mset df + node_data h' = owned_data st1"
    by blast
  have eqn: "st1\<lparr>hp_list := (hp_list st1)[i := (hp_list st1 ! i)\<lparr>rlist := rev (filter kp as) @ rlist (hp_list st1 ! i),
                rcount := rcount (hp_list st1 ! i) + of_nat (length (filter kp as))\<rparr>],
              nodes := h', data_freed := df\<rparr> =
      st\<lparr>hp_list := (hp_list st)[i := ?hp\<lparr>rlist := rev (filter kp (a # as)) @ rlist ?hp,
                rcount := rcount ?hp + of_nat (length (filter kp (a # as)))\<rparr>],
              nodes := h', data_freed := df\<rparr>"
    using fr(1) Cons.prems(3) by (cases "kp a") (simp_all add: st1_def set_hp_def set_node_def add.assoc)
  have "dom h' = dom (nodes st) - {b \<in> set (a # as). \<not> kp b}" using dh d1 by auto
  moreover have "same_nodes (dom h') (nodes st) h'"
  proof (cases "kp a")
    case False
    then have "same_nodes (dom h') (nodes st) (nodes st1)" using dh d1 n1 by (auto simp: same_nodes_def)
    then show ?thesis using sh by (rule same_nodes_trans) simp
  qed (rule same_nodes_trans [OF _ sh subset_refl], use s1 in \<open>simp add: same_nodes_def\<close>)
  moreover have "\<forall>b. b \<notin> set (a # as) \<longrightarrow> h' b = nodes st b" using out n1 by simp
  moreover have "mset df + node_data h' = owned_data st" using ow own by simp
  ultimately show ?case unfolding step r eqn by blast
qed

text \<open>All the allocations to come succeed.\<close>
definition mem_ok :: "sohash_table \<Rightarrow> bool" where "mem_ok st \<longleftrightarrow> list_all id (kmem st)"

lemma kmem_alloc_ok: "mem_ok st \<Longrightarrow> \<exists>oks. KMEM_ALLOC st = (True, st\<lparr>kmem := oks\<rparr>) \<and> list_all id oks"
  by (cases "kmem st") (auto simp: KMEM_ALLOC_def mem_ok_def intro: exI [of _ "[]"])

lemma those_map_Some: "(\<And>a. a \<in> set as \<Longrightarrow> f a = Some (g a)) \<Longrightarrow> those (map f as) = Some (map g as)"
  by (induction as) auto

lemma hazard_list_length: "(\<And>hp. hp \<in> set hps \<Longrightarrow> length (hazard_ptrs hp) = 3) \<Longrightarrow> length (hazard_list hps) \<le> 3 * length hps"
proof -
  assume l: "\<And>hp. hp \<in> set hps \<Longrightarrow> length (hazard_ptrs hp) = 3"
  have "length (hazard_list hps) \<le> length (concat (map hazard_ptrs (rev hps)))" by (simp add: hazard_list_def del: length_concat)
  also have "\<dots> = 3 * length hps" using l by (induction hps) (auto simp: length_concat)
  finally show ?thesis .
qed

text \<open>A scan under way: hazard pointers of the reference \<open>i\<close> are set, to nodes of the store.\<close>
definition hazards_in :: "sohash_table \<Rightarrow> bool" where
  "hazards_in st \<longleftrightarrow> hazard_ptrs_total st = 3 * int (length (hp_list st)) \<and> (\<forall>hp\<in>set (hp_list st).
     length (hazard_ptrs hp) = 3 \<and> (\<forall>a\<in>set (hazard_ptrs hp). a = NULL \<or> even a \<and> a \<in> dom (nodes st)))"

lemma hprec_scan_effect:
  assumes m: "mem_ok st" and i: "i < length (hp_list st)" and hz: "hazards_in st" and f: "finite (dom (nodes st))"
    and r: "distinct (rlist (hp_list st ! i))" "set (rlist (hp_list st ! i)) \<subseteq> dom (nodes st)"
  obtains kept h' df oks where
    "sohash_hprec_scan i st = Some (st\<lparr>kmem := oks, hp_list := (hp_list st)[i := (hp_list st ! i)\<lparr>rlist := kept, rcount := of_nat (length kept)\<rparr>],
       nodes := h', data_freed := df\<rparr>)"
    "list_all id oks" "distinct kept" "set kept \<subseteq> set (rlist (hp_list st ! i))"
    "dom h' = dom (nodes st) - (set (rlist (hp_list st ! i)) - set kept)" "same_nodes (dom h') (nodes st) h'"
    "\<forall>a. a \<notin> set (rlist (hp_list st ! i)) \<longrightarrow> h' a = nodes st a"
    "mset df + node_data h' = owned_data st"
    "\<forall>a\<in>set (rlist (hp_list st ! i)). (\<exists>hp\<in>set (hp_list st). \<exists>b\<in>set (hazard_ptrs hp). b \<noteq> NULL \<and> rkey (nodes st) b = rkey (nodes st) a)
       \<longrightarrow> a \<in> set kept"
proof -
  obtain oks where oks: "KMEM_ALLOC st = (True, st\<lparr>kmem := oks\<rparr>)" "list_all id oks" using kmem_alloc_ok [OF m] by blast
  let ?hp = "hp_list st ! i"
  let ?L = "hazard_list (hp_list st)"
  define keys where "keys = map (rkey (nodes st)) ?L"
  define total where "total = nat (hazard_ptrs_total st)"
  have L: "a \<noteq> NULL \<and> even a \<and> a \<in> dom (nodes st)" if "a \<in> set ?L" for a
    using that hz by (auto simp: hazard_list_def hazards_in_def)
  have "those (map (\<lambda>a. map_option reverse_so_key (nodes st (SOHASH_UNSET_DELETE_BIT a))) ?L) = Some keys"
    unfolding keys_def by (rule those_map_Some) (use L in \<open>fastforce simp: rkey_def\<close>)
  then have pk: "plist_keys (st\<lparr>kmem := oks\<rparr>) = Some keys" by (simp add: plist_keys_def)
  have le: "length keys \<le> total"
    using hazard_list_length [of "hp_list st"] hz by (auto simp: keys_def total_def hazards_in_def)
  define ks where "ks = keys @ replicate (total - length keys) 0"
  define kp where "kp a \<longleftrightarrow> rkey (nodes st) a \<in> set ks" for a
  define kept where "kept = rev (filter kp (rlist ?hp))"
  let ?st1 = "set_hp i (?hp\<lparr>rlist := [], rcount := 0\<rparr>) (st\<lparr>kmem := oks\<rparr>)"
  have sc: "sohash_hprec_scan i st = scan_rlist (sohash_sort_arr ks) i (rlist ?hp) ?st1"
    using oks(1) pk le by (simp add: sohash_hprec_scan_def Let_def ks_def total_def)
  have "\<exists>h' df. scan_rlist (sohash_sort_arr ks) i (rlist ?hp) ?st1 =
      Some (?st1\<lparr>hp_list := (hp_list ?st1)[i := (hp_list ?st1 ! i)\<lparr>rlist := rev (filter kp (rlist ?hp)) @ rlist (hp_list ?st1 ! i),
                rcount := rcount (hp_list ?st1 ! i) + of_nat (length (filter kp (rlist ?hp)))\<rparr>],
              nodes := h', data_freed := df\<rparr>)
    \<and> dom h' = dom (nodes ?st1) - {a \<in> set (rlist ?hp). \<not> kp a} \<and> same_nodes (dom h') (nodes ?st1) h'
    \<and> (\<forall>a. a \<notin> set (rlist ?hp) \<longrightarrow> h' a = nodes ?st1 a) \<and> mset df + node_data h' = owned_data ?st1"
    by (intro scan_rlist_effect)
      (use r i f in \<open>simp_all add: kp_def search_sort_arr [symmetric] sort_arr_sort\<close>)
  then obtain h' df where s: "scan_rlist (sohash_sort_arr ks) i (rlist ?hp) ?st1 =
      Some (st\<lparr>kmem := oks, hp_list := (hp_list st)[i := ?hp\<lparr>rlist := kept, rcount := of_nat (length kept)\<rparr>],
              nodes := h', data_freed := df\<rparr>)"
    and h: "dom h' = dom (nodes st) - {a \<in> set (rlist ?hp). \<not> kp a}" "same_nodes (dom h') (nodes st) h'"
      "\<forall>a. a \<notin> set (rlist ?hp) \<longrightarrow> h' a = nodes st a" "mset df + node_data h' = owned_data st"
    using i by (auto simp: set_hp_def kept_def owned_data_def)
  have "kp a" if "hp \<in> set (hp_list st)" "b \<in> set (hazard_ptrs hp)" "b \<noteq> NULL" "rkey (nodes st) b = rkey (nodes st) a" for a b hp
  proof -
    have "b \<in> set ?L" using that by (auto simp: hazard_list_def)
    then have "rkey (nodes st) b \<in> set keys" by (simp add: keys_def)
    then show ?thesis using that(4) by (simp add: kp_def ks_def)
  qed
  then show thesis using sc s h oks(2) r(1) by (intro that [of df h' kept oks]) (auto simp: kept_def)
qed

section \<open>Deletion from the list\<close>

definition unlinked_at :: "store \<Rightarrow> addr list \<Rightarrow> addr \<Rightarrow> addr \<Rightarrow> store" where
  "unlinked_at h us c r =
    h(c \<mapsto> (the (h c))\<lparr>hashentry_next := r\<rparr>, last us \<mapsto> (the (h (last us)))\<lparr>hashentry_next := hashentry_next (the (h c))\<rparr>)"

lemma unlinked_same:
  assumes "h c = Some e" "h (last us) = Some u" "last us \<noteq> c"
  shows "same_nodes A h (unlinked_at h us c r)" "dom (unlinked_at h us c r) = dom h"
  using assms by (auto simp: unlinked_at_def same_nodes_def split: if_splits)

lemma list_ok_unlinked:
  assumes l: "list_ok h (us @ c # ws)" and us: "us \<noteq> []"
  shows "list_ok (unlinked_at h us c r) (us @ ws)" "same_nodes A h (unlinked_at h us c r)" "dom (unlinked_at h us c r) = dom h"
proof -
  let ?h' = "unlinked_at h us c r"
  have ls: "lseg h (hd us) (us @ c # ws) NULL" using l us by (simp add: list_ok_def)
  obtain us0 u where u: "us = us0 @ [last us]" "h (last us) = Some u" "lseg h (hd us) us0 (last us)" "lseg h (head_of (c # ws)) (c # ws) NULL"
    "last us \<noteq> NULL" "even (last us)" by (rule lseg_split_last [OF ls us])
  obtain e where e: "h c = Some e" "lseg h (hashentry_next e) ws NULL" using u(4) by (auto simp: head_of_def)
  have d: "distinct (us @ c # ws)" using l by (simp add: list_ok_def)
  have "last us \<in> set us" using us by simp
  then have lu2: "last us \<notin> set ws" "last us \<noteq> c" using d by auto
  have "distinct (us0 @ [last us])" using d u(1) by (metis distinct_append)
  then have lu: "last us \<notin> set us0" by simp
  have cc: "c \<notin> set us0" "c \<notin> set ws" using d u(1) by (metis Un_iff disjoint_iff distinct_append list.set_intros(1) set_append, simp)
  show sn: "same_nodes A h ?h'" "dom ?h' = dom h" for A by (rule unlinked_same [OF e(1) u(2) lu2(2)])+
  have "lseg ?h' (hd us) us0 (last us)" "lseg ?h' (hashentry_next e) ws NULL"
    using u e lu lu2 cc by (simp_all add: unlinked_at_def)
  then have "lseg ?h' (hd us) (us0 @ last us # ws) NULL" using u e lu2 by (auto simp: unlinked_at_def)
  moreover have "us0 @ last us # ws = us @ ws" using u(1) by (metis append.assoc append_Cons append_Nil)
  ultimately have "lseg ?h' (hd us) (us @ ws) NULL" by simp
  moreover have "list_ok h (us @ ws) \<or> \<not> lseg h (hd us) (us @ ws) NULL"
    using l us by (auto simp: list_ok_def sorted_append)
  moreover have al: "h a \<noteq> None" if "a \<in> set (us @ ws)" for a using that l unfolding list_ok_def by fastforce
  moreover have "sorted (map (rkey ?h') (us @ ws))"
  proof -
    have "map (rkey ?h') (us @ ws) = map (rkey h) (us @ ws)" using same_rkey [OF sn(1) [of UNIV]] al by (intro map_cong) auto
    moreover have "sorted (map (rkey h) (us @ ws))" using l by (auto simp: list_ok_def sorted_append)
    ultimately show ?thesis by (simp only:)
  qed
  moreover have "\<exists>e. ?h' a = Some e \<and> node_ok e" if "a \<in> set (us @ ws)" for a
    using same_node_ok [OF sn(1) [of UNIV], of a] that l unfolding list_ok_def by simp
  ultimately show "list_ok ?h' (us @ ws)" using us d by (auto simp: list_ok_def)
qed

lemma inv_unlinked:
  assumes inv: "sohash_inv E st (us @ c # ws)" and us: "us \<noteq> []" and c: "is_regular (nodes st) c"
  shows "sohash_inv (insert c E) (st\<lparr>nodes := unlinked_at (nodes st) us c r\<rparr>) (us @ ws)" "c \<notin> E"
proof -
  let ?h' = "unlinked_at (nodes st) us c r"
  have l: "list_ok (nodes st) (us @ c # ws)" and so: "store_ok (nodes st) (hp_list st) (us @ c # ws) E (kmem_next st)"
    using inv by (auto simp: sohash_inv_def)
  note ok = list_ok_unlinked [OF l us]
  show "c \<notin> E" using so by (auto simp: store_ok_def)
  have "buckets_ok (hashtable st) ?h' (us @ ws)"
  proof (rule buckets_ok_same [of "hashtable st" "nodes st" "us @ c # ws"])
    show "buckets_ok (hashtable st) (nodes st) (us @ c # ws)" using inv by (simp add: sohash_inv_def)
    show "same_nodes (set (us @ c # ws)) (nodes st) ?h'" by (rule ok(2))
    show "a \<in> set (us @ ws)" if "a \<in> set (us @ c # ws)" "sentinel_at (nodes st) a n" for a n
      using that c by (auto simp: sentinel_at_def is_regular_def)
  qed (use us in auto)
  moreover have "store_ok ?h' (hp_list st) (us @ ws) (insert c E) (kmem_next st)"
    using so l ok(3) unfolding store_ok_def list_ok_def by auto
  ultimately show "sohash_inv (insert c E) (st\<lparr>nodes := ?h'\<rparr>) (us @ ws)"
    using inv ok(1) by (simp add: sohash_inv_def sizes_ok_def hps_ok_def)
qed

lemma retired_update:
  assumes "i < length hps"
  defines "R \<equiv> (\<Union>j\<in>{..<length hps} - {i}. set (rlist (hps ! j)))"
  shows "retired (hps[i := hp]) = R \<union> set (rlist hp)" "retired hps = R \<union> set (rlist (hps ! i))"
proof -
  have r: "retired hps' = (\<Union>j\<in>{..<length hps'}. set (rlist (hps' ! j)))" for hps' by (auto simp: retired_def set_conv_nth)
  have s: "{..<length hps} = insert i ({..<length hps} - {i})" using assms(1) by auto
  have "(\<Union>j\<in>{..<length hps} - {i}. set (rlist (hps[i := hp] ! j))) = R" unfolding R_def by (intro SUP_cong) auto
  moreover have "retired (hps[i := hp]) = (\<Union>j\<in>insert i ({..<length hps} - {i}). set (rlist (hps[i := hp] ! j)))"
    unfolding s [symmetric] by (simp add: r)
  ultimately show "retired (hps[i := hp]) = R \<union> set (rlist hp)"
    unfolding UN_insert nth_list_update_eq [OF assms(1)] by blast
  have "retired hps = (\<Union>j\<in>insert i ({..<length hps} - {i}). set (rlist (hps ! j)))" unfolding s [symmetric] by (rule r)
  then show "retired hps = R \<union> set (rlist (hps ! i))" unfolding UN_insert R_def by blast
qed

text \<open>The node taken out goes from the loose nodes to the retired ones; a scan may free others of
  the same reference.\<close>
lemma inv_retired:
  assumes inv: "sohash_inv (insert c E) st xs" and c: "c \<notin> E" and i: "i < length (hp_list st)"
    and k: "distinct kept" "set kept \<subseteq> insert c (set (rlist (hp_list st ! i)))" "rlist hp = kept" "hp_ok hp"
    and h: "dom h' = dom (nodes st) - (insert c (set (rlist (hp_list st ! i))) - set kept)" "same_nodes (dom h') (nodes st) h'"
      "\<forall>a. a \<notin> insert c (set (rlist (hp_list st ! i))) \<longrightarrow> h' a = nodes st a"
  shows "sohash_inv E (set_hp i hp (st\<lparr>kmem := oks, nodes := h', data_freed := df, deleted := dl\<rparr>)) xs"
proof -
  let ?rl = "set (rlist (hp_list st ! i))"
  let ?R = "(\<Union>j\<in>{..<length (hp_list st)} - {i}. set (rlist (hp_list st ! j)))"
  have so: "store_ok (nodes st) (hp_list st) xs (insert c E) (kmem_next st)" and l: "list_ok (nodes st) xs"
    using inv by (auto simp: sohash_inv_def)
  note ru = retired_update(1) [OF i, of hp] retired_update(2) [OF i]
  note sd = store_okD [OF so]
  have "?rl \<subseteq> retired (hp_list st)" using ru(2) by auto
  then have x: "set xs \<inter> insert c ?rl = {}" using so by (auto simp: store_ok_def)
  have hx: "h' a = nodes st a" if "a \<in> set xs" for a using h(3) x that by auto
  have sx: "same_nodes (set xs) (nodes st) h'" using hx by (simp add: same_nodes_def)
  have "lseg h' (hd xs) xs NULL" using l hx lseg_cong [of xs h' "nodes st"] by (simp add: list_ok_def)
  then have 1: "list_ok h' xs" by (rule list_ok_same [OF l sx])
  have 2: "buckets_ok (hashtable st) h' xs"
    by (rule buckets_ok_same [of _ "nodes st" xs]) (use inv sx in \<open>auto simp: sohash_inv_def\<close>)
  have cr: "insert c E \<inter> (set xs \<union> retired (hp_list st)) = {}" using so by (simp add: store_ok_def)
  have "set (rlist (hp_list st ! j)) \<inter> ?rl = {}" if "j < length (hp_list st)" "j \<noteq> i" for j
    using so i that unfolding store_ok_def by blast
  then have "?R \<inter> ?rl = {}" by blast
  then have dj: "?R \<inter> insert c ?rl = {}" "insert c E \<inter> ?rl = {}" using cr ru(2) by blast+
  have pair: "set (rlist (hp_list st ! j)) \<inter> set (rlist hp) = {}" if "j < length (hp_list st)" "j \<noteq> i" for j
    using that dj(1) k(2,3) by blast
  have "store_ok h' ((hp_list st)[i := hp]) xs E (kmem_next st)"
    unfolding store_ok_def
  proof (intro conjI)
    show "dom h' = set xs \<union> retired ((hp_list st)[i := hp]) \<union> E"
    proof -
      have "(set xs \<union> ?R \<union> E) \<inter> insert c ?rl = {}" using dj x c by auto
      moreover have "dom (nodes st) = (set xs \<union> ?R \<union> E) \<union> insert c ?rl" using sd(1) ru(2) by auto
      ultimately show ?thesis using k(2,3) h(1) ru(1) by auto
    qed
    show "set xs \<inter> retired ((hp_list st)[i := hp]) = {}" "E \<inter> (set xs \<union> retired ((hp_list st)[i := hp])) = {}"
      using sd(2,3) k(2,3) ru x c dj by auto
    show "\<forall>j<length ((hp_list st)[i := hp]). distinct (rlist ((hp_list st)[i := hp] ! j)) \<and>
       (\<forall>m<length ((hp_list st)[i := hp]). j \<noteq> m \<longrightarrow> set (rlist ((hp_list st)[i := hp] ! j)) \<inter> set (rlist ((hp_list st)[i := hp] ! m)) = {})"
    proof (intro allI impI conjI)
      fix j assume j: "j < length ((hp_list st)[i := hp])"
      then show "distinct (rlist ((hp_list st)[i := hp] ! j))" using sd(4) k by (cases "j = i") auto
      fix m assume "m < length ((hp_list st)[i := hp])" "j \<noteq> m"
      then show "set (rlist ((hp_list st)[i := hp] ! j)) \<inter> set (rlist ((hp_list st)[i := hp] ! m)) = {}"
        using j sd(5) pair by (cases "j = i"; cases "m = i") (simp_all add: Int_commute)
    qed
    show "\<forall>a\<in>dom h'. a \<noteq> NULL \<and> even a \<and> a < kmem_next st" "even (kmem_next st)" "kmem_next st \<noteq> NULL"
      using sd(6-8) h(1) by auto
  qed
  then show ?thesis using 1 2 inv hps_ok_set_hp [of "st\<lparr>kmem := oks, nodes := h', data_freed := df, deleted := dl\<rparr>" hp i] k(4)
    by (simp add: sohash_inv_def sizes_ok_def hps_ok_def)
qed

text \<open>Retiring a regular node that was just unlinked, while the table is in use: first which nodes stay.\<close>
lemma retire_kept:
  assumes inv: "sohash_inv (insert c E) st xs" and c: "nodes st c = Some e" "entry_type e = SOHASH_REGULAR_NODE"
    and i: "i < length (hp_list st)" and m: "mem_ok st" and a: "hash_state st = SOHASH_STATE_ACTIVE"
    and hp: "rlist hp = rlist (hp_list st ! i)" "rcount hp = rcount (hp_list st ! i)" "length (hazard_ptrs hp) = 3"
      "c \<in> set (hazard_ptrs hp)" "\<forall>a\<in>set (hazard_ptrs hp). a = NULL \<or> a \<in> dom (nodes st)"
    and e1: "e1\<lparr>hashentry_next := head_of (rlist hp)\<rparr> = e"
    and dl: "dl = (if fn_on_delete st then c # deleted st else deleted st)"
  obtains kept h' df oks where
    "sohash_retire_node c i (set_hp i hp (st\<lparr>nodes := (nodes st)(c \<mapsto> e1)\<rparr>)) =
       Some (set_hp i (hp\<lparr>rlist := kept, rcount := of_nat (length kept)\<rparr>) (st\<lparr>kmem := oks, nodes := h', data_freed := df, deleted := dl\<rparr>))"
    "list_all id oks" "distinct kept" "set kept \<subseteq> insert c (set (rlist (hp_list st ! i)))" "c \<in> set kept"
    "dom h' = dom (nodes st) - (insert c (set (rlist (hp_list st ! i))) - set kept)" "same_nodes (dom h') (nodes st) h'"
    "\<forall>a. a \<notin> insert c (set (rlist (hp_list st ! i))) \<longrightarrow> h' a = nodes st a"
    "mset df + node_data h' = owned_data st"
proof -
  let ?rl = "rlist (hp_list st ! i)"
  define hp2 where "hp2 = hp\<lparr>rlist := c # ?rl, rcount := rcount hp + 1\<rparr>"
  define st2 where "st2 = set_hp i hp2 (st\<lparr>deleted := dl\<rparr>)"
  have so: "store_ok (nodes st) (hp_list st) xs (insert c E) (kmem_next st)" and ho: "hps_ok st" using inv by (auto simp: sohash_inv_def)
  note sd = store_okD [OF so]
  have cr: "c \<notin> retired (hp_list st)" "set ?rl \<subseteq> retired (hp_list st)"
    using sd(3) i by (auto simp: retired_def)
  have ad: "\<forall>a\<in>dom (nodes st). a \<noteq> NULL \<and> even a" using sd(6) by blast
  have rl: "distinct (c # ?rl)" "insert c (set ?rl) \<subseteq> dom (nodes st)"
    using sd(1,4) i cr by auto
  have rc: "rcount hp2 = of_nat (length (c # ?rl))" using inv_hp [OF inv i] hp(2) by (simp add: hp2_def hp_ok_def)
  have et: "entry_type e1 = SOHASH_REGULAR_NODE" using e1 c(2) by auto
  have sw: "set_hp i hp2 (st\<lparr>deleted := d\<rparr>) = (set_hp i hp2 st)\<lparr>deleted := d\<rparr>" for d by (simp add: set_hp_def)
  have "(nodes st)(c \<mapsto> e) = nodes st" using c(1) by auto
  then have nw: "set_hp i hp2 (set_node c e (set_hp i hp (st\<lparr>nodes := (nodes st)(c \<mapsto> e1)\<rparr>))) = set_hp i hp2 st"
    by (simp add: set_hp_def set_node_def)
  have hp2': "hp\<lparr>rlist := c # rlist hp, rcount := rcount hp + 1\<rparr> = hp2" by (simp add: hp2_def hp(1))
  have r2: "rcount hp2 = rcount hp + 1" by (simp add: hp2_def)
  have d2: "(set_hp i hp2 st)\<lparr>deleted := deleted st\<rparr> = set_hp i hp2 st" by (simp add: set_hp_def)
  have rt: "sohash_retire_node c i (set_hp i hp (st\<lparr>nodes := (nodes st)(c \<mapsto> e1)\<rparr>)) =
      (if rcount hp2 \<ge> word_of_int (hazard_ptrs_total st) then sohash_hprec_scan i st2 else Some st2)"
    using i a et unfolding sohash_retire_node_def st2_def dl sw
    by (cases "fn_on_delete st") (simp_all add: Let_def sohash_consts e1 hp2' nw r2 d2)
  have s2: "hp_list st2 = (hp_list st)[i := hp2]" "hp_list st2 ! i = hp2" "nodes st2 = nodes st" "kmem st2 = kmem st"
    "owned_data st2 = owned_data st" "rlist hp2 = c # ?rl" "hazard_ptrs hp2 = hazard_ptrs hp"
    using i by (simp_all add: st2_def hp2_def owned_data_def)
  show thesis
  proof (cases "rcount hp2 \<ge> word_of_int (hazard_ptrs_total st)")
    case False
    have "st2 = set_hp i (hp\<lparr>rlist := c # ?rl, rcount := of_nat (length (c # ?rl))\<rparr>)
        (st\<lparr>kmem := kmem st, nodes := nodes st, data_freed := data_freed st, deleted := dl\<rparr>)"
      using rc by (simp add: st2_def hp2_def add.commute)
    then show ?thesis using False rt rl m
      by (intro that [of "c # ?rl" "data_freed st" "nodes st" "kmem st"]) (auto simp: mem_ok_def owned_data_def)
  next
    case True
    have hz: "hazards_in st2"
      unfolding hazards_in_def
    proof (intro conjI ballI)
      show "hazard_ptrs_total st2 = 3 * int (length (hp_list st2))" using ho by (simp add: hps_ok_def st2_def)
      fix hp' assume "hp' \<in> set (hp_list st2)"
      then consider "hp' = hp2" | "hp' \<in> set (hp_list st)" using set_update_subset_insert [of "hp_list st" i hp2] s2(1) by auto
      then have "length (hazard_ptrs hp') = 3 \<and> (\<forall>a\<in>set (hazard_ptrs hp'). a = NULL \<or> a \<in> dom (nodes st))"
        using hp(3,5) s2(7) ho by cases (auto simp: hps_ok_def hp_ok_def)
      then show "length (hazard_ptrs hp') = 3" "\<And>a. a \<in> set (hazard_ptrs hp') \<Longrightarrow> a = NULL \<or> even a \<and> a \<in> dom (nodes st2)"
        using ad s2(3) by auto
    qed
    have p: "mem_ok st2" "i < length (hp_list st2)" "finite (dom (nodes st2))" "distinct (rlist (hp_list st2 ! i))"
      "set (rlist (hp_list st2 ! i)) \<subseteq> dom (nodes st2)"
      using m i sd(9) rl unfolding mem_ok_def s2(2-4,6) by (simp_all add: s2(1))
    obtain kept h' df oks where k:
      "sohash_hprec_scan i st2 = Some (st2\<lparr>kmem := oks, hp_list := (hp_list st2)[i := hp2\<lparr>rlist := kept, rcount := of_nat (length kept)\<rparr>],
         nodes := h', data_freed := df\<rparr>)"
      "list_all id oks" "distinct kept" "set kept \<subseteq> insert c (set ?rl)"
      "dom h' = dom (nodes st) - (insert c (set ?rl) - set kept)" "same_nodes (dom h') (nodes st) h'"
      "\<forall>a. a \<notin> insert c (set ?rl) \<longrightarrow> h' a = nodes st a" "mset df + node_data h' = owned_data st"
      "\<forall>a\<in>insert c (set ?rl). (\<exists>hp\<in>set (hp_list st2). \<exists>b\<in>set (hazard_ptrs hp). b \<noteq> NULL \<and> rkey (nodes st) b = rkey (nodes st) a) \<longrightarrow> a \<in> set kept"
      by (rule hprec_scan_effect [OF p(1,2) hz p(3-5), unfolded s2(2,3,5,6) list.set])
    have "hp2 \<in> set (hp_list st2)" using i by (simp add: s2 set_update_memI)
    moreover have "c \<in> set (hazard_ptrs hp2)" "c \<noteq> NULL" using hp(4) s2(7) ad c(1) by auto
    ultimately have "\<exists>hp\<in>set (hp_list st2). \<exists>b\<in>set (hazard_ptrs hp). b \<noteq> NULL \<and> rkey (nodes st) b = rkey (nodes st) c"
      by (intro bexI [of _ hp2] bexI [of _ c] conjI) simp_all
    then have ck: "c \<in> set kept" by (rule k(9) [rule_format, OF insertI1])
    have "st2\<lparr>kmem := oks, hp_list := (hp_list st2)[i := hp2\<lparr>rlist := kept, rcount := of_nat (length kept)\<rparr>], nodes := h', data_freed := df\<rparr> =
      set_hp i (hp\<lparr>rlist := kept, rcount := of_nat (length kept)\<rparr>) (st\<lparr>kmem := oks, nodes := h', data_freed := df, deleted := dl\<rparr>)"
      by (simp add: st2_def hp2_def set_hp_def)
    then show ?thesis using True rt k ck by (intro that [of kept df h' oks]) auto
  qed
qed

end
