(* ===== verification/Mvfs_Sohash_Steps.thy ===== *)
theory Mvfs_Sohash_Steps
  imports Mvfs_Sohash_Ops
begin

text \<open>The operations of the split ordered hash table on states that satisfy the invariant: each returns, and
  what it does to the list, to the buckets and to the data of the callers.\<close>

section \<open>Deletion from the list\<close>

definition same_table :: "sohash_table \<Rightarrow> sohash_table \<Rightarrow> bool" where
  "same_table st st' \<longleftrightarrow> hashtable st' = hashtable st \<and> sohash_sentinelkey_count st' = sohash_sentinelkey_count st"

lemma list_delete_effect:
  assumes inv: "sohash_inv E st xs" and i: "i < length (hp_list st)" and m: "mem_ok st" and a: "hash_state st = SOHASH_STATE_ACTIVE"
    and b: "read_loc st loc = Some b0" "b0 \<in> set xs" "rkey (nodes st) b0 < key"
    and reg: "\<And>c. c \<in> set xs \<Longrightarrow> found_at st key ty arg c \<Longrightarrow> is_regular (nodes st) c"
  obtains (missing) st' where "sohash_list_delete loc key ty arg i st = Some (ENOENT, st')"
      "\<not> (\<exists>c\<in>set xs. found_at st key ty arg c)" "sohash_inv E st' xs" "same_frame st st'" "nodes st' = nodes st"
      "mem_ok st'" "owned_data st' = owned_data st" "same_table st st'"
    | (gone) st' us c ws where "sohash_list_delete loc key ty arg i st = Some (0, st')" "xs = us @ c # ws"
      "found_at st key ty arg c" "sohash_inv E st' (us @ ws)" "same_frame st st'"
      "same_nodes (dom (nodes st')) (nodes st) (nodes st')" "c \<in> retired (hp_list st')" "mem_ok st'" "owned_data st' = owned_data st"
      "same_table st st'"
proof -
  have l: "list_ok (nodes st) xs" using inv by (simp add: sohash_inv_def)
  obtain us vs hp where se: "search_end st xs key ty arg i us vs hp"
    and f: "sohash_list_find loc key ty arg i st = Some (if \<exists>c\<in>set xs. found_at st key ty arg c then hd vs else NULL, set_hp i hp st)"
    using list_find_end [OF l hazards_of_inv [OF inv i] b] by blast
  note se' = se [unfolded search_end_def]
  show thesis
  proof (cases "\<exists>c\<in>set xs. found_at st key ty arg c")
    case False
    let ?st = "set_hp i (clear_hazards hp) st"
    have "sohash_list_delete loc key ty arg i st = Some (ENOENT, ?st)"
      using f False i by (subst sohash_list_delete.simps) (simp add: reset_hazards_set_hp)
    moreover have "sohash_inv E ?st xs"
      by (rule inv_set_hp [OF inv i]) (use se' inv_hp [OF inv i] in \<open>simp_all add: hp_ok_def\<close>)
    ultimately show ?thesis using False m by (intro missing [of ?st]) (auto simp: same_frame_def same_table_def mem_ok_def owned_data_def)
  next
    case True
    then obtain c ws where vs: "vs = c # ws" and fc: "found_at st key ty arg c" using se' by (cases vs) auto
    have xs: "xs = us @ c # ws" "us \<noteq> []" and hpf: "prev hp = NextOf (last us)" "cur hp = c"
      using se' vs by (auto simp: head_of_def)
    obtain e where e: "nodes st c = Some e" "nxt hp = hashentry_next e" using se' vs by auto
    have ls: "lseg (nodes st) (hd xs) xs NULL" using l by (simp add: list_ok_def)
    have "lseg (nodes st) (hd xs) (us @ vs) NULL" using ls by (simp only: xs(1) vs)
    then obtain us0 u where u: "nodes st (last us) = Some u" "hashentry_next u = head_of vs"
      by (rule lseg_split_last [OF _ xs(2)])
    have uc: "hashentry_next u = c" using u(2) by (simp add: vs head_of_def)
    have d: "distinct (us @ c # ws)" using l unfolding xs(1) by (simp add: list_ok_def)
    have cx: "c \<in> set xs" by (simp add: xs(1))
    then have cN: "c \<noteq> NULL" using lseg_nodes [OF ls] by blast
    have "last us \<in> set us" using xs(2) by simp
    then have lc: "last us \<noteq> c" using d by auto
    let ?rl = "rlist (hp_list st ! i)"
    let ?h0 = "unlinked_at (nodes st) us c (head_of ?rl)"
    define st0 where "st0 = st\<lparr>nodes := ?h0\<rparr>"
    define e1 where "e1 = e\<lparr>hashentry_next := SOHASH_SET_DELETE_BIT (hashentry_next e)\<rparr>"
    have rg: "is_regular (nodes st) c" by (rule reg [OF cx fc])
    have inv0: "sohash_inv (insert c E) st0 (us @ ws)" and cE: "c \<notin> E"
      using inv_unlinked [of E st us c ws] inv rg xs unfolding st0_def by auto
    have sn: "same_nodes UNIV (nodes st) ?h0" and dm: "dom ?h0 = dom (nodes st)"
      by (rule unlinked_same [OF e(1) u(1) lc])+
    let ?stD = "set_hp i hp (st0\<lparr>nodes := ?h0(c \<mapsto> e1)\<rparr>)"
    have run: "sohash_list_delete loc key ty arg i st =
        do { st' \<leftarrow> sohash_retire_node c i ?stD; Some (0, reset_hazards i st') }"
    proof -
      have "set_node (last us) (u\<lparr>hashentry_next := hashentry_next e\<rparr>) (set_node c e1 (set_hp i hp st)) = ?stD"
        using e(1) u(1) lc by (simp add: st0_def unlinked_at_def set_node_def set_hp_def fun_upd_twist)
      then show ?thesis using f True vs hpf e u(1) uc lc i cN
        by (subst sohash_list_delete.simps)
          (simp add: MDKI_ATOMIC_CAS_PTR_def read_loc_def write_loc_def e1_def [symmetric])
    qed
    let ?e = "e\<lparr>hashentry_next := head_of ?rl\<rparr>"
    have et: "entry_type e = SOHASH_REGULAR_NODE" using rg e(1) by (simp add: is_regular_def)
    have n0: "nodes st0 = ?h0" "hp_list st0 = hp_list st" "nodes st0 c = Some ?e"
      using e(1) lc by (simp_all add: st0_def unlinked_at_def)
    have "owned_data st0 = owned_data st" using node_data_same [OF sn] by (simp add: owned_data_def st0_def)
    moreover have "c \<in> set (hazard_ptrs hp)" using se' hpf(2) nth_mem [of 1 "hazard_ptrs hp"] by simp
    moreover have "set xs \<subseteq> dom (nodes st)" using store_okD(1) inv by (fastforce simp: sohash_inv_def)
    then have "\<forall>a\<in>set (hazard_ptrs hp). a = NULL \<or> a \<in> dom (nodes st0)" using se' unfolding n0(1) dm by blast
    ultimately obtain kept h' df oks dl where r:
      "sohash_retire_node c i ?stD = Some (set_hp i (hp\<lparr>rlist := kept, rcount := of_nat (length kept)\<rparr>)
         (st0\<lparr>kmem := oks, nodes := h', data_freed := df, deleted := dl\<rparr>))"
      "list_all id oks" "distinct kept" "set kept \<subseteq> insert c (set ?rl)" "c \<in> set kept"
      "dom h' = dom (nodes st0) - (insert c (set ?rl) - set kept)" "same_nodes (dom h') (nodes st0) h'"
      "\<forall>a. a \<notin> insert c (set ?rl) \<longrightarrow> h' a = nodes st0 a" "mset df + node_data h' = owned_data st"
      using retire_kept [OF inv0 n0(3), of i hp e1] et i m a se' n0(1,2)
      by (simp add: mem_ok_def st0_def e1_def) metis
    let ?hp' = "clear_hazards (hp\<lparr>rlist := kept, rcount := of_nat (length kept)\<rparr>)"
    let ?st' = "set_hp i ?hp' (st0\<lparr>kmem := oks, nodes := h', data_freed := df, deleted := dl\<rparr>)"
    have "sohash_inv E ?st' (us @ ws)"
      by (rule inv_retired [OF inv0 cE _ r(3)]) (use r i n0(2) in \<open>simp_all add: hp_ok_def\<close>)
    moreover have "same_nodes (dom h') (nodes st) h'"
      by (rule same_nodes_trans [OF _ r(7) subset_refl]) (use sn n0(1) in \<open>simp add: same_nodes_def\<close>)
    moreover have "c \<in> retired (hp_list ?st')"
      using r(5) i retired_update(1) [of i "hp_list st" ?hp'] by (simp add: n0(2))
    ultimately show ?thesis using run r xs(1) fc i n0(2)
      by (intro gone [of ?st' us c ws]) (simp_all add: reset_hazards_set_hp same_frame_def same_table_def st0_def mem_ok_def owned_data_def)
  qed
qed

end
