(* ===== verification/Mvfs_Sohash_Buckets.thy ===== *)
theory Mvfs_Sohash_Buckets
  imports Mvfs_Sohash_Steps
begin

text \<open>Allocation of nodes and initialisation of buckets of the split ordered hash table.\<close>

section \<open>Allocation\<close>

lemma node_data_add:
  assumes "finite (dom h)" "n \<notin> dom h"
  shows "node_data (h(n \<mapsto> e)) = (if data e = NULL then {#} else {#data e#}) + node_data h"
proof -
  have "(h(n \<mapsto> e))(n := None) = h" using assms(2) by (auto simp: domIff)
  then show ?thesis using node_data_remove [of "h(n \<mapsto> e)" n e] assms(1) by simp
qed

lemma KMEM_ALLOC_cases:
  obtains oks where "KMEM_ALLOC st = (True, st\<lparr>kmem := oks\<rparr>)" "mem_ok st \<Longrightarrow> list_all id oks"
    | oks where "KMEM_ALLOC st = (False, st\<lparr>kmem := oks\<rparr>)" "\<not> mem_ok st"
proof (cases "kmem st")
  case Nil
  then have "KMEM_ALLOC st = (True, st\<lparr>kmem := []\<rparr>)" by (simp add: KMEM_ALLOC_def)
  then show thesis by (rule that(1)) simp
next
  case (Cons ok oks)
  then have k: "KMEM_ALLOC st = (ok, st\<lparr>kmem := oks\<rparr>)" "mem_ok st \<longleftrightarrow> ok \<and> list_all id oks"
    by (simp_all add: KMEM_ALLOC_def mem_ok_def)
  show thesis
  proof (cases ok)
    case True
    then show thesis using k by (intro that(1) [of oks]) simp_all
  next
    case False
    then show thesis using k by (intro that(2) [of oks]) simp_all
  qed
qed

lemma inv_kmem: "sohash_inv E st xs \<Longrightarrow> sohash_inv E (st\<lparr>kmem := oks\<rparr>) xs"
  by (simp add: sohash_inv_def sizes_ok_def hps_ok_def)

text \<open>A new node is one of the loose nodes.\<close>
lemma inv_new_node:
  fixes e :: sohash_entry and oks :: "bool list"
  assumes inv: "sohash_inv E st xs"
  defines "n \<equiv> kmem_next st" and "st' \<equiv> st\<lparr>kmem := oks, nodes := (nodes st)(kmem_next st \<mapsto> e), kmem_next := kmem_next st + 2\<rparr>"
  shows "sohash_inv (insert n E) st' xs" "n \<notin> dom (nodes st)" "n \<noteq> NULL" "same_nodes (dom (nodes st)) (nodes st) (nodes st')"
    "owned_data st' = (if data e = NULL then {#} else {#data e#}) + owned_data st"
proof -
  let ?h = "nodes st"
  have so: "store_ok ?h (hp_list st) xs E (kmem_next st)" and l: "list_ok ?h xs" using inv by (auto simp: sohash_inv_def)
  note sd = store_okD [OF so]
  show nd: "n \<notin> dom ?h" using sd(6) [of n] by (auto simp: n_def)
  show "n \<noteq> NULL" using sd(8) by (simp add: n_def)
  have st': "nodes st' = ?h(n \<mapsto> e)" "hashtable st' = hashtable st" "hp_list st' = hp_list st" "kmem_next st' = n + 2" "data_freed st' = data_freed st"
    by (simp_all add: st'_def n_def)
  show sn: "same_nodes (dom ?h) ?h (nodes st')" using nd by (auto simp: same_nodes_def st')
  show "owned_data st' = (if data e = NULL then {#} else {#data e#}) + owned_data st"
    using node_data_add [OF sd(9) nd, of e] by (simp add: owned_data_def st')
  have xd: "set xs \<subseteq> dom ?h" using sd(1) by auto
  then have nx: "n \<notin> set xs" using nd by auto
  have sx: "same_nodes (set xs) ?h (nodes st')" using sn xd by (auto simp: same_nodes_def)
  have "list_ok (nodes st') xs" by (rule list_ok_same [OF l sx]) (use l nx in \<open>simp add: list_ok_def st'\<close>)
  moreover have "buckets_ok (hashtable st') (nodes st') xs"
    by (rule buckets_ok_same [of _ ?h xs]) (use inv sx st' in \<open>auto simp: sohash_inv_def\<close>)
  moreover have "store_ok (nodes st') (hp_list st') xs (insert n E) (kmem_next st')"
  proof -
    have "insert n E \<inter> (set xs \<union> retired (hp_list st)) = {}" using sd(1,3) nd by auto
    moreover have "\<forall>a\<in>insert n (dom ?h). a \<noteq> NULL \<and> even a \<and> a < n + 2" using sd(6-8) by (force simp: n_def)
    ultimately show ?thesis using so unfolding store_ok_def st' by (simp add: n_def NULL_def)
  qed
  ultimately show "sohash_inv (insert n E) st' xs" using inv by (simp add: sohash_inv_def sizes_ok_def hps_ok_def st'_def)
qed

text \<open>A loose node is freed.\<close>
lemma inv_free_node:
  assumes inv: "sohash_inv E st xs" and n: "n \<in> E"
  obtains df where "sohash_free_node n st = Some (st\<lparr>nodes := (nodes st)(n := None), data_freed := df\<rparr>)"
    "sohash_inv (E - {n}) (st\<lparr>nodes := (nodes st)(n := None), data_freed := df\<rparr>) xs"
    "owned_data (st\<lparr>nodes := (nodes st)(n := None), data_freed := df\<rparr>) = owned_data st"
proof -
  let ?h = "nodes st"
  have so: "store_ok ?h (hp_list st) xs E (kmem_next st)" and l: "list_ok ?h xs" using inv by (auto simp: sohash_inv_def)
  note sd = store_okD [OF so]
  obtain e where e: "?h n = Some e" using sd(1) n by auto
  obtain df where f: "sohash_free_node n st = Some (st\<lparr>nodes := ?h(n := None), data_freed := df\<rparr>)"
    "owned_data (st\<lparr>nodes := ?h(n := None), data_freed := df\<rparr>) = owned_data st"
    by (rule free_node_effect [OF e sd(9)])
  let ?st' = "st\<lparr>nodes := ?h(n := None), data_freed := df\<rparr>"
  have nx: "n \<notin> set xs" "n \<notin> retired (hp_list st)" using sd(3) n by auto
  have sx: "same_nodes (set xs) ?h (?h(n := None))" using nx by (auto simp: same_nodes_def)
  have "list_ok (?h(n := None)) xs" by (rule list_ok_same [OF l sx]) (use l nx in \<open>simp add: list_ok_def\<close>)
  moreover have "buckets_ok (hashtable st) (?h(n := None)) xs"
    by (rule buckets_ok_same [of _ ?h xs]) (use inv sx in \<open>auto simp: sohash_inv_def\<close>)
  moreover have "store_ok (?h(n := None)) (hp_list st) xs (E - {n}) (kmem_next st)"
    using so nx unfolding store_ok_def by (simp add: dom_fun_upd) blast
  ultimately have "sohash_inv (E - {n}) ?st' xs" using inv by (simp add: sohash_inv_def sizes_ok_def hps_ok_def)
  then show thesis using f that by blast
qed

lemma alloc_node_cases:
  obtains (ok) oks where "sohash_alloc_node st = (kmem_next st,
        st\<lparr>kmem := oks, nodes := (nodes st)(kmem_next st \<mapsto> BZERO_entry), kmem_next := kmem_next st + 2\<rparr>)"
      "mem_ok st \<Longrightarrow> list_all id oks"
    | (fail) oks where "sohash_alloc_node st = (NULL, st\<lparr>kmem := oks\<rparr>)" "\<not> mem_ok st"
proof (rule KMEM_ALLOC_cases [of st])
  fix oks assume k: "KMEM_ALLOC st = (True, st\<lparr>kmem := oks\<rparr>)" "mem_ok st \<Longrightarrow> list_all id oks"
  show thesis by (rule ok [of oks]) (use k in \<open>simp_all add: sohash_alloc_node_def\<close>)
next
  fix oks assume k: "KMEM_ALLOC st = (False, st\<lparr>kmem := oks\<rparr>)" "\<not> mem_ok st"
  show thesis by (rule fail [of oks]) (use k in \<open>simp_all add: sohash_alloc_node_def\<close>)
qed

lemma set_new_node: "set_node n e (st\<lparr>kmem := oks, nodes := (nodes st)(n \<mapsto> e0), kmem_next := k\<rparr>) =
    st\<lparr>kmem := oks, nodes := (nodes st)(n \<mapsto> e), kmem_next := k\<rparr>"
  by (simp add: set_node_def)

section \<open>Buckets\<close>

lemma wrap32_id: "- (2 ^ 31) \<le> x \<Longrightarrow> x < 2 ^ 31 \<Longrightarrow> wrap32 x = x"
  unfolding wrap32_def signed_of_int by (simp add: signed_take_bit_int_eq_self)

definition bucket_loc :: "u32 \<Rightarrow> sohash_loc" where "bucket_loc hi = Bucket (unat hi div 511) (unat hi mod 511)"

lemma bucket_index:
  assumes "sizes_ok st" "hi < 2 ^ 17"
  shows "segment_of st hi = Some (unat hi div 511)" "bucket_of st hi = unat hi mod 511"
proof -
  have "unat hi < 131072" using assms(2) by (simp add: word_less_nat_alt)
  then have "unat hi div 511 < 511" by (simp add: less_mult_imp_div_less)
  then show "segment_of st hi = Some (unat hi div 511)" "bucket_of st hi = unat hi mod 511"
    using assms(1) by (simp_all add: segment_of_def bucket_of_def sizes_ok_def unat_div unat_mod Let_def)
qed

definition bucket_unset :: "sohash_table \<Rightarrow> u32 \<Rightarrow> bool" where
  "bucket_unset st hi \<longleftrightarrow> (\<forall>seg. hashtable st (unat hi div 511) = Some seg \<longrightarrow> seg (unat hi mod 511) = NULL)"

text \<open>A bucket in use: it points at the sentinel with its index.\<close>
definition bucket_set :: "sohash_table \<Rightarrow> addr list \<Rightarrow> u32 \<Rightarrow> bool" where
  "bucket_set st xs hi \<longleftrightarrow> (\<exists>a. read_loc st (bucket_loc hi) = Some a \<and> a \<in> set xs \<and> a \<noteq> NULL \<and> sentinel_at (nodes st) a (unat hi))"

text \<open>The sentinels in the list, and those their bucket points at.\<close>
definition sentinels :: "store \<Rightarrow> addr list \<Rightarrow> addr set" where
  "sentinels h xs = {a \<in> set xs. \<exists>n. sentinel_at h a n}"

definition pointed :: "(nat \<Rightarrow> (nat \<Rightarrow> addr) option) \<Rightarrow> store \<Rightarrow> addr \<Rightarrow> bool" where
  "pointed ht h a \<longleftrightarrow> (\<exists>n seg. sentinel_at h a n \<and> n < 2 ^ 17 \<and> ht (n div 511) = Some seg \<and> seg (n mod 511) = a)"

text \<open>Every sentinel but the ones in \<open>G\<close> is in its bucket and counted.  It stays so while no allocation fails.\<close>
definition covered :: "addr set \<Rightarrow> sohash_table \<Rightarrow> addr list \<Rightarrow> bool" where
  "covered G st xs \<longleftrightarrow> (\<forall>a\<in>sentinels (nodes st) xs - G. pointed (hashtable st) (nodes st) a) \<and>
    sohash_sentinelkey_count st = int (card (sentinels (nodes st) xs - G))"

lemma sentinel_at_unique: "sentinel_at h a n \<Longrightarrow> sentinel_at h a n' \<Longrightarrow> n' = n"
  by (auto simp: sentinel_at_def)

lemma sentinels_same:
  assumes "same_nodes (set xs) h h'"
  shows "sentinels h' xs = sentinels h xs" "a \<in> set xs \<Longrightarrow> sentinel_at h' a n = sentinel_at h a n"
proof -
  have *: "sentinel_at h' a n = sentinel_at h a n" if "a \<in> set xs" for a n
    using same_sentinel [OF assms that] same_sentinel [OF same_nodes_sym [OF assms] that] by blast
  then show "a \<in> set xs \<Longrightarrow> sentinel_at h' a n = sentinel_at h a n" by blast
  show "sentinels h' xs = sentinels h xs" using * by (auto simp: sentinels_def)
qed

lemma covered_same:
  assumes "covered G st xs" "same_nodes (set xs) (nodes st) (nodes st')" "sentinels (nodes st') xs' = sentinels (nodes st) xs"
    "same_table st st'"
  shows "covered G st' xs'"
proof -
  have "pointed (hashtable st) (nodes st') a = pointed (hashtable st) (nodes st) a" if "a \<in> sentinels (nodes st) xs" for a
    using that sentinels_same(2) [OF assms(2), of a] by (simp add: pointed_def sentinels_def)
  then show ?thesis using assms(1,3,4) by (simp add: covered_def same_table_def)
qed

lemma covered_count:
  assumes "covered G st xs"
  shows "0 \<le> sohash_sentinelkey_count st" "sohash_sentinelkey_count st \<le> 2 ^ 17"
proof -
  let ?S = "sentinels (nodes st) xs - G"
  define f where "f a = (THE n. sentinel_at (nodes st) a n)" for a
  have f: "sentinel_at (nodes st) a n \<Longrightarrow> f a = n" for a n unfolding f_def using sentinel_at_unique by blast
  have p: "f a < 2 ^ 17 \<and> (\<exists>seg. hashtable st (f a div 511) = Some seg \<and> seg (f a mod 511) = a)" if "a \<in> ?S" for a
    using assms that f by (fastforce simp: covered_def pointed_def)
  have "inj_on f ?S" by (rule inj_onI) (metis p option.inject)
  moreover have "f ` ?S \<subseteq> {..<2 ^ 17}" using p by auto
  ultimately have "card ?S \<le> card {..<2 ^ 17 :: nat}" by (intro card_inj_on_le) auto
  then have c: "card ?S \<le> 2 ^ 17" by simp
  have "int (card ?S) \<le> int (2 ^ 17)" using c unfolding of_nat_le_iff .
  then show "0 \<le> sohash_sentinelkey_count st" "sohash_sentinelkey_count st \<le> 2 ^ 17" using assms by (simp_all add: covered_def)
qed

lemma get_bucket_cases:
  assumes inv: "sohash_inv E st xs" and hi: "hi < 2 ^ 17"
  obtains (set) "sohash_get_bucket st hi = Some (Some (bucket_loc hi))" "bucket_set st xs hi"
    | (unset) "sohash_get_bucket st hi = Some None" "bucket_unset st hi"
proof -
  have sz: "sizes_ok st" and b: "buckets_ok (hashtable st) (nodes st) xs" using inv by (auto simp: sohash_inv_def)
  note bi = bucket_index [OF sz hi]
  show thesis
  proof (cases "bucket_unset st hi")
    case True
    then have "sohash_get_bucket st hi = Some None"
      by (cases "hashtable st (unat hi div 511)") (auto simp: sohash_get_bucket_def bi bucket_unset_def)
    then show ?thesis using True by (rule unset)
  next
    case False
    then obtain seg where seg: "hashtable st (unat hi div 511) = Some seg" "seg (unat hi mod 511) \<noteq> NULL"
      by (auto simp: bucket_unset_def)
    have imp: "seg j \<in> set xs \<and> sentinel_at (nodes st) (seg j) (s * 511 + j)"
      if "hashtable st s = Some seg" "j < 511" "seg j \<noteq> NULL" for s seg j
      using b that by (simp add: buckets_ok_def)
    have "seg (unat hi mod 511) \<in> set xs \<and> sentinel_at (nodes st) (seg (unat hi mod 511)) (unat hi)"
      using imp [OF seg(1) _ seg(2)] by simp
    then have "bucket_set st xs hi" using seg by (simp add: bucket_set_def bucket_loc_def read_loc_def)
    moreover have "sohash_get_bucket st hi = Some (Some (bucket_loc hi))"
      using seg by (simp add: sohash_get_bucket_def bi bucket_loc_def)
    ultimately show ?thesis by (intro set)
  qed
qed

lemma sentinel_rkey:
  assumes "list_ok h xs" "a \<in> set xs" "sentinel_at h a (unat hi)"
  shows "rkey h a = sohash_sentinelkey hi"
proof -
  obtain e where e: "h a = Some e" "entry_type e = SOHASH_SENTINEL_NODE" "unat (so_key e) = unat hi"
    using assms(3) by (auto simp: sentinel_at_def)
  moreover have "node_ok e" using assms(1,2) e(1) by (auto simp: list_ok_def)
  moreover have "so_key e = hi" using e(3) by (simp add: word_unat_eq_iff)
  ultimately show ?thesis by (simp add: node_ok_def rkey_def)
qed

text \<open>What an operation that may set buckets up does: sentinels may be added to the list, nothing else changes.\<close>
definition extends :: "addr set \<Rightarrow> sohash_table \<Rightarrow> addr list \<Rightarrow> sohash_table \<Rightarrow> addr list \<Rightarrow> bool" where
  "extends E st xs st' xs' \<longleftrightarrow> sohash_inv E st' xs' \<and> same_frame st st' \<and> same_nodes (dom (nodes st)) (nodes st) (nodes st') \<and>
    regulars (nodes st') xs' = regulars (nodes st) xs \<and> set xs \<subseteq> set xs' \<and> owned_data st' = owned_data st \<and> (mem_ok st \<longrightarrow> mem_ok st') \<and>
    hazard_ptrs_total st' = hazard_ptrs_total st"

lemma extends_refl: "sohash_inv E st xs \<Longrightarrow> extends E st xs st xs"
  by (simp add: extends_def)

lemma same_nodes_dom: "same_nodes (dom h) h h' \<Longrightarrow> dom h \<subseteq> dom h'"
  by (auto simp: same_nodes_def dom_def) (metis map_option_eq_Some)

lemma extends_trans: "extends E st xs st' xs' \<Longrightarrow> extends E st' xs' st'' xs'' \<Longrightarrow> extends E st xs st'' xs''"
  unfolding extends_def using same_frame_trans [of st st' st'']
    same_nodes_trans [of "dom (nodes st)" "nodes st" "nodes st'" "dom (nodes st')" "nodes st''"]
    same_nodes_dom [of "nodes st" "nodes st'"] by auto

lemma extends_kmem: "sohash_inv E st xs \<Longrightarrow> \<not> mem_ok st \<Longrightarrow> extends E st xs (st\<lparr>kmem := oks\<rparr>) xs"
  by (simp add: extends_def inv_kmem same_frame_def owned_data_def)

lemma inv_relabel:
  assumes inv: "sohash_inv E st xs" and sn: "same_nodes UNIV (nodes st) h'"
    and nx: "\<forall>a. map_option hashentry_next (h' a) = map_option hashentry_next (nodes st a)"
  shows "sohash_inv E (st\<lparr>nodes := h', sohash_sentinelkey_count := k\<rparr>) xs"
proof -
  have l: "list_ok (nodes st) xs" using inv by (simp add: sohash_inv_def)
  have sx: "same_nodes A (nodes st) h'" for A using sn by (simp add: same_nodes_def)
  have d: "dom h' = dom (nodes st)" using same_nodes_dom [OF sx] same_nodes_dom [OF same_nodes_sym [OF sx]] by auto
  have "lseg h' (hd xs) xs NULL" using l nx lseg_cong [of xs h' "nodes st"] by (simp add: list_ok_def)
  then have "list_ok h' xs" by (rule list_ok_same [OF l sx])
  moreover have "buckets_ok (hashtable st) h' xs" by (rule buckets_ok_same [OF _ sx refl]) (use inv in \<open>auto simp: sohash_inv_def\<close>)
  ultimately show ?thesis using inv store_ok_cong [OF refl d] by (simp add: sohash_inv_def sizes_ok_def hps_ok_def)
qed

lemma inv_set_slot:
  assumes inv: "sohash_inv E st xs" and hi: "hi \<noteq> 0" and seg: "hashtable st (unat hi div 511) = Some seg"
    and c: "c \<in> set xs" "sentinel_at (nodes st) c (unat hi)"
  shows "sohash_inv E (st\<lparr>hashtable := (hashtable st)(unat hi div 511 \<mapsto> seg(unat hi mod 511 := c))\<rparr>) xs"
proof -
  let ?ht = "(hashtable st)(unat hi div 511 \<mapsto> seg(unat hi mod 511 := c))"
  have b: "buckets_ok (hashtable st) (nodes st) xs" using inv by (simp add: sohash_inv_def)
  have "buckets_ok ?ht (nodes st) xs"
    unfolding buckets_ok_def
  proof (intro conjI allI impI)
    obtain seg0 where s0: "hashtable st 0 = Some seg0" "seg0 0 = hd xs" using b by (auto simp: buckets_ok_def)
    have "unat hi \<noteq> 0" using hi by (simp add: unat_eq_0)
    then have "unat hi div 511 = 0 \<Longrightarrow> unat hi mod 511 \<noteq> 0" by (simp add: div_eq_0_iff)
    then show "\<exists>seg'. ?ht 0 = Some seg' \<and> seg' 0 = hd xs" using s0 seg by (cases "unat hi div 511 = 0") auto
    fix s seg' j assume h: "?ht s = Some seg'" "j < 511" "seg' j \<noteq> NULL"
    have old: "seg'' j \<in> set xs \<and> sentinel_at (nodes st) (seg'' j) (s * 511 + j)" if "hashtable st s = Some seg''" "seg'' j \<noteq> NULL" for seg''
      using b that h(2) by (simp add: buckets_ok_def)
    show "seg' j \<in> set xs" "sentinel_at (nodes st) (seg' j) (s * 511 + j)"
      using h old seg c by (cases "s = unat hi div 511"; cases "j = unat hi mod 511"; force)+
  qed
  then show ?thesis using inv by (simp add: sohash_inv_def sizes_ok_def hps_ok_def)
qed

lemma inv_new_segment:
  assumes inv: "sohash_inv E st xs" and "hashtable st s = None"
  shows "sohash_inv E (st\<lparr>hashtable := (hashtable st)(s \<mapsto> (\<lambda>_. NULL))\<rparr>) xs"
proof -
  have b: "buckets_ok (hashtable st) (nodes st) xs" using inv by (simp add: sohash_inv_def)
  have "s \<noteq> 0"
  proof
    assume "s = 0"
    then show False using b assms(2) by (simp add: buckets_ok_def)
  qed
  then have "buckets_ok ((hashtable st)(s \<mapsto> (\<lambda>_. NULL))) (nodes st) xs" using b by (auto simp: buckets_ok_def)
  then show ?thesis using inv by (simp add: sohash_inv_def sizes_ok_def hps_ok_def)
qed

text \<open>Putting a sentinel that is already in the list into its bucket, and one that is new.\<close>
lemma covered_set_slot:
  fixes hi :: u32
  assumes seg: "hashtable st (unat hi div 511) = Some seg" and hi: "hi < 2 ^ 17"
    and c: "c \<in> set xs" "c \<noteq> NULL" "sentinel_at (nodes st) c (unat hi)" and nn: "NULL \<notin> set xs"
    and sn: "same_nodes (set xs) (nodes st) (nodes st')"
    and cov: "covered (if ins then {c} else {}) st xs" and un: "ins \<Longrightarrow> seg (unat hi mod 511) = NULL"
    and ht: "hashtable st' = (if seg (unat hi mod 511) = NULL then (hashtable st)(unat hi div 511 \<mapsto> seg(unat hi mod 511 := c)) else hashtable st)"
    and k: "sohash_sentinelkey_count st' = (if ins then wrap32 (sohash_sentinelkey_count st + 1) else sohash_sentinelkey_count st)"
  shows "covered {} st' xs"
proof -
  let ?S = "sentinels (nodes st) xs"
  have cS: "c \<in> ?S" using c by (auto simp: sentinels_def)
  have un17: "unat hi < 2 ^ 17" using hi by (simp add: word_less_nat_alt)
  show ?thesis
  proof (cases ins)
    case False
    then have "pointed (hashtable st) (nodes st) c" using cov cS by (simp add: covered_def)
    then have "seg (unat hi mod 511) = c" using seg sentinel_at_unique [OF c(3)] by (auto simp: pointed_def)
    then have "same_table st st'" using ht k False c(2) by (simp add: same_table_def)
    then show ?thesis using covered_same [OF cov sn sentinels_same(1) [OF sn]] False by simp
  next
    case True
    have "pointed (hashtable st') (nodes st') a" if a: "a \<in> ?S" for a
    proof -
      have ax: "a \<in> set xs" using a by (simp add: sentinels_def)
      show ?thesis
      proof (cases "a = c")
        case True
        then show ?thesis using c un17 ht un [OF \<open>ins\<close>] sentinels_same(2) [OF sn ax] unfolding pointed_def
          by (intro exI [of _ "unat hi"] exI [of _ "seg(unat hi mod 511 := c)"]) simp
      next
        case False
        have "pointed (hashtable st) (nodes st) a" using cov a True \<open>a \<noteq> c\<close> by (simp add: covered_def)
        then obtain n seg' where n: "sentinel_at (nodes st) a n" "n < 2 ^ 17" "hashtable st (n div 511) = Some seg'" "seg' (n mod 511) = a"
          unfolding pointed_def by blast
        have aN: "a \<noteq> NULL" using ax nn by auto
        have "\<exists>seg''. hashtable st' (n div 511) = Some seg'' \<and> seg'' (n mod 511) = a"
          using n ht un [OF \<open>ins\<close>] seg aN by (cases "n div 511 = unat hi div 511"; cases "n mod 511 = unat hi mod 511") auto
        then show ?thesis using n sentinels_same(2) [OF sn ax] by (auto simp: pointed_def)
      qed
    qed
    moreover have "card ?S = Suc (card (?S - {c}))" using cS by (intro card.remove) (simp_all add: sentinels_def)
    then have "sohash_sentinelkey_count st' = int (card ?S)"
      using covered_count [OF cov] cov k True wrap32_id [of "sohash_sentinelkey_count st + 1"] by (simp add: covered_def)
    ultimately show ?thesis by (simp add: covered_def sentinels_same(1) [OF sn])
  qed
qed

text \<open>A bucket that another call has set in the meantime stays as it is.\<close>
lemma set_slot_effect:
  assumes inv: "sohash_inv E st xs" and hi: "hi \<noteq> 0" "hi < 2 ^ 17" and seg: "hashtable st (unat hi div 511) = Some seg"
    and c: "c \<in> set xs" "c \<noteq> NULL" "sentinel_at (nodes st) c (unat hi)"
  obtains st' where "set_bucket_slot (unat hi div 511) (unat hi mod 511) c ins st = Some ((0, bucket_loc hi), st')"
    "extends E st xs st' xs" "bucket_set st' xs hi"
    "covered (if ins then {c} else {}) st xs \<longrightarrow> (ins \<longrightarrow> bucket_unset st hi) \<longrightarrow> covered {} st' xs"
proof -
  let ?b = "unat hi mod 511"
  define ht where "ht = (if seg ?b = NULL then (hashtable st)(unat hi div 511 \<mapsto> seg(?b := c)) else hashtable st)"
  obtain e where e: "nodes st c = Some e" using c(3) by (auto simp: sentinel_at_def)
  define h' where "h' = (if ins then (nodes st)(c \<mapsto> e\<lparr>segment_index := unat hi div 511, bucket_index := ?b\<rparr>) else nodes st)"
  define k where "k = (if ins then wrap32 (sohash_sentinelkey_count st + 1) else sohash_sentinelkey_count st)"
  define st' where "st' = st\<lparr>hashtable := ht, nodes := h', sohash_sentinelkey_count := k\<rparr>"
  have sn: "same_nodes UNIV (nodes st) h'" and nx: "\<forall>a. map_option hashentry_next (h' a) = map_option hashentry_next (nodes st a)"
    using e by (auto simp: h'_def same_nodes_def)
  have "sohash_inv E (st\<lparr>hashtable := ht\<rparr>) xs"
    using inv inv_set_slot [OF inv hi(1) seg c(1,3)] by (simp add: ht_def)
  then have i: "sohash_inv E st' xs" using inv_relabel [of E "st\<lparr>hashtable := ht\<rparr>" xs h' k] sn nx by (simp add: st'_def)
  have "set_bucket_slot (unat hi div 511) ?b c ins st = Some ((0, bucket_loc hi), st')"
    using seg e by (cases ins; cases "seg ?b = NULL") (simp_all add: set_bucket_slot_def MDKI_ATOMIC_CAS_PTR_def read_loc_def
      write_loc_def bucket_loc_def st'_def ht_def h'_def k_def set_node_def)
  moreover have "regulars h' xs = regulars (nodes st) xs" using same_regulars [of xs "nodes st" h'] sn by (simp add: same_nodes_def)
  then have "extends E st xs st' xs"
    using i sn node_data_same [OF sn] by (simp add: extends_def same_frame_def st'_def owned_data_def mem_ok_def same_nodes_def)
  moreover have "hashtable st' (unat hi div 511) = Some (if seg ?b = NULL then seg(?b := c) else seg)" using seg by (simp add: st'_def ht_def)
  then have "\<not> bucket_unset st' hi" using c(2) by (cases "seg ?b = NULL") (simp_all add: bucket_unset_def)
  then have "bucket_set st' xs hi" using get_bucket_cases [OF i hi(2)] by blast
  moreover have "covered {} st' xs" if "covered (if ins then {c} else {}) st xs" "ins \<Longrightarrow> bucket_unset st hi"
  proof -
    have "NULL \<notin> set xs" using inv lseg_nodes [of "nodes st" "hd xs" xs NULL NULL] by (auto simp: sohash_inv_def list_ok_def)
    moreover have "same_nodes (set xs) (nodes st) (nodes st')" using sn by (simp add: same_nodes_def st'_def)
    ultimately show ?thesis by (rule covered_set_slot [OF seg hi(2) c _ _ that(1)])
      (use that(2) seg in \<open>auto simp: bucket_unset_def st'_def ht_def k_def\<close>)
  qed
  ultimately show thesis by (intro that) auto
qed

lemma set_bucket_effect:
  assumes inv: "sohash_inv E st xs" and hi: "hi \<noteq> 0" "hi < 2 ^ 17"
    and c: "c \<in> set xs" "c \<noteq> NULL" "sentinel_at (nodes st) c (unat hi)"
  obtains (ok) st' where "sohash_set_bucket hi c ins st = Some ((0, bucket_loc hi), st')" "extends E st xs st' xs" "bucket_set st' xs hi"
      "covered (if ins then {c} else {}) st xs \<longrightarrow> (ins \<longrightarrow> bucket_unset st hi) \<longrightarrow> covered {} st' xs"
    | (fail) st' where "sohash_set_bucket hi c ins st = Some ((ENOMEM, bucket_loc hi), st')" "extends E st xs st' xs" "\<not> mem_ok st"
proof -
  note bi = bucket_index [OF _ hi(2), of st]
  have sz: "sizes_ok st" using inv by (simp add: sohash_inv_def)
  show thesis
  proof (cases "hashtable st (unat hi div 511)")
    case (Some seg)
    obtain st' where s: "set_bucket_slot (unat hi div 511) (unat hi mod 511) c ins st = Some ((0, bucket_loc hi), st')"
      "extends E st xs st' xs" "bucket_set st' xs hi"
      "covered (if ins then {c} else {}) st xs \<longrightarrow> (ins \<longrightarrow> bucket_unset st hi) \<longrightarrow> covered {} st' xs"
      by (rule set_slot_effect [OF inv hi Some c, where ins = ins])
    then show ?thesis by (intro ok [of st']) (use Some s in \<open>simp_all add: sohash_set_bucket_def bi [OF sz] Let_def\<close>)
  next
    case None
    show ?thesis
    proof (rule KMEM_ALLOC_cases [of st])
      fix oks assume k: "KMEM_ALLOC st = (False, st\<lparr>kmem := oks\<rparr>)" "\<not> mem_ok st"
      show ?thesis by (rule fail [OF _ extends_kmem [OF inv k(2), of oks] k(2)])
        (use None k in \<open>simp add: sohash_set_bucket_def bi [OF sz] Let_def bucket_loc_def\<close>)
    next
      fix oks assume k: "KMEM_ALLOC st = (True, st\<lparr>kmem := oks\<rparr>)" "mem_ok st \<Longrightarrow> list_all id oks"
      let ?st1 = "st\<lparr>kmem := oks, hashtable := (hashtable st)(unat hi div 511 \<mapsto> (\<lambda>_. NULL))\<rparr>"
      have inv1: "sohash_inv E ?st1 xs" using inv_new_segment [OF inv_kmem [OF inv, of oks]] None by simp
      have "extends E st xs ?st1 xs" using inv1 k(2) by (simp add: extends_def same_frame_def owned_data_def mem_ok_def)
      moreover obtain st' where s: "set_bucket_slot (unat hi div 511) (unat hi mod 511) c ins ?st1 = Some ((0, bucket_loc hi), st')"
        "extends E ?st1 xs st' xs" "bucket_set st' xs hi"
        "covered (if ins then {c} else {}) ?st1 xs \<longrightarrow> (ins \<longrightarrow> bucket_unset ?st1 hi) \<longrightarrow> covered {} st' xs"
        by (rule set_slot_effect [OF inv1 hi, of "\<lambda>_. NULL" c ins]) (use c in simp_all)
      moreover have "covered {} st' xs" if "covered (if ins then {c} else {}) st xs"
      proof -
        have "pointed (hashtable st) (nodes st) a \<Longrightarrow> pointed (hashtable ?st1) (nodes ?st1) a" for a
          using None by (fastforce simp: pointed_def)
        then have "covered (if ins then {c} else {}) ?st1 xs" using that by (simp add: covered_def)
        then show ?thesis using s(4) by (simp add: bucket_unset_def)
      qed
      ultimately have "extends E st xs st' xs" "covered (if ins then {c} else {}) st xs \<Longrightarrow> covered {} st' xs" by (metis extends_trans)+
      then show ?thesis by (intro ok [of st']) (use None k s in \<open>simp_all add: sohash_set_bucket_def bi [OF sz] Let_def\<close>)
    qed
  qed
qed

section \<open>Setting a bucket up\<close>

text \<open>The bucket is there or an allocation failed; without a failure the sentinels outside of \<open>G\<close> being covered, all are
  in the end.\<close>
definition bucket_result :: "addr set \<Rightarrow> addr set \<Rightarrow> sohash_table \<Rightarrow> addr list \<Rightarrow> u32 \<Rightarrow> (sohash_loc option \<times> sohash_table) option \<Rightarrow> bool" where
  "bucket_result G E st xs hi x \<longleftrightarrow> (\<exists>r st' xs'. x = Some (r, st') \<and> extends E st xs st' xs' \<and>
     (mem_ok st \<longrightarrow> covered G st xs \<longrightarrow> covered {} st' xs') \<and>
     (r = None \<and> \<not> mem_ok st \<or> r = Some (bucket_loc hi) \<and> bucket_set st' xs' hi))"

lemma bucket_result_trans:
  assumes e: "extends E st xs st' xs'" and c: "mem_ok st \<longrightarrow> covered G st xs \<longrightarrow> covered G' st' xs'"
    and b: "bucket_result G' E st' xs' hi x"
  shows "bucket_result G E st xs hi x"
proof -
  obtain r st'' xs'' where x: "x = Some (r, st'')" "extends E st' xs' st'' xs''" "mem_ok st' \<longrightarrow> covered G' st' xs' \<longrightarrow> covered {} st'' xs''"
    "r = None \<and> \<not> mem_ok st' \<or> r = Some (bucket_loc hi) \<and> bucket_set st'' xs'' hi"
    using b unfolding bucket_result_def by blast
  have "mem_ok st \<longrightarrow> mem_ok st'" using e by (simp add: extends_def)
  then show ?thesis using x c extends_trans [OF e x(2)] unfolding bucket_result_def by blast
qed

text \<open>Both outcomes of the insertion leave a sentinel with the index of the bucket in the list.\<close>
lemma set_bucket_result:
  assumes "sohash_inv E st xs" "hi \<noteq> 0" "hi < 2 ^ 17" "c \<in> set xs" "c \<noteq> NULL" "sentinel_at (nodes st) c (unat hi)" "ins \<longrightarrow> bucket_unset st hi"
  shows "bucket_result (if ins then {c} else {}) E st xs hi
    (do { ((error, bucket), st) \<leftarrow> sohash_set_bucket hi c ins st; Some (if error \<noteq> 0 then None else Some bucket, st) })"
proof (rule set_bucket_effect [OF assms(1-6), where ins = ins])
  fix st' assume "sohash_set_bucket hi c ins st = Some ((0, bucket_loc hi), st')" "extends E st xs st' xs" "bucket_set st' xs hi"
    "covered (if ins then {c} else {}) st xs \<longrightarrow> (ins \<longrightarrow> bucket_unset st hi) \<longrightarrow> covered {} st' xs"
  then show ?thesis using assms(7) unfolding bucket_result_def by (intro exI [of _ "Some (bucket_loc hi)"] exI [of _ st'] exI [of _ xs]) simp
qed (auto simp: bucket_result_def)

lemma found_sentinel:
  assumes "list_ok h xs" "c \<in> set xs" "h c = Some e" "reverse_so_key e = sohash_sentinelkey hi" "hi < 2 ^ 31"
  shows "sentinel_at h c (unat hi)"
proof -
  have "node_ok e" using assms(1-3) by (auto simp: list_ok_def)
  then show ?thesis using assms(3-5) sentinel_not_regular [of hi "so_key e"] by (auto simp: node_ok_def sentinel_at_def)
qed

lemma regulars_insert_sentinel:
  assumes "same_nodes UNIV h h'" "h n = Some e" "entry_type e \<noteq> SOHASH_REGULAR_NODE"
  shows "regulars h' (us @ n # vs) = regulars h (us @ vs)"
proof -
  have "regulars h' (us @ n # vs) = regulars h (us @ n # vs)" using assms(1) by (intro same_regulars) (simp add: same_nodes_def)
  then show ?thesis using assms(2,3) by (simp add: regulars_def is_regular_def)
qed

lemma covered_new:
  assumes "covered {} st xs" "same_nodes (set xs) (nodes st) (nodes st')" "set ys = insert n (set xs)" "n \<notin> set xs" "same_table st st'"
  shows "covered {n} st' ys"
proof -
  have "sentinels (nodes st') ys - {n} = sentinels (nodes st') xs" using assms(3,4) by (auto simp: sentinels_def)
  then show ?thesis using covered_same [OF assms(1,2) sentinels_same(1) [OF assms(2)] assms(5)] by (simp add: covered_def)
qed

lemma no_sentinel_unset:
  assumes inv: "sohash_inv E st xs" and hi: "hi < 2 ^ 17" and sn: "same_nodes (set xs) (nodes st) (nodes st')"
    and nf: "\<not> (\<exists>c\<in>set xs. found_at st' (sohash_sentinelkey hi) SOHASH_SENTINEL_NODE arg c)"
  shows "bucket_unset st hi"
proof (rule get_bucket_cases [OF inv hi])
  assume "bucket_set st xs hi"
  then obtain a where a: "a \<in> set xs" "sentinel_at (nodes st) a (unat hi)" by (auto simp: bucket_set_def)
  have "rkey (nodes st) a = sohash_sentinelkey hi" using sentinel_rkey [OF _ a] inv by (simp add: sohash_inv_def)
  then have "rkey (nodes st') a = sohash_sentinelkey hi" "sentinel_at (nodes st') a (unat hi)"
    using same_rkey [OF sn a(1)] same_sentinel [OF sn a] a(2) by (auto simp: sentinel_at_def)
  then have "found_at st' (sohash_sentinelkey hi) SOHASH_SENTINEL_NODE arg a"
    by (auto simp: found_at_def find_match_def sentinel_at_def rkey_def)
  then show ?thesis using nf a(1) by blast
qed

lemma insert_sentinel_result:
  assumes inv: "sohash_inv E st xs" and i: "i < length (hp_list st)" and hi: "hi \<noteq> 0" "hi < 2 ^ 17"
    and p: "bucket_set st xs p" "sohash_sentinelkey p < sohash_sentinelkey hi"
  shows "bucket_result {} E st xs hi (insert_sentinel hi (bucket_loc p) i st)"
proof (rule alloc_node_cases [of st])
  fix oks assume a: "sohash_alloc_node st = (NULL, st\<lparr>kmem := oks\<rparr>)" "\<not> mem_ok st"
  then show ?thesis using extends_kmem [OF inv a(2), of oks] by (auto simp: insert_sentinel_def bucket_result_def)
next
  fix oks assume a: "sohash_alloc_node st = (kmem_next st,
      st\<lparr>kmem := oks, nodes := (nodes st)(kmem_next st \<mapsto> BZERO_entry), kmem_next := kmem_next st + 2\<rparr>)" "mem_ok st \<Longrightarrow> list_all id oks"
  define n where "n = kmem_next st"
  define e where "e = BZERO_entry\<lparr>reverse_so_key := sohash_sentinelkey hi, so_key := hi,
                   entry_type := SOHASH_SENTINEL_NODE, hashindex := hi, data := NULL\<rparr>"
  define st1 where "st1 = st\<lparr>kmem := oks, nodes := (nodes st)(n \<mapsto> e), kmem_next := kmem_next st + 2\<rparr>"
  have inv1: "sohash_inv (insert n E) st1 xs" and nd: "n \<notin> dom (nodes st)" and nN: "n \<noteq> NULL"
    and sn1: "same_nodes (dom (nodes st)) (nodes st) (nodes st1)" and od1: "owned_data st1 = owned_data st"
    using inv_new_node(1,4,5) [OF inv, where e = e and oks = oks] inv_new_node(2,3) [OF inv] by (simp_all add: st1_def n_def e_def)
  have hi31: "hi < 2 ^ 31" using hi(2) by (rule order_less_trans) simp
  obtain b where b: "read_loc st (bucket_loc p) = Some b" "b \<in> set xs" "sentinel_at (nodes st) b (unat p)"
    using p(1) by (auto simp: bucket_set_def)
  have xd: "set xs \<subseteq> dom (nodes st)" and nE: "n \<notin> E"
    using inv nd store_okD(1) [of "nodes st" "hp_list st" xs E "kmem_next st"] by (auto simp: sohash_inv_def)
  then have bd: "b \<in> dom (nodes st)" using b(2) by auto
  have b1: "read_loc st1 (bucket_loc p) = Some b" using b(1) by (simp add: read_loc_def bucket_loc_def st1_def)
  have l1: "list_ok (nodes st1) xs" using inv1 by (simp add: sohash_inv_def)
  have k1: "rkey (nodes st1) b < reverse_so_key e"
    using sentinel_rkey [OF l1 b(2) same_sentinel [OF sn1 bd b(3)]] p(2) by (simp add: e_def)
  have n1: "nodes st1 n = Some e" "node_ok e" "i < length (hp_list st1)" using hi31 i by (simp_all add: st1_def e_def node_ok_def BZERO_entry_def)
  have ext1: "extends E st xs st2 xs'"
    if "sohash_inv E st2 xs'" "same_nodes (dom (nodes st)) (nodes st1) (nodes st2)" "regulars (nodes st2) xs' = regulars (nodes st1) xs"
      "set xs \<subseteq> set xs'" "owned_data st2 = owned_data st1" "kmem st2 = oks" "same_frame st1 st2" "hazard_ptrs_total st2 = hazard_ptrs_total st" for st2 xs'
  proof -
    have "regulars (nodes st1) xs = regulars (nodes st) xs" using sn1 xd by (intro same_regulars) (auto simp: same_nodes_def)
    moreover have "same_frame st st1" by (simp add: st1_def same_frame_def)
    ultimately show ?thesis
      using that od1 a(2) same_frame_trans [of st st1 st2] same_nodes_trans [OF sn1 that(2) subset_refl]
      unfolding extends_def mem_ok_def by simp
  qed
  have run: "insert_sentinel hi (bucket_loc p) i st =
      do { ((error, _), st) \<leftarrow> sohash_list_insert (bucket_loc p) n NULL i st1;
           if error \<noteq> 0 \<and> error \<noteq> EEXIST then Some (None, st)
           else do {
             (sentinel_node, st) \<leftarrow>
               (if error = EEXIST then do { st \<leftarrow> sohash_free_node n st; Some (cur (hp_list st ! i), st) } else Some (n, st));
             ((error, bucket), st) \<leftarrow> sohash_set_bucket hi sentinel_node (error = 0) st;
             Some (if error \<noteq> 0 then None else Some bucket, st) } }"
    using a(1) nN unfolding insert_sentinel_def by (simp add: n_def [symmetric] e_def [symmetric] st1_def set_new_node)
  show ?thesis
  proof (rule list_insert_effect [OF inv1 n1(3) insertI1 n1(1,2) b1 b(2) k1, where arg = NULL])
    fix c hp assume c: "sohash_list_insert (bucket_loc p) n NULL i st1 = Some ((EEXIST, c), set_hp i hp st1)" "c \<in> set xs"
      "found_at st1 (reverse_so_key e) (entry_type e) NULL c" "cur hp = c" "sohash_inv (insert n E) (set_hp i hp st1) xs"
      "hp_state hp = hp_state (hp_list st1 ! i)"
    let ?st2 = "set_hp i hp st1"
    obtain df where f: "sohash_free_node n ?st2 = Some (?st2\<lparr>nodes := (nodes ?st2)(n := None), data_freed := df\<rparr>)"
      "sohash_inv (insert n E - {n}) (?st2\<lparr>nodes := (nodes ?st2)(n := None), data_freed := df\<rparr>) xs"
      "owned_data (?st2\<lparr>nodes := (nodes ?st2)(n := None), data_freed := df\<rparr>) = owned_data ?st2"
      by (rule inv_free_node [OF c(5) insertI1])
    let ?st3 = "?st2\<lparr>nodes := (nodes ?st2)(n := None), data_freed := df\<rparr>"
    have n3: "nodes ?st3 = nodes st" using nd by (auto simp: st1_def)
    have inv3: "sohash_inv E ?st3 xs" using f(2) nE by simp
    have l3: "list_ok (nodes ?st3) xs" using inv3 by (simp only: sohash_inv_def)
    have c3: "c \<noteq> NULL" "sentinel_at (nodes ?st3) c (unat hi)"
    proof -
      show "c \<noteq> NULL" using l3 c(2) lseg_nodes unfolding list_ok_def by blast
      have "c \<in> dom (nodes st)" using c(2) xd by auto
      then have "c \<noteq> n" using nd by auto
      then obtain ec where "nodes st c = Some ec" "reverse_so_key ec = sohash_sentinelkey hi"
        using c(3) by (auto simp: found_at_def st1_def e_def)
      then show "sentinel_at (nodes ?st3) c (unat hi)" using found_sentinel [OF l3 c(2)] hi31 unfolding n3 by blast
    qed
    have "extends E st xs ?st3 xs"
    proof (rule ext1 [OF inv3])
      show "same_nodes (dom (nodes st)) (nodes st1) (nodes ?st3)" unfolding n3 by (rule same_nodes_sym [OF sn1])
      have "same_nodes (set xs) (nodes st1) (nodes st)" using same_nodes_sym [OF sn1] xd by (auto simp: same_nodes_def)
      then show "regulars (nodes ?st3) xs = regulars (nodes st1) xs" unfolding n3 by (rule same_regulars)
      show "owned_data ?st3 = owned_data st1" using f(3) by (simp add: owned_data_def)
    qed (simp_all add: st1_def same_frame_def)
    moreover have "covered {} ?st3 xs = covered {} st xs" unfolding covered_def n3 by (simp add: st1_def)
    ultimately have "bucket_result {} E st xs hi
        (do { ((error, bucket), st) \<leftarrow> sohash_set_bucket hi c False ?st3; Some (if error \<noteq> 0 then None else Some bucket, st) })"
      using set_bucket_result [OF inv3 hi c(2) c3, of False] by (intro bucket_result_trans [of E st xs ?st3 xs "{}" "{}"]) simp_all
    then show ?thesis unfolding run using c(1,4) f(1) n1(3) by simp
  next
    fix us vs hp
    let ?st2 = "set_hp i hp (st1\<lparr>nodes := linked_in (nodes st1) us vs n\<rparr>)"
    assume c: "sohash_list_insert (bucket_loc p) n NULL i st1 = Some ((0, NULL), ?st2)" "xs = us @ vs"
      "\<not> (\<exists>c\<in>set xs. found_at st1 (reverse_so_key e) (entry_type e) NULL c)" "sohash_inv (insert n E - {n}) ?st2 (us @ n # vs)" "same_nodes UNIV (nodes st1) (linked_in (nodes st1) us vs n)"
    have inv2: "sohash_inv E ?st2 (us @ n # vs)" using c(4) nE by simp
    have "extends E st xs ?st2 (us @ n # vs)"
    proof (rule ext1 [OF inv2])
      show "regulars (nodes ?st2) (us @ n # vs) = regulars (nodes st1) xs"
        using regulars_insert_sentinel [OF c(5) n1(1)] c(2) by (simp add: e_def)
      show "owned_data ?st2 = owned_data st1" using node_data_same [OF c(5)] by (simp add: owned_data_def)
    qed (use c in \<open>auto simp: st1_def same_frame_def same_nodes_def\<close>)
    moreover have "sentinel_at (nodes ?st2) n (unat hi)"
      using same_sentinel [OF c(5) UNIV_I, of n "unat hi"] n1(1) by (simp add: sentinel_at_def e_def)
    moreover have "bucket_unset ?st2 hi" "covered {} st xs \<longrightarrow> covered {n} ?st2 (us @ n # vs)"
    proof -
      have s1: "same_nodes (set xs) (nodes st) (nodes st1)" using sn1 xd by (auto simp: same_nodes_def)
      have "bucket_unset st hi" by (rule no_sentinel_unset [OF inv hi(2) s1]) (use c(3) in \<open>simp add: e_def\<close>)
      then show "bucket_unset ?st2 hi" by (simp add: bucket_unset_def st1_def)
      have "same_nodes (set xs) (nodes st) (nodes ?st2)" by (rule same_nodes_trans [OF s1 _ subset_UNIV]) (use c(5) in simp)
      then show "covered {} st xs \<longrightarrow> covered {n} ?st2 (us @ n # vs)"
        using covered_new [of st xs ?st2 "us @ n # vs" n] c(2) xd nd by (auto simp: same_table_def st1_def)
    qed
    ultimately have "bucket_result {} E st xs hi
        (do { ((error, bucket), st) \<leftarrow> sohash_set_bucket hi n True ?st2; Some (if error \<noteq> 0 then None else Some bucket, st) })"
      by (intro bucket_result_trans [of E st xs ?st2 "us @ n # vs" "{}" "{n}"] set_bucket_result [OF inv2 hi _ nN, of True, simplified]) simp_all
    then show ?thesis unfolding run using c(1) by simp
  qed
qed

lemma bucket_zero_set:
  assumes inv: "sohash_inv E st xs"
  shows "\<not> bucket_unset st 0"
proof -
  have "hd xs \<noteq> NULL" using inv by (cases xs) (auto simp: sohash_inv_def list_ok_def)
  then show ?thesis using inv by (auto simp: sohash_inv_def buckets_ok_def bucket_unset_def)
qed

lemma initialize_bucket_result:
  assumes "sohash_inv E st xs" "i < length (hp_list st)" "hash_state st \<noteq> SOHASH_STATE_FLUSH" "hi < 2 ^ 17"
  shows "bucket_result {} E st xs hi (sohash_initialize_bucket hi i st)"
  using assms
proof (induction hi arbitrary: st xs rule: less_induct)
  case (less hi)
  note inv = less.prems(1)
  show ?case
  proof (rule get_bucket_cases [OF inv less.prems(4)])
    assume "sohash_get_bucket st hi = Some (Some (bucket_loc hi))" "bucket_set st xs hi"
    then show ?thesis using extends_refl [OF inv] less.prems(3)
      by (subst sohash_initialize_bucket.simps) (auto simp: bucket_result_def)
  next
    assume un: "sohash_get_bucket st hi = Some None" "bucket_unset st hi"
    then have hi: "hi \<noteq> 0" using bucket_zero_set [OF inv] by auto
    obtain p where p: "unsetmsb hi = Some p" using unsetmsb_total by blast
    have lt: "p < hi" "sohash_sentinelkey p < sohash_sentinelkey hi"
      using unsetmsb_less [OF p hi] sentinel_parent_before [OF p hi] by auto
    then have p17: "p < 2 ^ 17" using less.prems(4) by (meson order_less_trans)
    have run: "sohash_initialize_bucket hi i st =
        do { parent_bucket \<leftarrow> sohash_get_bucket st p;
             (parent_bucket, st) \<leftarrow> (if parent_bucket = None then sohash_initialize_bucket p i st else Some (parent_bucket, st));
             case parent_bucket of None \<Rightarrow> Some (None, st) | Some parent_bucket \<Rightarrow> insert_sentinel hi parent_bucket i st }"
      using un(1) hi p less.prems(3) by (subst sohash_initialize_bucket.simps) simp
    show ?thesis
    proof (rule get_bucket_cases [OF inv p17])
      assume "sohash_get_bucket st p = Some (Some (bucket_loc p))" "bucket_set st xs p"
      then show ?thesis using insert_sentinel_result [OF inv less.prems(2) hi less.prems(4) _ lt(2)] by (simp add: run)
    next
      assume g: "sohash_get_bucket st p = Some None"
      obtain r st' xs' where r: "sohash_initialize_bucket p i st = Some (r, st')" and ext: "extends E st xs st' xs'"
        
        and cv: "mem_ok st \<longrightarrow> covered {} st xs \<longrightarrow> covered {} st' xs'" and c: "r = None \<and> \<not> mem_ok st \<or> r = Some (bucket_loc p) \<and> bucket_set st' xs' p"
        using less.IH [OF lt(1) inv less.prems(2,3) p17] by (auto simp: bucket_result_def)
      have i': "sohash_inv E st' xs'" "i < length (hp_list st')" using ext less.prems(2) by (auto simp: extends_def same_frame_def)
      from c show ?thesis
      proof
        assume "r = None \<and> \<not> mem_ok st"
        then show ?thesis using g r ext by (auto simp: run bucket_result_def)
      next
        assume b: "r = Some (bucket_loc p) \<and> bucket_set st' xs' p"
        then have "bucket_result {} E st' xs' hi (insert_sentinel hi (bucket_loc p) i st')"
          by (intro insert_sentinel_result [OF i' hi less.prems(4) _ lt(2)]) simp
        then have "bucket_result {} E st xs hi (insert_sentinel hi (bucket_loc p) i st')" by (rule bucket_result_trans [OF ext cv])
        then show ?thesis using b g r by (simp add: run)
      qed
    qed
  qed
qed

lemma bucket_for_result:
  assumes "sohash_inv E st xs" "i < length (hp_list st)" "hash_state st = SOHASH_STATE_ACTIVE" "hi < 2 ^ 17"
  shows "bucket_result {} E st xs hi (bucket_for hi i st)"
proof (rule get_bucket_cases [OF assms(1,4)])
  assume "sohash_get_bucket st hi = Some (Some (bucket_loc hi))" "bucket_set st xs hi"
  then show ?thesis using extends_refl [OF assms(1)] by (auto simp: bucket_for_def bucket_result_def)
next
  assume "sohash_get_bucket st hi = Some None"
  then show ?thesis using initialize_bucket_result [OF assms(1,2) _ assms(4)] assms(3) by (simp add: bucket_for_def sohash_consts)
qed

text \<open>The bucket of a key, from whose sentinel on the key is searched.\<close>
lemma key_bucket:
  assumes inv: "sohash_inv E st xs"
  obtains hi where "hashindex_of st key = Some hi" "hi < 2 ^ 17" "sohash_sentinelkey hi < sohash_regularkey key"
proof -
  obtain n where n: "1 \<le> n" "n \<le> 17" "sohash_current_size st = 2 ^ n" using inv by (auto simp: sohash_inv_def sizes_ok_def)
  have sz: "(word_of_int (2 ^ n) :: u32) = 2 ^ n" by simp
  have "(2 ^ n :: nat) < 2 ^ 32" using n(2) by (intro power_strict_increasing) simp_all
  then have "unat (word_of_nat (2 ^ n) :: u32) = 2 ^ n" unfolding unat_of_nat by simp
  then have un: "unat (2 ^ n :: u32) = 2 ^ n" by simp
  then have nz: "(2 ^ n :: u32) \<noteq> 0" by (metis power_not_zero unat_0 zero_neq_numeral)
  have "unat (key mod 2 ^ n) < 2 ^ n" unfolding unat_mod un by simp
  also have "(2 ^ n :: nat) \<le> 2 ^ 17" using n(2) by (intro power_increasing) simp_all
  finally have "key mod 2 ^ n < 2 ^ 17" by (simp add: word_less_nat_alt)
  then show thesis using sentinel_before_key [of n key] n nz sz
    by (intro that [of "key mod 2 ^ n"]) (simp_all add: hashindex_of_def)
qed

lemma bucket_set_key:
  assumes "sohash_inv E st xs" "bucket_set st xs hi" "sohash_sentinelkey hi < k"
  obtains a where "read_loc st (bucket_loc hi) = Some a" "a \<in> set xs" "rkey (nodes st) a < k"
proof -
  obtain a where a: "read_loc st (bucket_loc hi) = Some a" "a \<in> set xs" "sentinel_at (nodes st) a (unat hi)"
    using assms(2) by (auto simp: bucket_set_def)
  then show thesis using sentinel_rkey [of "nodes st" xs a hi] assms by (intro that [of a]) (auto simp: sohash_inv_def)
qed

end
