(* ===== verification/Mvfs_Sohash_Map.thy ===== *)
theory Mvfs_Sohash_Map
  imports Mvfs_Sohash_Buckets
begin

text \<open>The split ordered hash table as a map from nodes to keys and data: its operations return, and do what the
  map does, as long as the table has room.\<close>

section \<open>Hazard references of an operation\<close>

lemma inv_add_hp:
  assumes inv: "sohash_inv E st xs" and len: "length (hp_list st) < 2 ^ 28"
  shows "sohash_inv E (st\<lparr>kmem := oks, hp_list := hp_list st @ [new_hp s], hazard_ptrs_total := wrap32 (hazard_ptrs_total st + 3)\<rparr>) xs"
proof -
  have ho: "hps_ok st" and so: "store_ok (nodes st) (hp_list st) xs E (kmem_next st)" using inv by (auto simp: sohash_inv_def)
  have t: "hazard_ptrs_total st + 3 = 3 * (int (length (hp_list st)) + 1)" using ho by (simp add: hps_ok_def)
  have "wrap32 (hazard_ptrs_total st + 3) = hazard_ptrs_total st + 3"
    by (rule wrap32_id) (use t len in simp_all)
  then have 1: "hps_ok (st\<lparr>kmem := oks, hp_list := hp_list st @ [new_hp s], hazard_ptrs_total := wrap32 (hazard_ptrs_total st + 3)\<rparr>)"
    using ho by (auto simp: hps_ok_def hp_ok_def new_hp_def)
  have "retired (hp_list st @ [new_hp s]) = retired (hp_list st)" by (simp add: retired_def new_hp_def)
  then have 2: "store_ok (nodes st) (hp_list st @ [new_hp s]) xs E (kmem_next st)"
    using so unfolding store_ok_def by (auto simp: nth_append new_hp_def less_Suc_eq)
  show ?thesis using inv 1 2 by (simp add: sohash_inv_def sizes_ok_def)
qed

lemma hp_walk_Some: "hp_walk n hps = Some i \<Longrightarrow> i < n"
  by (induction n) (auto split: if_splits)

text \<open>What taking and giving back a hazard reference leaves alone.\<close>
definition same_list :: "sohash_table \<Rightarrow> sohash_table \<Rightarrow> bool" where
  "same_list st st' \<longleftrightarrow> nodes st' = nodes st \<and> hashtable st' = hashtable st \<and> data_freed st' = data_freed st \<and>
    (mem_ok st \<longrightarrow> mem_ok st') \<and> sohash_keys_unique st' = sohash_keys_unique st \<and>
    fn_verify_matched_entry st' = fn_verify_matched_entry st \<and> hash_state st' = hash_state st \<and>
    sohash_sentinelkey_count st' = sohash_sentinelkey_count st \<and> sohash_regularkey_count st' = sohash_regularkey_count st \<and> sohash_current_size st' = sohash_current_size st \<and>
    length (hp_list st) \<le> length (hp_list st') \<and> length (hp_list st') \<le> length (hp_list st) + 1"

lemma same_list_owned: "same_list st st' \<Longrightarrow> owned_data st' = owned_data st"
  by (simp add: same_list_def owned_data_def)

lemma hp_get_cases:
  assumes inv: "sohash_inv E st xs" and len: "length (hp_list st) < 2 ^ 28"
  obtains (ok) i st' where "sohash_hp_get st = ((0, i), st')" "sohash_inv E st' xs" "i < length (hp_list st')" "same_list st st'"
    | (fail) st' where "sohash_hp_get st = ((ENOMEM, 0), st')" "sohash_inv E st' xs" "same_list st st'" "\<not> mem_ok st"
proof (cases "hp_walk (length (hp_list st)) (hp_list st)")
  case (Some i)
  then have i: "i < length (hp_list st)" by (rule hp_walk_Some)
  let ?st' = "set_hp i ((hp_list st ! i)\<lparr>hp_state := SOHASH_HP_INUSE\<rparr>) st"
  have "sohash_inv E ?st' xs" by (rule inv_set_hp [OF inv i]) (use inv_hp [OF inv i] in \<open>simp_all add: hp_ok_def\<close>)
  then show thesis using Some i by (intro ok [of i ?st']) (simp_all add: sohash_hp_get_def same_list_def mem_ok_def)
next
  case None
  show thesis
  proof (rule KMEM_ALLOC_cases [of st])
    fix oks assume k: "KMEM_ALLOC st = (False, st\<lparr>kmem := oks\<rparr>)" "\<not> mem_ok st"
    show thesis by (rule fail [OF _ inv_kmem [OF inv, of oks]])
      (use k None in \<open>simp_all add: sohash_hp_get_def same_list_def\<close>)
  next
    fix oks assume k: "KMEM_ALLOC st = (True, st\<lparr>kmem := oks\<rparr>)" "mem_ok st \<Longrightarrow> list_all id oks"
    show thesis by (rule ok [of "length (hp_list st)", OF _ inv_add_hp [OF inv len, of SOHASH_HP_INUSE oks]])
      (use k None in \<open>simp_all add: sohash_hp_get_def same_list_def mem_ok_def\<close>)
  qed
qed

lemma hp_release_length [simp]: "length (hp_list (sohash_hp_release i st)) = length (hp_list st)"
  by (simp add: sohash_hp_release_def)

lemma hp_release:
  assumes inv: "sohash_inv E st xs" and i: "i < length (hp_list st)"
    and hp: "rlist hp = rlist (hp_list st ! i)" "rcount hp = rcount (hp_list st ! i)"
  shows "sohash_inv E (sohash_hp_release i (set_hp i hp st)) xs" "same_list st (sohash_hp_release i (set_hp i hp st))"
proof -
  have "sohash_hp_release i (set_hp i hp st) = set_hp i (hp\<lparr>hazard_ptrs := [NULL, NULL, NULL], hp_state := SOHASH_HP_FREE\<rparr>) st"
    using i by (simp add: sohash_hp_release_def set_hp_def)
  moreover have "sohash_inv E (set_hp i (hp\<lparr>hazard_ptrs := [NULL, NULL, NULL], hp_state := SOHASH_HP_FREE\<rparr>) st) xs"
    by (rule inv_set_hp [OF inv i]) (use inv_hp [OF inv i] hp in \<open>simp_all add: hp_ok_def\<close>)
  ultimately show "sohash_inv E (sohash_hp_release i (set_hp i hp st)) xs" "same_list st (sohash_hp_release i (set_hp i hp st))"
    by (simp_all add: same_list_def mem_ok_def)
qed

lemma hp_release_id:
  assumes "sohash_inv E st xs" "i < length (hp_list st)"
  shows "sohash_inv E (sohash_hp_release i st) xs" "same_list st (sohash_hp_release i st)"
  using hp_release [OF assms refl refl] by (simp_all add: set_hp_def)

section \<open>The map a table stands for\<close>

text \<open>The regular nodes in the list, with the part of the key that counts and the data.\<close>
definition live :: "store \<Rightarrow> addr list \<Rightarrow> addr \<Rightarrow> (u32 \<times> addr) option" where
  "live h xs a = (if a \<in> set (regulars h xs) then map_option (\<lambda>e. (key31 (so_key e), data e)) (h a) else None)"

type_synonym smap = "addr \<Rightarrow> (u32 \<times> addr) option"

text \<open>The nodes an operation with a key and an argument for the callback is about; \<open>V\<close> is what the callback
  says of the data of an entry.\<close>
definition hits :: "bool \<Rightarrow> (addr \<Rightarrow> addr \<Rightarrow> bool) \<Rightarrow> smap \<Rightarrow> u32 \<Rightarrow> addr \<Rightarrow> addr set" where
  "hits uniq V m k arg = {a. \<exists>d. m a = Some (key31 k, d) \<and> (uniq \<or> V d arg)}"

text \<open>The table with the list \<open>xs\<close> stands for the map; \<open>E\<close> are the loose nodes of an operation under way, and \<open>K\<close> says
  that no allocation has failed or will: then every sentinel is in its bucket and counted.\<close>
definition rep_at :: "bool \<Rightarrow> addr set \<Rightarrow> bool \<Rightarrow> (addr \<Rightarrow> addr \<Rightarrow> bool) \<Rightarrow> sohash_table \<Rightarrow> addr list \<Rightarrow> smap \<Rightarrow> bool" where
  "rep_at K E uniq V st xs m \<longleftrightarrow> sohash_inv E st xs \<and> m = live (nodes st) xs \<and>
    sohash_regularkey_count st = int (length (regulars (nodes st) xs)) \<and>
    hash_state st = SOHASH_STATE_ACTIVE \<and> sohash_keys_unique st = uniq \<and>
    (\<not> uniq \<longrightarrow> fn_verify_matched_entry st = (\<lambda>e. V (data e))) \<and> (K \<longrightarrow> mem_ok st \<and> covered {} st xs)"

definition sohash_rep :: "bool \<Rightarrow> bool \<Rightarrow> (addr \<Rightarrow> addr \<Rightarrow> bool) \<Rightarrow> sohash_table \<Rightarrow> smap \<Rightarrow> bool" where
  "sohash_rep K uniq V st m \<longleftrightarrow> (\<exists>xs. rep_at K {} uniq V st xs m)"

definition sohash_room :: "sohash_table \<Rightarrow> bool" where
  "sohash_room st \<longleftrightarrow> sohash_regularkey_count st < 262143 \<and> length (hp_list st) < 2 ^ 28"

lemma live_same:
  assumes "same_nodes (set xs) h h'" "regulars h' xs' = regulars h xs"
  shows "live h' xs' = live h xs"
proof
  fix a
  show "live h' xs' a = live h xs a"
  proof (cases "a \<in> set (regulars h xs)")
    case True
    then obtain e where e: "h a = Some e" and ax: "a \<in> set xs" by (auto simp: regulars_def is_regular_def)
    show ?thesis by (rule same_nodesD [OF assms(1) ax e]) (use True e assms(2) in \<open>simp add: live_def\<close>)
  qed (simp add: live_def assms(2))
qed

lemma found_hits:
  assumes inv: "sohash_inv E st xs" and c: "c \<in> set xs"
    and v: "\<not> sohash_keys_unique st \<longrightarrow> fn_verify_matched_entry st = (\<lambda>e. V (data e))"
  shows "found_at st (sohash_regularkey k) SOHASH_REGULAR_NODE arg c \<longleftrightarrow> c \<in> hits (sohash_keys_unique st) V (live (nodes st) xs) k arg"
proof -
  obtain e where e: "nodes st c = Some e" "node_ok e" using inv c by (auto simp: sohash_inv_def list_ok_def)
  have "reverse_so_key e = sohash_regularkey k \<longleftrightarrow> entry_type e = SOHASH_REGULAR_NODE \<and> key31 (so_key e) = key31 k"
    using e(2) sentinel_not_regular [of "so_key e" k] by (auto simp: node_ok_def regularkey_eq_iff)
  then show ?thesis using e c v
    by (cases "sohash_keys_unique st") (auto simp: found_at_def find_match_def hits_def live_def regulars_def is_regular_def)
qed

lemma hits_in_list: "c \<in> hits uniq V (live h xs) k arg \<Longrightarrow> c \<in> set xs \<and> is_regular h c"
  by (auto simp: hits_def live_def regulars_def split: if_splits)

lemma rep_same_list: "rep_at K E uniq V st xs m \<Longrightarrow> sohash_inv E st' xs \<Longrightarrow> same_list st st' \<Longrightarrow> rep_at K E uniq V st' xs m"
  by (simp add: rep_at_def same_list_def covered_def)

lemma rep_extends:
  assumes r: "rep_at K E uniq V st xs m" and e: "extends E st xs st' xs'" and c: "mem_ok st \<longrightarrow> covered {} st xs \<longrightarrow> covered {} st' xs'"
  shows "rep_at K E uniq V st' xs' m"
proof -
  have "set xs \<subseteq> dom (nodes st)" using r store_okD(1) by (fastforce simp: rep_at_def sohash_inv_def)
  then have "same_nodes (set xs) (nodes st) (nodes st')" using e by (auto simp: extends_def same_nodes_def)
  then have "live (nodes st') xs' = live (nodes st) xs" by (rule live_same) (use e in \<open>simp add: extends_def\<close>)
  then show ?thesis using r e c by (simp add: rep_at_def extends_def same_frame_def)
qed

text \<open>The start of a lookup: the bucket of the key is found or set up.\<close>
lemma locate:
  assumes r: "rep_at K E uniq V st xs m" and i: "i < length (hp_list st)"
  obtains hi st' xs' where "hashindex_of st key = Some hi" "bucket_for hi i st = Some (None, st')"
      "rep_at K E uniq V st' xs' m" "extends E st xs st' xs'" "\<not> mem_ok st"
    | hi st' xs' a where "hashindex_of st key = Some hi" "bucket_for hi i st = Some (Some (bucket_loc hi), st')"
      "rep_at K E uniq V st' xs' m" "extends E st xs st' xs'"
      "read_loc st' (bucket_loc hi) = Some a" "a \<in> set xs'" "rkey (nodes st') a < sohash_regularkey key"
proof -
  have inv: "sohash_inv E st xs" and a: "hash_state st = SOHASH_STATE_ACTIVE" using r by (auto simp: rep_at_def)
  obtain hi where hi: "hashindex_of st key = Some hi" "hi < 2 ^ 17" "sohash_sentinelkey hi < sohash_regularkey key"
    by (rule key_bucket [OF inv])
  obtain b st' xs' where b: "bucket_for hi i st = Some (b, st')" "extends E st xs st' xs'"
    "mem_ok st \<longrightarrow> covered {} st xs \<longrightarrow> covered {} st' xs'" "b = None \<and> \<not> mem_ok st \<or> b = Some (bucket_loc hi) \<and> bucket_set st' xs' hi"
    using bucket_for_result [OF inv i a hi(2)] by (auto simp: bucket_result_def)
  have r': "rep_at K E uniq V st' xs' m" by (rule rep_extends [OF r b(2,3)])
  then have inv': "sohash_inv E st' xs'" by (simp add: rep_at_def)
  from b(4) show thesis
  proof
    assume "b = None \<and> \<not> mem_ok st"
    then show thesis using hi(1) b r' by (intro that(1)) auto
  next
    assume s: "b = Some (bucket_loc hi) \<and> bucket_set st' xs' hi"
    then obtain a where "read_loc st' (bucket_loc hi) = Some a" "a \<in> set xs'" "rkey (nodes st') a < sohash_regularkey key"
      using bucket_set_key [OF inv' _ hi(3)] by blast
    then show thesis using s hi(1) b r' by (intro that(2)) auto
  qed
qed

lemma found_hits_ex:
  assumes "rep_at K E uniq V st xs m"
  shows "(\<exists>c\<in>set xs. found_at st (sohash_regularkey k) SOHASH_REGULAR_NODE arg c) \<longleftrightarrow> hits uniq V m k arg \<noteq> {}"
    "c \<in> set xs \<Longrightarrow> found_at st (sohash_regularkey k) SOHASH_REGULAR_NODE arg c \<longleftrightarrow> c \<in> hits uniq V m k arg"
proof -
  have *: "found_at st (sohash_regularkey k) SOHASH_REGULAR_NODE arg c \<longleftrightarrow> c \<in> hits uniq V m k arg" if "c \<in> set xs" for c
    using found_hits [of E st xs c V k arg] assms that by (simp add: rep_at_def)
  show "c \<in> set xs \<Longrightarrow> found_at st (sohash_regularkey k) SOHASH_REGULAR_NODE arg c \<longleftrightarrow> c \<in> hits uniq V m k arg" by (rule *)
  have "c \<in> set xs" if "c \<in> hits uniq V m k arg" for c
    using that hits_in_list [of c uniq V "nodes st" xs k arg] assms by (simp add: rep_at_def)
  then show "(\<exists>c\<in>set xs. found_at st (sohash_regularkey k) SOHASH_REGULAR_NODE arg c) \<longleftrightarrow> hits uniq V m k arg \<noteq> {}"
    using * by blast
qed

section \<open>Finding an entry\<close>

lemma find_entry_effect:
  assumes rep: "sohash_rep K uniq V st m" and room: "sohash_room st"
  obtains n st' where "sohash_find_entry k arg st = Some (n, st')" "sohash_rep K uniq V st' m" "owned_data st' = owned_data st"
    "mem_ok st \<Longrightarrow> mem_ok st'" "n \<in> hits uniq V m k arg \<and> n \<noteq> NULL \<or> n = NULL \<and> (hits uniq V m k arg = {} \<or> \<not> mem_ok st)"
    "length (hp_list st') \<le> length (hp_list st) + 1" "sohash_regularkey_count st' = sohash_regularkey_count st"
proof -
  obtain xs where r: "rep_at K {} uniq V st xs m" using rep by (auto simp: sohash_rep_def)
  then have inv: "sohash_inv {} st xs" and act: "hash_state st = SOHASH_STATE_ACTIVE" by (auto simp: rep_at_def)
  have len: "length (hp_list st) < 2 ^ 28" using room by (simp add: sohash_room_def)
  show thesis
  proof (rule hp_get_cases [OF inv len])
    fix st1 assume g: "sohash_hp_get st = ((ENOMEM, 0), st1)" "sohash_inv {} st1 xs" "same_list st st1" "\<not> mem_ok st"
    have "rep_at K {} uniq V st1 xs m" by (rule rep_same_list [OF r g(2,3)])
    then show thesis using g act same_list_owned [OF g(3)]
      by (intro that [of NULL st1]) (auto simp: sohash_find_entry_def sohash_rep_def same_list_def)
  next
    fix i st1 assume g: "sohash_hp_get st = ((0, i), st1)" "sohash_inv {} st1 xs" "i < length (hp_list st1)" "same_list st st1"
    have r1: "rep_at K {} uniq V st1 xs m" by (rule rep_same_list [OF r g(2,4)])
    show thesis
    proof (rule locate [OF r1 g(3), of k])
      fix hi st2 xs2 assume l: "hashindex_of st1 k = Some hi" "bucket_for hi i st1 = Some (None, st2)"
        "rep_at K {} uniq V st2 xs2 m" "extends {} st1 xs st2 xs2" "\<not> mem_ok st1"
      have i2: "sohash_inv {} st2 xs2" "i < length (hp_list st2)" using l(3,4) g(3) by (auto simp: rep_at_def extends_def same_frame_def)
      note rel = hp_release_id [OF i2]
      have "rep_at K {} uniq V (sohash_hp_release i st2) xs2 m" by (rule rep_same_list [OF l(3) rel])
      then show thesis using g l rel(2) act same_list_owned [OF rel(2)] same_list_owned [OF g(4)]
        by (intro that [of NULL "sohash_hp_release i st2"])
          (auto simp: sohash_find_entry_def sohash_rep_def same_list_def extends_def same_frame_def)
    next
      fix hi st2 xs2 a assume l: "hashindex_of st1 k = Some hi" "bucket_for hi i st1 = Some (Some (bucket_loc hi), st2)"
        "rep_at K {} uniq V st2 xs2 m" "extends {} st1 xs st2 xs2"
        "read_loc st2 (bucket_loc hi) = Some a" "a \<in> set xs2" "rkey (nodes st2) a < sohash_regularkey k"
      have i2: "sohash_inv {} st2 xs2" "i < length (hp_list st2)" using l(3,4) g(3) by (auto simp: rep_at_def extends_def same_frame_def)
      have l2: "list_ok (nodes st2) xs2" using i2 by (simp add: sohash_inv_def)
      obtain us vs hp where s: "search_end st2 xs2 (sohash_regularkey k) SOHASH_REGULAR_NODE arg i us vs hp"
        "sohash_list_find (bucket_loc hi) (sohash_regularkey k) SOHASH_REGULAR_NODE arg i st2 =
          Some (if hits uniq V m k arg \<noteq> {} then hd vs else NULL, set_hp i hp st2)"
        by (rule list_find_end [OF l2 hazards_of_inv [OF i2] l(5-7), where ty = SOHASH_REGULAR_NODE and arg = arg,
              unfolded found_hits_ex(1) [OF l(3)]])
      define n where "n = (if hits uniq V m k arg \<noteq> {} then hd vs else NULL)"
      note s1 = s(1) [unfolded search_end_def]
      have hp: "rlist hp = rlist (hp_list st2 ! i)" "rcount hp = rcount (hp_list st2 ! i)" using s1 by auto
      have "n \<in> hits uniq V m k arg \<and> n \<noteq> NULL" if h: "hits uniq V m k arg \<noteq> {}"
      proof -
        have v: "vs \<noteq> []" "found_at st2 (sohash_regularkey k) SOHASH_REGULAR_NODE arg (hd vs)"
          using s1 h found_hits_ex(1) [OF l(3)] by blast+
        then have "hd vs \<in> set xs2" using s1 by auto
        then show ?thesis using v h found_hits_ex(2) [OF l(3)] lseg_nodes l2 unfolding n_def list_ok_def by metis
      qed
      then have res: "n \<in> hits uniq V m k arg \<and> n \<noteq> NULL \<or> n = NULL \<and> (hits uniq V m k arg = {} \<or> \<not> mem_ok st)"
        by (auto simp: n_def)
      note rel = hp_release [OF i2 hp]
      have "rep_at K {} uniq V (sohash_hp_release i (set_hp i hp st2)) xs2 m" by (rule rep_same_list [OF l(3) rel])
      then show thesis using g l s(2) rel(2) act same_list_owned [OF rel(2)] same_list_owned [OF g(4)] res
        by (intro that [of n "sohash_hp_release i (set_hp i hp st2)"])
          (auto simp: sohash_find_entry_def sohash_rep_def same_list_def extends_def same_frame_def n_def)
    qed
  qed
qed

section \<open>Deleting an entry\<close>

lemma live_remove:
  assumes "distinct (us @ c # ws)"
  shows "live h (us @ ws) = (live h (us @ c # ws))(c := None)"
  using assms by (auto simp: live_def regulars_def fun_eq_iff)

lemma regulars_remove: "is_regular h c \<Longrightarrow> length (regulars h (us @ c # ws)) = Suc (length (regulars h (us @ ws)))"
  by (simp add: regulars_def)

lemma inv_count: "sohash_inv E st xs \<Longrightarrow> sohash_inv E (st\<lparr>sohash_regularkey_count := n\<rparr>) xs"
  by (simp add: sohash_inv_def sizes_ok_def hps_ok_def)

lemma not_sentinel: "is_regular h c \<Longrightarrow> \<not> sentinel_at h c n"
  by (auto simp: is_regular_def sentinel_at_def)

lemma covered_remove:
  assumes "covered {} st (us @ c # ws)" "is_regular (nodes st) c" "same_nodes (set (us @ ws)) (nodes st) (nodes st')" "same_table st st'"
  shows "covered {} st' (us @ ws)"
proof -
  have "sentinels (nodes st) (us @ c # ws) = sentinels (nodes st) (us @ ws)"
    using not_sentinel [OF assms(2)] by (auto simp: sentinels_def)
  then have "covered {} st (us @ ws)" using assms(1) by (simp add: covered_def)
  then show ?thesis by (rule covered_same [OF _ assms(3) sentinels_same(1) [OF assms(3)] assms(4)])
qed

lemma covered_insert:
  assumes "covered {} st (us @ vs)" "is_regular (nodes st') n" "same_nodes (set (us @ vs)) (nodes st) (nodes st')" "same_table st st'"
  shows "covered {} st' (us @ n # vs)"
proof (rule covered_same [OF assms(1,3) _ assms(4)])
  have "sentinels (nodes st') (us @ n # vs) = sentinels (nodes st') (us @ vs)"
    using not_sentinel [OF assms(2)] by (auto simp: sentinels_def)
  then show "sentinels (nodes st') (us @ n # vs) = sentinels (nodes st) (us @ vs)" by (simp only: sentinels_same(1) [OF assms(3)])
qed

lemma delete_subr_effect:
  assumes r: "rep_at K {} uniq V st xs m" and i: "i < length (hp_list st)" and mem: "mem_ok st" and cnt: "sohash_regularkey_count st \<le> 262143"
    and b: "read_loc st loc = Some a" "a \<in> set xs" "rkey (nodes st) a < sohash_regularkey k"
  obtains (missing) st' where "sohash_delete_entry_subr (sohash_regularkey k) i loc SOHASH_REGULAR_NODE arg st = Some (ENOENT, st')"
      "hits uniq V m k arg = {}" "rep_at K {} uniq V st' xs m" "owned_data st' = owned_data st" "mem_ok st'"
      "length (hp_list st') = length (hp_list st)" "sohash_regularkey_count st' = sohash_regularkey_count st"
    | (gone) st' xs' c where "sohash_delete_entry_subr (sohash_regularkey k) i loc SOHASH_REGULAR_NODE arg st = Some (0, st')"
      "c \<in> hits uniq V m k arg" "rep_at K {} uniq V st' xs' (m(c := None))" "owned_data st' = owned_data st" "mem_ok st'"
      "length (hp_list st') = length (hp_list st)" "sohash_regularkey_count st' = sohash_regularkey_count st - 1" "c \<in> retired (hp_list st')"
proof -
  have inv: "sohash_inv {} st xs" and act: "hash_state st = SOHASH_STATE_ACTIVE" and m: "m = live (nodes st) xs"
    and ct: "sohash_regularkey_count st = int (length (regulars (nodes st) xs))" using r by (auto simp: rep_at_def)
  have reg: "is_regular (nodes st) c" if "c \<in> set xs" "found_at st (sohash_regularkey k) SOHASH_REGULAR_NODE arg c" for c
    using that found_hits_ex(2) [OF r that(1), of k arg] hits_in_list [of c uniq V "nodes st" xs k arg] by (simp add: m)
  show thesis
  proof (rule list_delete_effect [OF inv i mem act b reg])
    fix st' assume d: "sohash_list_delete loc (sohash_regularkey k) SOHASH_REGULAR_NODE arg i st = Some (ENOENT, st')"
      "\<not> (\<exists>c\<in>set xs. found_at st (sohash_regularkey k) SOHASH_REGULAR_NODE arg c)" "sohash_inv {} st' xs" "same_frame st st'"
      "nodes st' = nodes st" "mem_ok st'" "owned_data st' = owned_data st" "same_table st st'"
    have "rep_at K {} uniq V st' xs m" using r d(3-6,8) by (simp add: rep_at_def same_frame_def same_table_def covered_def)
    then show thesis using d found_hits_ex(1) [OF r, of k arg]
      by (intro missing [of st']) (simp_all add: sohash_delete_entry_subr_def same_frame_def)
  next
    fix st' us c ws assume d: "sohash_list_delete loc (sohash_regularkey k) SOHASH_REGULAR_NODE arg i st = Some (0, st')" "xs = us @ c # ws"
      "found_at st (sohash_regularkey k) SOHASH_REGULAR_NODE arg c" "sohash_inv {} st' (us @ ws)" "same_frame st st'"
      "same_nodes (dom (nodes st')) (nodes st) (nodes st')" "c \<in> retired (hp_list st')" "mem_ok st'" "owned_data st' = owned_data st" "same_table st st'"
    have cx: "c \<in> set xs" using d(2) by simp
    have dx: "distinct (us @ c # ws)" using inv d(2) by (simp add: sohash_inv_def list_ok_def)
    have "set (us @ ws) \<subseteq> dom (nodes st')" using d(4) store_okD(1) by (fastforce simp: sohash_inv_def)
    then have sn: "same_nodes (set (us @ ws)) (nodes st) (nodes st')" using d(6) by (auto simp: same_nodes_def)
    note rs = same_regulars [OF sn]
    have lv: "live (nodes st') (us @ ws) = m(c := None)" unfolding m d(2) live_same [OF sn rs] by (rule live_remove [OF dx])
    have ct': "sohash_regularkey_count st = int (length (regulars (nodes st') (us @ ws))) + 1"
      using ct regulars_remove [OF reg [OF cx d(3)]] rs d(2) by simp
    let ?st' = "st'\<lparr>sohash_regularkey_count := wrap32 (sohash_regularkey_count st' - 1)\<rparr>"
    have w: "wrap32 (sohash_regularkey_count st - 1) = sohash_regularkey_count st - 1"
      by (rule wrap32_id) (use ct' cnt in simp_all)
    have "K \<longrightarrow> covered {} st' (us @ ws)" using covered_remove [OF _ reg [OF cx d(3)] sn d(10)] r d(2) by (simp add: rep_at_def)
    then have "rep_at K {} uniq V ?st' (us @ ws) (m(c := None))"
      using r d(5,8) inv_count [OF d(4)] lv ct' w by (simp add: rep_at_def same_frame_def mem_ok_def covered_def)
    moreover have "sohash_delete_entry_subr (sohash_regularkey k) i loc SOHASH_REGULAR_NODE arg st = Some (0, ?st')"
      using d(1,5) ct' by (simp add: sohash_delete_entry_subr_def same_frame_def)
    ultimately show thesis using d found_hits_ex(2) [OF r cx, of k arg] w
      by (intro gone [of ?st' c "us @ ws"]) (simp_all add: same_frame_def owned_data_def mem_ok_def)
  qed
qed

lemma delete_entry_effect:
  assumes rep: "sohash_rep K uniq V st m" and room: "sohash_room st" and mem: "mem_ok st"
  obtains err st' m' where "sohash_delete_entry k arg st = Some (err, st')" "sohash_rep K uniq V st' m'" "owned_data st' = owned_data st" "mem_ok st'"
    "err = 0 \<and> (\<exists>c\<in>hits uniq V m k arg. m' = m(c := None) \<and> c \<in> retired (hp_list st')) \<or> err = ENOENT \<and> hits uniq V m k arg = {} \<and> m' = m"
    "length (hp_list st') \<le> length (hp_list st) + 1" "sohash_regularkey_count st' \<le> sohash_regularkey_count st"
proof -
  obtain xs where r: "rep_at K {} uniq V st xs m" using rep by (auto simp: sohash_rep_def)
  then have inv: "sohash_inv {} st xs" and act: "hash_state st = SOHASH_STATE_ACTIVE" by (auto simp: rep_at_def)
  have len: "length (hp_list st) < 2 ^ 28" and cnt: "sohash_regularkey_count st \<le> 262143" using room by (simp_all add: sohash_room_def)
  obtain i st1 where g: "sohash_hp_get st = ((0, i), st1)" "sohash_inv {} st1 xs" "i < length (hp_list st1)" "same_list st st1"
    using hp_get_cases [OF inv len] mem by metis
  have m1: "mem_ok st1" using g(4) mem by (simp add: same_list_def)
  have r1: "rep_at K {} uniq V st1 xs m" by (rule rep_same_list [OF r g(2,4)])
  obtain hi st2 xs2 a where l: "hashindex_of st1 k = Some hi" "bucket_for hi i st1 = Some (Some (bucket_loc hi), st2)"
    "rep_at K {} uniq V st2 xs2 m" "extends {} st1 xs st2 xs2"
    "read_loc st2 (bucket_loc hi) = Some a" "a \<in> set xs2" "rkey (nodes st2) a < sohash_regularkey k"
    using locate [OF r1 g(3), of k] m1 by metis
  have i2: "i < length (hp_list st2)" and m2: "mem_ok st2" and c2: "sohash_regularkey_count st2 = sohash_regularkey_count st"
    and o2: "owned_data st2 = owned_data st" and h2: "length (hp_list st2) \<le> length (hp_list st) + 1"
    using l(3,4) g(3,4) m1 same_list_owned [OF g(4)] by (auto simp: extends_def same_frame_def same_list_def)
  have run: "sohash_delete_entry k arg st =
      do { (error, st) \<leftarrow> sohash_delete_entry_subr (sohash_regularkey k) i (bucket_loc hi) SOHASH_REGULAR_NODE arg st2;
           Some (error, sohash_hp_release i st) }"
    using g(1) l(1,2) act by (simp add: sohash_delete_entry_def)
  have fin: "sohash_rep K uniq V (sohash_hp_release i st3) m' \<and> same_list st3 (sohash_hp_release i st3)"
    if "rep_at K {} uniq V st3 xs3 m'" "length (hp_list st3) = length (hp_list st2)" for st3 xs3 m'
  proof -
    have "sohash_inv {} st3 xs3" "i < length (hp_list st3)" using that i2 by (auto simp: rep_at_def)
    note rel = hp_release_id [OF this]
    show ?thesis using rep_same_list [OF that(1) rel] rel(2) by (auto simp: sohash_rep_def)
  qed
  have c2': "sohash_regularkey_count st2 \<le> 262143" using c2 cnt by simp
  show thesis
  proof (rule delete_subr_effect [OF l(3) i2 m2 c2' l(5-7), where arg = arg])
    fix st3 assume d: "sohash_delete_entry_subr (sohash_regularkey k) i (bucket_loc hi) SOHASH_REGULAR_NODE arg st2 = Some (ENOENT, st3)"
      "hits uniq V m k arg = {}" "rep_at K {} uniq V st3 xs2 m" "owned_data st3 = owned_data st2" "mem_ok st3"
      "length (hp_list st3) = length (hp_list st2)" "sohash_regularkey_count st3 = sohash_regularkey_count st2"
    note f = fin [OF d(3,6)]
    show thesis using d f run o2 c2 h2 same_list_owned [of st3 "sohash_hp_release i st3"]
      by (intro that [of ENOENT "sohash_hp_release i st3" m]) (simp_all add: same_list_def)
  next
    fix st3 xs3 c assume d: "sohash_delete_entry_subr (sohash_regularkey k) i (bucket_loc hi) SOHASH_REGULAR_NODE arg st2 = Some (0, st3)"
      "c \<in> hits uniq V m k arg" "rep_at K {} uniq V st3 xs3 (m(c := None))" "owned_data st3 = owned_data st2" "mem_ok st3"
      "length (hp_list st3) = length (hp_list st2)" "sohash_regularkey_count st3 = sohash_regularkey_count st2 - 1" "c \<in> retired (hp_list st3)"
    note f = fin [OF d(3,6)]
    have "retired (hp_list (sohash_hp_release i st3)) = retired (hp_list st3)"
      unfolding retired_rlists using i2 d(6) by (simp add: sohash_hp_release_def rlist_list_update)
    then show thesis using d f run o2 c2 h2 same_list_owned [of st3 "sohash_hp_release i st3"]
      by (intro that [of 0 "sohash_hp_release i st3" "m(c := None)"]) (auto simp: same_list_def)
  qed
qed

section \<open>Inserting an entry\<close>

lemma rep_kmem: "rep_at K E uniq V st xs m \<Longrightarrow> \<not> mem_ok st \<Longrightarrow> rep_at K E uniq V (st\<lparr>kmem := oks\<rparr>) xs m"
  using inv_kmem [of E st xs oks] by (simp add: rep_at_def)

lemma rep_new_node:
  assumes r: "rep_at K {} uniq V st xs m" and oks: "mem_ok st \<longrightarrow> list_all id oks"
  defines "n \<equiv> kmem_next st"
  shows "rep_at K {n} uniq V (st\<lparr>kmem := oks, nodes := (nodes st)(n \<mapsto> e), kmem_next := kmem_next st + 2\<rparr>) xs m"
    "m n = None" "n \<noteq> NULL"
proof -
  let ?st' = "st\<lparr>kmem := oks, nodes := (nodes st)(n \<mapsto> e), kmem_next := kmem_next st + 2\<rparr>"
  have inv: "sohash_inv {} st xs" and m: "m = live (nodes st) xs" using r by (auto simp: rep_at_def)
  have nn: "sohash_inv {n} ?st' xs" "same_nodes (dom (nodes st)) (nodes st) (nodes ?st')" "n \<notin> dom (nodes st)"
    using inv_new_node(1,4) [OF inv, where e = e and oks = oks] inv_new_node(2) [OF inv] by (simp_all add: n_def)
  show "n \<noteq> NULL" using inv_new_node(3) [OF inv] by (simp add: n_def)
  show "m n = None" using nn(3) by (auto simp: m live_def)
  have "set xs \<subseteq> dom (nodes st)" using inv store_okD(1) by (fastforce simp: sohash_inv_def)
  then have sn: "same_nodes (set xs) (nodes st) (nodes ?st')" by (rule same_nodes_trans [OF same_nodes_refl nn(2)])
  have "covered {} st xs \<longrightarrow> covered {} ?st' xs" using covered_same [OF _ sn sentinels_same(1) [OF sn]] by (simp add: same_table_def)
  then show "rep_at K {n} uniq V ?st' xs m"
    using r nn(1) oks live_same [OF sn same_regulars [OF sn]] same_regulars [OF sn] by (simp add: rep_at_def mem_ok_def)
qed

lemma rep_free_node:
  assumes r: "rep_at K {n} uniq V st xs m"
  obtains st' where "sohash_free_node n st = Some st'" "rep_at K {} uniq V st' xs m" "owned_data st' = owned_data st"
    "hp_list st' = hp_list st" "kmem st' = kmem st" "sohash_regularkey_count st' = sohash_regularkey_count st"
proof -
  have inv: "sohash_inv {n} st xs" using r by (simp add: rep_at_def)
  obtain df where f: "sohash_free_node n st = Some (st\<lparr>nodes := (nodes st)(n := None), data_freed := df\<rparr>)"
    "sohash_inv ({n} - {n}) (st\<lparr>nodes := (nodes st)(n := None), data_freed := df\<rparr>) xs"
    "owned_data (st\<lparr>nodes := (nodes st)(n := None), data_freed := df\<rparr>) = owned_data st"
    by (rule inv_free_node [OF inv insertI1])
  have "n \<notin> set xs" using inv store_okD(3) [of "nodes st" "hp_list st" xs "{n}" "kmem_next st"] by (auto simp: sohash_inv_def)
  then have sn: "same_nodes (set xs) (nodes st) ((nodes st)(n := None))" by (auto simp: same_nodes_def)
  let ?st' = "st\<lparr>nodes := (nodes st)(n := None), data_freed := df\<rparr>"
  have "covered {} st xs \<longrightarrow> covered {} ?st' xs" using covered_same [of "{}" st xs ?st' xs] sn sentinels_same(1) [OF sn] by (simp add: same_table_def)
  then have "rep_at K {} uniq V ?st' xs m"
    using r f(2) live_same [OF sn same_regulars [OF sn]] same_regulars [OF sn] by (simp add: rep_at_def mem_ok_def)
  then show thesis using f by (intro that [of "st\<lparr>nodes := (nodes st)(n := None), data_freed := df\<rparr>"]) simp_all
qed

lemma live_insert:
  assumes "same_nodes UNIV h h'" "h n = Some e" "entry_type e = SOHASH_REGULAR_NODE" "n \<notin> set (us @ vs)"
  shows "live h' (us @ n # vs) = (live h (us @ vs))(n \<mapsto> (key31 (so_key e), data e))"
    "length (regulars h' (us @ n # vs)) = Suc (length (regulars h (us @ vs)))"
proof -
  have sn: "same_nodes A h h'" for A using assms(1) by (simp add: same_nodes_def)
  have "live h' (us @ n # vs) = live h (us @ n # vs)" by (rule live_same [OF sn same_regulars [OF sn]])
  also have "\<dots> = (live h (us @ vs))(n \<mapsto> (key31 (so_key e), data e))"
    using assms(2-4) by (auto simp: live_def regulars_def is_regular_def fun_eq_iff)
  finally show "live h' (us @ n # vs) = (live h (us @ vs))(n \<mapsto> (key31 (so_key e), data e))" .
  show "length (regulars h' (us @ n # vs)) = Suc (length (regulars h (us @ vs)))"
    using same_regulars [OF sn, of "us @ n # vs"] assms(2,3) by (simp add: regulars_def is_regular_def)
qed

text \<open>Growing keeps the size a power of two that the segments can hold.\<close>
lemma grow_size_effect:
  assumes inv: "sohash_inv E st xs" and c: "0 \<le> sohash_regularkey_count st" "sohash_regularkey_count st < 262143"
  shows "sohash_inv E (grow_size st) xs" "sohash_regularkey_count (grow_size st) = sohash_regularkey_count st + 1"
    "nodes (grow_size st) = nodes st" "hp_list (grow_size st) = hp_list st" "kmem (grow_size st) = kmem st"
    "data_freed (grow_size st) = data_freed st" "hash_state (grow_size st) = hash_state st"
    "sohash_keys_unique (grow_size st) = sohash_keys_unique st" "fn_verify_matched_entry (grow_size st) = fn_verify_matched_entry st"
    "hashtable (grow_size st) = hashtable st" "sohash_sentinelkey_count (grow_size st) = sohash_sentinelkey_count st"
proof -
  obtain n where n: "1 \<le> n" "n \<le> 17" "sohash_current_size st = 2 ^ n" using inv by (auto simp: sohash_inv_def sizes_ok_def)
  have w: "wrap32 (sohash_regularkey_count st + 1) = sohash_regularkey_count st + 1" by (rule wrap32_id) (use c in simp_all)
  have "\<exists>k. 1 \<le> k \<and> k \<le> 17 \<and> sohash_current_size (grow_size st) = 2 ^ k"
  proof (cases "(sohash_regularkey_count st + 1) div 2 ^ n > 1")
    case True
    then have "n \<noteq> 17" using c by (intro notI) simp
    then have "n + 1 \<le> 17" using n by simp
    then have "(2 :: int) ^ (n + 1) \<le> 2 ^ 17" by (intro power_increasing) simp_all
    then have "wrap32 (2 ^ n * 2) = 2 ^ (n + 1)" by (subst wrap32_id) (simp_all add: order_trans [of _ 0])
    then show ?thesis using True n w \<open>n + 1 \<le> 17\<close> by (intro exI [of _ "n + 1"]) (simp add: grow_size_def Let_def SOHASH_MAX_LOAD_def)
  qed (use n w in \<open>auto simp: grow_size_def Let_def SOHASH_MAX_LOAD_def\<close>)
  then show "sohash_inv E (grow_size st) xs" using inv by (simp add: sohash_inv_def sizes_ok_def hps_ok_def grow_size_def Let_def)
  show "sohash_regularkey_count (grow_size st) = sohash_regularkey_count st + 1"
    "nodes (grow_size st) = nodes st" "hp_list (grow_size st) = hp_list st" "kmem (grow_size st) = kmem st"
    "data_freed (grow_size st) = data_freed st" "hash_state (grow_size st) = hash_state st"
    "sohash_keys_unique (grow_size st) = sohash_keys_unique st" "fn_verify_matched_entry (grow_size st) = fn_verify_matched_entry st"
    "hashtable (grow_size st) = hashtable st" "sohash_sentinelkey_count (grow_size st) = sohash_sentinelkey_count st"
    using w by (simp_all add: grow_size_def Let_def)
qed

text \<open>The outcome of an insertion, with the map it leads to.\<close>
definition insert_outcome :: "bool \<Rightarrow> (addr \<Rightarrow> addr \<Rightarrow> bool) \<Rightarrow> bool \<Rightarrow> smap \<Rightarrow> u32 \<Rightarrow> addr \<Rightarrow> addr \<Rightarrow> int \<Rightarrow> addr \<Rightarrow> smap \<Rightarrow> bool" where
  "insert_outcome uniq V ok m k d arg err node m' \<longleftrightarrow>
    err = 0 \<and> hits uniq V m k arg = {} \<and> m node = None \<and> node \<noteq> NULL \<and> m' = m(node \<mapsto> (key31 k, d)) \<or>
    err = EEXIST \<and> node \<in> hits uniq V m k arg \<and> m' = m \<or>
    \<not> ok \<and> err \<in> {ENOMEM, EFAULT} \<and> node = NULL \<and> m' = m"

text \<open>The part of the insertion after the bucket is known.\<close>
definition insert_in_bucket :: "addr \<Rightarrow> sohash_loc \<Rightarrow> addr \<Rightarrow> nat \<Rightarrow> sohash_table \<Rightarrow> ((int \<times> addr) \<times> sohash_table) option" where
  "insert_in_bucket n bucket arg i st =
    do { bucket_head \<leftarrow> read_loc st bucket;
         bh \<leftarrow> nodes st bucket_head;
         e \<leftarrow> nodes st n;
         let st = set_node n (e\<lparr>segment_index := segment_index bh, bucket_index := bucket_index bh\<rparr>) st;
         ((error, node), st) \<leftarrow> sohash_list_insert bucket n arg i st;
         if error \<noteq> 0 then do { st \<leftarrow> sohash_free_node n st; Some ((error, node), st) } else Some ((0, n), grow_size st) }"

definition insert_effect :: "bool \<Rightarrow> bool \<Rightarrow> (addr \<Rightarrow> addr \<Rightarrow> bool) \<Rightarrow> sohash_table \<Rightarrow> smap \<Rightarrow> u32 \<Rightarrow> addr \<Rightarrow> addr \<Rightarrow>
    ((int \<times> addr) \<times> sohash_table) option \<Rightarrow> bool" where
  "insert_effect K uniq V st m k d arg x \<longleftrightarrow> (\<exists>err node st' xs' m'. x = Some ((err, node), st') \<and> rep_at K {} uniq V st' xs' m' \<and>
     insert_outcome uniq V (mem_ok st) m k d arg err node m' \<and> owned_data st' = owned_data st + (if d = NULL then {#} else {#d#}) \<and>
     (mem_ok st \<longrightarrow> mem_ok st') \<and> length (hp_list st') = length (hp_list st) \<and>
     sohash_regularkey_count st' \<le> sohash_regularkey_count st + 1)"

lemma insert_effectI:
  assumes "x = Some ((err, node), st')" "rep_at K {} uniq V st' xs' m'" "insert_outcome uniq V (mem_ok st) m k d arg err node m'"
    "owned_data st' = owned_data st + (if d = NULL then {#} else {#d#})" "mem_ok st \<longrightarrow> mem_ok st'"
    "length (hp_list st') = length (hp_list st)" "sohash_regularkey_count st' \<le> sohash_regularkey_count st + 1"
  shows "insert_effect K uniq V st m k d arg x"
  using assms unfolding insert_effect_def by blast

lemma insert_in_bucket_effect:
  assumes r2: "rep_at K {n} uniq V st2 xs2 m" and i: "i < length (hp_list st2)" and cnt: "sohash_regularkey_count st2 < 262143"
    and a: "read_loc st2 (bucket_loc hi) = Some a" "a \<in> set xs2" "rkey (nodes st2) a < sohash_regularkey k"
    and e2: "nodes st2 n = Some e2" "data e2 = d" "reverse_so_key e2 = sohash_regularkey k" "so_key e2 = k" "entry_type e2 = SOHASH_REGULAR_NODE"
    and mn: "m n = None" "n \<noteq> NULL"
    and st: "mem_ok st \<longrightarrow> mem_ok st2" "length (hp_list st2) = length (hp_list st)" "sohash_regularkey_count st2 = sohash_regularkey_count st"
      "owned_data st2 = owned_data st + (if d = NULL then {#} else {#d#})"
  shows "insert_effect K uniq V st m k d arg (insert_in_bucket n (bucket_loc hi) arg i st2)"
proof -
  obtain bh where bh: "nodes st2 a = Some bh" using r2 a(2) by (auto simp: rep_at_def sohash_inv_def list_ok_def)
  define e3 where "e3 = e2\<lparr>segment_index := segment_index bh, bucket_index := bucket_index bh\<rparr>"
  have e3: "data e3 = d" "reverse_so_key e3 = sohash_regularkey k" "so_key e3 = k" "entry_type e3 = SOHASH_REGULAR_NODE"
    using e2 by (simp_all add: e3_def)
  let ?st3 = "set_node n e3 st2"
  have sn: "same_nodes UNIV (nodes st2) (nodes ?st3)" using e2(1) by (simp add: same_nodes_def e3_def)
  have inv3: "sohash_inv {n} ?st3 xs2"
    using inv_relabel [of "{n}" st2 xs2 "(nodes st2)(n \<mapsto> e3)" "sohash_sentinelkey_count st2"] r2 sn e2(1)
    by (simp add: rep_at_def set_node_def e3_def)
  have sx: "same_nodes (set xs2) (nodes st2) (nodes ?st3)" using sn by (simp add: same_nodes_def)
  have "covered {} st2 xs2 \<longrightarrow> covered {} ?st3 xs2"
    using covered_same [of "{}" st2 xs2 ?st3 xs2] sx sentinels_same(1) [OF sx] by (simp add: same_table_def)
  then have r3: "rep_at K {n} uniq V ?st3 xs2 m"
    using r2 inv3 live_same [OF sx same_regulars [OF sx]] same_regulars [OF sx] by (simp add: rep_at_def mem_ok_def)
  have st3: "nodes ?st3 n = Some e3" "node_ok e3" "i < length (hp_list ?st3)" "rkey (nodes ?st3) a < reverse_so_key e3"
    "read_loc ?st3 (bucket_loc hi) = Some a" "mem_ok st \<longrightarrow> mem_ok ?st3"
    using a i st e3 same_rkey [OF sn UNIV_I, of a] bh by (auto simp: node_ok_def mem_ok_def read_loc_def bucket_loc_def)
  have o3: "owned_data ?st3 = owned_data st + (if d = NULL then {#} else {#d#})"
    using node_data_same [OF sn] st(4) by (simp add: owned_data_def)
  have run: "insert_in_bucket n (bucket_loc hi) arg i st2 = do { ((error, node), st) \<leftarrow> sohash_list_insert (bucket_loc hi) n arg i ?st3;
      if error \<noteq> 0 then do { st \<leftarrow> sohash_free_node n st; Some ((error, node), st) } else Some ((0, n), grow_size st) }"
    using a(1) bh e2(1) by (simp add: insert_in_bucket_def e3_def)
  show ?thesis
  proof (rule list_insert_effect [OF inv3 st3(3) singletonI st3(1,2) st3(5) a(2) st3(4), where arg = arg])
    fix c hp assume c: "sohash_list_insert (bucket_loc hi) n arg i ?st3 = Some ((EEXIST, c), set_hp i hp ?st3)" "c \<in> set xs2"
      "found_at ?st3 (reverse_so_key e3) (entry_type e3) arg c" "cur hp = c" "sohash_inv {n} (set_hp i hp ?st3) xs2"
      "hp_state hp = hp_state (hp_list ?st3 ! i)"
    have "rep_at K {n} uniq V (set_hp i hp ?st3) xs2 m" using r3 c(5) by (simp add: rep_at_def mem_ok_def covered_def)
    then obtain st4 where f: "sohash_free_node n (set_hp i hp ?st3) = Some st4" "rep_at K {} uniq V st4 xs2 m"
      "owned_data st4 = owned_data (set_hp i hp ?st3)" "hp_list st4 = hp_list (set_hp i hp ?st3)" "kmem st4 = kmem (set_hp i hp ?st3)"
      "sohash_regularkey_count st4 = sohash_regularkey_count (set_hp i hp ?st3)"
      by (rule rep_free_node)
    have "c \<in> hits uniq V m k arg" using found_hits_ex(2) [OF r3 c(2), of k arg] c(3) e3 by simp
    then show ?thesis using run c(1) f o3 st3 st
      by (intro insert_effectI [of _ EEXIST c st4 K uniq V xs2 m]) (auto simp: insert_outcome_def owned_data_def mem_ok_def)
  next
    fix us vs hp
    let ?st4 = "set_hp i hp (?st3\<lparr>nodes := linked_in (nodes ?st3) us vs n\<rparr>)"
    assume c: "sohash_list_insert (bucket_loc hi) n arg i ?st3 = Some ((0, NULL), ?st4)" "xs2 = us @ vs" "us \<noteq> []"
      "\<not> (\<exists>c\<in>set xs2. found_at ?st3 (reverse_so_key e3) (entry_type e3) arg c)"
      "sohash_inv ({n} - {n}) ?st4 (us @ n # vs)" "same_nodes UNIV (nodes ?st3) (linked_in (nodes ?st3) us vs n)"
    have nx: "n \<notin> set (us @ vs)" using inv3 c(2) store_okD(3) [of "nodes ?st3" "hp_list ?st3" xs2 "{n}" "kmem_next ?st3"]
      by (auto simp: sohash_inv_def)
    note li = live_insert [OF c(6) st3(1) e3(4) nx]
    have ct: "0 \<le> sohash_regularkey_count ?st4" "sohash_regularkey_count ?st4 < 262143"
      "sohash_regularkey_count ?st4 = int (length (regulars (nodes ?st3) (us @ vs)))"
      using r3 cnt c(2) by (auto simp: rep_at_def)
    have "sohash_inv {} ?st4 (us @ n # vs)" using c(5) by simp
    note g = grow_size_effect [OF this ct(1,2)]
    have "is_regular (nodes ?st4) n" using same_regular [OF c(6) UNIV_I, of n] st3(1) e3(4) by (auto simp: is_regular_def)
    then have "covered {} ?st3 xs2 \<longrightarrow> covered {} ?st4 (us @ n # vs)"
      using covered_insert [of ?st3 us vs ?st4 n] c(2,6) by (simp add: same_table_def same_nodes_def)
    then have "K \<longrightarrow> mem_ok (grow_size ?st4) \<and> covered {} (grow_size ?st4) (us @ n # vs)"
      using r3 g(3,5,10,11) by (simp add: rep_at_def mem_ok_def covered_def)
    then have "rep_at K {} uniq V (grow_size ?st4) (us @ n # vs) (m(n \<mapsto> (key31 k, d)))"
      unfolding rep_at_def g(3) using r3 [unfolded rep_at_def c(2)] g(1,2,7-9) li ct(3) e3 by (simp del: set_node_simps(1) fun_upd_apply)
    moreover have "hits uniq V m k arg = {}" using found_hits_ex(1) [OF r3, of k arg] c(4) e3 by simp
    moreover have "owned_data (grow_size ?st4) = owned_data ?st3" using g(3,6) node_data_same [OF c(6)] by (simp add: owned_data_def)
    ultimately show ?thesis using run c(1) mn o3 st3 st g
      by (intro insert_effectI [of _ 0 n "grow_size ?st4" K uniq V "us @ n # vs" "m(n \<mapsto> (key31 k, d))"])
        (auto simp: insert_outcome_def mem_ok_def)
  qed
qed

lemma insert_hp_effect:
  assumes r: "rep_at K {} uniq V st xs m" and i: "i < length (hp_list st)" and cnt: "sohash_regularkey_count st < 262143"
  shows "insert_effect K uniq V st m k d arg (insert_entry_hp k d arg i st)"
proof -
  have inv: "sohash_inv {} st xs" using r by (simp add: rep_at_def)
  obtain hi0 where hi0: "hashindex_of st k = Some hi0" by (rule key_bucket [OF inv])
  show ?thesis
  proof (rule alloc_node_cases [of st])
    fix oks assume a: "sohash_alloc_node st = (NULL, st\<lparr>kmem := oks\<rparr>)" "\<not> mem_ok st"
    let ?st' = "sohash_free_data d (st\<lparr>kmem := oks\<rparr>)"
    have "rep_at K {} uniq V ?st' xs m" using rep_kmem [OF r a(2), of oks] by (simp add: sohash_free_data_def rep_at_def sohash_inv_def sizes_ok_def hps_ok_def mem_ok_def covered_def)
    then show ?thesis using a hi0
      by (intro insert_effectI [of _ ENOMEM NULL ?st' K uniq V xs m]) (simp_all add: insert_entry_hp_def insert_outcome_def sohash_free_data_def owned_data_def)
  next
    fix oks assume a: "sohash_alloc_node st = (kmem_next st,
        st\<lparr>kmem := oks, nodes := (nodes st)(kmem_next st \<mapsto> BZERO_entry), kmem_next := kmem_next st + 2\<rparr>)" "mem_ok st \<Longrightarrow> list_all id oks"
    define n where "n = kmem_next st"
    define e where "e = BZERO_entry\<lparr>reverse_so_key := sohash_regularkey k, so_key := k, hashindex := hi0,
        entry_type := SOHASH_REGULAR_NODE, data := d\<rparr>"
    define st1 where "st1 = st\<lparr>kmem := oks, nodes := (nodes st)(n \<mapsto> e), kmem_next := kmem_next st + 2\<rparr>"
    have r1: "rep_at K {n} uniq V st1 xs m" and mn: "m n = None" and nN: "n \<noteq> NULL"
      using rep_new_node(1) [OF r impI [OF a(2)], where e = e] rep_new_node(2,3) [OF r impI [OF a(2)]] by (simp_all add: st1_def n_def)
    have o1: "owned_data st1 = owned_data st + (if d = NULL then {#} else {#d#})"
      using inv_new_node(5) [OF inv, where e = e and oks = oks] by (simp add: st1_def n_def e_def union_commute)
    have f1: "nodes st1 n = Some e" "i < length (hp_list st1)" "mem_ok st \<longrightarrow> mem_ok st1" "length (hp_list st1) = length (hp_list st)"
      "sohash_regularkey_count st1 = sohash_regularkey_count st" "hashindex_of st1 k = Some hi0"
      using i a(2) hi0 by (simp_all add: st1_def mem_ok_def hashindex_of_def split: if_splits)
    have nd: "n \<in> dom (nodes st1)" using f1(1) by auto
    have run: "insert_entry_hp k d arg i st =
        do { (bucket, st) \<leftarrow> bucket_for hi0 i st1;
             case bucket of None \<Rightarrow> do { st \<leftarrow> sohash_free_node n st; Some ((EFAULT, NULL), st) }
             | Some bucket \<Rightarrow> insert_in_bucket n bucket arg i st }"
      using a(1) hi0 nN unfolding insert_entry_hp_def insert_in_bucket_def
      by (simp add: n_def [symmetric] e_def [symmetric] st1_def set_new_node)
    show ?thesis
    proof (rule locate [OF r1 f1(2), of k])
      fix hi st2 xs2 assume l: "hashindex_of st1 k = Some hi" "bucket_for hi i st1 = Some (None, st2)"
        "rep_at K {n} uniq V st2 xs2 m" "extends {n} st1 xs st2 xs2" "\<not> mem_ok st1"
      obtain st3 where f: "sohash_free_node n st2 = Some st3" "rep_at K {} uniq V st3 xs2 m" "owned_data st3 = owned_data st2"
        "hp_list st3 = hp_list st2" "kmem st3 = kmem st2" "sohash_regularkey_count st3 = sohash_regularkey_count st2"
        by (rule rep_free_node [OF l(3)])
      show ?thesis using l f f1 run o1
        by (intro insert_effectI [of _ EFAULT NULL st3 K uniq V xs2 m]) (auto simp: insert_outcome_def extends_def same_frame_def mem_ok_def)
    next
      fix hi st2 xs2 a assume l: "hashindex_of st1 k = Some hi" "bucket_for hi i st1 = Some (Some (bucket_loc hi), st2)"
        "rep_at K {n} uniq V st2 xs2 m" "extends {n} st1 xs st2 xs2"
        "read_loc st2 (bucket_loc hi) = Some a" "a \<in> set xs2" "rkey (nodes st2) a < sohash_regularkey k"
      have hi: "hi = hi0" using l(1) f1(6) by simp
      have "same_nodes (dom (nodes st1)) (nodes st1) (nodes st2)" using l(4) by (simp add: extends_def)
      then obtain e2 where e2: "nodes st2 n = Some e2" "data e2 = data e" "reverse_so_key e2 = reverse_so_key e" "so_key e2 = so_key e"
        "entry_type e2 = entry_type e" 
        by (rule same_nodesD [where A = "dom (nodes st1)" and h = "nodes st1" and h' = "nodes st2" and a = n and e = e, OF _ nd f1(1)])
      have "insert_effect K uniq V st m k d arg (insert_in_bucket n (bucket_loc hi) arg i st2)"
        by (rule insert_in_bucket_effect [OF l(3) _ _ l(5-7) e2(1) _ _ _ _ mn nN])
          (use l(4) f1 cnt e2 o1 in \<open>simp_all add: extends_def same_frame_def e_def\<close>)
      then show ?thesis using run l(2) by (simp add: hi)
    qed
  qed
qed

lemma insert_entry_effect:
  assumes rep: "sohash_rep K uniq V st m" and room: "sohash_room st"
  obtains err node st' m' where "sohash_insert_entry k d arg st = Some ((err, node), st')" "sohash_rep K uniq V st' m'"
    "insert_outcome uniq V (mem_ok st) m k d arg err node m'" "owned_data st' = owned_data st + (if d = NULL then {#} else {#d#})"
    "mem_ok st \<longrightarrow> mem_ok st'" "length (hp_list st') \<le> length (hp_list st) + 1"
    "sohash_regularkey_count st' \<le> sohash_regularkey_count st + 1"
proof -
  obtain xs where r: "rep_at K {} uniq V st xs m" using rep by (auto simp: sohash_rep_def)
  then have inv: "sohash_inv {} st xs" and act: "hash_state st = SOHASH_STATE_ACTIVE" by (auto simp: rep_at_def)
  have len: "length (hp_list st) < 2 ^ 28" and cnt: "sohash_regularkey_count st < 262143" using room by (simp_all add: sohash_room_def)
  show thesis
  proof (rule hp_get_cases [OF inv len])
    fix st1 assume g: "sohash_hp_get st = ((ENOMEM, 0), st1)" "sohash_inv {} st1 xs" "same_list st st1" "\<not> mem_ok st"
    have "rep_at K {} uniq V st1 xs m" by (rule rep_same_list [OF r g(2,3)])
    then have "rep_at K {} uniq V (sohash_free_data d st1) xs m"
      by (simp add: sohash_free_data_def rep_at_def sohash_inv_def sizes_ok_def hps_ok_def mem_ok_def covered_def)
    then show thesis using g act same_list_owned [OF g(3)]
      by (intro that [of ENOMEM NULL "sohash_free_data d st1" m])
        (auto simp: sohash_insert_entry_def sohash_rep_def same_list_def insert_outcome_def sohash_free_data_def owned_data_def)
  next
    fix i st1 assume g: "sohash_hp_get st = ((0, i), st1)" "sohash_inv {} st1 xs" "i < length (hp_list st1)" "same_list st st1"
    have r1: "rep_at K {} uniq V st1 xs m" by (rule rep_same_list [OF r g(2,4)])
    have c1: "sohash_regularkey_count st1 < 262143" and m1: "mem_ok st \<longrightarrow> mem_ok st1" using g(4) cnt by (simp_all add: same_list_def)
    obtain err node st2 xs2 m' where f: "insert_entry_hp k d arg i st1 = Some ((err, node), st2)" "rep_at K {} uniq V st2 xs2 m'"
      "insert_outcome uniq V (mem_ok st1) m k d arg err node m'" "owned_data st2 = owned_data st1 + (if d = NULL then {#} else {#d#})"
      "mem_ok st1 \<longrightarrow> mem_ok st2" "length (hp_list st2) = length (hp_list st1)" "sohash_regularkey_count st2 \<le> sohash_regularkey_count st1 + 1"
      using insert_hp_effect [OF r1 g(3) c1] unfolding insert_effect_def by metis
    have i2: "sohash_inv {} st2 xs2" "i < length (hp_list st2)" using f g(3) by (auto simp: rep_at_def)
    note rel = hp_release_id [OF i2]
    have "rep_at K {} uniq V (sohash_hp_release i st2) xs2 m'" by (rule rep_same_list [OF f(2) rel])
    moreover have "insert_outcome uniq V (mem_ok st) m k d arg err node m'" using f(3) m1 by (auto simp: insert_outcome_def)
    moreover have "sohash_insert_entry k d arg st = Some ((err, node), sohash_hp_release i st2)"
      using act g(1) f(1) by (simp add: sohash_insert_entry_def)
    ultimately show thesis using g f(4-7) rel(2) m1 same_list_owned [OF rel(2)] same_list_owned [OF g(4)]
      by (intro that [of err node "sohash_hp_release i st2" m']) (auto simp: sohash_rep_def same_list_def)
  qed
qed

section \<open>Operations and their specification\<close>

datatype sohash_op = So_insert u32 addr addr | So_find u32 addr | So_delete u32 addr

datatype sohash_res = So_inserted int addr | So_found addr | So_deleted int

fun sohash_step :: "sohash_op \<Rightarrow> sohash_table \<Rightarrow> (sohash_res \<times> sohash_table) option" where
  "sohash_step (So_insert k d arg) st = do { ((err, n), st) \<leftarrow> sohash_insert_entry k d arg st; Some (So_inserted err n, st) }"
| "sohash_step (So_find k arg) st = do { (n, st) \<leftarrow> sohash_find_entry k arg st; Some (So_found n, st) }"
| "sohash_step (So_delete k arg) st = do { (err, st) \<leftarrow> sohash_delete_entry k arg st; Some (So_deleted err, st) }"

fun sohash_run :: "sohash_op list \<Rightarrow> sohash_table \<Rightarrow> (sohash_res list \<times> sohash_table) option" where
  "sohash_run [] st = Some ([], st)"
| "sohash_run (op # ops) st =
    do { (r, st) \<leftarrow> sohash_step op st; (rs, st) \<leftarrow> sohash_run ops st; Some (r # rs, st) }"

text \<open>What the map does; \<open>ok\<close> tells that no allocation fails.\<close>
inductive sohash_spec :: "bool \<Rightarrow> (addr \<Rightarrow> addr \<Rightarrow> bool) \<Rightarrow> bool \<Rightarrow> sohash_op \<Rightarrow> sohash_res \<Rightarrow> smap \<Rightarrow> smap \<Rightarrow> bool"
  for uniq V ok where
  added: "hits uniq V m k arg = {} \<Longrightarrow> m n = None \<Longrightarrow> n \<noteq> NULL \<Longrightarrow>
    sohash_spec uniq V ok (So_insert k d arg) (So_inserted 0 n) m (m(n \<mapsto> (key31 k, d)))"
| exists: "n \<in> hits uniq V m k arg \<Longrightarrow> sohash_spec uniq V ok (So_insert k d arg) (So_inserted EEXIST n) m m"
| no_memory: "\<not> ok \<Longrightarrow> err \<in> {ENOMEM, EFAULT} \<Longrightarrow> sohash_spec uniq V ok (So_insert k d arg) (So_inserted err NULL) m m"
| found: "n \<in> hits uniq V m k arg \<Longrightarrow> n \<noteq> NULL \<Longrightarrow> sohash_spec uniq V ok (So_find k arg) (So_found n) m m"
| not_found: "hits uniq V m k arg = {} \<or> \<not> ok \<Longrightarrow> sohash_spec uniq V ok (So_find k arg) (So_found NULL) m m"
| deleted: "n \<in> hits uniq V m k arg \<Longrightarrow> sohash_spec uniq V ok (So_delete k arg) (So_deleted 0) m (m(n := None))"
| absent: "hits uniq V m k arg = {} \<Longrightarrow> sohash_spec uniq V ok (So_delete k arg) (So_deleted ENOENT) m m"

inductive sohash_spec_run :: "bool \<Rightarrow> (addr \<Rightarrow> addr \<Rightarrow> bool) \<Rightarrow> bool \<Rightarrow> sohash_op list \<Rightarrow> sohash_res list \<Rightarrow> smap \<Rightarrow> smap \<Rightarrow> bool"
  for uniq V ok where
  done_: "sohash_spec_run uniq V ok [] [] m m"
| step_: "sohash_spec uniq V ok op r m m' \<Longrightarrow> sohash_spec_run uniq V ok ops rs m' m'' \<Longrightarrow>
    sohash_spec_run uniq V ok (op # ops) (r # rs) m m''"

inductive_cases sohash_spec_runE: "sohash_spec_run uniq V ok (op # ops) rs m m''"

text \<open>The data an operation hands to the table.\<close>
fun op_data :: "sohash_op \<Rightarrow> addr multiset" where
  "op_data (So_insert k d arg) = (if d = NULL then {#} else {#d#})"
| "op_data _ = {#}"

lemma step_simulates:
  assumes rep: "sohash_rep K uniq V st m" and room: "sohash_room st" and mem: "mem_ok st \<or> (\<forall>k arg. op \<noteq> So_delete k arg)"
  obtains r st' m' where "sohash_step op st = Some (r, st')" "sohash_rep K uniq V st' m'" "sohash_spec uniq V (mem_ok st) op r m m'"
    "owned_data st' = owned_data st + op_data op" "mem_ok st \<longrightarrow> mem_ok st'"
    "length (hp_list st') \<le> length (hp_list st) + 1" "sohash_regularkey_count st' \<le> sohash_regularkey_count st + 1"
proof (cases op)
  case (So_insert k d arg)
  show thesis
  proof (rule insert_entry_effect [OF rep room, of k d arg])
    fix err node st' m' assume i: "sohash_insert_entry k d arg st = Some ((err, node), st')" "sohash_rep K uniq V st' m'"
      "insert_outcome uniq V (mem_ok st) m k d arg err node m'" "owned_data st' = owned_data st + (if d = NULL then {#} else {#d#})"
      "mem_ok st \<longrightarrow> mem_ok st'" "length (hp_list st') \<le> length (hp_list st) + 1"
      "sohash_regularkey_count st' \<le> sohash_regularkey_count st + 1"
    have "sohash_spec uniq V (mem_ok st) op (So_inserted err node) m m'"
      using i(3) unfolding insert_outcome_def So_insert by (auto intro: sohash_spec.intros)
    then show thesis using i So_insert by (intro that [of "So_inserted err node" st' m']) simp_all
  qed
next
  case (So_find k arg)
  show thesis
  proof (rule find_entry_effect [OF rep room, of k arg])
    fix n st' assume i: "sohash_find_entry k arg st = Some (n, st')" "sohash_rep K uniq V st' m" "owned_data st' = owned_data st"
      "mem_ok st \<Longrightarrow> mem_ok st'" "n \<in> hits uniq V m k arg \<and> n \<noteq> NULL \<or> n = NULL \<and> (hits uniq V m k arg = {} \<or> \<not> mem_ok st)"
      "length (hp_list st') \<le> length (hp_list st) + 1" "sohash_regularkey_count st' = sohash_regularkey_count st"
    have "sohash_spec uniq V (mem_ok st) op (So_found n) m m"
      using i(5) unfolding So_find by (auto intro: sohash_spec.intros)
    then show thesis using i So_find by (intro that [of "So_found n" st' m]) simp_all
  qed
next
  case (So_delete k arg)
  then have m: "mem_ok st" using mem by simp
  show thesis
  proof (rule delete_entry_effect [OF rep room m, of k arg])
    fix err st' m' assume i: "sohash_delete_entry k arg st = Some (err, st')" "sohash_rep K uniq V st' m'" "owned_data st' = owned_data st" "mem_ok st'"
      "err = 0 \<and> (\<exists>c\<in>hits uniq V m k arg. m' = m(c := None) \<and> c \<in> retired (hp_list st')) \<or> err = ENOENT \<and> hits uniq V m k arg = {} \<and> m' = m"
      "length (hp_list st') \<le> length (hp_list st) + 1" "sohash_regularkey_count st' \<le> sohash_regularkey_count st"
    have "sohash_spec uniq V (mem_ok st) op (So_deleted err) m m'"
      using i(5) unfolding So_delete by (auto intro: sohash_spec.intros)
    then show thesis using i So_delete by (intro that [of "So_deleted err" st' m']) simp_all
  qed
qed

end
