(* ===== verification/Mvfs_Sohash_Cleanup.thy ===== *)
theory Mvfs_Sohash_Cleanup
  imports Mvfs_Sohash_Map
begin

text \<open>Tearing the split ordered hash table down.  The list is no longer one: the sweep takes every sentinel out
  through a local variable and leaves the link of its predecessor alone.  What holds is that every sentinel still in
  its bucket is followed by its own regular nodes, up to the end or to a node that is or was a sentinel.\<close>

section \<open>Deletions while the table is flushed\<close>

lemma retire_flush:
  assumes "nodes st c = Some e" "hash_state st = SOHASH_STATE_FLUSH"
  obtains dl where "sohash_retire_node c i st = Some (set_hp i ((hp_list st ! i)\<lparr>rlist := c # rlist (hp_list st ! i),
      rcount := rcount (hp_list st ! i) + 1\<rparr>)
    (st\<lparr>nodes := (nodes st)(c \<mapsto> e\<lparr>hashentry_next := head_of (rlist (hp_list st ! i))\<rparr>), deleted := dl\<rparr>))"
  by (rule that [of "if entry_type e = SOHASH_REGULAR_NODE \<and> fn_on_delete st then c # deleted st else deleted st"])
    (use assms in \<open>simp add: sohash_retire_node_def sohash_consts set_hp_def set_node_def Let_def\<close>)

definition pushed :: "addr \<Rightarrow> sohash_hazard_ref \<Rightarrow> sohash_hazard_ref \<Rightarrow> bool" where
  "pushed c hp hp' \<longleftrightarrow> rlist hp' = c # rlist hp \<and> rcount hp' = rcount hp + 1 \<and> hazard_ptrs hp' = [NULL, NULL, NULL]"

lemma delete_first_regular:
  assumes r: "read_loc st (Bucket s b) = Some a" "nodes st a = Some ea" "nodes st (hashentry_next ea) = Some ey" "a \<noteq> NULL"
    and y: "y = hashentry_next ea" "y \<noteq> NULL" "y \<noteq> a" "even y" "even (hashentry_next ey)"
    and k: "reverse_so_key ea < reverse_so_key ey" and u: "sohash_keys_unique st" "hash_state st = SOHASH_STATE_FLUSH"
    and i: "i < length (hp_list st)"
  obtains hp dl where "sohash_list_delete (Bucket s b) (reverse_so_key ey) SOHASH_REGULAR_NODE arg i st =
      Some (0, set_hp i hp (st\<lparr>nodes := (nodes st)(a \<mapsto> ea\<lparr>hashentry_next := hashentry_next ey\<rparr>,
        y \<mapsto> ey\<lparr>hashentry_next := head_of (rlist (hp_list st ! i))\<rparr>), deleted := dl\<rparr>))" "pushed y (hp_list st ! i) hp"
proof -
  define hp where "hp = set_hazard 0 (hashentry_next ey) (set_hazard 1 y (set_hazard 2 a
      (set_hazard 0 y (set_hazard 1 a ((hp_list st ! i)\<lparr>prev := Bucket s b, cur := a\<rparr>)\<lparr>nxt := y\<rparr>)\<lparr>prev := NextOf a\<rparr>)\<lparr>cur := y\<rparr>)\<lparr>nxt := hashentry_next ey\<rparr>)"
  have "\<not> reverse_so_key ey < reverse_so_key ea" "reverse_so_key ea \<noteq> reverse_so_key ey" using k by auto
  then have f: "sohash_list_find (Bucket s b) (reverse_so_key ey) SOHASH_REGULAR_NODE arg i st = Some (y, set_hp i hp st)"
    using assms unfolding sohash_list_find_def find_try_def hp_def
    by (simp add: find_loop.simps [of st] read_loc_def [of st "NextOf a"] delete_bit_set find_match_def Let_def)
  have h: "cur hp = y" "prev hp = NextOf a" "nxt hp = hashentry_next ey" "rlist hp = rlist (hp_list st ! i)" "rcount hp = rcount (hp_list st ! i)"
    by (simp_all add: hp_def)
  let ?e1 = "ey\<lparr>hashentry_next := SOHASH_SET_DELETE_BIT (hashentry_next ey)\<rparr>"
  let ?st = "set_hp i hp (st\<lparr>nodes := (nodes st)(y \<mapsto> ?e1, a \<mapsto> ea\<lparr>hashentry_next := hashentry_next ey\<rparr>)\<rparr>)"
  have n: "nodes ?st y = Some ?e1" "hash_state ?st = SOHASH_STATE_FLUSH" using y u by simp_all
  obtain dl where rt: "sohash_retire_node y i ?st = Some (set_hp i ((hp_list ?st ! i)\<lparr>rlist := y # rlist (hp_list ?st ! i),
      rcount := rcount (hp_list ?st ! i) + 1\<rparr>)
    (?st\<lparr>nodes := (nodes ?st)(y \<mapsto> ?e1\<lparr>hashentry_next := head_of (rlist (hp_list ?st ! i))\<rparr>), deleted := dl\<rparr>))"
    by (rule retire_flush [OF n])
  have "sohash_list_delete (Bucket s b) (reverse_so_key ey) SOHASH_REGULAR_NODE arg i st =
      do { st' \<leftarrow> sohash_retire_node y i ?st; Some (0, reset_hazards i st') }"
  proof -
    have e: "set_node a (ea\<lparr>hashentry_next := hashentry_next ey\<rparr>) (set_node y ?e1 (set_hp i hp st)) = ?st"
      by (simp add: set_node_def set_hp_def)
    show ?thesis using f h y i assms(2,3) by (subst sohash_list_delete.simps) (simp add: e [unfolded y(1)] MDKI_ATOMIC_CAS_PTR_def read_loc_def write_loc_def)
  qed
  then show thesis using rt h i y
    by (intro that [of "clear_hazards (hp\<lparr>rlist := y # rlist hp, rcount := rcount hp + 1\<rparr>)" dl])
      (simp_all add: pushed_def reset_hazards_def clear_hazards_def set_hp_def fun_upd_twist)
qed

text \<open>The link of the predecessor is not touched: the head of the search is a local variable.\<close>
lemma delete_local_sentinel:
  assumes a: "nodes st a = Some ea" "a \<noteq> NULL" "even (hashentry_next ea)" and u: "hash_state st = SOHASH_STATE_FLUSH"
    and i: "i < length (hp_list st)"
  obtains hp dl where "sohash_list_delete (Local a) (reverse_so_key ea) SOHASH_SENTINEL_NODE arg i st =
      Some (0, set_hp i hp (st\<lparr>nodes := (nodes st)(a \<mapsto> ea\<lparr>hashentry_next := head_of (rlist (hp_list st ! i))\<rparr>), deleted := dl\<rparr>))"
    "pushed a (hp_list st ! i) hp"
proof -
  define hp where "hp = set_hazard 0 (hashentry_next ea) (set_hazard 1 a ((hp_list st ! i)\<lparr>prev := Local a, cur := a\<rparr>)\<lparr>nxt := hashentry_next ea\<rparr>)"
  have f: "sohash_list_find (Local a) (reverse_so_key ea) SOHASH_SENTINEL_NODE arg i st = Some (a, set_hp i hp st)"
    using assms unfolding sohash_list_find_def find_try_def hp_def
    by (simp add: find_loop.simps [of st] read_loc_def delete_bit_set find_match_def Let_def)
  have h: "cur hp = a" "prev hp = Local a" "nxt hp = hashentry_next ea" "rlist hp = rlist (hp_list st ! i)" "rcount hp = rcount (hp_list st ! i)"
    by (simp_all add: hp_def)
  let ?e1 = "ea\<lparr>hashentry_next := SOHASH_SET_DELETE_BIT (hashentry_next ea)\<rparr>"
  let ?st = "set_hp i hp (st\<lparr>nodes := (nodes st)(a \<mapsto> ?e1)\<rparr>)"
  have n: "nodes ?st a = Some ?e1" "hash_state ?st = SOHASH_STATE_FLUSH" using u by simp_all
  obtain dl where rt: "sohash_retire_node a i ?st = Some (set_hp i ((hp_list ?st ! i)\<lparr>rlist := a # rlist (hp_list ?st ! i),
      rcount := rcount (hp_list ?st ! i) + 1\<rparr>)
    (?st\<lparr>nodes := (nodes ?st)(a \<mapsto> ?e1\<lparr>hashentry_next := head_of (rlist (hp_list ?st ! i))\<rparr>), deleted := dl\<rparr>))"
    by (rule retire_flush [OF n])
  have "sohash_list_delete (Local a) (reverse_so_key ea) SOHASH_SENTINEL_NODE arg i st =
      do { st' \<leftarrow> sohash_retire_node a i ?st; Some (0, reset_hazards i st') }"
  proof -
    have e: "set_node a ?e1 (set_hp i hp st) = ?st" by (simp add: set_node_def set_hp_def)
    show ?thesis using f h a i by (subst sohash_list_delete.simps) (simp add: e MDKI_ATOMIC_CAS_PTR_def read_loc_def write_loc_def)
  qed
  then show thesis using rt h i
    by (intro that [of "clear_hazards (hp\<lparr>rlist := a # rlist hp, rcount := rcount hp + 1\<rparr>)" dl])
      (simp_all add: pushed_def reset_hazards_def clear_hazards_def set_hp_def)
qed

section \<open>The state of the sweep\<close>

definition flat :: "(addr \<times> addr list) list \<Rightarrow> addr list" where
  "flat cs = concat (map (\<lambda>(a, ys). a # ys) cs)"

lemma flat_simps [simp]: "flat [] = []" "flat ((a, ys) # cs) = a # ys @ flat cs" "flat (cs @ ds) = flat cs @ flat ds"
  by (simp_all add: flat_def)

definition allr :: "sohash_hazard_ref list \<Rightarrow> addr list" where
  "allr hps = concat (map rlist hps)"

lemma allr_push:
  assumes "i < length hps" "pushed c (hps ! i) hp"
  shows "mset (allr (hps[i := hp])) = add_mset c (mset (allr hps))"
proof -
  have "hps = take i hps @ hps ! i # drop (Suc i) hps" using assms(1) by (rule id_take_nth_drop)
  then have "mset (allr hps) = mset (allr (take i hps @ hps ! i # drop (Suc i) hps))" by simp
  then show ?thesis using assms by (simp add: upd_conv_take_nth_drop allr_def pushed_def)
qed

text \<open>A sentinel and the regular nodes behind it.\<close>
definition bchain :: "store \<Rightarrow> addr \<Rightarrow> addr list \<Rightarrow> bool" where
  "bchain h a ys \<longleftrightarrow> (\<exists>e q. h a = Some e \<and> node_ok e \<and> entry_type e = SOHASH_SENTINEL_NODE \<and> lseg h (hashentry_next e) ys q \<and>
    (q = NULL \<or> even q \<and> (\<exists>n. sentinel_at h q n)) \<and>
    (\<forall>y\<in>set ys. is_regular h y \<and> rkey h a < rkey h y))"

lemma bchain_same:
  assumes c: "bchain h a ys" and s: "same_nodes UNIV h h'"
    and l: "\<And>x. x = a \<or> x \<in> set ys \<Longrightarrow> map_option hashentry_next (h' x) = map_option hashentry_next (h x)"
  shows "bchain h' a ys"
proof -
  obtain e q where e: "h a = Some e" "node_ok e" "entry_type e = SOHASH_SENTINEL_NODE" "lseg h (hashentry_next e) ys q"
    "q = NULL \<or> even q \<and> (\<exists>n. sentinel_at h q n)" "\<forall>y\<in>set ys. is_regular h y \<and> rkey h a < rkey h y"
    using c unfolding bchain_def by blast
  obtain e' where e': "h' a = Some e'" "node_ok e'" using same_node_ok [OF s UNIV_I, of a] e(1,2) by auto
  have ty: "entry_type e' = entry_type e" using same_nodesD [OF s UNIV_I e(1)] e'(1) by (metis option.inject)
  have nx: "hashentry_next e' = hashentry_next e" using l [of a] e(1) e'(1) by simp
  have "lseg h' (hashentry_next e') ys q" using e(4) lseg_cong [of ys h' h] l by (simp add: nx)
  moreover have "q = NULL \<or> even q \<and> (\<exists>n. sentinel_at h' q n)" using e(5) same_sentinel [OF s UNIV_I] by blast
  moreover have "is_regular h' y \<and> rkey h' a < rkey h' y" if "y \<in> set ys" for y
  proof -
    have "h y \<noteq> None" using e(4) that lseg_nodes by fastforce
    then show ?thesis using e(1,6) that same_regular [OF s UNIV_I] same_rkey [OF s UNIV_I] by auto
  qed
  ultimately show ?thesis using e' ty e(3) unfolding bchain_def by auto
qed

definition buckets_in :: "(nat \<Rightarrow> (nat \<Rightarrow> addr) option) \<Rightarrow> store \<Rightarrow> addr set \<Rightarrow> bool" where
  "buckets_in ht h S \<longleftrightarrow> (\<exists>seg. ht 0 = Some seg \<and> seg 0 \<noteq> NULL) \<and>
    (\<forall>s seg b. ht s = Some seg \<longrightarrow> b < 511 \<longrightarrow> seg b \<noteq> NULL \<longrightarrow> seg b \<in> S \<and> sentinel_at h (seg b) (s * 511 + b))"

text \<open>\<open>cs\<close> has the sentinels still in their buckets with the nodes behind them; every other node is retired.\<close>
definition tearing :: "nat \<Rightarrow> (addr \<times> addr list) list \<Rightarrow> sohash_table \<Rightarrow> bool" where
  "tearing i cs st \<longleftrightarrow> hash_state st = SOHASH_STATE_FLUSH \<and> sohash_keys_unique st \<and>
    sohash_num_segments st = 511 \<and> sohash_segment_sz st = 511 \<and> i < length (hp_list st) \<and> (\<forall>hp\<in>set (hp_list st). hp_ok hp) \<and>
    distinct (flat cs @ allr (hp_list st)) \<and> dom (nodes st) = set (flat cs @ allr (hp_list st)) \<and>
    (\<forall>a\<in>dom (nodes st). a \<noteq> NULL \<and> even a) \<and>
    (\<forall>(a, ys)\<in>set cs. bchain (nodes st) a ys \<and> pointed (hashtable st) (nodes st) a) \<and>
    buckets_in (hashtable st) (nodes st) (fst ` set cs) \<and>
    sohash_sentinelkey_count st = int (length cs) \<and> length cs < 2 ^ 31 \<and>
    sohash_regularkey_count st = (\<Sum>(a, ys)\<leftarrow>cs. int (length ys)) \<and> sohash_regularkey_count st < 2 ^ 31"

lemma tearing_step:
  assumes t: "tearing i cs st" and m: "mset (flat cs) = add_mset c (mset (flat cs'))"
    and fr: "hash_state st' = hash_state st" "sohash_keys_unique st' = sohash_keys_unique st" "sohash_num_segments st' = sohash_num_segments st"
      "sohash_segment_sz st' = sohash_segment_sz st" "hp_list st' = (hp_list st)[i := hp]" "pushed c (hp_list st ! i) hp"
    and sn: "same_nodes UNIV (nodes st) (nodes st')"
    and ch: "\<forall>(a, ys)\<in>set cs'. bchain (nodes st') a ys \<and> pointed (hashtable st') (nodes st') a"
    and bk: "buckets_in (hashtable st') (nodes st') (fst ` set cs')"
    and ct: "sohash_sentinelkey_count st' = int (length cs')" "length cs' \<le> length cs"
      "sohash_regularkey_count st' = (\<Sum>(a, ys)\<leftarrow>cs'. int (length ys))" "sohash_regularkey_count st' \<le> sohash_regularkey_count st"
  shows "tearing i cs' st'"
proof -
  note t' = t [unfolded tearing_def]
  have i: "i < length (hp_list st)" using t' by simp
  have eq: "mset (flat cs' @ allr (hp_list st')) = mset (flat cs @ allr (hp_list st))"
    using m allr_push [OF i fr(6)] by (simp add: fr(5))
  have "hp_ok hp" using fr(6) t' i by (auto simp: hp_ok_def pushed_def)
  then have "\<forall>hp\<in>set (hp_list st'). hp_ok hp" using t' set_update_subset_insert [of "hp_list st" i hp] by (auto simp: fr(5))
  moreover have "dom (nodes st') = dom (nodes st)"
    using same_nodes_dom [of "nodes st" "nodes st'"] same_nodes_dom [of "nodes st'" "nodes st"] sn same_nodes_sym [OF sn]
    by (auto simp: same_nodes_def)
  moreover have "distinct (flat cs' @ allr (hp_list st'))" using mset_eq_imp_distinct_iff [OF eq] t' by simp
  moreover have "set (flat cs' @ allr (hp_list st')) = set (flat cs @ allr (hp_list st))" by (rule mset_eq_setD [OF eq])
  ultimately show ?thesis using t' fr ch bk ct unfolding tearing_def by (simp del: set_append)
qed

section \<open>The two steps of the sweep\<close>

lemma flat_mem: "(a, ys) \<in> set cs \<Longrightarrow> x = a \<or> x \<in> set ys \<Longrightarrow> x \<in> set (flat cs)"
  by (auto simp: flat_def)

lemma sentinel_at_same: "same_nodes UNIV h h' \<Longrightarrow> sentinel_at h' a n = sentinel_at h a n"
  using same_sentinel [of UNIV h h' a n] same_sentinel [OF same_nodes_sym, of UNIV h h' a n] by blast

lemma pointed_same: "same_nodes UNIV h h' \<Longrightarrow> pointed ht h' a = pointed ht h a"
  by (simp add: pointed_def sentinel_at_same)

lemma lseg_even_end: "lseg h p ys q \<Longrightarrow> even q \<Longrightarrow> even p"
  by (cases ys) auto

lemma tear_regular:
  assumes t: "tearing i (us @ (a, y # ys) # ws) st" and r: "read_loc st (Bucket s b) = Some a"
  obtains ea ey st' where "nodes st a = Some ea" "hashentry_next ea = y" "y \<noteq> NULL" "nodes st y = Some ey" "entry_type ey = SOHASH_REGULAR_NODE"
    "sohash_delete_entry_subr (reverse_so_key ey) i (Bucket s b) SOHASH_REGULAR_NODE arg st = Some (0, st')"
    "tearing i (us @ (a, ys) # ws) st'" "hashtable st' = hashtable st" "owned_data st' = owned_data st"
proof -
  let ?cs = "us @ (a, y # ys) # ws"
  note t' = t [unfolded tearing_def]
  let ?h = "nodes st"
  have cp: "bchain ?h c zs" "pointed (hashtable st) ?h c" if "(c, zs) \<in> set ?cs" for c zs using t' that by blast+
  then have "bchain ?h a (y # ys)" by simp
  then obtain ea q where ea: "?h a = Some ea" "node_ok ea" "entry_type ea = SOHASH_SENTINEL_NODE" "lseg ?h (hashentry_next ea) (y # ys) q"
    and q: "q = NULL \<or> even q \<and> (\<exists>n. sentinel_at ?h q n)" and reg: "\<forall>z\<in>set (y # ys). is_regular ?h z \<and> rkey ?h a < rkey ?h z"
    unfolding bchain_def by blast
  obtain ey where ey: "?h y = Some ey" "lseg ?h (hashentry_next ey) ys q" and y: "hashentry_next ea = y" "y \<noteq> NULL" "even y"
    using ea(4) by auto
  have ty: "entry_type ey = SOHASH_REGULAR_NODE" and k: "reverse_so_key ea < reverse_so_key ey"
    using reg ey(1) ea(1) by (auto simp: is_regular_def rkey_def)
  have ya: "y \<noteq> a" using ty ea ey by auto
  have "even (hashentry_next ey)" by (rule lseg_even_end [OF ey(2)]) (use q in \<open>auto simp: NULL_def\<close>)
  moreover have "a \<in> dom ?h" using ea(1) by auto
  then have "a \<noteq> NULL" using t' by blast
  moreover have "nodes st (hashentry_next ea) = Some ey" using ey(1) y(1) by simp
  moreover have u: "sohash_keys_unique st" "hash_state st = SOHASH_STATE_FLUSH" "i < length (hp_list st)" using t' by auto
  ultimately obtain hp dl where d: "sohash_list_delete (Bucket s b) (reverse_so_key ey) SOHASH_REGULAR_NODE arg i st =
      Some (0, set_hp i hp (st\<lparr>nodes := ?h(a \<mapsto> ea\<lparr>hashentry_next := hashentry_next ey\<rparr>,
        y \<mapsto> ey\<lparr>hashentry_next := head_of (rlist (hp_list st ! i))\<rparr>), deleted := dl\<rparr>))" "pushed y (hp_list st ! i) hp"
    using delete_first_regular [OF r ea(1) _ _ y(1) [symmetric] y(2) ya y(3) _ k, of i arg] by blast
  let ?h' = "?h(a \<mapsto> ea\<lparr>hashentry_next := hashentry_next ey\<rparr>, y \<mapsto> ey\<lparr>hashentry_next := head_of (rlist (hp_list st ! i))\<rparr>)"
  let ?st' = "(set_hp i hp (st\<lparr>nodes := ?h', deleted := dl\<rparr>))\<lparr>sohash_regularkey_count := sohash_regularkey_count st - 1\<rparr>"
  have ct: "sohash_regularkey_count st = (\<Sum>(a, ys)\<leftarrow>us @ (a, ys) # ws. int (length ys)) + 1" using t' by simp
  have "0 \<le> (\<Sum>(a, ys)\<leftarrow>us @ (a, ys) # ws. int (length ys))" by (rule sum_list_nonneg) auto
  then have c1: "1 \<le> sohash_regularkey_count st" unfolding ct by simp
  have c2: "sohash_regularkey_count st < 2 ^ 31" using t' by blast
  have "wrap32 (sohash_regularkey_count st - 1) = sohash_regularkey_count st - 1" by (rule wrap32_id) (use c1 c2 in simp_all)
  then have run: "sohash_delete_entry_subr (reverse_so_key ey) i (Bucket s b) SOHASH_REGULAR_NODE arg st = Some (0, ?st')"
    using d(1) c1 by (simp add: sohash_delete_entry_subr_def)
  have sn: "same_nodes UNIV ?h ?h'" using ea(1) ey(1) ya by (simp add: same_nodes_def)
  have ds: "distinct (flat us @ a # y # ys @ flat ws)"
  proof -
    have "distinct (flat ?cs @ allr (hp_list st))" using t' by blast
    then show ?thesis unfolding distinct_append by simp
  qed
  have "bchain ?h' c zs" if "(c, zs) \<in> set (us @ ws)" for c zs
  proof -
    have "x \<noteq> a \<and> x \<noteq> y" if "x = c \<or> x \<in> set zs" for x
      using flat_mem [OF \<open>(c, zs) \<in> set (us @ ws)\<close> that] ds by auto
    moreover have "bchain ?h c zs" using cp(1) that by auto
    ultimately show ?thesis by (intro bchain_same [OF _ sn]) auto
  qed
  moreover have "bchain ?h' a ys"
  proof -
    have "lseg ?h' (hashentry_next ey) ys q" using ey(2) ds by simp
    moreover have "q = NULL \<or> even q \<and> (\<exists>n. sentinel_at ?h' q n)" using q by (simp only: sentinel_at_same [OF sn])
    moreover have "\<forall>z\<in>set ys. is_regular ?h' z \<and> rkey ?h' a < rkey ?h' z"
      using reg ds ea(1) by (auto simp: is_regular_def rkey_def)
    moreover have "?h' a = Some (ea\<lparr>hashentry_next := hashentry_next ey\<rparr>)" using ya by simp
    ultimately show ?thesis using ea(2,3) unfolding bchain_def
      by (intro exI [of _ "ea\<lparr>hashentry_next := hashentry_next ey\<rparr>"] exI [of _ q]) (simp add: node_ok_def del: fun_upd_apply)
  qed
  ultimately have ch: "\<forall>(c, zs)\<in>set (us @ (a, ys) # ws). bchain ?h' c zs \<and> pointed (hashtable st) ?h' c"
    using cp(2) unfolding pointed_same [OF sn] by auto
  have bk: "buckets_in (hashtable st) ?h' (fst ` set (us @ (a, ys) # ws))"
    using t' unfolding buckets_in_def sentinel_at_same [OF sn] by simp
  have "tearing i (us @ (a, ys) # ws) ?st'"
    by (rule tearing_step [OF t, of y _ _ hp]) (use d(2) sn ch bk ct t' in \<open>simp_all del: fun_upd_apply\<close>)
  moreover have "owned_data ?st' = owned_data st" using node_data_same [OF sn] by (simp add: owned_data_def del: fun_upd_apply)
  ultimately show thesis using ea(1) y ey(1) ty run by (intro that [of ea ey ?st']) simp_all
qed

text \<open>A sentinel whose nodes are gone: its bucket is unset, then it is taken out.\<close>
lemma tear_sentinel:
  assumes t: "tearing i (us @ (a, []) # ws) st" and seg: "hashtable st s = Some seg" "seg b = a" "b < 511" "\<not> (s = 0 \<and> b = 0)"
  obtains ea st' where "nodes st a = Some ea"
    "sohash_list_delete (Local a) (reverse_so_key ea) SOHASH_SENTINEL_NODE arg i (st\<lparr>hashtable := (hashtable st)(s \<mapsto> seg(b := NULL))\<rparr>) =
      Some (0, st')"
    "tearing i (us @ ws) (st'\<lparr>sohash_sentinelkey_count := wrap32 (sohash_sentinelkey_count st' - 1)\<rparr>)"
    "hashtable st' = (hashtable st)(s \<mapsto> seg(b := NULL))" "owned_data st' = owned_data st"
proof -
  let ?cs = "us @ (a, []) # ws"
  note t' = t [unfolded tearing_def]
  let ?h = "nodes st"
  let ?ht = "(hashtable st)(s \<mapsto> seg(b := NULL))"
  let ?st0 = "st\<lparr>hashtable := ?ht\<rparr>"
  have cp: "bchain ?h c zs" "pointed (hashtable st) ?h c" if "(c, zs) \<in> set ?cs" for c zs using t' that by blast+
  then have "bchain ?h a []" by simp
  then obtain ea where ea: "?h a = Some ea" "hashentry_next ea = NULL \<or> even (hashentry_next ea)" unfolding bchain_def by auto
  have "a \<in> dom ?h" using ea(1) by auto
  then have aN: "a \<noteq> NULL" using t' by blast
  have "even (hashentry_next ea)" using ea(2) by (auto simp: NULL_def)
  moreover have "nodes ?st0 a = Some ea" "hash_state ?st0 = SOHASH_STATE_FLUSH" "i < length (hp_list ?st0)" using ea(1) t' by simp_all
  ultimately obtain hp dl where d: "sohash_list_delete (Local a) (reverse_so_key ea) SOHASH_SENTINEL_NODE arg i ?st0 =
      Some (0, set_hp i hp (?st0\<lparr>nodes := (nodes ?st0)(a \<mapsto> ea\<lparr>hashentry_next := head_of (rlist (hp_list ?st0 ! i))\<rparr>), deleted := dl\<rparr>))"
    "pushed a (hp_list ?st0 ! i) hp"
    using delete_local_sentinel [of ?st0 a ea i arg] aN by blast
  let ?h' = "?h(a \<mapsto> ea\<lparr>hashentry_next := head_of (rlist (hp_list st ! i))\<rparr>)"
  define st' where "st' = set_hp i hp (?st0\<lparr>nodes := ?h', deleted := dl\<rparr>)"
  have run: "sohash_list_delete (Local a) (reverse_so_key ea) SOHASH_SENTINEL_NODE arg i ?st0 = Some (0, st')" using d(1) by (simp add: st'_def)
  have sn: "same_nodes UNIV ?h ?h'" using ea(1) by (simp add: same_nodes_def)
  have ds: "distinct (flat us @ a # flat ws)"
  proof -
    have "distinct (flat ?cs @ allr (hp_list st))" using t' by blast
    then show ?thesis unfolding distinct_append by simp
  qed
  have other: "x \<noteq> a" if "(c, zs) \<in> set (us @ ws)" "x = c \<or> x \<in> set zs" for c zs x using flat_mem [OF that] ds by auto
  have bk0: "buckets_in (hashtable st) ?h (fst ` set ?cs)" using t' by blast
  then have sa: "sentinel_at ?h a (s * 511 + b)" using seg aN unfolding buckets_in_def by blast
  have "bchain ?h' c zs \<and> pointed ?ht ?h' c" if m: "(c, zs) \<in> set (us @ ws)" for c zs
  proof
    have mc: "(c, zs) \<in> set ?cs" using m by auto
    show "bchain ?h' c zs" by (rule bchain_same [OF cp(1) [OF mc] sn]) (use other [OF m] in auto)
    obtain n seg' where n: "sentinel_at ?h c n" "n < 2 ^ 17" "hashtable st (n div 511) = Some seg'" "seg' (n mod 511) = c"
      using cp(2) [OF mc] unfolding pointed_def by blast
    have "c \<noteq> a" using other [OF m] by blast
    then have "\<exists>seg''. ?ht (n div 511) = Some seg'' \<and> seg'' (n mod 511) = c"
      using n seg(1,2) by (cases "n div 511 = s"; cases "n mod 511 = b") auto
    then show "pointed ?ht ?h' c" using n unfolding pointed_def sentinel_at_same [OF sn] by blast
  qed
  then have ch: "\<forall>(c, zs)\<in>set (us @ ws). bchain ?h' c zs \<and> pointed ?ht ?h' c" by blast
  have bk: "buckets_in ?ht ?h' (fst ` set (us @ ws))"
    unfolding buckets_in_def sentinel_at_same [OF sn]
  proof (intro conjI allI impI)
    show "\<exists>seg. ?ht 0 = Some seg \<and> seg 0 \<noteq> NULL" using bk0 seg(1,4) by (cases "s = 0") (auto simp: buckets_in_def)
    fix s' seg' b' assume h: "?ht s' = Some seg'" "b' < 511" "seg' b' \<noteq> NULL"
    then have o: "\<exists>seg''. hashtable st s' = Some seg'' \<and> seg'' b' = seg' b'" and ne: "\<not> (s' = s \<and> b' = b)"
      using seg(1) by (cases "s' = s"; cases "b' = b"; auto)+
    then have k: "seg' b' \<in> fst ` set ?cs" "sentinel_at ?h (seg' b') (s' * 511 + b')" using bk0 h(2,3) unfolding buckets_in_def by metis+
    show "sentinel_at ?h (seg' b') (s' * 511 + b')" by (rule k(2))
    have "seg' b' \<noteq> a"
    proof
      assume "seg' b' = a"
      then have e: "s' * 511 + b' = s * 511 + b" using sentinel_at_unique [OF sa] k(2) by simp
      then have "(s' * 511 + b') div 511 = (s * 511 + b) div 511" "(s' * 511 + b') mod 511 = (s * 511 + b) mod 511" by simp_all
      then show False using ne h(2) seg(3) by simp
    qed
    then show "seg' b' \<in> fst ` set (us @ ws)" using k(1) by auto
  qed
  have ct: "sohash_sentinelkey_count st = int (length (us @ ws)) + 1" "int (length (us @ ws)) + 1 < 2 ^ 31" using t' by auto
  have w: "wrap32 (int (length (us @ ws))) = int (length (us @ ws))" by (rule wrap32_id) (use ct in simp_all)
  have "tearing i (us @ ws) (st'\<lparr>sohash_sentinelkey_count := wrap32 (sohash_sentinelkey_count st' - 1)\<rparr>)"
    by (rule tearing_step [OF t, of a _ _ hp]) (use d(2) sn ch bk ct w t' in \<open>simp_all add: st'_def del: fun_upd_apply\<close>)
  moreover have "owned_data st' = owned_data st" using node_data_same [OF sn] by (simp add: owned_data_def st'_def del: fun_upd_apply)
  moreover have "hashtable st' = ?ht" by (simp add: st'_def)
  ultimately show thesis using ea(1) run by (intro that [of ea st'])
qed

section \<open>The loops\<close>

lemma cleanup_bucket_loop_effect:
  assumes "tearing i (us @ (a, ys) # ws) st" "read_loc st (Bucket s b) = Some a"
  shows "\<exists>st'. cleanup_bucket_loop s b a i st = Some (True, st') \<and> tearing i (us @ (a, []) # ws) st' \<and>
    hashtable st' = hashtable st \<and> owned_data st' = owned_data st"
  using assms
proof (induction ys arbitrary: st)
  case Nil
  have "bchain (nodes st) a []" using Nil.prems(1) unfolding tearing_def by auto
  then obtain ea where ea: "nodes st a = Some ea" "hashentry_next ea = NULL \<or> (\<exists>n. sentinel_at (nodes st) (hashentry_next ea) n)"
    unfolding bchain_def by auto
  then have "cleanup_bucket_loop s b a i st = Some (True, st)"
    by (subst cleanup_bucket_loop.simps) (auto simp: sentinel_at_def)
  then show ?case using Nil.prems(1) by blast
next
  case (Cons y ys)
  obtain ea ey st1 where s1: "nodes st a = Some ea" "hashentry_next ea = y" "y \<noteq> NULL" "nodes st y = Some ey" "entry_type ey = SOHASH_REGULAR_NODE"
    "sohash_delete_entry_subr (reverse_so_key ey) i (Bucket s b) SOHASH_REGULAR_NODE NULL st = Some (0, st1)"
    "tearing i (us @ (a, ys) # ws) st1" "hashtable st1 = hashtable st" "owned_data st1 = owned_data st"
    by (rule tear_regular [OF Cons.prems, where arg = NULL])
  have "read_loc st1 (Bucket s b) = Some a" using Cons.prems(2) s1(8) by (simp add: read_loc_def)
  from Cons.IH [OF s1(7) this] obtain st' where "cleanup_bucket_loop s b a i st1 = Some (True, st')"
    "tearing i (us @ (a, []) # ws) st'" "hashtable st' = hashtable st" "owned_data st' = owned_data st"
    using s1(8,9) by auto
  moreover have "cleanup_bucket_loop s b a i st = cleanup_bucket_loop s b a i st1"
    using s1(1-6) by (subst cleanup_bucket_loop.simps) simp
  ultimately show ?case by auto
qed

lemma tearing_bucket:
  assumes t: "tearing i cs st" and s: "hashtable st s = Some seg" "b < 511" "seg b \<noteq> NULL"
  obtains us ys ws where "cs = us @ (seg b, ys) # ws"
proof -
  have "buckets_in (hashtable st) (nodes st) (fst ` set cs)" using t unfolding tearing_def by blast
  then have "seg b \<in> fst ` set cs" using s unfolding buckets_in_def by blast
  then obtain ys where "(seg b, ys) \<in> set cs" by auto
  then show thesis using that by (meson split_list)
qed

lemma cleanup_bucket_effect:
  assumes t: "tearing i (us @ (a, ys) # ws) st" and s: "hashtable st s = Some seg" "seg b = a" "a \<noteq> NULL"
  obtains st' where "sohash_cleanup_bucket s b i st = Some (True, st')" "tearing i (us @ (a, []) # ws) st'"
    "hashtable st' = hashtable st" "owned_data st' = owned_data st"
proof -
  have r: "read_loc st (Bucket s b) = Some a" using s by (simp add: read_loc_def)
  show thesis using cleanup_bucket_loop_effect [OF t r] r s(3) that by (auto simp: sohash_cleanup_bucket_def)
qed

text \<open>What the sweep leaves of a bucket.\<close>
definition swept :: "nat \<Rightarrow> (nat \<Rightarrow> addr) \<Rightarrow> nat set \<Rightarrow> nat \<Rightarrow> addr" where
  "swept s seg B b = (if b \<in> B \<and> \<not> (s = 0 \<and> b = 0) then NULL else seg b)"

lemma sweep_bucket_effect:
  assumes t: "tearing i cs st" and s: "hashtable st s = Some seg" "b < 511"
  obtains cs' st' where "sweep_bucket s b i st = Some (True, st')" "tearing i cs' st'" "owned_data st' = owned_data st"
    "hashtable st' = (hashtable st)(s \<mapsto> swept s seg {b})"
proof (cases "s = 0 \<and> b = 0 \<or> seg b = NULL")
  case True
  then have "swept s seg {b} = seg" by (auto simp: swept_def)
  then have "hashtable st = (hashtable st)(s \<mapsto> swept s seg {b})" using s(1) by auto
  moreover have "sweep_bucket s b i st = Some (True, st)" using True s(1) by (auto simp: sweep_bucket_def read_loc_def)
  ultimately show thesis using t by (intro that [of st cs]) simp_all
next
  case False
  let ?a = "seg b"
  obtain us ys ws where cs: "cs = us @ (?a, ys) # ws" by (rule tearing_bucket [OF t s]) (use False in simp)
  obtain st1 where c: "sohash_cleanup_bucket s b i st = Some (True, st1)" "tearing i (us @ (?a, []) # ws) st1"
    "hashtable st1 = hashtable st" "owned_data st1 = owned_data st"
    by (rule cleanup_bucket_effect [OF t [unfolded cs] s(1) refl]) (use False in simp)
  obtain ea st2 where d: "nodes st1 ?a = Some ea"
    "sohash_list_delete (Local ?a) (reverse_so_key ea) SOHASH_SENTINEL_NODE NULL i (st1\<lparr>hashtable := (hashtable st1)(s \<mapsto> seg(b := NULL))\<rparr>) =
      Some (0, st2)"
    "tearing i (us @ ws) (st2\<lparr>sohash_sentinelkey_count := wrap32 (sohash_sentinelkey_count st2 - 1)\<rparr>)"
    "hashtable st2 = (hashtable st1)(s \<mapsto> seg(b := NULL))" "owned_data st2 = owned_data st1"
    by (rule tear_sentinel [OF c(2), of s seg b, where arg = NULL]) (use s c(3) False in simp_all)
  have "swept s seg {b} = seg(b := NULL)" using False by (auto simp: swept_def)
  moreover have "sweep_bucket s b i st = Some (True, st2\<lparr>sohash_sentinelkey_count := wrap32 (sohash_sentinelkey_count st2 - 1)\<rparr>)"
  proof -
    have ne: "\<not> (s = 0 \<and> b = 0)" "seg b \<noteq> NULL" using False by auto
    show ?thesis unfolding sweep_bucket_def if_not_P [OF ne(1)]
      using ne(2) s(1) c(1,3) d(1,2) by (simp add: read_loc_def MDKI_ATOMIC_CAS_PTR_def write_loc_def)
  qed
  ultimately show thesis using c(3,4) d(3-5)
    by (intro that [of "st2\<lparr>sohash_sentinelkey_count := wrap32 (sohash_sentinelkey_count st2 - 1)\<rparr>" "us @ ws"])
      (simp_all add: owned_data_def)
qed

lemma sweep_buckets_effect:
  assumes "tearing i cs st" "hashtable st s = Some seg" "set bs \<subseteq> {..<511}"
  shows "\<exists>cs' st'. sweep_buckets s bs i st = Some (True, st') \<and> tearing i cs' st' \<and> owned_data st' = owned_data st \<and>
    hashtable st' = (hashtable st)(s \<mapsto> swept s seg (set bs))"
  using assms
proof (induction bs arbitrary: st cs seg)
  case Nil
  have "swept s seg {} = seg" by (auto simp: swept_def)
  then have "hashtable st = (hashtable st)(s \<mapsto> swept s seg {})" using Nil.prems(2) by auto
  then show ?case using Nil.prems by auto
next
  case (Cons b bs)
  have b: "b < 511" using Cons.prems(3) by simp
  obtain cs1 st1 where s1: "sweep_bucket s b i st = Some (True, st1)" "tearing i cs1 st1" "owned_data st1 = owned_data st"
    "hashtable st1 = (hashtable st)(s \<mapsto> swept s seg {b})"
    by (rule sweep_bucket_effect [OF Cons.prems(1,2) b])
  have "hashtable st1 s = Some (swept s seg {b})" "set bs \<subseteq> {..<511}" using s1(4) Cons.prems(3) by simp_all
  from Cons.IH [OF s1(2) this] obtain cs' st' where r: "sweep_buckets s bs i st1 = Some (True, st')" "tearing i cs' st'"
    "owned_data st' = owned_data st1" "hashtable st' = (hashtable st1)(s \<mapsto> swept s (swept s seg {b}) (set bs))"
    by blast
  have "swept s (swept s seg {b}) (set bs) = swept s seg (set (b # bs))" by (auto simp: swept_def)
  then show ?case using s1 r by (intro exI [of _ cs'] exI [of _ st']) simp
qed

definition unset :: "sohash_table \<Rightarrow> nat \<Rightarrow> bool" where
  "unset st s \<longleftrightarrow> (\<forall>seg b. hashtable st s = Some seg \<longrightarrow> b < 511 \<longrightarrow> \<not> (s = 0 \<and> b = 0) \<longrightarrow> seg b = NULL)"

lemma tearing_sentinel:
  assumes t: "tearing i cs st" and m: "(a, ys) \<in> set cs"
  shows "pointed (hashtable st) (nodes st) a" "a \<noteq> NULL"
proof -
  have "\<forall>(a, ys)\<in>set cs. bchain (nodes st) a ys \<and> pointed (hashtable st) (nodes st) a" using t by (simp add: tearing_def)
  then show "pointed (hashtable st) (nodes st) a" using m by blast
  have "dom (nodes st) = set (flat cs @ allr (hp_list st))" "\<forall>a\<in>dom (nodes st). a \<noteq> NULL \<and> even a" using t unfolding tearing_def by blast+
  moreover have "a \<in> set (flat cs @ allr (hp_list st))" using flat_mem [OF m, of a] by simp
  ultimately show "a \<noteq> NULL" by blast
qed

lemma distinct_fst: "distinct (flat cs) \<Longrightarrow> distinct (map fst cs)"
proof (induction cs)
  case (Cons c cs)
  obtain a ys where c: "c = (a, ys)" by fastforce
  have "fst ` set cs \<subseteq> set (flat cs)" by (auto simp: flat_def)
  then show ?case using Cons c by auto
qed simp

text \<open>When all buckets but the first are unset only the first sentinel is left.\<close>
lemma all_unset:
  assumes t: "tearing i cs st" and u: "\<forall>s<511. unset st s"
  shows "length cs \<le> 1"
proof -
  obtain seg0 where s0: "hashtable st 0 = Some seg0" using t unfolding tearing_def buckets_in_def by blast
  have "a = seg0 0" if m: "(a, ys) \<in> set cs" for a ys
  proof -
    obtain n seg where n: "n < 2 ^ 17" "hashtable st (n div 511) = Some seg" "seg (n mod 511) = a"
      using tearing_sentinel(1) [OF t m] unfolding pointed_def by blast
    have "a \<noteq> NULL" by (rule tearing_sentinel(2) [OF t m])
    moreover have "n div 511 < 511" using n(1) by (simp add: less_mult_imp_div_less)
    moreover have "unset st (n div 511)" using u \<open>n div 511 < 511\<close> by blast
    then have "\<not> (n div 511 = 0 \<and> n mod 511 = 0) \<longrightarrow> seg (n mod 511) = NULL" using n(2) by (simp add: unset_def)
    ultimately have "n div 511 = 0 \<and> n mod 511 = 0" using n(3) by blast
    then show ?thesis using n s0 by simp
  qed
  then have "fst ` set cs \<subseteq> {seg0 0}" by auto
  then have "card (set (map fst cs)) \<le> 1" by (metis card.empty card_insert_disjoint card_mono empty_iff finite.emptyI finite_insert list.set_map One_nat_def)
  moreover have "distinct (flat cs)" using t unfolding tearing_def distinct_append by blast
  ultimately show ?thesis using distinct_card [OF distinct_fst] by fastforce
qed

lemma tear_free_segment:
  assumes t: "tearing i cs st" and s: "hashtable st s = Some seg" "s \<noteq> 0" "\<forall>b<511. seg b = NULL"
  shows "tearing i cs (st\<lparr>hashtable := (hashtable st)(s := None)\<rparr>)"
proof -
  have "bchain (nodes st) a ys \<and> pointed ((hashtable st)(s := None)) (nodes st) a" if m: "(a, ys) \<in> set cs" for a ys
  proof -
    have "\<forall>(a, ys)\<in>set cs. bchain (nodes st) a ys \<and> pointed (hashtable st) (nodes st) a" using t by (simp add: tearing_def)
    then have b: "bchain (nodes st) a ys" using m by blast
    obtain n seg' where n: "sentinel_at (nodes st) a n" "n < 2 ^ 17" "hashtable st (n div 511) = Some seg'" "seg' (n mod 511) = a"
      using tearing_sentinel(1) [OF t m] unfolding pointed_def by blast
    have "a \<noteq> NULL" by (rule tearing_sentinel(2) [OF t m])
    moreover have "seg (n mod 511) = NULL" using s(3) by simp
    ultimately have "n div 511 \<noteq> s" using n(3,4) s(1) by auto
    then show ?thesis using b n unfolding pointed_def by (intro conjI exI [of _ n] exI [of _ seg']) simp_all
  qed
  then have "\<forall>(a, ys)\<in>set cs. bchain (nodes st) a ys \<and> pointed ((hashtable st)(s := None)) (nodes st) a" by blast
  moreover have "buckets_in ((hashtable st)(s := None)) (nodes st) (fst ` set cs)"
  proof -
    have "buckets_in (hashtable st) (nodes st) (fst ` set cs)" using t unfolding tearing_def by blast
    then show ?thesis using s(2) unfolding buckets_in_def by simp
  qed
  ultimately show ?thesis using t unfolding tearing_def by (simp del: set_append)
qed

lemma sweep_segments_effect:
  assumes "tearing i cs st" "s \<le> 511" "\<forall>k < s. unset st k"
  shows "\<exists>cs' st'. sweep_segments 511 s i st = Some (True, st') \<and> tearing i cs' st' \<and> owned_data st' = owned_data st \<and>
    sohash_sentinelkey_count st' \<le> 1"
  using assms
proof (induction "511 - s" arbitrary: s st cs)
  case 0
  then have s: "s = 511" by simp
  have "length cs \<le> 1" by (rule all_unset [OF 0(2)]) (use 0(4) s in simp)
  then have "sohash_sentinelkey_count st \<le> 1" using 0(2) by (simp add: tearing_def)
  then show ?case using 0(2) by (subst sweep_segments.simps) auto
next
  case (Suc m)
  have s: "s < 511" "m = 511 - Suc s" "Suc s \<le> 511" using Suc(2) by auto
  have sz: "sohash_segment_sz st = 511" using Suc.prems(1) by (simp add: tearing_def)
  consider "sohash_sentinelkey_count st \<le> 1" | "\<not> sohash_sentinelkey_count st \<le> 1" "hashtable st s = None"
    | seg where "\<not> sohash_sentinelkey_count st \<le> 1" "hashtable st s = Some seg" by fastforce
  then show ?case
  proof cases
    case 1
    then show ?thesis using Suc.prems(1) by (subst sweep_segments.simps) auto
  next
    case 2
    then have "\<forall>k<Suc s. unset st k" using Suc.prems(3) by (auto simp: less_Suc_eq unset_def)
    from Suc.hyps(1) [OF s(2) Suc.prems(1) s(3) this] show ?thesis
      using 2 s(1) by (subst sweep_segments.simps) simp
  next
    case 3
    obtain cs1 st1 where r: "sweep_buckets s [0..<511] i st = Some (True, st1)" "tearing i cs1 st1" "owned_data st1 = owned_data st"
      "hashtable st1 = (hashtable st)(s \<mapsto> swept s seg {..<511})"
      using sweep_buckets_effect [OF Suc.prems(1) 3(2), of "[0..<511]"] by (auto simp: atLeast0LessThan)
    define st2 where "st2 = (if s \<noteq> 0 then st1\<lparr>hashtable := (hashtable st1)(s := None)\<rparr> else st1)"
    have "tearing i cs1 st2"
      using r(2) tear_free_segment [OF r(2), of s "swept s seg {..<511}"] r(4) by (auto simp: st2_def swept_def)
    moreover have "unset st2 s'" if "s' < Suc s" for s'
    proof (cases "s' = s")
      case True
      then show ?thesis using r(4) by (auto simp: unset_def st2_def swept_def)
    next
      case False
      then have "hashtable st2 s' = hashtable st s'" using r(4) by (simp add: st2_def)
      moreover have "unset st s'" using False that Suc.prems(3) by simp
      ultimately show ?thesis by (simp only: unset_def)
    qed
    ultimately have "\<exists>cs' st'. sweep_segments 511 (Suc s) i st2 = Some (True, st') \<and> tearing i cs' st' \<and> owned_data st' = owned_data st2 \<and>
      sohash_sentinelkey_count st' \<le> 1" by (intro Suc.hyps(1) [OF s(2)]) (use s in simp_all)
    moreover have "sweep_segments 511 s i st = sweep_segments 511 (Suc s) i st2"
      using 3 s(1) r(1) sz by (subst sweep_segments.simps) (simp add: st2_def)
    moreover have "owned_data st2 = owned_data st" using r(3) by (simp add: st2_def owned_data_def)
    ultimately show ?thesis by simp
  qed
qed

lemma cleanup_retry_effect:
  assumes t: "tearing i cs st"
  obtains a seg st' where "cleanup_retry i st = Some (True, st')" "tearing i [(a, [])] st'" "hashtable st' 0 = Some seg" "seg 0 = a"
    "owned_data st' = owned_data st"
proof -
  obtain cs1 st1 where s1: "sweep_segments 511 0 i st = Some (True, st1)" "tearing i cs1 st1" "owned_data st1 = owned_data st"
    "sohash_sentinelkey_count st1 \<le> 1"
    using sweep_segments_effect [OF t, of 0] by auto
  obtain seg where seg: "hashtable st1 0 = Some seg" "seg 0 \<noteq> NULL" using s1(2) unfolding tearing_def buckets_in_def by blast
  obtain us ys ws where cs: "cs1 = us @ (seg 0, ys) # ws" by (rule tearing_bucket [OF s1(2) seg(1) _ seg(2)]) simp
  have "sohash_sentinelkey_count st1 = int (length cs1)" using s1(2) by (simp add: tearing_def)
  then have e: "us = []" "ws = []" using s1(4) cs by (cases us; cases ws; simp)+
  obtain st2 where c: "sohash_cleanup_bucket 0 0 i st1 = Some (True, st2)" "tearing i ([] @ (seg 0, []) # []) st2"
    "hashtable st2 = hashtable st1" "owned_data st2 = owned_data st1"
    by (rule cleanup_bucket_effect [OF s1(2) [unfolded cs e] seg(1) refl seg(2)])
  have n: "sohash_num_segments st = 511" using t by (simp add: tearing_def)
  have "sohash_regularkey_count st2 = 0" "sohash_sentinelkey_count st2 = 1" using c(2) by (simp_all add: tearing_def)
  then have "cleanup_retry i st = Some (True, st2)" using s1(1) c(1) n by (subst cleanup_retry.simps) simp
  then show thesis using c seg s1(3) by (intro that [of st2 "seg 0" seg]) simp_all
qed

section \<open>The retired nodes and the end\<close>

lemma flush_rlist_effect:
  assumes "distinct as" "set as \<subseteq> dom (nodes st)" "finite (dom (nodes st))"
  shows "\<exists>h' df. flush_rlist as n st = Some (n - of_nat (length as), st\<lparr>nodes := h', data_freed := df\<rparr>) \<and>
    dom h' = dom (nodes st) - set as \<and> mset df + node_data h' = owned_data st"
  using assms
proof (induction as arbitrary: n st)
  case Nil
  have "st = st\<lparr>nodes := nodes st, data_freed := data_freed st\<rparr>" by simp
  then show ?case by (intro exI [of _ "nodes st"] exI [of _ "data_freed st"]) (simp add: owned_data_def)
next
  case (Cons a as)
  obtain e where e: "nodes st a = Some e" using Cons.prems(2) by auto
  obtain df1 where f: "sohash_free_node a st = Some (st\<lparr>nodes := (nodes st)(a := None), data_freed := df1\<rparr>)"
    "owned_data (st\<lparr>nodes := (nodes st)(a := None), data_freed := df1\<rparr>) = owned_data st"
    by (rule free_node_effect [OF e Cons.prems(3)])
  let ?st1 = "st\<lparr>nodes := (nodes st)(a := None), data_freed := df1\<rparr>"
  have "set as \<subseteq> dom (nodes ?st1)" "finite (dom (nodes ?st1))" "distinct as" using Cons.prems by auto
  from Cons.IH [OF this(3,1,2), of "n - 1"] obtain h' df where r:
    "flush_rlist as (n - 1) ?st1 = Some (n - 1 - of_nat (length as), ?st1\<lparr>nodes := h', data_freed := df\<rparr>)"
    "dom h' = dom (nodes ?st1) - set as" "mset df + node_data h' = owned_data ?st1" by blast
  then show ?case using f by (intro exI [of _ h'] exI [of _ df]) (auto simp: algebra_simps)
qed

lemma flush_hps_effect:
  assumes "\<forall>hp\<in>set hps. hp_ok hp" "distinct (allr hps)" "dom (nodes st) = set (allr hps)"
  shows "\<exists>st'. flush_hps hps st = Some st' \<and> nodes st' = Map.empty \<and> hp_list st' = [] \<and> mset (data_freed st') = owned_data st"
  using assms
proof (induction hps arbitrary: st)
  case Nil
  then show ?case by (simp add: allr_def owned_data_def node_data_def)
next
  case (Cons hp hps)
  have ar: "allr (hp # hps) = rlist hp @ allr hps" by (simp add: allr_def)
  have d: "distinct (rlist hp)" "set (rlist hp) \<subseteq> dom (nodes st)" "finite (dom (nodes st))"
    using Cons.prems(2,3) unfolding ar by auto
  obtain h' df where f: "flush_rlist (rlist hp) (rcount hp) st =
      Some (rcount hp - of_nat (length (rlist hp)), st\<lparr>nodes := h', data_freed := df\<rparr>)"
    "dom h' = dom (nodes st) - set (rlist hp)" "mset df + node_data h' = owned_data st"
    using flush_rlist_effect [OF d, of "rcount hp"] by blast
  have n: "rcount hp - of_nat (length (rlist hp)) = 0" using Cons.prems(1) by (simp add: hp_ok_def)
  let ?st1 = "st\<lparr>nodes := h', data_freed := df\<rparr>"
  have "dom (nodes ?st1) = set (allr hps)" using f(2) Cons.prems(2,3) unfolding ar by auto
  moreover have "\<forall>hp\<in>set hps. hp_ok hp" "distinct (allr hps)" using Cons.prems(1,2) unfolding ar by simp_all
  ultimately obtain st' where "flush_hps hps ?st1 = Some st'" "nodes st' = Map.empty" "hp_list st' = []" "mset (data_freed st') = owned_data ?st1"
    using Cons.IH by blast
  then show ?case using f(1,3) n by (simp add: owned_data_def)
qed

lemma allr_rev: "mset (allr (rev hps)) = mset (allr hps)"
  by (induction hps) (auto simp: allr_def)

lemma cleanup_tail_effect:
  assumes t: "tearing i [(a, [])] st" and s: "hashtable st 0 = Some seg" "seg 0 = a"
  obtains st' where "cleanup_tail i st = Some st'" "nodes st' = Map.empty" "hp_list st' = []" "mset (data_freed st') = owned_data st"
proof -
  have d: "distinct (a # allr (hp_list st))" "dom (nodes st) = set (a # allr (hp_list st))" and i: "i < length (hp_list st)"
    and ok: "\<forall>hp\<in>set (hp_list st). hp_ok hp" using t by (auto simp: tearing_def)
  define st1 where "st1 = st\<lparr>hashtable := (hashtable st)(0 \<mapsto> seg(0 := NULL)), sohash_sentinelkey_count := wrap32 (sohash_sentinelkey_count st - 1)\<rparr>"
  obtain e where e: "nodes st1 a = Some e" "finite (dom (nodes st1))" using d(2) by (auto simp: st1_def)
  obtain df where f: "sohash_free_node a st1 = Some (st1\<lparr>nodes := (nodes st1)(a := None), data_freed := df\<rparr>)"
    "owned_data (st1\<lparr>nodes := (nodes st1)(a := None), data_freed := df\<rparr>) = owned_data st1"
    by (rule free_node_effect [OF e])
  let ?st2 = "sohash_hp_release i (st1\<lparr>nodes := (nodes st1)(a := None), data_freed := df, hashtable := (\<lambda>_. None)\<rparr>)"
  let ?hp = "(hp_list st ! i)\<lparr>hazard_ptrs := [NULL, NULL, NULL], hp_state := SOHASH_HP_FREE\<rparr>"
  have h2: "hp_list ?st2 = (hp_list st)[i := ?hp]" "nodes ?st2 = (nodes st)(a := None)" "owned_data ?st2 = owned_data st"
    using f(2) by (simp_all add: sohash_hp_release_def st1_def owned_data_def)
  have al: "allr (hp_list ?st2) = allr (hp_list st)" unfolding h2(1) allr_def using rlist_list_update [OF i, of ?hp] by simp
  have "hp_ok ?hp" using ok i by (simp add: hp_ok_def)
  then have o2: "\<forall>hp\<in>set (rev (hp_list ?st2)). hp_ok hp"
    using ok set_update_subset_insert [of "hp_list st" i ?hp] unfolding h2(1) by auto
  have d2: "distinct (allr (rev (hp_list ?st2)))" "dom (nodes ?st2) = set (allr (rev (hp_list ?st2)))"
    using mset_eq_imp_distinct_iff [OF allr_rev, of "hp_list ?st2"] mset_eq_setD [OF allr_rev, of "hp_list ?st2"] d unfolding al h2(2) by auto
  obtain st' where "flush_hps (rev (hp_list ?st2)) ?st2 = Some st'" "nodes st' = Map.empty" "hp_list st' = []" "mset (data_freed st') = owned_data ?st2"
    using flush_hps_effect [OF o2 d2] by blast
  moreover have "cleanup_tail i st = flush_hps (rev (hp_list ?st2)) ?st2"
    using s f(1) by (simp add: cleanup_tail_def read_loc_def write_loc_def MDKI_ATOMIC_CAS_PTR_def sohash_flush_hp_list_def st1_def Let_def)
  ultimately show thesis using h2(3) by (intro that [of st']) simp_all
qed

section \<open>From the list to the sentinels with their nodes\<close>

primrec split_chains :: "store \<Rightarrow> addr list \<Rightarrow> addr list \<times> (addr \<times> addr list) list" where
  "split_chains h [] = ([], [])"
| "split_chains h (x # xs) = (case split_chains h xs of (ys, cs) \<Rightarrow> if is_regular h x then (x # ys, cs) else ([], (x, ys) # cs))"

lemma split_chains_flat: "split_chains h xs = (ys, cs) \<Longrightarrow> xs = ys @ flat cs"
  by (induction xs arbitrary: ys cs) (auto split: prod.splits if_splits)

lemma split_chains_counts:
  "split_chains h xs = (ys, cs) \<Longrightarrow> fst ` set cs = {x \<in> set xs. \<not> is_regular h x} \<and>
    int (length ys) + (\<Sum>(a, ys)\<leftarrow>cs. int (length ys)) = int (length (regulars h xs))"
  by (induction xs arbitrary: ys cs) (auto simp: regulars_def split: prod.splits if_splits)

lemma node_sentinel: "h x = Some e \<Longrightarrow> node_ok e \<Longrightarrow> \<not> is_regular h x \<Longrightarrow> entry_type e = SOHASH_SENTINEL_NODE \<and> sentinel_at h x (unat (so_key e))"
  by (auto simp: node_ok_def is_regular_def sentinel_at_def)

lemma split_chains_ok:
  assumes "lseg h p xs NULL" "sorted (map (rkey h) xs)" "\<forall>x\<in>set xs. \<exists>e. h x = Some e \<and> node_ok e" "split_chains h xs = (ys, cs)"
  shows "\<exists>q. lseg h p ys q \<and> (q = NULL \<or> even q \<and> (\<exists>n. sentinel_at h q n)) \<and> (\<forall>y\<in>set ys. is_regular h y) \<and> (\<forall>(a, zs)\<in>set cs. bchain h a zs)"
  using assms
proof (induction xs arbitrary: p ys cs)
  case (Cons x xs)
  obtain e where e: "h x = Some e" "p = x" "x \<noteq> NULL" "even x" "lseg h (hashentry_next e) xs NULL" using Cons.prems(1) by auto
  obtain ys' cs' where s: "split_chains h xs = (ys', cs')" by fastforce
  obtain q where q: "lseg h (hashentry_next e) ys' q" "q = NULL \<or> even q \<and> (\<exists>n. sentinel_at h q n)" "\<forall>y\<in>set ys'. is_regular h y"
    "\<forall>(a, zs)\<in>set cs'. bchain h a zs"
    using Cons.IH [OF e(5) _ _ s] Cons.prems(2,3) by auto
  show ?case
  proof (cases "is_regular h x")
    case True
    then have "ys = x # ys'" "cs = cs'" using Cons.prems(4) s by simp_all
    then show ?thesis using True e q by (intro exI [of _ q]) simp
  next
    case False
    then have yc: "ys = []" "cs = (x, ys') # cs'" using Cons.prems(4) s by simp_all
    have ne: "node_ok e" using Cons.prems(3) e(1) by auto
    note st = node_sentinel [OF e(1) ne False]
    have "rkey h x < rkey h y" if "y \<in> set ys'" for y
    proof -
      have yx: "y \<in> set xs" using that split_chains_flat [OF s] by simp
      then obtain ey where ey: "h y = Some ey" "node_ok ey" using Cons.prems(3) by auto
      have "entry_type ey = SOHASH_REGULAR_NODE" using q(3) that ey(1) by (auto simp: is_regular_def)
      then have "reverse_so_key ey = sohash_regularkey (so_key ey)" using ey(2) by (auto simp: node_ok_def)
      moreover have "reverse_so_key e = sohash_sentinelkey (so_key e)" "so_key e < 2 ^ 31" using ne st by (auto simp: node_ok_def)
      ultimately have "rkey h x \<noteq> rkey h y" using sentinel_not_regular e(1) ey(1) by (simp add: rkey_def)
      moreover have "rkey h x \<le> rkey h y" using Cons.prems(2) yx by simp
      ultimately show ?thesis by simp
    qed
    then have "bchain h x ys'" using e(1) ne st q(1-3) unfolding bchain_def by blast
    then show ?thesis using yc e st q(4) by (intro exI [of _ x]) auto
  qed
qed auto

lemma allr_distinct:
  assumes "\<forall>i<length hps. distinct (rlist (hps ! i)) \<and> (\<forall>j<length hps. i \<noteq> j \<longrightarrow> set (rlist (hps ! i)) \<inter> set (rlist (hps ! j)) = {})"
  shows "distinct (allr hps)"
  using assms
proof (induction hps)
  case (Cons hp hps)
  have a: "distinct (rlist ((hp # hps) ! i))" if "i < Suc (length hps)" for i using Cons.prems that by simp
  have b: "set (rlist ((hp # hps) ! i)) \<inter> set (rlist ((hp # hps) ! j)) = {}" if "i < Suc (length hps)" "j < Suc (length hps)" "i \<noteq> j" for i j
    using Cons.prems that by simp
  have "distinct (allr hps)" using Cons.IH a [of "Suc i" for i] b [of "Suc i" "Suc j" for i j] by simp
  moreover have "set (rlist hp) \<inter> set (rlist x) = {}" if "x \<in> set hps" for x
    using b [of 0 "Suc i" for i] that by (auto simp: in_set_conv_nth)
  then have "set (rlist hp) \<inter> set (allr hps) = {}" by (auto simp: allr_def)
  ultimately show ?case using a [of 0] by (simp add: allr_def)
qed (simp add: allr_def)

lemma tearing_start:
  assumes inv: "sohash_inv {} st xs" and cov: "covered {} st xs" and i: "i < length (hp_list st)"
    and st: "hash_state st = SOHASH_STATE_FLUSH" "sohash_keys_unique st"
    and ct: "sohash_regularkey_count st = int (length (regulars (nodes st) xs))" "sohash_regularkey_count st < 2 ^ 31"
  obtains cs where "tearing i cs st"
proof -
  let ?h = "nodes st"
  have l: "list_ok ?h xs" and b: "buckets_ok (hashtable st) ?h xs" and so: "store_ok ?h (hp_list st) xs {} (kmem_next st)"
    and hp: "hps_ok st" and sz: "sizes_ok st" using inv by (auto simp: sohash_inv_def)
  note l' = l [unfolded list_ok_def]
  obtain ys cs where s: "split_chains ?h xs = (ys, cs)" by fastforce
  obtain q where q: "\<forall>y\<in>set ys. is_regular ?h y" "\<forall>(a, zs)\<in>set cs. bchain ?h a zs"
    using split_chains_ok [OF _ _ _ s, of "hd xs"] l' by blast
  obtain seg0 where s0: "hashtable st 0 = Some seg0" "seg0 0 = hd xs" using b unfolding buckets_ok_def by blast
  have "hd xs \<in> set xs" using l' by simp
  then have hN: "hd xs \<noteq> NULL" using l' lseg_nodes by blast
  have "sentinel_at ?h (hd xs) 0" using b s0 hN unfolding buckets_ok_def by fastforce
  then have "\<not> is_regular ?h (hd xs)" using not_sentinel by blast
  moreover have fl: "xs = ys @ flat cs" by (rule split_chains_flat [OF s])
  ultimately have ys: "ys = []" using q(1) by (cases ys) auto
  note cnt = conjunct1 [OF split_chains_counts [OF s]] conjunct2 [OF split_chains_counts [OF s]]
  have sen: "fst ` set cs = sentinels ?h xs"
    unfolding cnt(1) sentinels_def using l' node_sentinel not_sentinel by blast
  have dc: "distinct (map fst cs)" by (rule distinct_fst) (use l' fl ys in simp)
  have len: "length cs = card (sentinels ?h xs)" using distinct_card [OF dc] by (simp add: sen)
  have sd: "sohash_sentinelkey_count st = int (length cs)" using cov len by (simp add: covered_def)
  have "length cs < 2 ^ 31" using covered_count(2) [OF cov] sd by simp
  moreover have "pointed (hashtable st) ?h a" if m: "(a, zs) \<in> set cs" for a zs
  proof -
    have "a \<in> sentinels ?h xs" using m sen by force
    then show ?thesis using cov unfolding covered_def by blast
  qed
  then have "\<forall>(a, zs)\<in>set cs. bchain ?h a zs \<and> pointed (hashtable st) ?h a" using q(2) by blast
  moreover have "buckets_in (hashtable st) ?h (fst ` set cs)"
    unfolding buckets_in_def sen
  proof (intro conjI allI impI)
    show "\<exists>seg. hashtable st 0 = Some seg \<and> seg 0 \<noteq> NULL" using s0 hN by auto
    fix s seg j assume h: "hashtable st s = Some seg" "j < 511" "seg j \<noteq> NULL"
    then show "sentinel_at ?h (seg j) (s * 511 + j)" "seg j \<in> sentinels ?h xs" using b unfolding buckets_ok_def sentinels_def by blast+
  qed
  moreover have rs: "set (allr (hp_list st)) = retired (hp_list st)" by (auto simp: allr_def retired_def)
  then have "distinct (flat cs @ allr (hp_list st))" "dom ?h = set (flat cs @ allr (hp_list st))"
    using store_okD(1,2) [OF so] l' fl ys allr_distinct [of "hp_list st"] so by (auto simp: store_ok_def)
  moreover have "\<forall>a\<in>dom ?h. a \<noteq> NULL \<and> even a" using store_okD(6) [OF so] by blast
  ultimately show thesis using st ct cnt(2) ys i hp sz sd
    by (intro that [of cs]) (simp add: tearing_def hps_ok_def sizes_ok_def case_prod_beta del: set_append)
qed

lemma cleanup_hashtable_effect:
  assumes rep: "sohash_rep True uniq V st m" and room: "length (hp_list st) < 2 ^ 28" "sohash_regularkey_count st < 2 ^ 31"
  obtains st' where "sohash_cleanup_hashtable st = Some (0, st')" "nodes st' = Map.empty" "hp_list st' = []"
    "mset (data_freed st') = owned_data st"
proof -
  obtain xs where r: "rep_at True {} uniq V st xs m" using rep by (auto simp: sohash_rep_def)
  have inv: "sohash_inv {} st xs" and cov: "covered {} st xs" and mem: "mem_ok st" and act: "hash_state st = SOHASH_STATE_ACTIVE"
    and ct: "sohash_regularkey_count st = int (length (regulars (nodes st) xs))" using r by (auto simp: rep_at_def)
  let ?st0 = "st\<lparr>hash_state := SOHASH_STATE_FLUSH\<rparr>"
  have inv0: "sohash_inv {} ?st0 xs" using inv by (simp add: sohash_inv_def sizes_ok_def hps_ok_def)
  have len0: "length (hp_list ?st0) < 2 ^ 28" and m0: "mem_ok ?st0" using room mem by (simp_all add: mem_ok_def)
  obtain i st1 where g: "sohash_hp_get ?st0 = ((0, i), st1)" "sohash_inv {} st1 xs" "i < length (hp_list st1)" "same_list ?st0 st1"
    using hp_get_cases [OF inv0 len0] m0 by metis
  let ?st2 = "st1\<lparr>sohash_keys_unique := True\<rparr>"
  have "sohash_inv {} ?st2 xs" using g(2) by (simp add: sohash_inv_def sizes_ok_def hps_ok_def)
  moreover have "covered {} ?st2 xs" using cov g(4) by (simp add: covered_def same_list_def)
  ultimately obtain cs where t: "tearing i cs ?st2"
    by (rule tearing_start) (use g(3,4) ct room(2) in \<open>simp_all add: same_list_def\<close>)
  obtain a seg st3 where c: "cleanup_retry i ?st2 = Some (True, st3)" "tearing i [(a, [])] st3" "hashtable st3 0 = Some seg" "seg 0 = a"
    "owned_data st3 = owned_data ?st2"
    by (rule cleanup_retry_effect [OF t])
  obtain st4 where e: "cleanup_tail i st3 = Some st4" "nodes st4 = Map.empty" "hp_list st4 = []" "mset (data_freed st4) = owned_data st3"
    by (rule cleanup_tail_effect [OF c(2-4)])
  have "sohash_cleanup_hashtable st = Some (0, st4)"
    using act g(1) c(1) e(1) by (simp add: sohash_cleanup_hashtable_def sohash_consts)
  then show thesis using e c(5) same_list_owned [OF g(4)] by (intro that [of st4]) (simp_all add: owned_data_def)
qed

end
