(* ===== verification/Mvfs_Sohash_Props.thy ===== *)
theory Mvfs_Sohash_Props
  imports Mvfs_Sohash_Cleanup
begin

text \<open>The properties of the split ordered hash table: what it does from its creation on, how keys are ordered and
  told apart, what a scan of the retired nodes leaves alone, and where the code leaves its arrays.\<close>

section \<open>Creation\<close>

lemma KMEM_ALLOC_all: "list_all id (kmem st) \<Longrightarrow> KMEM_ALLOC st = (True, st\<lparr>kmem := tl (kmem st)\<rparr>)"
  by (cases "kmem st") (simp_all add: KMEM_ALLOC_def)

lemma list_all_tl: "list_all P xs \<Longrightarrow> list_all P (tl xs)"
  by (cases xs) auto

definition first_sentinel :: sohash_entry where
  "first_sentinel = BZERO_entry\<lparr>reverse_so_key := sohash_sentinelkey 0, entry_type := SOHASH_SENTINEL_NODE\<rparr>"

definition fresh_table :: "sohash_init_args \<Rightarrow> bool list \<Rightarrow> addr \<Rightarrow> sohash_table" where
  "fresh_table a oks base =
    \<lparr>hashtable = [0 \<mapsto> (\<lambda>_. NULL)(0 := base)],
     fn_verify_matched_entry = (if arg_keys_unique a then (\<lambda>_ _. False) else the (arg_verify a)), fn_on_delete = arg_on_delete a,
     hp_list = [new_hp SOHASH_HP_FREE], hash_state = SOHASH_STATE_ACTIVE, sohash_num_segments = 511, sohash_segment_sz = 511,
     sohash_keys_unique = arg_keys_unique a, hazard_ptrs_total = 3, sohash_current_size = 2, sohash_regularkey_count = 0,
     sohash_sentinelkey_count = 1, nodes = [base \<mapsto> first_sentinel], kmem = oks, kmem_next = base + 2, data_freed = [], deleted = []\<rparr>"

lemma sentinelkey_0 [simp]: "sohash_sentinelkey 0 = 0"
  by (rule bit_word_eqI) (simp add: sohash_sentinelkey_def bit_reverse)

lemma init_fresh:
  assumes "arg_num_segments a = -1" "arg_segment_sz a = -1" "\<not> init_args_bad (Some a)" "list_all id oks" "base \<noteq> NULL"
  shows "\<exists>oks'. sohash_init_hashtable (Some a) oks base = Some (Some (fresh_table a oks' base)) \<and> list_all id oks'"
proof -
  define oks' where "oks' = tl (tl (tl (tl (tl oks))))"
  have l: "list_all id (tl oks)" "list_all id (tl (tl oks))" "list_all id (tl (tl (tl oks)))" "list_all id (tl (tl (tl (tl oks))))" "list_all id oks'"
    using assms(4) unfolding oks'_def by (intro list_all_tl, assumption)+
  have "wrap32 1 = 1" by (rule wrap32_id) simp_all
  then have "init_hashtable_tail 511 511 a oks base = Some (Some (fresh_table a oks' base))"
    using assms(4,5) l
    by (simp add: init_hashtable_tail_def BZERO_table_def KMEM_ALLOC_all sohash_alloc_node_def sohash_set_bucket_def segment_of_def bucket_of_def
        set_bucket_slot_def MDKI_ATOMIC_CAS_PTR_def read_loc_def write_loc_def set_node_def Let_def oks'_def fresh_table_def first_sentinel_def
        BZERO_entry_def)
  then show ?thesis using assms(1-3) l(5) by (auto simp: sohash_init_hashtable_def Let_def sohash_consts)
qed

lemma fresh_rep:
  assumes "even base" "base \<noteq> NULL" "\<not> arg_keys_unique a \<longrightarrow> arg_verify a = Some (\<lambda>e. V (data e))" "K \<longrightarrow> list_all id oks"
  shows "sohash_rep K (arg_keys_unique a) V (fresh_table a oks base) Map.empty" "owned_data (fresh_table a oks base) = {#}"
    "sohash_regularkey_count (fresh_table a oks base) = 0" "length (hp_list (fresh_table a oks base)) = 1"
proof -
  let ?st = "fresh_table a oks base"
  have n: "nodes ?st = [base \<mapsto> first_sentinel]" "hashtable ?st = [0 \<mapsto> (\<lambda>_. NULL)(0 := base)]" "hp_list ?st = [new_hp SOHASH_HP_FREE]"
    by (simp_all add: fresh_table_def)
  have ok: "node_ok first_sentinel" by (simp add: first_sentinel_def node_ok_def BZERO_entry_def)
  have "list_ok (nodes ?st) [base]"
    using assms(1,2) ok by (simp add: list_ok_def n) (simp add: first_sentinel_def BZERO_entry_def)
  moreover have "buckets_ok (hashtable ?st) (nodes ?st) [base]"
    by (auto simp: buckets_ok_def n sentinel_at_def first_sentinel_def BZERO_entry_def split: if_splits)
  moreover have "store_ok (nodes ?st) (hp_list ?st) [base] {} (kmem_next ?st)"
    using assms(1,2) by (simp add: store_ok_def n retired_def new_hp_def) (simp add: fresh_table_def NULL_def)
  moreover have "sizes_ok ?st" by (simp add: sizes_ok_def fresh_table_def) (rule exI [of _ 1], simp)
  moreover have "hps_ok ?st" by (simp add: hps_ok_def n hp_ok_def new_hp_def) (simp add: fresh_table_def)
  ultimately have inv: "sohash_inv {} ?st [base]" by (simp add: sohash_inv_def)
  have "sentinel_at (nodes ?st) base 0" by (simp add: sentinel_at_def n first_sentinel_def BZERO_entry_def)
  then have "sentinels (nodes ?st) [base] = {base}" "pointed (hashtable ?st) (nodes ?st) base"
    by (auto simp: sentinels_def pointed_def n intro!: exI [of _ 0])
  then have "covered {} ?st [base]" by (simp add: covered_def) (simp add: fresh_table_def)
  moreover have "K \<longrightarrow> mem_ok ?st" using assms(4) by (simp add: mem_ok_def fresh_table_def)
  moreover have "regulars (nodes ?st) [base] = []" by (simp add: regulars_def is_regular_def n first_sentinel_def)
  ultimately have "rep_at K {} (arg_keys_unique a) V ?st [base] Map.empty"
    using inv assms(3) by (auto simp: rep_at_def live_def) (auto simp: fresh_table_def)
  then show "sohash_rep K (arg_keys_unique a) V ?st Map.empty" by (auto simp: sohash_rep_def)
  show "owned_data ?st = {#}" by (simp add: owned_data_def node_data_def fresh_table_def first_sentinel_def BZERO_entry_def)
  show "sohash_regularkey_count ?st = 0" "length (hp_list ?st) = 1" by (simp_all add: fresh_table_def)
qed

text \<open>A run of operations while the table has room.\<close>
lemma run_simulates:
  assumes "sohash_rep K uniq V st m" "mem_ok st" "sohash_regularkey_count st + int (length ops) \<le> 262143"
    "length (hp_list st) + length ops < 2 ^ 28"
  shows "\<exists>rs st' m'. sohash_run ops st = Some (rs, st') \<and> sohash_rep K uniq V st' m' \<and> sohash_spec_run uniq V True ops rs m m' \<and>
    owned_data st' = owned_data st + (\<Sum>op\<leftarrow>ops. op_data op) \<and> mem_ok st' \<and>
    length (hp_list st') \<le> length (hp_list st) + length ops \<and> sohash_regularkey_count st' \<le> sohash_regularkey_count st + int (length ops)"
  using assms
proof (induction ops arbitrary: st m)
  case Nil
  then show ?case by (auto intro: sohash_spec_run.intros)
next
  case (Cons op ops)
  have room: "sohash_room st" using Cons.prems(3,4) by (simp add: sohash_room_def)
  obtain r st1 m1 where s: "sohash_step op st = Some (r, st1)" "sohash_rep K uniq V st1 m1" "sohash_spec uniq V (mem_ok st) op r m m1"
    "owned_data st1 = owned_data st + op_data op" "mem_ok st \<longrightarrow> mem_ok st1"
    "length (hp_list st1) \<le> length (hp_list st) + 1" "sohash_regularkey_count st1 \<le> sohash_regularkey_count st + 1"
    by (rule step_simulates [OF Cons.prems(1) room disjI1 [OF Cons.prems(2)]])
  obtain rs st' m' where f: "sohash_run ops st1 = Some (rs, st')" "sohash_rep K uniq V st' m'" "sohash_spec_run uniq V True ops rs m1 m'"
    "owned_data st' = owned_data st1 + (\<Sum>op\<leftarrow>ops. op_data op)" "mem_ok st'"
    "length (hp_list st') \<le> length (hp_list st1) + length ops" "sohash_regularkey_count st' \<le> sohash_regularkey_count st1 + int (length ops)"
    using Cons.IH [OF s(2)] s Cons.prems by fastforce
  have "sohash_spec_run uniq V True (op # ops) (r # rs) m m'" using s(3) f(3) Cons.prems(2) by (auto intro: sohash_spec_run.intros)
  then show ?case using s(1,4,6,7) f by (intro exI [of _ "r # rs"] exI [of _ st'] exI [of _ m']) (simp add: add.assoc)
qed

section \<open>The table is a map\<close>

definition default_args :: "bool \<Rightarrow> (addr \<Rightarrow> addr \<Rightarrow> bool) \<Rightarrow> bool \<Rightarrow> sohash_init_args" where
  "default_args uniq V ond = \<lparr>arg_num_segments = -1, arg_segment_sz = -1, arg_keys_unique = uniq, arg_data_free = True,
     arg_compute_sohashkey = True, arg_verify = Some (\<lambda>e. V (data e)), arg_on_delete = ond\<rparr>"

lemma default_init:
  assumes "list_all id oks" "even base" "base \<noteq> NULL"
  obtains oks' where "sohash_init_hashtable (Some (default_args uniq V ond)) oks base = Some (Some (fresh_table (default_args uniq V ond) oks' base))"
    "list_all id oks'" "sohash_rep K uniq V (fresh_table (default_args uniq V ond) oks' base) Map.empty"
    "owned_data (fresh_table (default_args uniq V ond) oks' base) = {#}"
    "sohash_regularkey_count (fresh_table (default_args uniq V ond) oks' base) = 0"
    "length (hp_list (fresh_table (default_args uniq V ond) oks' base)) = 1"
    "mem_ok (fresh_table (default_args uniq V ond) oks' base)"
proof -
  let ?a = "default_args uniq V ond"
  have f: "arg_num_segments ?a = -1" "arg_segment_sz ?a = -1" "\<not> init_args_bad (Some ?a)" "arg_keys_unique ?a = uniq"
    "arg_verify ?a = Some (\<lambda>e. V (data e))" by (simp_all add: default_args_def init_args_bad_def)
  obtain oks' where i: "sohash_init_hashtable (Some ?a) oks base = Some (Some (fresh_table ?a oks' base))" "list_all id oks'"
    using init_fresh [OF f(1-3) assms(1,3)] by blast
  have v: "\<not> arg_keys_unique ?a \<longrightarrow> arg_verify ?a = Some (\<lambda>e. V (data e))" using f(5) by blast
  have r: "sohash_rep K uniq V (fresh_table ?a oks' base) Map.empty" "owned_data (fresh_table ?a oks' base) = {#}"
    "sohash_regularkey_count (fresh_table ?a oks' base) = 0" "length (hp_list (fresh_table ?a oks' base)) = 1"
    by (rule fresh_rep [OF assms(2,3) v impI [OF i(2)], unfolded f(4)])+
  have "mem_ok (fresh_table ?a oks' base)" using i(2) by (simp add: mem_ok_def fresh_table_def)
  then show thesis using i r by (intro that)
qed

text \<open>C6: a table that is created with the default sizes does what a map of entries does, for every sequence of at
  most 262143 insertions, lookups and deletions: no operation panics, uses a node that was freed or an index outside of an array, or fails to
  return; an insertion adds its entry exactly when no entry has its key and satisfies the callback, and gives back the one that is there otherwise;
  a lookup finds an entry exactly when there is one; a deletion takes one entry out.  All the data handed in
  are then held by exactly one node or were freed exactly once.\<close>
theorem split_ordered_hash_refines_map:
  assumes "list_all id oks" and "even base" and "base \<noteq> NULL" and "length ops \<le> 262143"
  shows "\<exists>st0 rs st m. sohash_init_hashtable (Some (default_args uniq V ond)) oks base = Some (Some st0) \<and>
    sohash_run ops st0 = Some (rs, st) \<and> sohash_spec_run uniq V True ops rs Map.empty m \<and> sohash_rep True uniq V st m \<and>
    owned_data st = (\<Sum>op\<leftarrow>ops. op_data op)"
proof (rule default_init [OF assms(1-3), of uniq V ond True])
  fix oks'
  let ?st0 = "fresh_table (default_args uniq V ond) oks' base"
  assume i: "sohash_init_hashtable (Some (default_args uniq V ond)) oks base = Some (Some ?st0)" "sohash_rep True uniq V ?st0 Map.empty"
    "owned_data ?st0 = {#}" "sohash_regularkey_count ?st0 = 0" "length (hp_list ?st0) = 1" "mem_ok ?st0"
  have b: "sohash_regularkey_count ?st0 + int (length ops) \<le> 262143" "length (hp_list ?st0) + length ops < 2 ^ 28"
    using i(4,5) assms(4) by simp_all
  obtain rs st m where r: "sohash_run ops ?st0 = Some (rs, st)" "sohash_rep True uniq V st m" "sohash_spec_run uniq V True ops rs Map.empty m"
    "owned_data st = owned_data ?st0 + (\<Sum>op\<leftarrow>ops. op_data op)"
    using run_simulates [OF i(2,6) b] by blast
  then show ?thesis using i(1,3) by auto
qed

definition ops_example :: "sohash_op list" where
  "ops_example = [So_insert 5 50 0, So_insert 6 60 0, So_insert 5 51 0, So_delete 6 0, So_find 6 0]"

theorem split_ordered_hash_refines_map_witness:
  "\<exists>st0 rs st m. sohash_init_hashtable (Some (default_args True (\<lambda>_ _. False) True)) [] 2 = Some (Some st0) \<and>
    sohash_run ops_example st0 = Some (rs, st) \<and> sohash_spec_run True (\<lambda>_ _. False) True ops_example rs Map.empty m \<and>
    owned_data st = {#50, 60, 51#}"
  using split_ordered_hash_refines_map [of "[]" 2 ops_example True "\<lambda>_ _. False" True]
  by (auto simp: ops_example_def NULL_def)

text \<open>C13: the life of a table ends without a leak and without a double free: after any of these sequences of operations the tear down
  returns 0, not a single node or hazard reference is left, and the data handed in over the life of the table have
  each been given to the free callback exactly once.\<close>
theorem sohash_lifetime_frees_all:
  assumes "list_all id oks" and "even base" and "base \<noteq> NULL" and "length ops \<le> 262143"
  shows "\<exists>st0 rs st st'. sohash_init_hashtable (Some (default_args uniq V ond)) oks base = Some (Some st0) \<and>
    sohash_run ops st0 = Some (rs, st) \<and> sohash_cleanup_hashtable st = Some (0, st') \<and>
    nodes st' = Map.empty \<and> hp_list st' = [] \<and> mset (data_freed st') = (\<Sum>op\<leftarrow>ops. op_data op)"
proof (rule default_init [OF assms(1-3), of uniq V ond True])
  fix oks'
  let ?st0 = "fresh_table (default_args uniq V ond) oks' base"
  assume i: "sohash_init_hashtable (Some (default_args uniq V ond)) oks base = Some (Some ?st0)" "sohash_rep True uniq V ?st0 Map.empty"
    "owned_data ?st0 = {#}" "sohash_regularkey_count ?st0 = 0" "length (hp_list ?st0) = 1" "mem_ok ?st0"
  have b: "sohash_regularkey_count ?st0 + int (length ops) \<le> 262143" "length (hp_list ?st0) + length ops < 2 ^ 28"
    using i(4,5) assms(4) by simp_all
  obtain rs st m where r: "sohash_run ops ?st0 = Some (rs, st)" "sohash_rep True uniq V st m"
    "owned_data st = owned_data ?st0 + (\<Sum>op\<leftarrow>ops. op_data op)" "length (hp_list st) \<le> length (hp_list ?st0) + length ops"
    "sohash_regularkey_count st \<le> sohash_regularkey_count ?st0 + int (length ops)"
    using run_simulates [OF i(2,6) b] by blast
  have "length (hp_list st) < 2 ^ 28" "sohash_regularkey_count st < 2 ^ 31" using r(4,5) b by simp_all
  then obtain st' where "sohash_cleanup_hashtable st = Some (0, st')" "nodes st' = Map.empty" "hp_list st' = []" "mset (data_freed st') = owned_data st"
    by (rule cleanup_hashtable_effect [OF r(2)])
  then show ?thesis using i(1,3) r(1,3) by auto
qed

theorem sohash_lifetime_frees_all_witness:
  "\<exists>st0 rs st st'. sohash_init_hashtable (Some (default_args True (\<lambda>_ _. False) True)) [] 2 = Some (Some st0) \<and>
    sohash_run ops_example st0 = Some (rs, st) \<and> sohash_cleanup_hashtable st = Some (0, st') \<and>
    nodes st' = Map.empty \<and> mset (data_freed st') = {#50, 60, 51#}"
  using sohash_lifetime_frees_all [of "[]" 2 ops_example True "\<lambda>_ _. False" True]
  by (auto simp: ops_example_def NULL_def)

text \<open>C14: an operation other than a deletion keeps the table a map also when allocations fail: a lookup then may miss an
  entry, an insertion may report ENOMEM or EFAULT, but the entries stay as they were, and the data of a
  failed insertion are freed, once.\<close>
theorem sohash_survives_no_memory:
  assumes "sohash_rep K uniq V st m" and "sohash_room st" and "\<And>k arg. op \<noteq> So_delete k arg"
  shows "\<exists>r st' m'. sohash_step op st = Some (r, st') \<and> sohash_rep K uniq V st' m' \<and> sohash_spec uniq V (mem_ok st) op r m m' \<and>
    owned_data st' = owned_data st + op_data op"
  using step_simulates [OF assms(1,2), of op] assms(3) by metis

lemma fresh_example:
  assumes "K \<longrightarrow> list_all id oks"
  shows "sohash_rep K True (\<lambda>_ _. False) (fresh_table (default_args True (\<lambda>_ _. False) True) oks 2) Map.empty"
  "sohash_room (fresh_table (default_args True (\<lambda>_ _. False) True) oks 2)"
  using fresh_rep [of 2 "default_args True (\<lambda>_ _. False) True" "\<lambda>_ _. False" K oks] assms
  by (simp_all add: NULL_def default_args_def sohash_room_def)

theorem sohash_survives_no_memory_witness:
  "\<exists>r st' m'. sohash_step (So_insert 5 50 0) (fresh_table (default_args True (\<lambda>_ _. False) True) [False] 2) = Some (r, st') \<and>
     sohash_rep False True (\<lambda>_ _. False) st' m' \<and> sohash_spec True (\<lambda>_ _. False) False (So_insert 5 50 0) r Map.empty m'"
  using sohash_survives_no_memory [OF fresh_example [of False "[False]"] , of "So_insert 5 50 0"]
  by (auto simp: mem_ok_def fresh_table_def)

lemma one_entry:
  "\<exists>r st m. sohash_step (So_insert 5 50 0) (fresh_table (default_args True (\<lambda>_ _. False) True) [] 2) = Some (r, st) \<and>
    sohash_rep True True (\<lambda>_ _. False) st m \<and> sohash_room st \<and> mem_ok st \<and> hits True (\<lambda>_ _. False) m 5 0 \<noteq> {}"
proof -
  let ?st = "fresh_table (default_args True (\<lambda>_ _. False) True) [] 2"
  have mm: "mem_ok ?st" by (simp add: mem_ok_def fresh_table_def)
  have l: "True \<longrightarrow> list_all id []" by simp
  have c: "sohash_regularkey_count ?st = 0" "length (hp_list ?st) = 1" by (simp_all add: fresh_table_def)
  show ?thesis
  proof (rule step_simulates [OF fresh_example [of True "[]", OF l] disjI1 [OF mm], where op = "So_insert 5 50 0"])
    fix r st' m' assume s: "sohash_step (So_insert 5 50 0) ?st = Some (r, st')" "sohash_rep True True (\<lambda>_ _. False) st' m'"
      "sohash_spec True (\<lambda>_ _. False) (mem_ok ?st) (So_insert 5 50 0) r Map.empty m'" "mem_ok ?st \<longrightarrow> mem_ok st'"
      "length (hp_list st') \<le> length (hp_list ?st) + 1" "sohash_regularkey_count st' \<le> sohash_regularkey_count ?st + 1"
    have "hits True (\<lambda>_ _. False) m' 5 0 \<noteq> {}"
      using s(3) mm by (cases rule: sohash_spec.cases) (auto simp: hits_def)
    then show ?thesis using s c mm by (intro exI [of _ r] exI [of _ st'] exI [of _ m']) (simp add: sohash_room_def)
  qed
qed

definition table_with_5 :: sohash_table where
  "table_with_5 = snd (the (sohash_step (So_insert 5 50 0) (fresh_table (default_args True (\<lambda>_ _. False) True) [] 2)))"

text \<open>C15: a deletion that succeeds leaves the node it took out among the retired nodes, whatever the scan frees: the
  caller's last use of the entry, in the callback, is safe.  With the map, the table
  has one node less, and a node with the key that satisfies the callback.\<close>
theorem sohash_delete_retires:
  assumes "sohash_rep K uniq V st m" and "sohash_room st" and "mem_ok st" and "hits uniq V m k arg \<noteq> {}"
  shows "\<exists>st' c. sohash_delete_entry k arg st = Some (0, st') \<and> c \<in> hits uniq V m k arg \<and> sohash_rep K uniq V st' (m(c := None)) \<and>
    c \<in> retired (hp_list st') \<and> nodes st' c \<noteq> None"
proof (rule delete_entry_effect [OF assms(1-3), of k arg])
  fix err st' m' assume d: "sohash_delete_entry k arg st = Some (err, st')" "sohash_rep K uniq V st' m'"
    "err = 0 \<and> (\<exists>c\<in>hits uniq V m k arg. m' = m(c := None) \<and> c \<in> retired (hp_list st')) \<or> err = ENOENT \<and> hits uniq V m k arg = {} \<and> m' = m"
  then obtain c where c: "c \<in> hits uniq V m k arg" "m' = m(c := None)" "c \<in> retired (hp_list st')" "err = 0" using assms(4) by auto
  obtain xs where "store_ok (nodes st') (hp_list st') xs {} (kmem_next st')" using d(2) by (auto simp: sohash_rep_def rep_at_def sohash_inv_def)
  then have "c \<in> dom (nodes st')" using store_okD(1) c(3) by blast
  then show ?thesis using d c by (intro exI [of _ st'] exI [of _ c]) auto
qed

theorem sohash_delete_retires_witness:
  "\<exists>c st'. sohash_delete_entry 5 0 table_with_5 = Some (0, st') \<and> c \<in> retired (hp_list st') \<and> nodes st' c \<noteq> None"
proof -
  obtain m where "sohash_rep True True (\<lambda>_ _. False) table_with_5 m" "sohash_room table_with_5" "mem_ok table_with_5"
    "hits True (\<lambda>_ _. False) m 5 0 \<noteq> {}"
    using one_entry unfolding table_with_5_def by (elim exE conjE) (simp del: sohash_step.simps)
  from sohash_delete_retires [OF this] show ?thesis by blast
qed

text \<open>C16: the nodes of a bucket are found from its sentinel on whatever the size of the table: in the order of the bit-reversed keys the sentinel
  of the bucket of a key is in front of the key, and the sentinel of its parent in front of the sentinel.  Two
  keys are told apart by all but their highest bit.\<close>
theorem split_order:
  assumes "n \<le> 31"
  shows "sohash_sentinelkey (k mod 2 ^ n) < sohash_regularkey k \<and>
    (\<exists>p. unsetmsb hi = Some p \<and> (hi \<noteq> 0 \<longrightarrow> p < hi \<and> sohash_sentinelkey p < sohash_sentinelkey hi)) \<and>
    (sohash_regularkey k = sohash_regularkey k' \<longleftrightarrow> k AND mask 31 = k' AND mask 31)"
  using sentinel_before_key [OF assms] unsetmsb_total [of hi] unsetmsb_less [of hi] sentinel_parent_before [of hi]
    regularkey_eq_iff [of k k'] by (auto simp: key31_def)

theorem split_order_witness:
  "sohash_sentinelkey (13 mod 2 ^ 2) < sohash_regularkey 13 \<and> sohash_regularkey 5 = sohash_regularkey 0x80000005"
  using split_order [of 2 13 0 5] split_order [of 2 5 0 "0x80000005"] by (simp add: mask_eq_exp_minus_1)

text \<open>C38: the insertion sort of the keys of the hazard pointers sorts, and the binary search then finds exactly the keys that are
  there, for every list of keys.\<close>
theorem sohash_scan_lookup:
  "sohash_sort_arr ks = sort ks \<and> sohash_search_arr (sohash_sort_arr ks) k 0 (int (length ks) - 1) = (k \<in> set ks)"
  using sort_arr_sort search_sort_arr by blast

section \<open>Where the arrays end\<close>

text \<open>C40: a size other than the default that passes the check of the arguments is not used: the table gets size 0, and
  with memory to allocate the creation divides by it or writes outside of the array of segments.\<close>
theorem sohash_custom_sizes_unusable:
  assumes "\<not> init_args_bad (Some a)" and "list_all id oks" and "base \<noteq> NULL"
    and "arg_num_segments a = SOHASH_SET_SEG_DEFAULT \<or> SOHASH_MIN_SEG_COUNT \<le> arg_num_segments a"
    and "arg_segment_sz a = SOHASH_SET_SEG_DEFAULT \<or> SOHASH_MIN_SEG_SZ \<le> arg_segment_sz a"
    and "\<not> (arg_num_segments a = SOHASH_SET_SEG_DEFAULT \<and> arg_segment_sz a = SOHASH_SET_SEG_DEFAULT)"
  shows "sohash_init_hashtable (Some a) oks base = None"
proof -
  have l: "list_all id (tl oks)" "list_all id (tl (tl oks))" using assms(2) by (intro list_all_tl, assumption)+
  note step = init_hashtable_tail_def BZERO_table_def KMEM_ALLOC_all sohash_alloc_node_def sohash_set_bucket_def segment_of_def set_node_def
  have "init_hashtable_tail 0 z a oks base = None" for z using assms(2,3) l by (simp add: step Let_def)
  moreover have "init_hashtable_tail n 0 a oks base = None" for n using assms(2,3) l by (simp add: step Let_def)
  ultimately show ?thesis using assms(1,4-6) by (auto simp: sohash_init_hashtable_def Let_def)
qed

theorem sohash_custom_sizes_unusable_witness:
  "sohash_init_hashtable (Some ((default_args True (\<lambda>_ _. False) True)\<lparr>arg_segment_sz := 1021\<rparr>)) [] 2 = None"
  by (rule sohash_custom_sizes_unusable) (simp_all add: default_args_def init_args_bad_def NULL_def sohash_consts)

lemma hp_get_sizes:
  assumes "mem_ok st"
  obtains i st' where "sohash_hp_get st = ((0, i), st')" "sohash_num_segments st' = sohash_num_segments st"
    "sohash_segment_sz st' = sohash_segment_sz st" "sohash_current_size st' = sohash_current_size st"
proof (cases "hp_walk (length (hp_list st)) (hp_list st)")
  case None
  then show ?thesis using assms by (intro that [of "length (hp_list st)" "snd (sohash_hp_get st)"]) (auto simp: sohash_hp_get_def mem_ok_def KMEM_ALLOC_all)
next
  case (Some i)
  then show ?thesis by (intro that [of i "snd (sohash_hp_get st)"]) (auto simp: sohash_hp_get_def set_hp_def)
qed

text \<open>C39: nothing bounds the growth of the table: the insertion that brings the count of the keys of a table of 131072
  buckets to 262144 doubles it to 262144 buckets, and the segments have only 511 times 511; looking up a
  key whose bucket is one past the last uses a segment outside of the array.\<close>
theorem sohash_grows_past_its_segments:
  assumes "hash_state st = SOHASH_STATE_ACTIVE" and "sohash_num_segments st = SOHASH_DEFAULT_SEG_COUNT"
    and "sohash_segment_sz st = SOHASH_DEFAULT_SEG_SZ" and "sohash_current_size st = 131072"
    and "sohash_regularkey_count st = 262143" and "mem_ok st"
  shows "sohash_current_size (grow_size st) = 262144 \<and> sohash_find_entry 261121 arg (grow_size st) = None"
proof -
  have w: "wrap32 262144 = 262144" by (rule wrap32_id) simp_all
  let ?st = "grow_size st"
  have g: "?st = st\<lparr>sohash_regularkey_count := 262144, sohash_current_size := 262144\<rparr>"
    using assms(4,5) by (simp add: grow_size_def w SOHASH_MAX_LOAD_def Let_def)
  have f: "hash_state ?st = SOHASH_STATE_ACTIVE" "sohash_num_segments ?st = 511" "sohash_segment_sz ?st = 511"
    "sohash_current_size ?st = 262144" "mem_ok ?st" using assms(1-3,6) by (simp_all add: g sohash_consts mem_ok_def)
  obtain i st' where h: "sohash_hp_get ?st = ((0, i), st')" "sohash_num_segments st' = 511" "sohash_segment_sz st' = 511"
    "sohash_current_size st' = 262144" by (rule hp_get_sizes [OF f(5)]) (simp add: f)
  have "hashindex_of st' 261121 = Some 261121" using h(4) by (simp add: hashindex_of_def)
  moreover have "segment_of st' 261121 = None" using h(2,3) by (simp add: segment_of_def Let_def)
  ultimately have "sohash_find_entry 261121 arg ?st = None"
    using f(1) h(1) by (simp add: sohash_find_entry_def bucket_for_def sohash_get_bucket_def)
  then show ?thesis using f(4) by simp
qed

theorem sohash_grows_past_its_segments_witness:
  "sohash_find_entry 261121 0 (grow_size ((fresh_table (default_args True (\<lambda>_ _. False) True) [] 2)
     \<lparr>sohash_current_size := 131072, sohash_regularkey_count := 262143\<rparr>)) = None"
  by (rule conjunct2 [OF sohash_grows_past_its_segments]) (simp_all add: fresh_table_def sohash_consts mem_ok_def)

end
