(* ===== verification/Spec2Isabelle.thy ===== *)
theory Spec2Isabelle
  imports Mvfs_Access Mvfs_Rdc Xdr_View_Reply Mvfs_Dnc_Props Mvfs_Names Mvfs_Sohash_Props
begin

text \<open>The multiversion file system (MVFS) kernel module presents the versioned objects of a VOB, as a view
  selects them, as an ordinary file system.  Its parts and their interplay:

  \<^item> vnode operations (mvfs\_vnodeops.c) serve the host; they work on mnodes (mvfs\_mnode.c), which cache
    the attributes of objects, and on the caches below;
  \<^item> the caches hold what a view server has told: the directory name cache (mvfs\_dncops.c), the directory
    block cache (mvfs\_rdc.c) and the cache of effective access control lists (mvfs\_acl.c), which the
    access check uses;
  \<^item> the client (mvfs\_clnt.c) asks the view server over RPC; its messages are encoded and decoded by the XDR
    routines (xdr\_view\_kernel.c, xdr\_tbs\_kernel.c, xdr\_ks\_kernel.c, tbs\_acl\_c\_xdr\_kernel.c,
    xdr\_albd\_kernel.c);
  \<^item> utilities: status codes (tbs\_errno.c), security identifiers (credutl\_kernel.c), access control lists
    (tbs\_acl\_kernel.c), names, string buffers and attributes (mvfs\_utils.c).

  The theories, and the code each translates:

  \<^item> Mvfs\_Prelude: shared types, errno values, big endian words, the theorem collections.
  \<^item> Tbs\_Errno: tbs\_errno.c.  The two translations are inverse on the portable values; no failure becomes
    success.
  \<^item> Credutl: credutl\_kernel.c and the wrappers of mvfs\_utils.c.  SIDs of Unix ids, their comparison.
  \<^item> Mvfs\_Xdr: the XDR primitives (mvfs\_mdep\_linux.c, mvfs\_linux\_glue.c).  A stream is the bytes written, the
    room left and the bytes to read.  The locale \<open>codec\<close> is the contract of a routine: what it encodes it
    decodes to the same value with nothing behind it consumed, and it fails when room or bytes are
    short.  Xdr\_Tbs, Xdr\_View, Xdr\_View\_Reply, Xdr\_Readdir and Tbs\_Acl\_Xdr interpret it on the routines of the
    protocol; a directory reply stays inside the caller's buffer whatever its bytes are.
  \<^item> Tbs\_Acl: tbs\_acl\_kernel.c, the permission check as a decision over the entries that apply.
  \<^item> Mvfs\_Dlist: the ring macros (mvfs\_base.h, mvfs\_dncops.c) on an explicit store of links, refined to lists.
  \<^item> Mvfs\_Eacl: the cache of access control lists (mvfs\_acl.c, \<open>mvfs_clnt_get_eacl_mnp\<close>).  Hash table, reference
    counts and the fetch of a list in blocks; the invariant of every reachable state; what the fetch
    reassembles.
  \<^item> Mvfs\_Access: \<open>mvfs_chkaccess\<close>; its decision on every branch and end to end against the server's list.
  \<^item> Mvfs\_Rdc: mvfs\_rdc.c with the read of a VOB directory; every block is the server's, and no block is
    lost except where the array of the cache cannot be allocated.
  \<^item> Mvfs\_Names: mvfs\_utils.c and \<open>mfs_getleaf_ansi\<close>.
  \<^item> Mvfs\_Dnc: mvfs\_dncops.c, mvfs\_dnc.h and \<open>mfs_evtime_valid\<close>.  Mvfs\_Dnc\_Inv has the invariant and brings every
    operation to two net effects, Mvfs\_Dnc\_Spec what the cache holds, Mvfs\_Dnc\_Ops each operation's effect on
    both, Mvfs\_Dnc\_Steps the calls as a step relation and the locale \<open>lossy_cache\<close> with its interpretation,
    Mvfs\_Dnc\_Props the properties.
  \<^item> Mvfs\_Sohash: the split ordered hash table (mvfs\_sohash\_table.c, mvfs\_sohash\_table.h) of the
    thread records, on a store of nodes: keys and their bits, hazard references, the list, the buckets, the
    operations of the interface.  Mvfs\_Sohash\_Inv has the invariant (one sorted list, buckets that point at its
    sentinels, the retired nodes of every hazard reference, the store), Mvfs\_Sohash\_Ops the find, the insertion and
    the scan of the retired nodes on such states, Mvfs\_Sohash\_Steps the deletion, Mvfs\_Sohash\_Buckets the
    initialisation of buckets, Mvfs\_Sohash\_Map the operations as those of a map of entries, Mvfs\_Sohash\_Cleanup
    the tear down, which takes the one list apart, Mvfs\_Sohash\_Props the properties.

  Conventions.  A structure is a record, an array a list, a pointer to a shared object an address or an
  index; NULL is 0.  C integers are words of their width.  Failing routines return their errno beside the new
  state; \<open>XFalse\<close> is the failure of an XDR routine.  Code outside of the sources (the view server, the
  kernel's copy routines, allocation) is a parameter, with what is relied on as a hypothesis.

  Bounds.  A fetch of a list stops after the 100 blocks of the code and restarts once; both are in the
  model as in the code, so no fuel is added.  The release loop of tbs\_acl\_c\_xdr\_kernel.c that does not end
  is \<open>XHang\<close>.  All other loops are total functions; the search for the size of the name cache's hash table
  is proved to end because there is always a next prime.  The loops of the split ordered hash table are partial
  functions into an option, where \<open>None\<close> is a panic, a wild access or a loop without end, and the properties state
  that they return; their bound of 262143 operations is where the growth of the table reaches
  the end of its segments, which is a property of its own.

  Abstractions.  Locks are left out: an operation of a cache is one step, so interleavings are those of
  whole operations, and what the code does only when two threads race for one entry does not occur.
  An operation of the split ordered hash table runs alone, so its compare-and-swaps succeed; the retries are in
  the model.  The chains and LRU rings of the name cache are lists of indices, which Mvfs\_Dlist justifies for the ring
  macros; the links there carry no hash value, which \<open>dnc_rmhash\<close> resets in the model of the cache.  A lookup in
  the name cache is the case-sensitive one, and the copy of a long name is allocated.  A read of a directory starts
  behind the check of the offset against the largest size of a directory and the binding of a root version.
  A table that cannot be created is NULL; what its failing paths free is not recorded.  Per view statistics, logging and debug output are left out.

  Not modelled: the interleavings of threads inside an operation of the split ordered hash table; mnode life cycle and the vnode operations other than the ones named above, which depend
  on the host's locking and VM; RPC transport, cleartext files, auditing, processes and view
  directories, the ioctl copying and the Linux adapters, which are I/O or glue.\<close>

section \<open>Messages of the view protocol\<close>

text \<open>C27: the reply to a lookup is carried faithfully: what the view server encodes is decoded to the same
  reply, with nothing of the stream behind it consumed; after an error status only the header
  and the name state are carried and the rest of the receiver's structure stays as it was.\<close>
theorem lookup_reply_roundtrip:
  assumes "ok_view_lookup_reply v" and "length (wire_view_lookup_reply v) \<le> n"
  shows "\<exists>x. xdr_view_lookup_reply_t \<lparr>x_op = XDR_ENCODE, x_put = [], x_room = n, x_get = []\<rparr> v = XTrue v x \<and>
    xdr_view_lookup_reply_t \<lparr>x_op = XDR_DECODE, x_put = [], x_room = 0, x_get = x_put x @ r\<rparr> v0 =
      XTrue (if hr_status (lr_hdr v) \<noteq> 0 then v0\<lparr>lr_hdr := lr_hdr v, lr_name_state := lr_name_state v\<rparr>
             else v\<lparr>lr_vstat := view_vstat_canon (lr_vstat v)\<rparr>)
        \<lparr>x_op = XDR_DECODE, x_put = [], x_room = 0, x_get = r\<rparr>"
  using view_lookup_reply_c.roundtrip [OF assms, of r v0] by (simp add: view_lookup_reply_merge_def)

text \<open>Small messages for the examples below.\<close>
definition fhandle_example :: view_fhandle_t where
  "fhandle_example = \<lparr>fh_vob_uuid = TBS_UUID_NULL, fh_ver_dbid = 1, fh_elem_dbid = 2, fh_gen = 3, fh_flags = 0, fh_pad0 = 0\<rparr>"

definition fstat_example :: tbs_fstat_db_t where
  "fstat_example = \<lparr>fs_type = 1, fs_mode = 0x1A4, fs_nlink = 1, fs_flags = 0, fs_usid = CREDUTL_SID_NOBODY,
     fs_gsid = CREDUTL_SID_NOBODY, fs_size = 0x123456789A, fs_nodeid = 5, fs_xtime = timeval_zero,
     fs_atime = timeval_zero, fs_mtime = timeval_zero, fs_ctime = timeval_zero\<rparr>"

definition vstat_example :: view_vstat_t where
  "vstat_example = \<lparr>vs_fstat = fstat_example, vs_mtype = 1, vs_elem_oid = TBS_UUID_NULL, vs_obj_oid = TBS_UUID_NULL,
     vs_event_time = timeval_zero, vs_rolemap_oid = TBS_UUID_NULL, vs_eacl_mtime = timeval_zero\<rparr>"

definition lookup_reply_example :: view_lookup_reply_t where
  "lookup_reply_example = \<lparr>lr_hdr = \<lparr>hr_xid = 9, hr_status = 0\<rparr>, lr_name_state = 0, lr_fhandle = fhandle_example,
     lr_vstat = vstat_example, lr_residual_resolved = 0, lr_bh_invariant = 1, lr_lvut = timeval_zero\<rparr>"

definition getattr_reply_example :: view_getattr_reply_t where
  "getattr_reply_example = \<lparr>gr_hdr = \<lparr>hr_xid = 9, hr_status = 0\<rparr>, gr_fhandle = fhandle_example,
     gr_vstat = vstat_example, gr_name_state = 0, gr_bh_invariant = 1, gr_lvut = timeval_zero\<rparr>"

theorem lookup_reply_roundtrip_witness:
  "\<exists>x. xdr_view_lookup_reply_t \<lparr>x_op = XDR_ENCODE, x_put = [], x_room = 1000, x_get = []\<rparr> lookup_reply_example
      = XTrue lookup_reply_example x \<and>
    xdr_view_lookup_reply_t \<lparr>x_op = XDR_DECODE, x_put = [], x_room = 0, x_get = x_put x @ [1]\<rparr> lookup_reply_example =
      XTrue (lookup_reply_example\<lparr>lr_vstat := view_vstat_canon vstat_example\<rparr>)
        \<lparr>x_op = XDR_DECODE, x_put = [], x_room = 0, x_get = [1]\<rparr>"
proof -
  have "ok_view_lookup_reply lookup_reply_example" "length (wire_view_lookup_reply lookup_reply_example) \<le> 1000"
    by code_simp+
  from lookup_reply_roundtrip [OF this, of "[1]" lookup_reply_example] show ?thesis
    by (simp add: lookup_reply_example_def)
qed

text \<open>C26: the reply to a request for attributes is carried faithfully.  Unlike the other replies it has three forms:
  everything after success, the name state alone when access was denied, and the bare header after
  any other error.\<close>
theorem getattr_reply_roundtrip:
  assumes "ok_view_getattr_reply v" and "length (wire_view_getattr_reply v) \<le> n"
  shows "\<exists>x. xdr_view_getattr_reply_t \<lparr>x_op = XDR_ENCODE, x_put = [], x_room = n, x_get = []\<rparr> v = XTrue v x \<and>
    xdr_view_getattr_reply_t \<lparr>x_op = XDR_DECODE, x_put = [], x_room = 0, x_get = x_put x @ r\<rparr> v0 =
      XTrue (if sint (hr_status (gr_hdr v)) = TBS_ST_OK then v\<lparr>gr_vstat := view_vstat_canon (gr_vstat v)\<rparr>
             else if sint (hr_status (gr_hdr v)) = TBS_ST_EACCES
             then v0\<lparr>gr_hdr := gr_hdr v, gr_name_state := gr_name_state v\<rparr>
             else v0\<lparr>gr_hdr := gr_hdr v\<rparr>)
        \<lparr>x_op = XDR_DECODE, x_put = [], x_room = 0, x_get = r\<rparr>"
  using view_getattr_reply_c.roundtrip [OF assms, of r v0] unfolding view_getattr_reply_merge_def .

theorem getattr_reply_roundtrip_witness:
  "\<exists>x. xdr_view_getattr_reply_t \<lparr>x_op = XDR_ENCODE, x_put = [], x_room = 1000, x_get = []\<rparr> getattr_reply_example
      = XTrue getattr_reply_example x \<and>
    xdr_view_getattr_reply_t \<lparr>x_op = XDR_DECODE, x_put = [], x_room = 0, x_get = x_put x @ [1]\<rparr> getattr_reply_example =
      XTrue (getattr_reply_example\<lparr>gr_vstat := view_vstat_canon vstat_example\<rparr>)
        \<lparr>x_op = XDR_DECODE, x_put = [], x_room = 0, x_get = [1]\<rparr>"
proof -
  have "ok_view_getattr_reply getattr_reply_example" "length (wire_view_getattr_reply getattr_reply_example) \<le> 1000"
    by code_simp+
  from getattr_reply_roundtrip [OF this, of "[1]" getattr_reply_example] show ?thesis
    by (simp add: getattr_reply_example_def TBS_ST_OK_def)
qed

section \<open>Old servers and access\<close>

text \<open>An object that a server of the previous protocol version describes is under mode bit
  protection: its converted reply has the null rolemap, so the check of a caller other than root
  looks at the mode bits and nothing else.\<close>
lemma v8_object_uses_modebits:
  assumes "\<not> MDKI_CR_IS_ROOT cred"
    and "mn_rolemap_oid mn = vs_rolemap_oid (lr_vstat (VIEW_LOOKUP_V8_TO_VIEW_LOOKUP reply))"
  shows "mvfs_chkaccess rpc clock is_dir mn mode vuid vgid vmode cred st
    = Some (mvfs_chkaccess_modebits mode vuid vgid vmode cred, st)"
proof (rule chkaccess_modebits [OF assms(1)])
  show "\<not> has_rolemap mn"
    using assms(2) by (simp add: has_rolemap_def MFS_OIDNULL_def VIEW_LOOKUP_V8_TO_VIEW_LOOKUP_def
        VIEW_VSTAT_V8_TO_VIEW_VSTAT_def TBS_UUID_NULL_def)
qed

definition lookup_v8_example :: view_lookup_v8_reply_t where
  "lookup_v8_example = \<lparr>lr8_hdr = \<lparr>hr_xid = 9, hr_status = 0\<rparr>, lr8_name_state = 0, lr8_fhandle = fhandle_example,
     lr8_vstat = \<lparr>v8_fstat = fstat_example, v8_mtype = 1, v8_elem_oid = TBS_UUID_NULL, v8_obj_oid = TBS_UUID_NULL,
       v8_event_time = timeval_zero\<rparr>, lr8_residual_resolved = 0, lr8_bh_invariant = 1, lr8_lvut = timeval_zero\<rparr>"

lemma v8_object_uses_modebits_witness:
  "mvfs_chkaccess (eacl_block_server 1 [] timeval_zero TBS_UUID_NULL) (\<lambda>_. 0) True
     (mnode_example\<lparr>mn_rolemap_oid := vs_rolemap_oid (lr_vstat (VIEW_LOOKUP_V8_TO_VIEW_LOOKUP lookup_v8_example))\<rparr>)
     VREAD 7 0 0x100 cred_example (snd cached_example)
   = Some (mvfs_chkaccess_modebits VREAD 7 0 0x100 cred_example, snd cached_example)"
  by (rule v8_object_uses_modebits) (use stale_example in simp_all)

end
